(* ===== verification/Go_Prelude.thy ===== *)
theory Go_Prelude
  imports Main "HOL-Library.Word" "HOL-Library.AList" "HOL-Library.Multiset"
begin

text \<open>
  What the components share: the names of the machine types, the two things Go leaves open that
  the sources rely on (the order in which \<^verbatim>\<open>range\<close> visits a map, and the value
  \<^verbatim>\<open>math/rand\<close> returns), Go maps as association lists, and generic lemmas on lists.

  An unspecified choice is an explicit argument, a list of naturals called the seed. Every seed
  gives a permutation (\<open>mset_go_order\<close>) and every permutation is given by a seed
  (\<open>go_order_complete\<close>), so a statement for all seeds is a statement for all orders.
\<close>

type_synonym byte = "8 word"
type_synonym bytes = "byte list"
type_synonym u64 = "64 word"
type_synonym seed = "nat list"

named_theorems go_simps

subsection \<open>Unspecified iteration order\<close>

fun go_order :: "seed \<Rightarrow> 'a list \<Rightarrow> 'a list" where
  "go_order [] xs = xs"
| "go_order (s # sd) [] = []"
| "go_order (s # sd) (x # xs) =
     (let ys = x # xs; i = s mod length ys
      in ys ! i # go_order sd (take i ys @ drop (Suc i) ys))"

lemma mset_take_drop_nth:
  assumes "i < length xs"
  shows "add_mset (xs ! i) (mset (take i xs @ drop (Suc i) xs)) = mset xs"
proof -
  have "xs = take i xs @ xs ! i # drop (Suc i) xs"
    using assms by (rule id_take_nth_drop)
  then have "mset xs = mset (take i xs @ xs ! i # drop (Suc i) xs)"
    by (rule arg_cong)
  then show ?thesis by simp
qed

lemma mset_go_order [simp]: "mset (go_order sd xs) = mset xs"
proof (induction sd xs rule: go_order.induct)
  case (3 s sd x xs)
  let ?ys = "x # xs"
  let ?i = "s mod length ?ys"
  have "?i < length ?ys" by simp
  with 3 [OF refl refl] show ?case
    by (simp only: go_order.simps Let_def mset.simps mset_take_drop_nth)
qed simp_all

lemma set_go_order [simp]: "set (go_order sd xs) = set xs"
  by (metis mset_go_order set_mset_mset)

lemma length_go_order [simp]: "length (go_order sd xs) = length xs"
  by (metis mset_go_order size_mset)

lemma distinct_go_order [simp]: "distinct (go_order sd xs) = distinct xs"
  by (metis mset_go_order mset_eq_imp_distinct_iff)

lemma go_order_complete: "mset ys = mset xs \<Longrightarrow> \<exists>sd. go_order sd xs = ys"
proof (induction ys arbitrary: xs)
  case Nil
  then have "go_order [] xs = []" by simp
  then show ?case by blast
next
  case (Cons y ys)
  from Cons.prems have "y \<in> set xs"
    by (metis list.set_intros(1) set_mset_mset)
  then obtain i where i: "i < length xs" "xs ! i = y"
    by (auto simp: in_set_conv_nth)
  have "mset ys = mset (take i xs @ drop (Suc i) xs)"
    using Cons.prems mset_take_drop_nth [OF i(1)] i(2) by (metis add_mset_add_mset_same_iff mset.simps(2))
  then obtain sd where "go_order sd (take i xs @ drop (Suc i) xs) = ys"
    using Cons.IH by blast
  with i have "go_order (i # sd) xs = y # ys"
    by (cases xs) (simp_all add: Let_def)
  then show ?case by blast
qed

subsection \<open>Go maps\<close>

text \<open>
  A Go map is an association list with distinct keys. Only \<open>gomap_range\<close> exposes the order,
  and it permutes it by the seed, as Go does.
\<close>

type_synonym ('k, 'v) gomap = "('k \<times> 'v) list"

definition gomap_ok :: "('k, 'v) gomap \<Rightarrow> bool" where
  "gomap_ok m = distinct (map fst m)"

definition gomap_get :: "('k, 'v) gomap \<Rightarrow> 'k \<Rightarrow> 'v option" where
  "gomap_get m k = map_of m k"

definition gomap_has :: "('k, 'v) gomap \<Rightarrow> 'k \<Rightarrow> bool" where
  "gomap_has m k = (gomap_get m k \<noteq> None)"

definition gomap_set :: "'k \<Rightarrow> 'v \<Rightarrow> ('k, 'v) gomap \<Rightarrow> ('k, 'v) gomap" where
  "gomap_set k v m = AList.update k v m"

definition gomap_del :: "'k \<Rightarrow> ('k, 'v) gomap \<Rightarrow> ('k, 'v) gomap" where
  "gomap_del k m = AList.delete k m"

definition gomap_len :: "('k, 'v) gomap \<Rightarrow> nat" where
  "gomap_len m = length m"

definition gomap_range :: "seed \<Rightarrow> ('k, 'v) gomap \<Rightarrow> ('k \<times> 'v) list" where
  "gomap_range sd m = go_order sd m"

definition gomap_keys :: "('k, 'v) gomap \<Rightarrow> 'k set" where
  "gomap_keys m = fst ` set m"

lemma gomap_ok_empty [simp]: "gomap_ok []"
  by (simp add: gomap_ok_def)

lemma gomap_ok_set [simp]: "gomap_ok m \<Longrightarrow> gomap_ok (gomap_set k v m)"
  by (simp add: gomap_ok_def gomap_set_def distinct_update)

lemma gomap_ok_del [simp]: "gomap_ok m \<Longrightarrow> gomap_ok (gomap_del k m)"
  by (simp add: gomap_ok_def gomap_del_def distinct_delete)

lemma gomap_get_empty [simp]: "gomap_get [] k = None"
  by (simp add: gomap_get_def)

lemma gomap_get_set [simp]: "gomap_get (gomap_set k v m) k' = (if k' = k then Some v else gomap_get m k')"
  by (simp add: gomap_get_def gomap_set_def update_conv)

lemma gomap_get_del [simp]: "gomap_get (gomap_del k m) k' = (if k' = k then None else gomap_get m k')"
  by (simp add: gomap_get_def gomap_del_def delete_conv)

lemma gomap_keys_get: "k \<in> gomap_keys m \<longleftrightarrow> gomap_get m k \<noteq> None"
  by (simp add: gomap_keys_def gomap_get_def map_of_eq_None_iff)

lemma gomap_keys_empty [simp]: "gomap_keys [] = {}"
  by (simp add: gomap_keys_def)

lemma gomap_keys_set [simp]: "gomap_keys (gomap_set k v m) = insert k (gomap_keys m)"
  by (auto simp: gomap_keys_get split: if_splits)

lemma gomap_keys_del [simp]: "gomap_keys (gomap_del k m) = gomap_keys m - {k}"
  by (auto simp: gomap_keys_get split: if_splits)

lemma finite_gomap_keys [simp]: "finite (gomap_keys m)"
  by (simp add: gomap_keys_def)

lemma gomap_len_card: "gomap_ok m \<Longrightarrow> gomap_len m = card (gomap_keys m)"
  unfolding gomap_ok_def gomap_len_def gomap_keys_def
  by (metis distinct_card length_map set_map)

lemma gomap_range_mem:
  "gomap_ok m \<Longrightarrow> (k, v) \<in> set (gomap_range sd m) \<longleftrightarrow> gomap_get m k = Some v"
  by (auto simp: gomap_range_def gomap_get_def gomap_ok_def)

lemma gomap_has_keys: "gomap_has m k \<longleftrightarrow> k \<in> gomap_keys m"
  by (simp add: gomap_has_def gomap_keys_get)

lemma distinct_fst_range [simp]: "gomap_ok m \<Longrightarrow> distinct (map fst (gomap_range sd m))"
  unfolding gomap_range_def gomap_ok_def
  by (metis mset_eq_imp_distinct_iff mset_go_order mset_map)

lemma mset_gomap_range [simp]: "mset (gomap_range sd m) = mset m"
  by (simp add: gomap_range_def)

subsection \<open>Outcomes of a Go call\<close>

text \<open>
  A call returns, blocks for ever on a channel or a lock no one will serve, or panics.
\<close>

datatype 'a go = Ret 'a | Blocked | Panicked

primrec go_bind :: "'a go \<Rightarrow> ('a \<Rightarrow> 'b go) \<Rightarrow> 'b go" where
  "go_bind (Ret x) f = f x"
| "go_bind Blocked f = Blocked"
| "go_bind Panicked f = Panicked"

lemma go_bind_eq_Ret [go_simps]: "go_bind m f = Ret y \<longleftrightarrow> (\<exists>x. m = Ret x \<and> f x = Ret y)"
  by (cases m) auto

lemma go_bind_assoc: "go_bind (go_bind m f) g = go_bind m (\<lambda>x. go_bind (f x) g)"
  by (cases m) simp_all

lemma go_bind_cong [fundef_cong]: "m = m' \<Longrightarrow> (\<And>x. m' = Ret x \<Longrightarrow> f x = g x) \<Longrightarrow> go_bind m f = go_bind m' g"
  by (cases m') auto

lemma go_bind_Ret [simp]: "go_bind m Ret = m"
  by (cases m) simp_all

text \<open>Loops over a slice: with a result for each element, and with a state.\<close>

primrec go_map :: "('a \<Rightarrow> 'b go) \<Rightarrow> 'a list \<Rightarrow> 'b list go" where
  "go_map f [] = Ret []"
| "go_map f (x # xs) = go_bind (f x) (\<lambda>y. go_bind (go_map f xs) (\<lambda>ys. Ret (y # ys)))"

primrec go_fold :: "('a \<Rightarrow> 's \<Rightarrow> 's go) \<Rightarrow> 'a list \<Rightarrow> 's \<Rightarrow> 's go" where
  "go_fold f [] s = Ret s"
| "go_fold f (x # xs) s = go_bind (f x s) (go_fold f xs)"

lemma go_map_cong [fundef_cong]: "xs = ys \<Longrightarrow> (\<And>x. x \<in> set ys \<Longrightarrow> f x = g x) \<Longrightarrow> go_map f xs = go_map g ys"
  by (induction ys arbitrary: xs) auto

lemma go_fold_cong [fundef_cong]:
  "xs = ys \<Longrightarrow> s = t \<Longrightarrow> (\<And>x s. x \<in> set ys \<Longrightarrow> f x s = g x s) \<Longrightarrow> go_fold f xs s = go_fold g ys t"
  by (induction ys arbitrary: xs s t) (auto intro!: go_bind_cong)

lemma go_map_eq_Ret [go_simps]: "go_map f xs = Ret ys \<longleftrightarrow> list_all2 (\<lambda>x y. f x = Ret y) xs ys"
  by (induction xs arbitrary: ys) (auto simp: go_bind_eq_Ret list_all2_Cons1)

lemma go_map_Ret: "(\<And>x. x \<in> set xs \<Longrightarrow> f x = Ret (g x)) \<Longrightarrow> go_map f xs = Ret (map g xs)"
  by (induction xs) simp_all

lemma go_fold_append: "go_fold f (xs @ ys) s = go_bind (go_fold f xs s) (go_fold f ys)"
proof (induction xs arbitrary: s)
  case (Cons x xs)
  then show ?case by (cases "f x s") simp_all
qed simp

lemma go_fold_inv:
  assumes "\<And>x s. x \<in> set xs \<Longrightarrow> I s \<Longrightarrow> \<exists>s'. f x s = Ret s' \<and> I s'" "I s"
  shows "\<exists>s'. go_fold f xs s = Ret s' \<and> I s'"
  using assms
proof (induction xs arbitrary: s)
  case (Cons x xs)
  from Cons.prems(1) [of x s] Cons.prems(2) obtain s' where s': "f x s = Ret s'" "I s'" by auto
  from Cons.IH [OF _ s'(2)] Cons.prems(1) have "\<exists>s''. go_fold f xs s' = Ret s'' \<and> I s''" by auto
  with s'(1) show ?case by simp
qed simp

text \<open>A send on a channel with a buffer of \<open>cap\<close> elements that no one else is serving.\<close>

definition chan_send :: "nat \<Rightarrow> 'a list \<Rightarrow> 'a \<Rightarrow> 'a list go" where
  "chan_send cap buf x = (if length buf < cap then Ret (buf @ [x]) else Blocked)"

text \<open>Decimal formatting, as \<^verbatim>\<open>fmt\<close> prints \<^verbatim>\<open>%d\<close>.\<close>

definition digit_char :: "nat \<Rightarrow> char" where
  "digit_char d = char_of (48 + d)"

fun fmt_nat :: "nat \<Rightarrow> string" where
  "fmt_nat n = (if n < 10 then [digit_char n] else fmt_nat (n div 10) @ [digit_char (n mod 10)])"

declare fmt_nat.simps [simp del]

definition fmt_int :: "int \<Rightarrow> string" where
  "fmt_int z = (if z < 0 then CHR ''-'' # fmt_nat (nat (- z)) else fmt_nat (nat z))"

fun val_of :: "nat \<Rightarrow> string \<Rightarrow> nat" where
  "val_of acc [] = acc"
| "val_of acc (c # cs) = val_of (10 * acc + (of_char c - 48)) cs"

lemma of_char_digit: "d < 10 \<Longrightarrow> of_char (digit_char d) = 48 + d"
  by (simp add: digit_char_def)

lemma val_of_append: "val_of acc (xs @ [c]) = 10 * val_of acc xs + (of_char c - 48)"
  by (induction xs arbitrary: acc) simp_all

lemma val_of_fmt_nat: "val_of 0 (fmt_nat n) = n"
proof (induction n rule: fmt_nat.induct)
  case (1 n)
  then show ?case
    by (cases "n < 10") (simp_all add: fmt_nat.simps [of n] of_char_digit val_of_append)
qed

lemma fmt_nat_inj: "fmt_nat m = fmt_nat n \<longleftrightarrow> m = n"
  by (metis val_of_fmt_nat)

lemma fmt_nat_digits: "c \<in> set (fmt_nat n) \<Longrightarrow> \<exists>d<10. c = digit_char d"
proof (induction n rule: fmt_nat.induct)
  case (1 n)
  have "n mod 10 < 10" by simp
  with 1 show ?case
    by (cases "n < 10") (auto simp: fmt_nat.simps [of n] simp del: mod_less_divisor)
qed

lemma fmt_nat_not_nil [simp]: "fmt_nat n \<noteq> []"
  by (simp add: fmt_nat.simps [of n])

lemma digit_char_neq:
  "d < 10 \<Longrightarrow> digit_char d \<noteq> CHR ''-''" "d < 10 \<Longrightarrow> digit_char d \<noteq> CHR '':''"
  using of_char_digit [of d] by force+

lemma fmt_int_no_colon: "CHR '':'' \<notin> set (fmt_int z)"
  by (auto simp: fmt_int_def dest!: fmt_nat_digits dest: digit_char_neq)

lemma fmt_int_inj: "fmt_int a = fmt_int b \<longleftrightarrow> a = b"
proof -
  have "hd (fmt_nat n) \<noteq> CHR ''-''" for n
    using fmt_nat_digits [of "hd (fmt_nat n)" n] digit_char_neq(1) by (metis fmt_nat_not_nil hd_in_set)
  then have "CHR ''-'' # xs \<noteq> fmt_nat n" for xs n by (metis list.sel(1))
  then show ?thesis
    by (auto simp: fmt_int_def fmt_nat_inj) (metis)+
qed

lemma split_last_sep:
  assumes "xs @ c # ys = xs' @ c # ys'" "c \<notin> set ys" "c \<notin> set ys'"
  shows "xs = xs' \<and> ys = ys'"
  using assms by (induction xs arbitrary: xs') (auto simp: Cons_eq_append_conv append_eq_Cons_conv)

subsection \<open>String order\<close>

fun str_less :: "bytes \<Rightarrow> bytes \<Rightarrow> bool" where
  "str_less a [] = False"
| "str_less [] (y # ys) = True"
| "str_less (x # xs) (y # ys) = (x < y \<or> x = y \<and> str_less xs ys)"

lemma str_less_irrefl [simp]: "\<not> str_less a a"
  by (induction a) auto

lemma str_less_trans: "str_less a b \<Longrightarrow> str_less b c \<Longrightarrow> str_less a c"
proof (induction a b arbitrary: c rule: str_less.induct)
  case (2 y ys)
  then show ?case by (cases c) auto
next
  case (3 x xs y ys)
  then show ?case by (cases c) auto
qed simp

lemma str_less_linear: "str_less a b \<or> a = b \<or> str_less b a"
proof (induction a b rule: str_less.induct)
  case (1 a)
  then show ?case by (cases a) simp_all
qed auto

lemma str_less_asym: "str_less a b \<Longrightarrow> \<not> str_less b a"
  using str_less_trans str_less_irrefl by blast

text \<open>\<^verbatim>\<open>sort.Strings\<close>; the result does not depend on the algorithm.\<close>

primrec str_insort :: "bytes \<Rightarrow> bytes list \<Rightarrow> bytes list" where
  "str_insort x [] = [x]"
| "str_insort x (y # ys) = (if str_less y x then y # str_insort x ys else x # y # ys)"

definition sort_Strings :: "bytes list \<Rightarrow> bytes list" where
  "sort_Strings xs = foldr str_insort xs []"

lemma mset_sort_Strings [simp]: "mset (sort_Strings xs) = mset xs"
proof -
  have "mset (str_insort x ys) = add_mset x (mset ys)" for x ys by (induction ys) simp_all
  then show ?thesis by (induction xs) (simp_all add: sort_Strings_def)
qed

lemma set_sort_Strings [simp]: "set (sort_Strings xs) = set xs"
  by (metis mset_sort_Strings set_mset_mset)

lemma sorted_sort_Strings: "distinct xs \<Longrightarrow> sorted_wrt str_less (sort_Strings xs)"
proof (induction xs)
  case (Cons x xs)
  have "set (str_insort x ys) = insert x (set ys)" for ys by (induction ys) auto
  then have "sorted_wrt str_less ys \<Longrightarrow> x \<notin> set ys \<Longrightarrow> sorted_wrt str_less (str_insort x ys)" for ys
    by (induction ys) (use str_less_linear str_less_trans in fastforce)+
  moreover have "sorted_wrt str_less (sort_Strings xs)" "x \<notin> set (sort_Strings xs)" using Cons by simp_all
  ultimately show ?case by (simp add: sort_Strings_def)
qed (simp add: sort_Strings_def)

subsection \<open>Machine integers\<close>

lemma sint_word_of_int_in_range:
  assumes "- (2 ^ (LENGTH('a) - Suc 0)) \<le> k" "k < 2 ^ (LENGTH('a) - Suc 0)"
  shows "sint (word_of_int k :: 'a::len word) = k"
proof -
  have "sint (word_of_int k :: 'a word) = signed_take_bit (LENGTH('a) - Suc 0) k"
    by transfer simp
  with assms show ?thesis by (simp add: signed_take_bit_int_eq_self)
qed

subsection \<open>Lists\<close>

definition go_swap :: "'a list \<Rightarrow> nat \<Rightarrow> nat \<Rightarrow> 'a list" where
  "go_swap xs i j = xs[i := xs ! j, j := xs ! i]"

lemma length_go_swap [simp]: "length (go_swap xs i j) = length xs"
  by (simp add: go_swap_def)

lemma mset_go_swap [simp]:
  "i < length xs \<Longrightarrow> j < length xs \<Longrightarrow> mset (go_swap xs i j) = mset xs"
  unfolding go_swap_def by (rule mset_swap)

lemma nth_go_swap:
  "i < length xs \<Longrightarrow> j < length xs \<Longrightarrow> k < length xs \<Longrightarrow>
   go_swap xs i j ! k = (if k = j then xs ! i else if k = i then xs ! j else xs ! k)"
  by (simp add: go_swap_def nth_list_update)

end
