(* ===== verification/Rlp_Base.thy ===== *)
theory Rlp_Base
  imports Go_Prelude
begin

text \<open>
  Integers and headers of the RLP encoding: \<^verbatim>\<open>putint\<close>, \<^verbatim>\<open>intsize\<close>,
  \<^verbatim>\<open>headsize\<close> and \<^verbatim>\<open>puthead\<close> of \<^verbatim>\<open>rlp/encode.go\<close>,
  \<^verbatim>\<open>readSize\<close> and \<^verbatim>\<open>AppendUint64\<close> of \<^verbatim>\<open>rlp/raw.go\<close>,
  related to the minimal big-endian representation.

  A function that writes into a caller's buffer returns the bytes it writes; its Go result is
  their number.
\<close>

unbundle bit_operations_syntax

datatype rlpError =
    EOL | ErrExpectedString | ErrExpectedList | ErrCanonInt | ErrCanonSize | ErrElemTooLarge
  | ErrValueTooLarge | ErrMoreThanOneValue | errNotInList | errNotAtEOL | errUintOverflow
  | io_EOF | io_ErrUnexpectedEOF | errWrongSize nat nat | errInvalidBool u64 | ErrNegativeBigInt
  | decodeError string | typeMismatch | outOfFuel

datatype Kind = Byte | String | List

subsection \<open>Reference: big-endian numbers\<close>

fun be_bytes :: "nat \<Rightarrow> bytes" where
  "be_bytes n = (if n < 256 then [word_of_nat n] else be_bytes (n div 256) @ [word_of_nat (n mod 256)])"

declare be_bytes.simps [simp del]

definition be_val :: "bytes \<Rightarrow> nat" where
  "be_val bs = foldl (\<lambda>a b. a * 256 + unat b) 0 bs"

lemma be_val_simps [simp]:
  "be_val [] = 0" "be_val (bs @ [b]) = be_val bs * 256 + unat b" "be_val [b] = unat b"
  by (simp_all add: be_val_def)

lemma be_val_Cons: "be_val (b # bs) = unat b * 256 ^ length bs + be_val bs"
  by (induction bs rule: rev_induct) (simp_all add: algebra_simps flip: append_Cons)

lemma unat_byte_less [simp]: "unat (b :: byte) < 256"
proof -
  have "unat b < 2 ^ LENGTH(8)" by (rule unsigned_less)
  then show ?thesis by simp
qed

lemma unat_word_of_nat_byte [simp]: "n < 256 \<Longrightarrow> unat (word_of_nat n :: byte) = n"
  by (simp add: unat_of_nat)

lemma word_of_nat_byte_val [simp]:
  "(word_of_nat (a * 256 + unat b) :: byte) = b" "(word_of_nat (unat b) :: byte) = b"
  proof -
  show "(word_of_nat (unat b) :: byte) = b" by simp
  have "(256 :: byte) = 0" by simp
  then show "(word_of_nat (a * 256 + unat b) :: byte) = b" by (simp only: of_nat_add of_nat_mult of_nat_numeral) simp
qed

lemma be_val_less: "be_val bs < 256 ^ length bs"
proof (induction bs rule: rev_induct)
  case (snoc b bs)
  have "be_val bs * 256 + unat b < (be_val bs + 1) * 256" by simp
  also have "\<dots> \<le> 256 ^ length bs * 256" using snoc by (intro mult_right_mono) simp_all
  finally show ?case by (simp add: mult.commute)
qed simp

lemma be_bytes_not_Nil [simp]: "be_bytes n \<noteq> []"
  by (subst be_bytes.simps) simp

lemma Nil_not_be_bytes [simp]: "[] \<noteq> be_bytes n"
  by (metis be_bytes_not_Nil)

lemma be_val_be_bytes [simp]: "be_val (be_bytes n) = n"
  by (induction n rule: be_bytes.induct) (subst be_bytes.simps, simp)

lemma be_bytes_hd: "n > 0 \<Longrightarrow> hd (be_bytes n) \<noteq> 0"
proof (induction n rule: be_bytes.induct)
  case (1 n)
  show ?case
  proof (cases "n < 256")
    case True
    with 1(2) have "unat (word_of_nat n :: byte) \<noteq> 0" by simp
    then have "(word_of_nat n :: byte) \<noteq> 0" by (metis unat_0)
    with True show ?thesis by (subst be_bytes.simps) simp
  next
    case False
    with 1(1) show ?thesis by (subst be_bytes.simps) simp
  qed
qed

lemma be_bytes_be_val: "bs \<noteq> [] \<Longrightarrow> length bs = 1 \<or> hd bs \<noteq> 0 \<Longrightarrow> be_bytes (be_val bs) = bs"
proof (induction bs rule: rev_induct)
  case (snoc b bs)
  show ?case
  proof (cases "bs = []")
    case True
    then show ?thesis by (simp add: be_bytes.simps)
  next
    case False
    then have hd: "hd bs \<noteq> 0" using snoc.prems by auto
    then obtain c cs where c: "bs = c # cs" "c \<noteq> 0" using False by (cases bs) auto
    then have "unat c \<ge> 1" by (metis One_nat_def Suc_leI unat_eq_zero neq0_conv)
    then have "1 * 1 \<le> unat c * 256 ^ length cs" by (intro mult_mono) simp_all
    then have "be_val bs \<ge> 1" unfolding c(1) be_val_Cons by linarith
    then have "\<not> be_val (bs @ [b]) < 256" by simp
    then show ?thesis using snoc.IH False hd by (subst be_bytes.simps) simp
  qed
qed simp

lemma length_be_bytes_le: "n < 256 ^ k \<Longrightarrow> 0 < k \<Longrightarrow> length (be_bytes n) \<le> k"
proof (induction n arbitrary: k rule: be_bytes.induct)
  case (1 n)
  show ?case
  proof (cases "n < 256")
    case False
    then obtain k' where k: "k = Suc k'" "0 < k'" using 1(2,3) by (cases k; cases "k - 1") auto
    then have "n div 256 < 256 ^ k'" using 1(2) by (simp add: div_less_iff_less_mult mult.commute)
    with 1(1) False k show ?thesis by (subst be_bytes.simps) simp
  qed (use 1 in \<open>subst be_bytes.simps, simp\<close>)
qed

lemma length_be_bytes_gt: "256 ^ k \<le> n \<Longrightarrow> k < length (be_bytes n)"
proof -
  assume "256 ^ k \<le> n"
  also have "n < 256 ^ length (be_bytes n)" using be_val_less [of "be_bytes n"] by simp
  finally show ?thesis by simp
qed

subsection \<open>Integers and headers of the encoder\<close>

function intsize_loop :: "nat \<Rightarrow> u64 \<Rightarrow> nat" where
  "intsize_loop sz i =
     (let i = drop_bit 8 i in if i = 0 then sz else intsize_loop (sz + 1) i)"
  by auto
termination
proof (relation "measure (\<lambda>(sz, i). unat i)", simp_all)
  fix i :: u64
  assume "drop_bit 8 i \<noteq> 0"
  then have "unat i \<noteq> 0" by (metis drop_bit_0 drop_bit_of_0 unat_eq_zero)
  then show "unat (drop_bit 8 i) < unat i"
    by (simp add: unat_drop_bit_eq drop_bit_nat_def)
qed

declare intsize_loop.simps [simp del]

definition intsize :: "u64 \<Rightarrow> nat" where
  "intsize i = intsize_loop 1 i"

definition putint :: "u64 \<Rightarrow> bytes" where
  "putint i =
     (if i < push_bit 8 1 then [ucast i]
      else if i < push_bit 16 1 then [ucast (drop_bit 8 i), ucast i]
      else if i < push_bit 24 1 then [ucast (drop_bit 16 i), ucast (drop_bit 8 i), ucast i]
      else if i < push_bit 32 1 then
        [ucast (drop_bit 24 i), ucast (drop_bit 16 i), ucast (drop_bit 8 i), ucast i]
      else if i < push_bit 40 1 then
        [ucast (drop_bit 32 i), ucast (drop_bit 24 i), ucast (drop_bit 16 i), ucast (drop_bit 8 i), ucast i]
      else if i < push_bit 48 1 then
        [ucast (drop_bit 40 i), ucast (drop_bit 32 i), ucast (drop_bit 24 i), ucast (drop_bit 16 i),
         ucast (drop_bit 8 i), ucast i]
      else if i < push_bit 56 1 then
        [ucast (drop_bit 48 i), ucast (drop_bit 40 i), ucast (drop_bit 32 i), ucast (drop_bit 24 i),
         ucast (drop_bit 16 i), ucast (drop_bit 8 i), ucast i]
      else
        [ucast (drop_bit 56 i), ucast (drop_bit 48 i), ucast (drop_bit 40 i), ucast (drop_bit 32 i),
         ucast (drop_bit 24 i), ucast (drop_bit 16 i), ucast (drop_bit 8 i), ucast i])"

definition headsize :: "u64 \<Rightarrow> nat" where
  "headsize sz = (if sz < 56 then 1 else 1 + intsize sz)"

definition puthead :: "byte \<Rightarrow> byte \<Rightarrow> u64 \<Rightarrow> bytes" where
  "puthead smalltag largetag sz =
     (if sz < 56 then [smalltag + ucast sz]
      else let sizebytes = putint sz in (largetag + word_of_nat (length sizebytes)) # sizebytes)"

lemma unat_drop_bit: "unat (drop_bit k (i :: u64)) = unat i div 2 ^ k"
  by (simp add: unat_drop_bit_eq drop_bit_nat_def)

lemma intsize_loop_be: "intsize_loop sz i = sz + length (be_bytes (unat i)) - 1"
proof (induction sz i rule: intsize_loop.induct)
  case (1 sz i)
  have z: "drop_bit 8 i = 0 \<longleftrightarrow> unat i < 256"
    using unat_drop_bit [of 8 i] by (auto simp: unat_eq_zero div_eq_0_iff)
  show ?case
  proof (cases "unat i < 256")
    case True
    with z show ?thesis by (subst intsize_loop.simps, subst be_bytes.simps) simp
  next
    case False
    with 1 z show ?thesis
      by (subst intsize_loop.simps, subst be_bytes.simps) (simp add: Let_def unat_drop_bit)
  qed
qed

lemma intsize_be: "intsize i = length (be_bytes (unat i))"
  by (simp add: intsize_def intsize_loop_be)

lemma ucast_drop_bit: "(ucast (drop_bit k (i :: u64)) :: byte) = word_of_nat (unat i div 2 ^ k)"
  by (metis unat_drop_bit of_nat_unat)

lemma word_of_nat_mod_byte: "(word_of_nat (n mod 256) :: byte) = word_of_nat n"
  by (simp add: word_of_nat_eq_iff take_bit_eq_mod)

lemma be_bytes_step: "\<not> n < 256 \<Longrightarrow> be_bytes n = be_bytes (n div 256) @ [word_of_nat n]"
  by (subst be_bytes.simps) (simp add: word_of_nat_mod_byte)

lemma be_bytes_last: "n < 256 \<Longrightarrow> be_bytes n = [word_of_nat n]"
  by (subst be_bytes.simps) simp

lemma be_bytes_ge: "256 ^ k \<le> n \<Longrightarrow> 0 < k \<Longrightarrow> be_bytes n = be_bytes (n div 256) @ [word_of_nat n]"
  by (rule be_bytes_step) (use power_increasing [of 1 k "256 :: nat"] in simp)

lemma unat_u64_less [simp]: "unat (i :: u64) < 18446744073709551616"
proof -
  have "unat i < 2 ^ LENGTH(64)" by (rule unsigned_less)
  then show ?thesis by simp
qed

lemma putint_be: "putint i = be_bytes (unat i)"
  unfolding putint_def
  by (simp add: word_less_nat_alt ucast_drop_bit be_bytes_step be_bytes_last div_less_iff_less_mult not_less
      flip: div_mult2_eq)

lemma length_be_bytes_u64: "length (be_bytes (unat (i :: u64))) \<le> 8" "length (be_bytes (unat i)) \<ge> 1"
  using length_be_bytes_le [of "unat i" 8] by (simp_all add: Suc_leI)

lemma headsize_eq: "headsize sz = length (puthead smalltag largetag sz)"
  by (simp add: headsize_def puthead_def intsize_be putint_be Let_def)

subsection \<open>Integers of the raw functions\<close>

definition readSize :: "bytes \<Rightarrow> byte \<Rightarrow> rlpError + u64" where
  "readSize b slen =
     (if unat slen > length b then Inl io_ErrUnexpectedEOF
      else
        let s =
          (if slen = 1 then ucast (b ! 0)
           else if slen = 2 then push_bit 8 (ucast (b ! 0)) OR ucast (b ! 1)
           else if slen = 3 then
             push_bit 16 (ucast (b ! 0)) OR push_bit 8 (ucast (b ! 1)) OR ucast (b ! 2)
           else if slen = 4 then
             push_bit 24 (ucast (b ! 0)) OR push_bit 16 (ucast (b ! 1)) OR push_bit 8 (ucast (b ! 2)) OR ucast (b ! 3)
           else if slen = 5 then
             push_bit 32 (ucast (b ! 0)) OR push_bit 24 (ucast (b ! 1)) OR push_bit 16 (ucast (b ! 2)) OR
             push_bit 8 (ucast (b ! 3)) OR ucast (b ! 4)
           else if slen = 6 then
             push_bit 40 (ucast (b ! 0)) OR push_bit 32 (ucast (b ! 1)) OR push_bit 24 (ucast (b ! 2)) OR
             push_bit 16 (ucast (b ! 3)) OR push_bit 8 (ucast (b ! 4)) OR ucast (b ! 5)
           else if slen = 7 then
             push_bit 48 (ucast (b ! 0)) OR push_bit 40 (ucast (b ! 1)) OR push_bit 32 (ucast (b ! 2)) OR
             push_bit 24 (ucast (b ! 3)) OR push_bit 16 (ucast (b ! 4)) OR push_bit 8 (ucast (b ! 5)) OR ucast (b ! 6)
           else if slen = 8 then
             push_bit 56 (ucast (b ! 0)) OR push_bit 48 (ucast (b ! 1)) OR push_bit 40 (ucast (b ! 2)) OR
             push_bit 32 (ucast (b ! 3)) OR push_bit 24 (ucast (b ! 4)) OR push_bit 16 (ucast (b ! 5)) OR
             push_bit 8 (ucast (b ! 6)) OR ucast (b ! 7)
           else (0 :: u64))
        in if s < 56 \<or> b ! 0 = 0 then Inl ErrCanonSize else Inr s)"

definition AppendUint64 :: "bytes \<Rightarrow> u64 \<Rightarrow> bytes" where
  "AppendUint64 b i =
     (if i = 0 then b @ [0x80]
      else if i < 128 then b @ [ucast i]
      else if i < push_bit 8 1 then b @ [0x81, ucast i]
      else if i < push_bit 16 1 then b @ [0x82, ucast (drop_bit 8 i), ucast i]
      else if i < push_bit 24 1 then b @ [0x83, ucast (drop_bit 16 i), ucast (drop_bit 8 i), ucast i]
      else if i < push_bit 32 1 then
        b @ [0x84, ucast (drop_bit 24 i), ucast (drop_bit 16 i), ucast (drop_bit 8 i), ucast i]
      else if i < push_bit 40 1 then
        b @ [0x85, ucast (drop_bit 32 i), ucast (drop_bit 24 i), ucast (drop_bit 16 i), ucast (drop_bit 8 i), ucast i]
      else if i < push_bit 48 1 then
        b @ [0x86, ucast (drop_bit 40 i), ucast (drop_bit 32 i), ucast (drop_bit 24 i), ucast (drop_bit 16 i),
             ucast (drop_bit 8 i), ucast i]
      else if i < push_bit 56 1 then
        b @ [0x87, ucast (drop_bit 48 i), ucast (drop_bit 40 i), ucast (drop_bit 32 i), ucast (drop_bit 24 i),
             ucast (drop_bit 16 i), ucast (drop_bit 8 i), ucast i]
      else
        b @ [0x88, ucast (drop_bit 56 i), ucast (drop_bit 48 i), ucast (drop_bit 40 i), ucast (drop_bit 32 i),
             ucast (drop_bit 24 i), ucast (drop_bit 16 i), ucast (drop_bit 8 i), ucast i])"

definition be_word :: "bytes \<Rightarrow> u64" where
  "be_word bs = foldl (\<lambda>a b. push_bit 8 a OR ucast b) 0 bs"

lemma be_word_step: "push_bit 8 a OR ucast (b :: byte) = a * 256 + (ucast b :: u64)"
proof -
  have "push_bit 8 a AND (ucast b :: u64) = 0"
    by (rule bit_word_eqI) (auto simp: bit_and_iff bit_push_bit_iff bit_ucast_iff dest: bit_imp_le_length)
  then show ?thesis by (simp add: push_bit_eq_mult flip: disjunctive_add_eq_or)
qed

lemma be_word_val: "be_word bs = word_of_nat (be_val bs)"
  by (induction bs rule: rev_induct) (simp_all add: be_word_def be_val_def be_word_step)

lemma take_map_nth: "n \<le> length xs \<Longrightarrow> take n xs = map (nth xs) [0..<n]"
  by (simp add: list_eq_iff_nth_eq)

lemma nth_numeral_Suc:
  "xs ! 2 = xs ! Suc (Suc 0)" "xs ! 3 = xs ! Suc (Suc (Suc 0))" "xs ! 4 = xs ! Suc (Suc (Suc (Suc 0)))"
  "xs ! 5 = xs ! Suc (Suc (Suc (Suc (Suc 0))))" "xs ! 6 = xs ! Suc (Suc (Suc (Suc (Suc (Suc 0)))))"
  "xs ! 7 = xs ! Suc (Suc (Suc (Suc (Suc (Suc (Suc 0))))))"
  by (simp_all add: eval_nat_numeral)

lemma readSize_be:
  assumes "1 \<le> slen" "slen \<le> 8"
  shows "readSize b slen =
    (if unat slen > length b then Inl io_ErrUnexpectedEOF
     else let s = be_word (take (unat slen) b) in if s < 56 \<or> hd b = 0 then Inl ErrCanonSize else Inr s)"
proof -
  have "slen \<in> {1, 2, 3, 4, 5, 6, 7, 8}"
  proof -
    have "unat slen \<ge> 1" "unat slen \<le> 8" using assms by (simp_all add: word_le_nat_alt)
    then consider "unat slen = 1" | "unat slen = 2" | "unat slen = 3" | "unat slen = 4" | "unat slen = 5"
      | "unat slen = 6" | "unat slen = 7" | "unat slen = 8" by linarith
    then show ?thesis
      by cases (drule arg_cong [where f = "word_of_nat :: nat \<Rightarrow> byte"], simp)+
  qed
  then have s: "\<not> unat slen > length b \<Longrightarrow> readSize b slen =
      (let s = be_word (map (nth b) [0..<unat slen]) in if s < 56 \<or> b ! 0 = 0 then Inl ErrCanonSize else Inr s)"
    by (elim insertE emptyE) (simp_all add: readSize_def be_word_def push_bit_or or.assoc upt_rec nth_numeral_Suc)
  show ?thesis
  proof (cases "unat slen > length b")
    case True
    then show ?thesis by (simp add: readSize_def)
  next
    case False
    moreover have "b \<noteq> []" using assms(1) False by (auto simp: word_le_nat_alt)
    ultimately show ?thesis using s by (simp add: take_map_nth hd_conv_nth)
  qed
qed

subsection \<open>Reference: the encoding rules\<close>

text \<open>An RLP item is a byte string or a list of items (\<^verbatim>\<open>rlp/doc.go\<close>).\<close>

datatype item = Str bytes | Lst "item list"

definition rlp_head :: "nat \<Rightarrow> nat \<Rightarrow> bytes" where
  "rlp_head tag n =
     (if n < 56 then [word_of_nat (tag + n)]
      else word_of_nat (tag + 55 + length (be_bytes n)) # be_bytes n)"

definition rlp_string :: "bytes \<Rightarrow> bytes" where
  "rlp_string b = (if length b = 1 \<and> unat (hd b) < 128 then b else rlp_head 128 (length b) @ b)"

definition rlp_list :: "bytes \<Rightarrow> bytes" where
  "rlp_list payload = rlp_head 192 (length payload) @ payload"

fun rlp_enc :: "item \<Rightarrow> bytes" where
  "rlp_enc (Str b) = rlp_string b"
| "rlp_enc (Lst xs) = rlp_list (concat (map rlp_enc xs))"

text \<open>An integer is the string of its minimal big-endian bytes; zero is the empty string.\<close>

definition uint_bytes :: "nat \<Rightarrow> bytes" where
  "uint_bytes n = (if n = 0 then [] else be_bytes n)"

lemma rlp_head_not_Nil [simp]: "rlp_head tag n \<noteq> []"
  by (simp add: rlp_head_def)

lemma rlp_enc_not_Nil [simp]: "rlp_enc it \<noteq> []" "rlp_string b \<noteq> []" "rlp_list p \<noteq> []"
  by (cases it) (auto simp: rlp_string_def rlp_list_def)

lemma word_of_nat_byte_add: "(word_of_nat (a + b) :: byte) = word_of_nat a + word_of_nat b"
  by simp

lemma puthead_string: "puthead 0x80 0xB7 sz = rlp_head 128 (unat sz)"
  by (simp add: puthead_def rlp_head_def word_less_nat_alt putint_be Let_def)

lemma puthead_list: "puthead 0xC0 0xF7 sz = rlp_head 192 (unat sz)"
  by (simp add: puthead_def rlp_head_def word_less_nat_alt putint_be Let_def)

lemma be_bytes_single: "length (be_bytes n) = 1 \<longleftrightarrow> n < 256"
  using length_be_bytes_gt [of 1 n] by (cases "n < 256") (auto simp: be_bytes_last)

lemma length_be_bytes_u64_lt56: "length (be_bytes (unat (i :: u64))) < 56"
  using length_be_bytes_u64(1) [of i] by linarith

lemma length_be_bytes_eq: "256 ^ k \<le> n \<Longrightarrow> n < 256 ^ Suc k \<Longrightarrow> length (be_bytes n) = Suc k"
  using length_be_bytes_le [of n "Suc k"] length_be_bytes_gt [of k n] by simp

lemma unat_ucast_byte [simp]: "unat (ucast (i :: u64) :: byte) = unat i mod 256"
  by (simp add: unsigned_ucast_eq take_bit_eq_mod)

lemma unat_ucast_up [simp]: "unat (ucast (b :: byte) :: u64) = unat b"
proof -
  have "unat b < 18446744073709551616" using unat_byte_less [of b] by linarith
  then show ?thesis by (simp add: unsigned_ucast_eq take_bit_eq_mod)
qed

lemma rlp_uint_large:
  assumes "128 \<le> unat i"
  shows "rlp_string (uint_bytes (unat (i :: u64))) = word_of_nat (128 + length (be_bytes (unat i))) # be_bytes (unat i)"
proof -
  have "\<not> (length (be_bytes (unat i)) = 1 \<and> unat (hd (be_bytes (unat i))) < 128)"
    using assms by (cases "unat i < 256") (simp_all only: be_bytes_single be_bytes_last, simp_all)
  then show ?thesis
    using assms length_be_bytes_u64_lt56 [of i] by (auto simp: rlp_string_def uint_bytes_def rlp_head_def)
qed

lemma AppendUint64_large:
  assumes "128 \<le> unat i"
  shows "AppendUint64 b i = b @ word_of_nat (128 + length (be_bytes (unat i))) # be_bytes (unat i)"
  using assms putint_be [of i, symmetric]
  by (auto simp: AppendUint64_def putint_def word_less_nat_alt)

lemma AppendUint64_ref: "AppendUint64 b i = b @ rlp_string (uint_bytes (unat i))"
proof (cases "128 \<le> unat i")
  case True
  then show ?thesis by (simp add: AppendUint64_large rlp_uint_large)
next
  case False
  have "ucast i = (word_of_nat (unat i) :: byte)" by simp
  with False show ?thesis
    by (auto simp: AppendUint64_def word_less_nat_alt rlp_string_def uint_bytes_def rlp_head_def be_bytes_last
        unat_eq_zero unat_of_nat)
qed

end
