(* ===== verification/Rlp_Raw.thy ===== *)
theory Rlp_Raw
  imports Rlp_Base
begin

text \<open>
  The functions of \<^verbatim>\<open>rlp/raw.go\<close> that take apart encoded values:
  \<^verbatim>\<open>readKind\<close>, \<^verbatim>\<open>Split\<close> and its variants, \<^verbatim>\<open>CountValues\<close>, with
  sizes at their 64 bits. They accept exactly the reference encoding of \<open>Rlp_Base\<close>.

  A Go slice has fewer than \<open>2 ^ 63\<close> bytes, which the lemmas on word arithmetic assume.
\<close>

definition ListSize :: "u64 \<Rightarrow> u64" where
  "ListSize contentSize = word_of_nat (headsize contentSize) + contentSize"

definition IntSize :: "u64 \<Rightarrow> nat" where
  "IntSize x = (if x < 0x80 then 1 else 1 + intsize x)"

definition readKind :: "bytes \<Rightarrow> rlpError + Kind \<times> u64 \<times> u64" where
  "readKind buf =
     (if buf = [] then Inl io_ErrUnexpectedEOF
      else
        let b = buf ! 0;
            r = (if b < 0x80 then Inr (Byte, 0, 1)
                 else if b < 0xB8 then
                   (let contentsize = ucast (b - 0x80)
                    in if contentsize = (1 :: u64) \<and> length buf > 1 \<and> buf ! 1 < 128 then Inl ErrCanonSize
                       else Inr (String, 1, contentsize))
                 else if b < 0xC0 then
                   map_sum id (\<lambda>contentsize. (String, ucast (b - 0xB7) + 1, contentsize)) (readSize (tl buf) (b - 0xB7))
                 else if b < 0xF8 then Inr (List, 1, ucast (b - 0xC0))
                 else
                   map_sum id (\<lambda>contentsize. (List, ucast (b - 0xF7) + 1, contentsize)) (readSize (tl buf) (b - 0xF7)))
        in case r of
             Inl err \<Rightarrow> Inl err
           | Inr (k, tagsize, contentsize) \<Rightarrow>
               if contentsize > word_of_nat (length buf) - tagsize then Inl ErrValueTooLarge
               else Inr (k, tagsize, contentsize))"

text \<open>\<^verbatim>\<open>b[ts : ts+cs]\<close> and \<^verbatim>\<open>b[ts+cs:]\<close>; on an error the Go function also returns \<open>b\<close>.\<close>

definition Split :: "bytes \<Rightarrow> rlpError + Kind \<times> bytes \<times> bytes" where
  "Split b =
     (case readKind b of
        Inl err \<Rightarrow> Inl err
      | Inr (k, ts, cs) \<Rightarrow> Inr (k, take (unat (ts + cs) - unat ts) (drop (unat ts) b), drop (unat (ts + cs)) b))"

definition SplitString :: "bytes \<Rightarrow> rlpError + bytes \<times> bytes" where
  "SplitString b =
     (case Split b of
        Inl err \<Rightarrow> Inl err
      | Inr (k, content, rest) \<Rightarrow> if k = List then Inl ErrExpectedString else Inr (content, rest))"

definition SplitUint64 :: "bytes \<Rightarrow> rlpError + u64 \<times> bytes" where
  "SplitUint64 b =
     (case SplitString b of
        Inl err \<Rightarrow> Inl err
      | Inr (content, rest) \<Rightarrow>
          if length content = 0 then Inr (0, rest)
          else if length content = 1 then
            (if content ! 0 = 0 then Inl ErrCanonInt else Inr (ucast (content ! 0), rest))
          else if length content > 8 then Inl errUintOverflow
          else
            (case readSize content (word_of_nat (length content)) of
               Inl err \<Rightarrow> Inl ErrCanonInt
             | Inr x \<Rightarrow> Inr (x, rest)))"

definition SplitList :: "bytes \<Rightarrow> rlpError + bytes \<times> bytes" where
  "SplitList b =
     (case Split b of
        Inl err \<Rightarrow> Inl err
      | Inr (k, content, rest) \<Rightarrow> if k \<noteq> List then Inl ErrExpectedList else Inr (content, rest))"

text \<open>The loop of \<^verbatim>\<open>CountValues\<close>; \<open>None\<close> if it does not end.\<close>

partial_function (option) CountValues_loop :: "nat \<Rightarrow> bytes \<Rightarrow> (rlpError + nat) option" where
  "CountValues_loop i b =
     (if length b > 0 then
        (case readKind b of
           Inl err \<Rightarrow> Some (Inl err)
         | Inr (k, tagsize, sz) \<Rightarrow> CountValues_loop (i + 1) (drop (unat (tagsize + sz)) b))
      else Some (Inr i))"

definition CountValues :: "bytes \<Rightarrow> (rlpError + nat) option" where
  "CountValues b = CountValues_loop 0 b"

subsection \<open>Reading a size\<close>

lemma unat_be_word: "length bs \<le> 8 \<Longrightarrow> unat (be_word bs) = be_val bs"
proof -
  assume "length bs \<le> 8"
  then have "(256 :: nat) ^ length bs \<le> 256 ^ 8" by (intro power_increasing) simp_all
  with be_val_less [of bs] have "be_val bs < 2 ^ 64" by simp
  then show ?thesis by (simp add: be_word_val unat_of_nat)
qed

lemma readSize_complete:
  assumes "56 \<le> unat s"
  shows "readSize (be_bytes (unat s) @ xs) (word_of_nat (length (be_bytes (unat s)))) = Inr s"
proof -
  let ?n = "length (be_bytes (unat s))"
  have n: "1 \<le> ?n" "?n \<le> 8" using length_be_bytes_u64 by auto
  then have u: "unat (word_of_nat ?n :: byte) = ?n" by simp
  have "(1 :: byte) \<le> word_of_nat ?n" "word_of_nat ?n \<le> (8 :: byte)" using n u by (simp_all add: word_le_nat_alt)
  moreover have "be_word (be_bytes (unat s)) = s" by (simp add: be_word_val)
  moreover have "hd (be_bytes (unat s)) \<noteq> 0" using assms by (intro be_bytes_hd) simp
  ultimately show ?thesis using assms u by (simp add: readSize_be word_less_nat_alt)
qed

lemma readSize_sound:
  assumes "readSize b slen = Inr s" "1 \<le> slen" "slen \<le> 8"
  shows "56 \<le> unat s" "unat slen \<le> length b" "take (unat slen) b = be_bytes (unat s)"
    "length (be_bytes (unat s)) = unat slen"
proof -
  let ?t = "take (unat slen) b"
  have l: "unat slen \<le> length b" and s: "s = be_word ?t" "\<not> s < 56" "hd b \<noteq> 0"
    using assms by (auto simp: readSize_be Let_def split: if_splits)
  have n: "1 \<le> unat slen" "unat slen \<le> 8" using assms by (simp_all add: word_le_nat_alt)
  then have "?t \<noteq> []" "hd ?t \<noteq> 0" using l s by (auto simp: hd_take)
  then have "be_bytes (be_val ?t) = ?t" by (intro be_bytes_be_val) simp_all
  moreover have "unat s = be_val ?t" using s n by (simp add: unat_be_word)
  ultimately show "?t = be_bytes (unat s)" by simp
  then show "length (be_bytes (unat s)) = unat slen" using l by (metis length_take min.absorb2)
  show "unat slen \<le> length b" by (fact l)
  show "56 \<le> unat s" using s(2) by (simp add: word_less_nat_alt)
qed

subsection \<open>Splitting\<close>

definition frame :: "Kind \<Rightarrow> bytes \<Rightarrow> bytes" where
  "frame k c = (case k of Byte \<Rightarrow> c | String \<Rightarrow> rlp_head 128 (length c) @ c | List \<Rightarrow> rlp_list c)"

definition frame_ok :: "Kind \<Rightarrow> bytes \<Rightarrow> bool" where
  "frame_ok k c \<longleftrightarrow>
     (case k of
        Byte \<Rightarrow> length c = 1 \<and> unat (hd c) < 128
      | String \<Rightarrow> \<not> (length c = 1 \<and> unat (hd c) < 128)
      | List \<Rightarrow> True)"

definition taglen :: "Kind \<Rightarrow> u64 \<Rightarrow> u64" where
  "taglen k cs = (if k = Byte then 0 else word_of_nat (headsize cs))"

lemma unat_byte_minus: "n \<le> b \<Longrightarrow> unat (b - n) = unat b - unat n" for b n :: byte
  by (simp add: unat_sub_if' word_le_nat_alt)

lemma ucast_byte_eq_0: "(ucast b :: u64) = 0 \<longleftrightarrow> b = 0" for b :: byte
  by (metis unat_ucast_up unat_eq_zero)

lemma tag_small: "tag + m < 256 \<Longrightarrow> b = word_of_nat (tag + m) \<longleftrightarrow> unat b = tag + m" for b :: byte
  by (metis unat_word_of_nat_byte word_of_nat_byte_val(2))

lemma headsize_head: "headsize cs = length (rlp_head tag (unat cs))"
  by (simp add: headsize_def rlp_head_def word_less_nat_alt intsize_be)

lemma headsize_le: "headsize cs \<le> 9" "1 \<le> headsize cs"
  using length_be_bytes_u64(1) [of cs] by (simp_all add: headsize_def intsize_be)

text \<open>What \<^verbatim>\<open>readKind\<close> has read when it accepts the tag.\<close>

lemma readKind_head:
  assumes "readKind buf = Inr (k, ts, cs)"
  shows "buf \<noteq> [] \<and> ts = taglen k cs \<and> cs \<le> word_of_nat (length buf) - ts \<and>
    (case k of
       Byte \<Rightarrow> cs = 1 \<and> hd buf < 128
     | String \<Rightarrow> (\<exists>xs. buf = rlp_head 128 (unat cs) @ xs) \<and> \<not> (cs = 1 \<and> length buf > 1 \<and> buf ! 1 < 128)
     | List \<Rightarrow> (\<exists>xs. buf = rlp_head 192 (unat cs) @ xs))"
proof -
  obtain b xs where buf: "buf = b # xs" using assms by (cases buf) (auto simp: readKind_def)
  note def = assms [unfolded readKind_def buf, simplified]
  have long: "\<exists>ys. b # xs = rlp_head tag (unat s) @ ys \<and> ucast (b - n) + 1 = (word_of_nat (headsize s) :: u64) \<and> 56 \<le> unat s"
    if "readSize xs (b - n) = Inr s" "n \<le> b" "unat n = tag + 55" "1 \<le> b - n" "b - n \<le> 8" for s n tag
  proof -
    note r = readSize_sound [OF that(1,4,5)]
    have l: "length (be_bytes (unat s)) = unat b - unat n" using r(4) that(2) by (simp add: unat_byte_minus)
    have "unat n \<le> unat b" using that(2) by (simp add: word_le_nat_alt)
    then have "tag + 55 + length (be_bytes (unat s)) = unat b" using l that(3) by simp
    then have "rlp_head tag (unat s) = b # be_bytes (unat s)" using r(1) by (simp add: rlp_head_def)
    moreover have "xs = be_bytes (unat s) @ drop (unat (b - n)) xs" using r(3) by (metis append_take_drop_id)
    moreover have "ucast (b - n) + 1 = (word_of_nat (headsize s) :: u64)"
      using r(1,4) by (simp add: headsize_def word_less_nat_alt intsize_be flip: unat_byte_minus)
    ultimately show ?thesis using r(1) by (metis append_Cons)
  qed
  have short: "rlp_head tag (unat (b - n)) = [b] \<and> headsize (ucast (b - n)) = 1"
    if "n \<le> b" "unat n = tag" "unat b < tag + 56" for n tag
  proof -
    have "tag \<le> unat b" using that by (simp add: word_le_nat_alt)
    then have "unat (b - n) < 56" "tag + unat (b - n) = unat b" using that by (simp_all add: unat_byte_minus)
    then show ?thesis by (simp add: rlp_head_def headsize_def word_less_nat_alt flip: of_nat_add)
  qed
  consider "b < 0x80" | "0x80 \<le> b" "b < 0xB8" | "0xB8 \<le> b" "b < 0xC0" | "0xC0 \<le> b" "b < 0xF8" | "0xF8 \<le> b"
    by (metis linorder_not_less)
  then show ?thesis
  proof cases
    case 1
    then show ?thesis using def by (auto simp: buf taglen_def simp flip: not_less split: if_splits)
  next
    case 2
    then have "rlp_head 128 (unat (b - 0x80)) = [b] \<and> headsize (ucast (b - 0x80)) = 1"
      using short [of "0x80" 128] by (simp add: word_less_nat_alt)
    with 2 show ?thesis using def by (auto simp: buf taglen_def Let_def not_less ucast_byte_eq_0 split: if_splits)
  next
    case 3
    then have r: "0xB7 \<le> b" "1 \<le> b - 0xB7" "b - 0xB7 \<le> 8"
      by (simp_all add: word_le_nat_alt word_less_nat_alt unat_byte_minus)
    have nb: "\<not> b < 0x80" "\<not> b < 0xB8"
      using 3 by (simp_all add: word_le_nat_alt word_less_nat_alt)
    from nb 3 def obtain s where s: "readSize xs (b - 0xB7) = Inr s"
      by (cases "readSize xs (b - 0xB7)") (auto simp: Let_def split: if_splits)
    with nb 3 def have "k = String" "ts = ucast (b - 0xB7) + 1" "cs = s" "cs \<le> 1 + word_of_nat (length xs) - ts"
      by (auto simp: Let_def not_less split: if_splits)
    with long [OF s r(1) _ r(2,3), of 128] show ?thesis
      by (auto simp: buf taglen_def)
  next
    case 4
    then have "rlp_head 192 (unat (b - 0xC0)) = [b] \<and> headsize (ucast (b - 0xC0)) = 1"
      using short [of "0xC0" 192] by (simp add: word_less_nat_alt)
    moreover have "\<not> b < 0x80" "\<not> b < 0xB8" "\<not> b < 0xC0"
      using 4 by (simp_all add: word_le_nat_alt word_less_nat_alt)
    ultimately show ?thesis using 4 def by (auto simp: buf taglen_def Let_def not_less ucast_byte_eq_0 split: if_splits)
  next
    case 5
    have "unat b - 247 \<le> 8" using unat_byte_less [of b] by linarith
    with 5 have r: "0xF7 \<le> b" "1 \<le> b - 0xF7" "b - 0xF7 \<le> 8"
      by (simp_all add: word_le_nat_alt word_less_nat_alt unat_byte_minus)
    have nb: "\<not> b < 0x80" "\<not> b < 0xB8" "\<not> b < 0xC0" "\<not> b < 0xF8"
      using 5 by (simp_all add: word_le_nat_alt word_less_nat_alt)
    from nb 5 def obtain s where s: "readSize xs (b - 0xF7) = Inr s"
      by (cases "readSize xs (b - 0xF7)") (auto simp: Let_def split: if_splits)
    with nb 5 def have "k = List" "ts = ucast (b - 0xF7) + 1" "cs = s" "cs \<le> 1 + word_of_nat (length xs) - ts"
      by (auto simp: Let_def not_less split: if_splits)
    with long [OF s r(1) _ r(2,3), of 192] show ?thesis
      by (auto simp: buf taglen_def)
  qed
qed

lemma readKind_bounds:
  assumes "readKind buf = Inr (k, ts, cs)" "length buf < 2 ^ 63"
  shows "unat ts + unat cs \<le> length buf" "unat (ts + cs) = unat ts + unat cs" "0 < unat (ts + cs)"
    "unat ts = (if k = Byte then 0 else headsize cs)"
proof -
  note h = readKind_head [OF assms(1)]
  have b: "length buf < 18446744073709551616" using assms(2) by simp
  have L: "unat (word_of_nat (length buf) :: u64) = length buf" using b by (simp add: unat_of_nat)
  have "headsize cs \<le> length buf \<or> k = Byte"
    using h headsize_head [of cs 128] headsize_head [of cs 192] by (auto split: Kind.splits)
  then have t: "unat ts = (if k = Byte then 0 else headsize cs)" "unat ts \<le> length buf"
    using h headsize_le(1) [of cs] by (auto simp: taglen_def unat_of_nat)
  then have "ts \<le> word_of_nat (length buf)" using L by (simp add: word_le_nat_alt)
  then have "unat (word_of_nat (length buf) - ts) = length buf - unat ts"
    using L by (simp add: unat_sub_if' word_le_nat_alt)
  moreover have "unat cs \<le> unat (word_of_nat (length buf) - ts)"
    using h unfolding word_le_nat_alt by blast
  ultimately have "unat cs \<le> length buf - unat ts" by simp
  with t show 1: "unat ts + unat cs \<le> length buf" by simp
  with b show 2: "unat (ts + cs) = unat ts + unat cs" by (simp add: unat_plus_if')
  show "0 < unat (ts + cs)"
    unfolding 2 using t(1) h headsize_le(2) [of cs] by (cases k) (auto split: Kind.splits)
  show "unat ts = (if k = Byte then 0 else headsize cs)" by (fact t(1))
qed

lemma Split_sound:
  assumes "Split b = Inr (k, c, r)" "length b < 2 ^ 63"
  shows "b = frame k c @ r \<and> frame_ok k c"
proof -
  from assms(1) obtain ts cs where rk: "readKind b = Inr (k, ts, cs)"
    and c: "c = take (unat (ts + cs) - unat ts) (drop (unat ts) b)" and r: "r = drop (unat (ts + cs)) b"
    by (auto simp: Split_def split: sum.splits)
  note bd = readKind_bounds [OF rk assms(2)] and h = readKind_head [OF rk]
  have c': "c = take (unat cs) (drop (unat ts) b)" using c bd by simp
  have lc: "length c = unat cs" using c' bd by simp
  have b: "b = take (unat ts) b @ c @ r"
    unfolding c' r bd(2) using append_take_drop_id [of "unat ts + unat cs" b] by (simp add: take_add)
  show ?thesis
  proof (cases k)
    case Byte
    then have "ts = 0" "length c = 1" "hd b < 128" using h lc by (auto simp: taglen_def)
    moreover from this b have "hd c = hd b" by (cases c) auto
    ultimately show ?thesis using b Byte by (simp add: frame_def frame_ok_def word_less_nat_alt)
  next
    case String
    then obtain xs where xs: "b = rlp_head 128 (unat cs) @ xs" using h by auto
    have ts: "unat ts = length (rlp_head 128 (unat cs))" using bd(4) String headsize_head by simp
    then have bc: "b = rlp_head 128 (length c) @ c @ r" using b xs lc by (metis append_eq_conv_conj)
    have "\<not> (length c = 1 \<and> unat (hd c) < 128)"
    proof
      assume a: "length c = 1 \<and> unat (hd c) < 128"
      then have "b ! 1 = hd c" "length b > 1" using bc by (cases c; simp add: rlp_head_def)+
      moreover have "cs = 1" using a lc by (simp add: word_unat_eq_iff)
      ultimately show False using h String a by (simp add: word_less_nat_alt)
    qed
    with bc String show ?thesis by (simp add: frame_def frame_ok_def)
  next
    case List
    then obtain xs where xs: "b = rlp_head 192 (unat cs) @ xs" using h by auto
    have "unat ts = length (rlp_head 192 (unat cs))" using bd(4) List headsize_head by simp
    then have "b = rlp_head 192 (length c) @ c @ r" using b xs lc by (metis append_eq_conv_conj)
    with List show ?thesis by (simp add: frame_def frame_ok_def rlp_list_def)
  qed
qed

lemma unat_of_nat_u64: "n < 2 ^ 63 \<Longrightarrow> unat (word_of_nat n :: u64) = n"
  by (simp add: unat_of_nat)

lemma byte_tag:
  assumes "b = (word_of_nat (tag + m) :: byte)" "tag + m < 256" "unat n = tag"
  shows "unat b = tag + m" "b - n = word_of_nat m"
proof -
  show "unat b = tag + m" unfolding assms(1) by (rule unat_word_of_nat_byte) (fact assms(2))
  have "n = word_of_nat tag" unfolding assms(3) [symmetric] by simp
  then show "b - n = word_of_nat m" by (simp add: assms(1))
qed

text \<open>\<^verbatim>\<open>readKind\<close> on each form of a tag.\<close>

lemma readKind_tags:
  assumes "m < 56"
  shows
    "unat b < 128 \<Longrightarrow> readKind (b # xs) =
       (if 1 > (word_of_nat (length (b # xs)) :: u64) then Inl ErrValueTooLarge else Inr (Byte, 0, 1))"
    "readKind (word_of_nat (128 + m) # xs) =
       (if m = 1 \<and> xs \<noteq> [] \<and> unat (hd xs) < 128 then Inl ErrCanonSize
        else if word_of_nat m > (word_of_nat (length xs) :: u64) then Inl ErrValueTooLarge
        else Inr (String, 1, word_of_nat m))"
    "readKind (word_of_nat (192 + m) # xs) =
       (if word_of_nat m > (word_of_nat (length xs) :: u64) then Inl ErrValueTooLarge
        else Inr (List, 1, word_of_nat m))"
proof -
  show "readKind (b # xs) =
       (if 1 > (word_of_nat (length (b # xs)) :: u64) then Inl ErrValueTooLarge else Inr (Byte, 0, 1))"
    if "unat b < 128" using that by (simp add: readKind_def word_less_nat_alt)
  have u: "ucast (word_of_nat m :: byte) = (word_of_nat m :: u64)"
    using assms by (simp add: word_unat_eq_iff unat_of_nat)
  have one: "word_of_nat m = (1 :: u64) \<longleftrightarrow> m = 1"
    using assms by (simp add: word_unat_eq_iff unat_of_nat)
  show "readKind (word_of_nat (128 + m) # xs) =
       (if m = 1 \<and> xs \<noteq> [] \<and> unat (hd xs) < 128 then Inl ErrCanonSize
        else if word_of_nat m > (word_of_nat (length xs) :: u64) then Inl ErrValueTooLarge
        else Inr (String, 1, word_of_nat m))"
  proof -
    define b where "b = (word_of_nat (128 + m) :: byte)"
    have t: "unat b = 128 + m" "b - 0x80 = word_of_nat m" using byte_tag [OF b_def, of "0x80"] assms by simp_all
    then have "\<not> b < 0x80" "b < 0xB8" using assms by (simp_all add: word_less_nat_alt)
    then show ?thesis
      unfolding b_def [symmetric] using u one
      by (auto simp: readKind_def Let_def t word_less_nat_alt [where ?'a = 8] hd_conv_nth)
  qed
  show "readKind (word_of_nat (192 + m) # xs) =
       (if word_of_nat m > (word_of_nat (length xs) :: u64) then Inl ErrValueTooLarge
        else Inr (List, 1, word_of_nat m))"
  proof -
    define b where "b = (word_of_nat (192 + m) :: byte)"
    have t: "unat b = 192 + m" "b - 0xC0 = word_of_nat m" using byte_tag [OF b_def, of "0xC0"] assms by simp_all
    then have "\<not> b < 0x80" "\<not> b < 0xB8" "\<not> b < 0xC0" "b < 0xF8" using assms by (simp_all add: word_less_nat_alt)
    then show ?thesis
      unfolding b_def [symmetric] using u by (simp add: readKind_def Let_def t)
  qed
qed

lemma readKind_long_tags:
  assumes "56 \<le> unat s"
  shows
    "readKind (rlp_head 128 (unat s) @ xs) =
       (if s > word_of_nat (length (rlp_head 128 (unat s) @ xs)) - word_of_nat (headsize s) then Inl ErrValueTooLarge
        else Inr (String, word_of_nat (headsize s), s))"
    "readKind (rlp_head 192 (unat s) @ xs) =
       (if s > word_of_nat (length (rlp_head 192 (unat s) @ xs)) - word_of_nat (headsize s) then Inl ErrValueTooLarge
        else Inr (List, word_of_nat (headsize s), s))"
proof -
  let ?m = "length (be_bytes (unat s))"
  have m: "1 \<le> ?m" "?m \<le> 8" using length_be_bytes_u64 by auto
  have u: "ucast (word_of_nat ?m :: byte) + 1 = (word_of_nat (headsize s) :: u64)"
  proof -
    have "ucast (word_of_nat ?m :: byte) = (word_of_nat ?m :: u64)"
      using m by (simp add: word_unat_eq_iff unat_of_nat)
    then show ?thesis using assms by (simp add: headsize_def intsize_be word_less_nat_alt)
  qed
  note rs = readSize_complete [OF assms, of xs]
  show "readKind (rlp_head 128 (unat s) @ xs) =
       (if s > word_of_nat (length (rlp_head 128 (unat s) @ xs)) - word_of_nat (headsize s) then Inl ErrValueTooLarge
        else Inr (String, word_of_nat (headsize s), s))"
  proof -
    define b where "b = (word_of_nat (183 + ?m) :: byte)"
    have t: "unat b = 183 + ?m" "b - 0xB7 = word_of_nat ?m" using byte_tag [OF b_def, of "0xB7"] m by simp_all
    then have "\<not> b < 0x80" "\<not> b < 0xB8" "b < 0xC0" using m by (simp_all add: word_less_nat_alt)
    moreover have "rlp_head 128 (unat s) = b # be_bytes (unat s)" using assms by (simp add: rlp_head_def b_def)
    ultimately show ?thesis using u rs by (simp add: readKind_def Let_def t)
  qed
  show "readKind (rlp_head 192 (unat s) @ xs) =
       (if s > word_of_nat (length (rlp_head 192 (unat s) @ xs)) - word_of_nat (headsize s) then Inl ErrValueTooLarge
        else Inr (List, word_of_nat (headsize s), s))"
  proof -
    define b where "b = (word_of_nat (247 + ?m) :: byte)"
    have t: "unat b = 247 + ?m" "b - 0xF7 = word_of_nat ?m" using byte_tag [OF b_def, of "0xF7"] m by simp_all
    then have "\<not> b < 0x80" "\<not> b < 0xB8" "\<not> b < 0xC0" "\<not> b < 0xF8" using m by (simp_all add: word_less_nat_alt)
    moreover have "rlp_head 192 (unat s) = b # be_bytes (unat s)" using assms by (simp add: rlp_head_def b_def)
    ultimately show ?thesis using u rs by (simp add: readKind_def Let_def t)
  qed
qed

lemma length_frame:
  assumes "length c < 2 ^ 63"
  shows "length (frame k c) = unat (taglen k (word_of_nat (length c))) + length c"
proof -
  have "unat (word_of_nat (length c) :: u64) = length c" using assms by (rule unat_of_nat_u64)
  then have "headsize (word_of_nat (length c)) = length (rlp_head tag (length c))" for tag
    using headsize_head [of "word_of_nat (length c)" tag] by simp
  moreover have "unat (word_of_nat (headsize (word_of_nat (length c))) :: u64) = headsize (word_of_nat (length c))"
    using headsize_le(1) [of "word_of_nat (length c)"] by (intro unat_of_nat_u64) simp
  ultimately show ?thesis by (cases k) (simp_all add: frame_def rlp_list_def taglen_def)
qed

lemma readKind_complete:
  assumes ok: "frame_ok k c" and len: "length (frame k c @ r) < 2 ^ 63"
  shows "readKind (frame k c @ r) = Inr (k, taglen k (word_of_nat (length c)), word_of_nat (length c))"
proof -
  define cs where "cs = (word_of_nat (length c) :: u64)"
  define L where "L = length (frame k c @ r)"
  have n: "length c < 2 ^ 63" using len by (cases k) (simp_all add: frame_def rlp_list_def)
  then have cs: "unat cs = length c" unfolding cs_def by (rule unat_of_nat_u64)
  have fits: "\<not> cs > word_of_nat L - taglen k cs"
  proof -
    have "unat (word_of_nat L :: u64) = L" using len unfolding L_def by (rule unat_of_nat_u64)
    moreover have "L \<ge> unat (taglen k cs) + unat cs"
      using length_frame [OF n, of k] cs by (simp add: L_def cs_def)
    ultimately show ?thesis by (simp add: not_less word_le_nat_alt unat_sub_if')
  qed
  show ?thesis
  proof (cases k)
    case Byte
    then obtain b where b: "c = [b]" "unat b < 128"
      using ok by (cases c) (auto simp: frame_ok_def)
    have "\<not> (word_of_nat (length (b # r)) :: u64) < 1"
      using fits Byte b by (simp add: L_def frame_def taglen_def cs_def)
    with b Byte readKind_tags(1) [of 0 b r] show ?thesis by (simp add: frame_def taglen_def)
  next
    case String
    then have ok': "\<not> (length c = 1 \<and> unat (hd c) < 128)" using ok by (simp add: frame_ok_def)
    show ?thesis
    proof (cases "length c < 56")
      case True
      then have h: "rlp_head 128 (length c) = [word_of_nat (128 + length c)]" by (simp add: rlp_head_def)
      have t: "taglen String cs = 1" using True cs by (simp add: taglen_def headsize_def word_less_nat_alt)
      have "hd (c @ r) = hd c" if "length c = 1" using that by (cases c) auto
      with readKind_tags(2) [OF True, of "c @ r"] h String ok' fits show ?thesis
        by (auto simp: frame_def L_def t cs_def [symmetric])
    next
      case False
      with readKind_long_tags(1) [of cs "c @ r"] String fits cs show ?thesis
        by (simp add: frame_def L_def taglen_def flip: cs_def)
    qed
  next
    case List
    show ?thesis
    proof (cases "length c < 56")
      case True
      then have h: "rlp_head 192 (length c) = [word_of_nat (192 + length c)]" by (simp add: rlp_head_def)
      have t: "taglen List cs = 1" using True cs by (simp add: taglen_def headsize_def word_less_nat_alt)
      with readKind_tags(3) [OF True, of "c @ r"] h List fits show ?thesis
        by (auto simp: frame_def rlp_list_def L_def cs_def [symmetric])
    next
      case False
      with readKind_long_tags(2) [of cs "c @ r"] List fits cs show ?thesis
        by (simp add: frame_def rlp_list_def L_def taglen_def flip: cs_def)
    qed
  qed
qed

lemma Split_complete:
  assumes ok: "frame_ok k c" and len: "length (frame k c @ r) < 2 ^ 63"
  shows "Split (frame k c @ r) = Inr (k, c, r)"
proof -
  note rk = readKind_complete [OF assms]
  note bd = readKind_bounds [OF rk len]
  have n: "length c < 2 ^ 63" using len by (cases k) (simp_all add: frame_def rlp_list_def)
  have lf: "length (frame k c) = unat (taglen k (word_of_nat (length c))) + length c" using n by (rule length_frame)
  have "frame k c = take (unat (taglen k (word_of_nat (length c)))) (frame k c) @ c"
    using lf by (cases k) (simp_all add: frame_def rlp_list_def taglen_def)
  then have "drop (unat (taglen k (word_of_nat (length c)))) (frame k c) = c"
    by (metis append_take_drop_id same_append_eq)
  then show ?thesis
    using rk bd(2) lf unat_of_nat_u64 [OF n] by (simp add: Split_def)
qed

lemma Split_iff:
  assumes "length b < 2 ^ 63"
  shows "Split b = Inr (k, c, r) \<longleftrightarrow> b = frame k c @ r \<and> frame_ok k c"
  using assms Split_sound [OF _ assms] Split_complete by blast

lemma SplitString_iff:
  assumes "length b < 2 ^ 63"
  shows "SplitString b = Inr (c, r) \<longleftrightarrow> b = rlp_string c @ r"
proof
  assume "SplitString b = Inr (c, r)"
  then obtain k where "Split b = Inr (k, c, r)" "k \<noteq> List"
    by (auto simp: SplitString_def split: sum.splits if_splits)
  with Split_iff [OF assms, of k c r] show "b = rlp_string c @ r"
    by (cases k) (auto simp: frame_def frame_ok_def rlp_string_def)
next
  let ?k = "if length c = 1 \<and> unat (hd c) < 128 then Byte else String"
  assume "b = rlp_string c @ r"
  then have "b = frame ?k c @ r" "frame_ok ?k c" by (auto simp: frame_def frame_ok_def rlp_string_def)
  with Split_iff [OF assms] have "Split b = Inr (?k, c, r)" by blast
  then show "SplitString b = Inr (c, r)" by (simp add: SplitString_def)
qed

lemma SplitList_iff:
  assumes "length b < 2 ^ 63"
  shows "SplitList b = Inr (c, r) \<longleftrightarrow> b = rlp_list c @ r"
proof -
  have "SplitList b = Inr (c, r) \<longleftrightarrow> Split b = Inr (List, c, r)"
    by (auto simp: SplitList_def split: sum.splits)
  then show ?thesis using Split_iff [OF assms] by (simp add: frame_def frame_ok_def)
qed

lemma uint_bytes_be_val:
  "c = [] \<or> hd c \<noteq> 0 \<Longrightarrow> uint_bytes (be_val c) = c"
proof (cases "c = []")
  case False
  assume "c = [] \<or> hd c \<noteq> 0"
  with False have "be_bytes (be_val c) = c" "hd c \<noteq> 0" by (auto intro: be_bytes_be_val)
  moreover have "be_val c \<noteq> 0"
  proof
    assume "be_val c = 0"
    then have "be_bytes (be_val c) = [0]" by (simp add: be_bytes_last)
    with \<open>be_bytes (be_val c) = c\<close> \<open>hd c \<noteq> 0\<close> show False by (metis list.sel(1))
  qed
  ultimately show ?thesis by (simp add: uint_bytes_def)
qed (simp add: uint_bytes_def)

lemma hd_uint_bytes: "uint_bytes n \<noteq> [] \<Longrightarrow> hd (uint_bytes n) \<noteq> 0"
  by (simp add: uint_bytes_def be_bytes_hd split: if_splits)

lemma be_val_uint_bytes [simp]: "be_val (uint_bytes n) = n"
  by (simp add: uint_bytes_def)

lemma uint_bytes_Nil: "uint_bytes n = [] \<longleftrightarrow> n = 0"
  by (simp add: uint_bytes_def)

lemma length_uint_bytes_u64: "length (uint_bytes (unat (x :: u64))) \<le> 8"
  using length_be_bytes_u64(1) [of x] by (simp add: uint_bytes_def)

lemma be_val_two: "hd c \<noteq> 0 \<Longrightarrow> 2 \<le> length c \<Longrightarrow> 256 \<le> be_val c"
proof -
  assume a: "hd c \<noteq> 0" "2 \<le> length c"
  then obtain x xs where c: "c = x # xs" "xs \<noteq> []" by (cases c; cases "tl c") auto
  then have "1 \<le> unat x" using a by (simp add: Suc_leI unat_gt_0)
  moreover have "(256 :: nat) ^ 1 \<le> 256 ^ length xs" using c by (intro power_increasing) (auto simp: Suc_leI)
  ultimately have "1 * 256 \<le> unat x * 256 ^ length xs" by (intro mult_mono) simp_all
  then show ?thesis by (simp add: c be_val_Cons)
qed

lemma readSize_content:
  assumes "2 \<le> length c" "length c \<le> 8"
  shows "readSize c (word_of_nat (length c)) = Inr x \<longleftrightarrow> c = uint_bytes (unat x)"
proof -
  have l: "unat (word_of_nat (length c) :: byte) = length c" using assms by simp
  have "(1 :: byte) \<le> word_of_nat (length c)" "word_of_nat (length c) \<le> (8 :: byte)"
    using assms l by (simp_all add: word_le_nat_alt)
  note rs = readSize_be [OF this, of c]
  have ge: "hd c \<noteq> 0 \<Longrightarrow> \<not> be_word c < 56"
    using be_val_two [of c] assms by (simp add: word_less_nat_alt unat_be_word)
  have "readSize c (word_of_nat (length c)) = Inr x \<longleftrightarrow> hd c \<noteq> 0 \<and> x = be_word c"
    using rs l ge by (auto simp: Let_def split: if_splits)
  also have "\<dots> \<longleftrightarrow> c = uint_bytes (unat x)"
  proof
    assume "hd c \<noteq> 0 \<and> x = be_word c"
    then show "c = uint_bytes (unat x)" using assms by (simp add: unat_be_word uint_bytes_be_val)
  next
    assume c: "c = uint_bytes (unat x)"
    moreover have "c \<noteq> []" using assms by auto
    ultimately have "hd c \<noteq> 0" using hd_uint_bytes [of "unat x"] by simp
    then show "hd c \<noteq> 0 \<and> x = be_word c" using c by (simp add: be_word_val)
  qed
  finally show ?thesis .
qed

lemma SplitUint64_cases:
  "SplitUint64 b = Inr (x, rest) \<longleftrightarrow> SplitString b = Inr (uint_bytes (unat x), rest)"
proof (cases "SplitString b")
  case (Inr p)
  obtain c r where p: "p = (c, r)" by fastforce
  consider "c = []" | y where "c = [y]" | "length c > 8" | "2 \<le> length c" "length c \<le> 8"
    by (cases c; cases "tl c"; cases "length c > 8") auto
  then show ?thesis
  proof cases
    case 1
    have "[] = uint_bytes (unat x) \<longleftrightarrow> x = 0" by (simp add: uint_bytes_def unat_eq_zero)
    with 1 show ?thesis using Inr p by (auto simp: SplitUint64_def)
  next
    case 2
    have "[y] = uint_bytes (unat x) \<longleftrightarrow> unat x = unat y \<and> unat y \<noteq> 0"
    proof
      assume a: "[y] = uint_bytes (unat x)"
      then have "be_val [y] = unat x" by simp
      moreover have "unat x \<noteq> 0" using a by (auto simp: uint_bytes_def split: if_splits)
      ultimately show "unat x = unat y \<and> unat y \<noteq> 0" by simp
    qed (simp add: uint_bytes_def be_bytes_last)
    then have "[y] = uint_bytes (unat x) \<longleftrightarrow> y \<noteq> 0 \<and> x = ucast y"
      by (metis unat_ucast_up unat_eq_zero unsigned_word_eqI)
    then show ?thesis using Inr p 2 by (auto simp: SplitUint64_def)
  next
    case 3
    then have "c \<noteq> uint_bytes (unat x)" using length_uint_bytes_u64 [of x] by auto
    then show ?thesis using Inr p 3 by (auto simp: SplitUint64_def)
  next
    case 4
    then show ?thesis using Inr p readSize_content [OF 4, of x]
      by (auto simp: SplitUint64_def split: sum.splits)
  qed
qed (simp add: SplitUint64_def)

subsection \<open>Properties\<close>

text \<open>
  C16: \<^verbatim>\<open>Split\<close> accepts exactly the canonical encodings: it returns a kind, a content and
  a rest precisely when the input is the one frame of that kind with that content, followed by the
  rest. No other input is accepted, and none is read in two ways.
\<close>

theorem Split_exact:
  assumes "length b < 2 ^ 63"
  shows "Split b = Inr (k, content, rest) \<longleftrightarrow> b = frame k content @ rest \<and> frame_ok k content"
  using assms by (rule Split_iff)

theorem Split_exact_witness:
  "Split [0x83, 100, 111, 103, 7] = Inr (String, [100, 111, 103], [7]) \<longleftrightarrow>
     [0x83, 100, 111, 103, 7] = frame String [100, 111, 103] @ [7] \<and> frame_ok String [100, 111, 103]"
  by (rule Split_exact) simp

text \<open>
  C17: \<^verbatim>\<open>SplitUint64\<close> is the exact inverse of \<^verbatim>\<open>AppendUint64\<close>: it returns an
  integer and a rest precisely when the input is what \<^verbatim>\<open>AppendUint64\<close> writes for that integer,
  followed by the rest. Leading zeros, long forms of short integers and integers over 64 bits
  are refused.
\<close>

theorem SplitUint64_exact:
  assumes "length b < 2 ^ 63"
  shows "SplitUint64 b = Inr (x, rest) \<longleftrightarrow> b = AppendUint64 [] x @ rest"
  using SplitString_iff [OF assms] by (simp add: SplitUint64_cases AppendUint64_ref)

theorem SplitUint64_exact_witness:
  "SplitUint64 [0x82, 4, 0, 9] = Inr (1024, [9]) \<longleftrightarrow> [0x82, 4, 0, 9] = AppendUint64 [] 1024 @ [9]"
  by (rule SplitUint64_exact) simp

lemma CountValues_loop_spec:
  assumes "length b < 2 ^ 63"
  shows "\<exists>res. CountValues_loop i b = Some res \<and>
    (\<forall>n. res = Inr n \<longleftrightarrow>
       (\<exists>fs. n = i + length fs \<and> (\<forall>(k, c) \<in> set fs. frame_ok k c) \<and> b = concat (map (\<lambda>(k, c). frame k c) fs)))"
  using assms
proof (induction "length b" arbitrary: b i rule: less_induct)
  case less
  show ?case
  proof (cases "b = []")
    case True
    have "frame k c \<noteq> []" if "frame_ok k c" for k c
      using that by (cases k) (auto simp: frame_def frame_ok_def)
    then have "(\<forall>(k, c) \<in> set fs. frame_ok k c) \<and> [] = concat (map (\<lambda>(k, c). frame k c) fs) \<longleftrightarrow> fs = []" for fs
      by (cases fs) auto
    with True show ?thesis by (subst CountValues_loop.simps) auto
  next
    case False
    show ?thesis
    proof (cases "readKind b")
      case (Inl e)
      have "\<not> (\<exists>k c r. b = frame k c @ r \<and> frame_ok k c)"
      proof clarify
        fix k c r
        assume "b = frame k c @ r" "frame_ok k c"
        with readKind_complete [of k c r] less.prems Inl show False by simp
      qed
      then have "\<not> ((\<forall>(k, c) \<in> set fs. frame_ok k c) \<and> b = concat (map (\<lambda>(k, c). frame k c) fs))" for fs
        using False by (cases fs) auto
      with False Inl show ?thesis by (subst CountValues_loop.simps) auto
    next
      case (Inr p)
      then obtain k ts cs where rk: "readKind b = Inr (k, ts, cs)" by (cases p) auto
      note bd = readKind_bounds [OF rk less.prems]
      let ?r = "drop (unat (ts + cs)) b"
      have "length ?r < length b" "length ?r < 2 ^ 63" using bd(3) False less.prems by simp_all
      from less.hyps [OF this, of "i + 1"] obtain res where res: "CountValues_loop (i + 1) ?r = Some res"
        and iff: "\<And>n. res = Inr n \<longleftrightarrow> (\<exists>fs. n = i + 1 + length fs \<and> (\<forall>(k, c) \<in> set fs. frame_ok k c) \<and>
              ?r = concat (map (\<lambda>(k, c). frame k c) fs))" by blast
      obtain c where sp: "Split b = Inr (k, c, ?r)" by (auto simp: Split_def rk)
      have uniq: "(\<forall>(k, c) \<in> set fs. frame_ok k c) \<and> b = concat (map (\<lambda>(k, c). frame k c) fs) \<longleftrightarrow>
          (\<exists>fs'. fs = (k, c) # fs' \<and> (\<forall>(k, c) \<in> set fs'. frame_ok k c) \<and> ?r = concat (map (\<lambda>(k, c). frame k c) fs'))"
        for fs
      proof (cases fs)
        case Nil
        then show ?thesis using False by simp
      next
        case (Cons f fs')
        obtain k' c' where f: "f = (k', c')" by fastforce
        let ?r' = "concat (map (\<lambda>(k, c). frame k c) fs')"
        have "b = frame k' c' @ ?r' \<and> frame_ok k' c' \<longleftrightarrow> k = k' \<and> c = c' \<and> ?r = ?r'"
          using Split_iff [OF less.prems, of k' c' ?r'] sp by simp
        then show ?thesis using Cons f by auto
      qed
      have "CountValues_loop i b = Some res" using False rk res by (subst CountValues_loop.simps) simp
      moreover have "res = Inr n \<longleftrightarrow> (\<exists>fs. n = i + length fs \<and> (\<forall>(k, c) \<in> set fs. frame_ok k c) \<and>
              b = concat (map (\<lambda>(k, c). frame k c) fs))" for n
      proof -
        let ?P = "\<lambda>fs. (\<forall>(k, c) \<in> set fs. frame_ok k c) \<and> ?r = concat (map (\<lambda>(k, c). frame k c) fs)"
        have "(\<exists>fs. n = i + length fs \<and> (\<exists>fs'. fs = (k, c) # fs' \<and> P fs')) \<longleftrightarrow>
              (\<exists>fs'. n = i + 1 + length fs' \<and> P fs')" for P by force
        from this [of ?P] show ?thesis unfolding iff uniq by (rule sym)
      qed
      ultimately show ?thesis by blast
    qed
  qed
qed

text \<open>
  C18: \<^verbatim>\<open>CountValues\<close> always returns, and it returns \<open>n\<close> precisely when the input is a
  sequence of \<open>n\<close> canonical values.
\<close>

theorem CountValues_exact:
  assumes "length b < 2 ^ 63"
  shows "\<exists>res. CountValues b = Some res \<and>
    (\<forall>n. res = Inr n \<longleftrightarrow>
       (\<exists>fs. n = length fs \<and> (\<forall>(k, c) \<in> set fs. frame_ok k c) \<and> b = concat (map (\<lambda>(k, c). frame k c) fs)))"
  using CountValues_loop_spec [OF assms, of 0] by (simp add: CountValues_def)

theorem CountValues_exact_witness:
  "\<exists>res. CountValues [7, 0x82, 1, 2] = Some res \<and>
    (\<forall>n. res = Inr n \<longleftrightarrow>
       (\<exists>fs. n = length fs \<and> (\<forall>(k, c) \<in> set fs. frame_ok k c) \<and> [7, 0x82, 1, 2] = concat (map (\<lambda>(k, c). frame k c) fs)))"
  by (rule CountValues_exact) simp

end
