(* ===== verification/Rlp_Encode.thy ===== *)
theory Rlp_Encode
  imports Rlp_Raw
begin

text \<open>
  The RLP encoder: the buffer of \<^verbatim>\<open>rlp/encbuffer.go\<close>, which collects string data and list
  headers separately and merges them at the end, and the type-directed writers of
  \<^verbatim>\<open>rlp/encode.go\<close>, over the Go types the package can serialise.

  \<open>emits w w' e\<close> says that between the buffers \<open>w\<close> and \<open>w'\<close> the output \<open>e\<close>
  was added; every writer emits the reference encoding of its value.
\<close>

subsection \<open>The encoder buffer\<close>

record listhead =
  lh_offset :: nat
  lh_size :: nat

record encBuffer =
  eb_str :: bytes
  eb_lheads :: "listhead list"
  eb_lhsize :: nat

definition eb_reset :: encBuffer where
  "eb_reset = \<lparr>eb_str = [], eb_lheads = [], eb_lhsize = 0\<rparr>"

definition eb_size :: "encBuffer \<Rightarrow> nat" where
  "eb_size buf = length (eb_str buf) + eb_lhsize buf"

definition head_encode :: "listhead \<Rightarrow> bytes" where
  "head_encode head = puthead 0xC0 0xF7 (word_of_nat (lh_size head))"

text \<open>The loop of \<^verbatim>\<open>copyTo\<close>: the string data before each header, the header, and the rest.\<close>

fun copy_heads :: "bytes \<Rightarrow> nat \<Rightarrow> listhead list \<Rightarrow> bytes" where
  "copy_heads str strpos [] = drop strpos str"
| "copy_heads str strpos (head # heads) =
     (let piece = drop strpos (take (lh_offset head) str)
      in piece @ head_encode head @ copy_heads str (strpos + length piece) heads)"

definition copyTo :: "encBuffer \<Rightarrow> bytes" where
  "copyTo w = copy_heads (eb_str w) 0 (eb_lheads w)"

text \<open>\<^verbatim>\<open>makeBytes\<close> copies into a zeroed slice of \<^verbatim>\<open>size()\<close> bytes.\<close>

definition makeBytes :: "encBuffer \<Rightarrow> bytes" where
  "makeBytes w = take (eb_size w) (copyTo w @ replicate (eb_size w) 0)"

definition eb_append :: "encBuffer \<Rightarrow> bytes \<Rightarrow> encBuffer" where
  "eb_append buf b = buf\<lparr>eb_str := eb_str buf @ b\<rparr>"

definition eb_writeBool :: "encBuffer \<Rightarrow> bool \<Rightarrow> encBuffer" where
  "eb_writeBool buf b = (if b then eb_append buf [0x01] else eb_append buf [0x80])"

definition eb_writeUint64 :: "encBuffer \<Rightarrow> u64 \<Rightarrow> encBuffer" where
  "eb_writeUint64 buf i =
     (if i = 0 then eb_append buf [0x80]
      else if i < 128 then eb_append buf [ucast i]
      else let s = putint i in eb_append buf ((0x80 + word_of_nat (length s)) # s))"

definition encodeStringHeader :: "encBuffer \<Rightarrow> nat \<Rightarrow> encBuffer" where
  "encodeStringHeader buf sz =
     (if sz < 56 then eb_append buf [0x80 + word_of_nat sz]
      else let s = putint (word_of_nat sz) in eb_append buf ((0xB7 + word_of_nat (length s)) # s))"

definition eb_writeBytes :: "encBuffer \<Rightarrow> bytes \<Rightarrow> encBuffer" where
  "eb_writeBytes buf b =
     (if length b = 1 \<and> b ! 0 \<le> 0x7F then eb_append buf [b ! 0]
      else eb_append (encodeStringHeader buf (length b)) b)"

definition eb_list :: "encBuffer \<Rightarrow> encBuffer \<times> nat" where
  "eb_list buf =
     (let lheads = eb_lheads buf @ [\<lparr>lh_offset = length (eb_str buf), lh_size = eb_lhsize buf\<rparr>]
      in (buf\<lparr>eb_lheads := lheads\<rparr>, length lheads - 1))"

definition eb_listEnd :: "encBuffer \<Rightarrow> nat \<Rightarrow> encBuffer" where
  "eb_listEnd buf index =
     (let lh = eb_lheads buf ! index;
          sz = eb_size buf - lh_offset lh - lh_size lh
      in buf\<lparr>eb_lheads := (eb_lheads buf)[index := lh\<lparr>lh_size := sz\<rparr>],
             eb_lhsize := eb_lhsize buf + (if sz < 56 then 1 else 1 + intsize (word_of_nat sz))\<rparr>)"

subsection \<open>Big integers\<close>

text \<open>\<^verbatim>\<open>BitLen\<close> and \<^verbatim>\<open>Bits\<close> of \<^verbatim>\<open>math/big\<close>: the 64-bit words, least significant first.\<close>

fun BitLen :: "nat \<Rightarrow> nat" where
  "BitLen n = (if n = 0 then 0 else Suc (BitLen (n div 2)))"

declare BitLen.simps [simp del]

fun big_Bits :: "nat \<Rightarrow> u64 list" where
  "big_Bits n = (if n = 0 then [] else word_of_nat n # big_Bits (n div 2 ^ 64))"

declare big_Bits.simps [simp del]

text \<open>The two loops that fill the buffer from its end; \<open>acc\<close> holds the bytes from \<open>index\<close> on.\<close>

function fill_word :: "nat \<Rightarrow> nat \<Rightarrow> u64 \<Rightarrow> bytes \<Rightarrow> nat \<times> bytes" where
  "fill_word j index d acc =
     (if j < 8 \<and> index > 0 then fill_word (j + 1) (index - 1) (drop_bit 8 d) (ucast d # acc)
      else (index, acc))"
  by auto
termination by (relation "measure (\<lambda>(j, index, d, acc). 8 - j)") auto

declare fill_word.simps [simp del]

fun fill_words :: "nat \<Rightarrow> u64 list \<Rightarrow> bytes \<Rightarrow> nat \<times> bytes" where
  "fill_words index [] acc = (index, acc)"
| "fill_words index (d # ds) acc = (let (index', acc') = fill_word 0 index d acc in fill_words index' ds acc')"

definition big_length :: "nat \<Rightarrow> nat" where
  "big_length bitlen = nat (drop_bit 3 ((int bitlen + 7) AND (- 8)))"

definition eb_writeBigInt :: "encBuffer \<Rightarrow> nat \<Rightarrow> encBuffer" where
  "eb_writeBigInt w i =
     (let bitlen = BitLen i
      in if bitlen \<le> 64 then eb_writeUint64 w (word_of_nat i)
         else
           let len = big_length bitlen;
               (index, acc) = fill_words len (big_Bits i) []
           in eb_append (encodeStringHeader w len) (replicate index 0 @ acc))"

subsection \<open>Go types and values\<close>

text \<open>
  The struct tags of \<^verbatim>\<open>rlp/internal/rlpstruct\<close> and the Go types the writers and decoders
  distinguish. \<open>TByteSlice\<close> and \<open>TByteArray\<close> are slices and arrays of bytes, \<open>TBig\<close> is
  \<^verbatim>\<open>*big.Int\<close>, \<open>TIface\<close> the empty interface. A slice value records whether it is nil,
  which \<^verbatim>\<open>IsZero\<close> observes.
\<close>

record tags =
  NilOK :: bool
  NilKind :: Kind
  Optional :: bool
  Tail :: bool

definition noTags :: tags where
  "noTags = \<lparr>NilOK = False, NilKind = String, Optional = False, Tail = False\<rparr>"

datatype rtype =
    TRaw | TBig | TUint nat | TBool | TString | TByteSlice | TByteArray nat
  | TSlice rtype | TArray nat rtype | TStruct "field list" | TPtr rtype | TIface
  and field = Field (f_tags: tags) (f_type: rtype)

datatype rval =
    VRaw bytes | VBig "int option" | VUint u64 | VBool bool | VBytes bool bytes
  | VSlice bool "rval list" | VArray "rval list" | VStruct "rval list" | VPtr "rval option"
  | VIface "item option"

text \<open>\<^verbatim>\<open>reflect.Value.IsZero\<close>; the boolean of \<open>VBytes\<close> and \<open>VSlice\<close> says
  nil, and an empty \<^verbatim>\<open>RawValue\<close> is nil.\<close>

lemma size_field_type: "f \<in> set fs \<Longrightarrow> size (f_type f) < size (TStruct fs)"
proof (induction fs)
  case (Cons g fs)
  then show ?case by (cases g) auto
qed simp

function IsZero :: "rtype \<Rightarrow> rval \<Rightarrow> bool" where
  "IsZero TRaw = (\<lambda>v. v = VRaw [])"
| "IsZero TBig = (\<lambda>v. v = VBig None)"
| "IsZero (TUint bits) = (\<lambda>v. v = VUint 0)"
| "IsZero TBool = (\<lambda>v. v = VBool False)"
| "IsZero TString = (\<lambda>v. case v of VBytes isnil b \<Rightarrow> b = [] | _ \<Rightarrow> False)"
| "IsZero TByteSlice = (\<lambda>v. case v of VBytes isnil b \<Rightarrow> isnil | _ \<Rightarrow> False)"
| "IsZero (TByteArray n) = (\<lambda>v. case v of VBytes isnil b \<Rightarrow> list_all (\<lambda>x. x = 0) b | _ \<Rightarrow> False)"
| "IsZero (TSlice t) = (\<lambda>v. case v of VSlice isnil vs \<Rightarrow> isnil | _ \<Rightarrow> False)"
| "IsZero (TArray n t) = (\<lambda>v. case v of VArray vs \<Rightarrow> list_all (IsZero t) vs | _ \<Rightarrow> False)"
| "IsZero (TStruct fs) =
     (\<lambda>v. case v of
        VStruct vs \<Rightarrow> list_all2 (\<lambda>z x. z x) (map (\<lambda>f. IsZero (f_type f)) fs) vs
      | _ \<Rightarrow> False)"
| "IsZero (TPtr t) = (\<lambda>v. v = VPtr None)"
| "IsZero TIface = (\<lambda>v. v = VIface None)"
  by pat_completeness auto
termination
  by (relation "measure size") (auto dest: size_field_type)

definition DefaultNilValue :: "rtype \<Rightarrow> Kind" where
  "DefaultNilValue t =
     (case t of TUint _ \<Rightarrow> String | TString \<Rightarrow> String | TBool \<Rightarrow> String
      | TByteSlice \<Rightarrow> String | TByteArray _ \<Rightarrow> String | TRaw \<Rightarrow> String | _ \<Rightarrow> List)"

definition typeNilKind :: "rtype \<Rightarrow> tags \<Rightarrow> Kind" where
  "typeNilKind t tg = (if NilOK tg then NilKind tg else DefaultNilValue t)"

subsection \<open>The writers\<close>

type_synonym 'v writer = "'v \<Rightarrow> encBuffer \<Rightarrow> rlpError + encBuffer"

text \<open>A loop of writer calls that stops at the first error.\<close>

fun write_all :: "'v writer \<Rightarrow> 'v list \<Rightarrow> encBuffer \<Rightarrow> rlpError + encBuffer" where
  "write_all wr [] w = Inr w"
| "write_all wr (v # vs) w = (case wr v w of Inl e \<Rightarrow> Inl e | Inr w' \<Rightarrow> write_all wr vs w')"

definition in_list :: "(encBuffer \<Rightarrow> rlpError + encBuffer) \<Rightarrow> encBuffer \<Rightarrow> rlpError + encBuffer" where
  "in_list body w =
     (let (w1, index) = eb_list w
      in case body w1 of Inl e \<Rightarrow> Inl e | Inr w2 \<Rightarrow> Inr (eb_listEnd w2 index))"

definition writeBigIntPtr :: "int option \<Rightarrow> encBuffer \<Rightarrow> rlpError + encBuffer" where
  "writeBigIntPtr p w =
     (case p of
        None \<Rightarrow> Inr (eb_append w [0x80])
      | Some i \<Rightarrow> if i < 0 then Inl ErrNegativeBigInt else Inr (eb_writeBigInt w (nat i)))"

definition byteArrayWriter :: "nat \<Rightarrow> bytes \<Rightarrow> encBuffer \<Rightarrow> encBuffer" where
  "byteArrayWriter len b w =
     (if len = 0 then eb_append w [0x80]
      else if len = 1 then
        (if b ! 0 \<le> 0x7f then eb_append w [b ! 0] else eb_append w [0x81, b ! 0])
      else eb_append (encodeStringHeader w (length b)) b)"

fun writeItem :: "item \<Rightarrow> encBuffer \<Rightarrow> encBuffer" where
  "writeItem (Str b) w = eb_writeBytes w b"
| "writeItem (Lst xs) w =
     (if xs = [] then eb_append w [0xC0]
      else let (w1, index) = eb_list w in eb_listEnd (fold writeItem xs w1) index)"

definition sliceWriter :: "tags \<Rightarrow> 'v writer \<Rightarrow> 'v list \<Rightarrow> encBuffer \<Rightarrow> rlpError + encBuffer" where
  "sliceWriter tg elem vs w =
     (if Tail tg then write_all elem vs w
      else if vs = [] then Inr (eb_append w [0xC0])
      else in_list (write_all elem vs) w)"

definition firstOptionalField :: "field list \<Rightarrow> nat" where
  "firstOptionalField fs = length (takeWhile (\<lambda>f. \<not> Optional (f_tags f)) fs)"

text \<open>
  The loop that drops trailing zero fields, as the number of fields to write
  (\<^verbatim>\<open>lastField + 1\<close>).
\<close>

fun lastField_loop :: "nat \<Rightarrow> field list \<Rightarrow> rval list \<Rightarrow> nat \<Rightarrow> nat" where
  "lastField_loop first fs vs 0 = 0"
| "lastField_loop first fs vs (Suc lastField) =
     (if lastField \<ge> first then
        (if \<not> IsZero (f_type (fs ! lastField)) (vs ! lastField) then Suc lastField else lastField_loop first fs vs lastField)
      else Suc lastField)"

definition structWriter ::
  "field list \<Rightarrow> rval writer list \<Rightarrow> rval list \<Rightarrow> encBuffer \<Rightarrow> rlpError + encBuffer" where
  "structWriter fs writers vs w =
     (let first = firstOptionalField fs;
          n = (if first = length fs then length fs else lastField_loop first fs vs (length fs))
      in in_list (write_all (\<lambda>(wr, v). wr v) (take n (zip writers vs))) w)"

text \<open>
  \<^verbatim>\<open>makeWriter\<close>: the writer of a type under its tags. A value of another type cannot reach a
  writer in Go; that case is \<open>typeMismatch\<close>.
\<close>

function makeWriter :: "tags \<Rightarrow> rtype \<Rightarrow> rval writer" where
  "makeWriter tg TRaw = (\<lambda>v w. case v of VRaw b \<Rightarrow> Inr (eb_append w b) | _ \<Rightarrow> Inl typeMismatch)"
| "makeWriter tg TBig = (\<lambda>v w. case v of VBig p \<Rightarrow> writeBigIntPtr p w | _ \<Rightarrow> Inl typeMismatch)"
| "makeWriter tg (TUint bits) = (\<lambda>v w. case v of VUint n \<Rightarrow> Inr (eb_writeUint64 w n) | _ \<Rightarrow> Inl typeMismatch)"
| "makeWriter tg TBool = (\<lambda>v w. case v of VBool b \<Rightarrow> Inr (eb_writeBool w b) | _ \<Rightarrow> Inl typeMismatch)"
| "makeWriter tg TString = (\<lambda>v w. case v of VBytes _ b \<Rightarrow> Inr (eb_writeBytes w b) | _ \<Rightarrow> Inl typeMismatch)"
| "makeWriter tg TByteSlice = (\<lambda>v w. case v of VBytes _ b \<Rightarrow> Inr (eb_writeBytes w b) | _ \<Rightarrow> Inl typeMismatch)"
| "makeWriter tg (TByteArray n) =
     (\<lambda>v w. case v of VBytes _ b \<Rightarrow> Inr (byteArrayWriter n b w) | _ \<Rightarrow> Inl typeMismatch)"
| "makeWriter tg (TSlice t) =
     (\<lambda>v w. case v of VSlice _ vs \<Rightarrow> sliceWriter tg (makeWriter noTags t) vs w | _ \<Rightarrow> Inl typeMismatch)"
| "makeWriter tg (TArray n t) =
     (\<lambda>v w. case v of VArray vs \<Rightarrow> sliceWriter tg (makeWriter noTags t) vs w | _ \<Rightarrow> Inl typeMismatch)"
| "makeWriter tg (TStruct fs) =
     (\<lambda>v w. case v of
        VStruct vs \<Rightarrow> structWriter fs (map (\<lambda>f. makeWriter (f_tags f) (f_type f)) fs) vs w
      | _ \<Rightarrow> Inl typeMismatch)"
| "makeWriter tg (TPtr t) =
     (\<lambda>v w. case v of
        VPtr (Some v') \<Rightarrow> makeWriter noTags t v' w
      | VPtr None \<Rightarrow> Inr (eb_append w [if typeNilKind t tg = String then 0x80 else 0xC0])
      | _ \<Rightarrow> Inl typeMismatch)"
| "makeWriter tg TIface =
     (\<lambda>v w. case v of
        VIface None \<Rightarrow> Inr (eb_append w [0xC0])
      | VIface (Some it) \<Rightarrow> Inr (writeItem it w)
      | _ \<Rightarrow> Inl typeMismatch)"
  by pat_completeness auto

termination
  by (relation "measure (\<lambda>(tg, t). size t)") (auto dest: size_field_type)

definition EncodeToBytes :: "rtype \<Rightarrow> rval \<Rightarrow> rlpError + bytes" where
  "EncodeToBytes t v = map_sum id makeBytes (makeWriter noTags t v eb_reset)"

subsection \<open>What is emitted between two buffers\<close>

fun render :: "nat \<Rightarrow> bytes \<Rightarrow> listhead list \<Rightarrow> bytes" where
  "render base s [] = s"
| "render base s (h # hs) =
     take (lh_offset h - base) s @ head_encode h @ render (lh_offset h) (drop (lh_offset h - base) s) hs"

definition heads_within :: "nat \<Rightarrow> nat \<Rightarrow> listhead list \<Rightarrow> bool" where
  "heads_within lo hi hs \<longleftrightarrow> sorted (map lh_offset hs) \<and> (\<forall>h \<in> set hs. lo \<le> lh_offset h \<and> lh_offset h \<le> hi)"

definition emits :: "encBuffer \<Rightarrow> encBuffer \<Rightarrow> bytes \<Rightarrow> bool" where
  "emits w w' e \<longleftrightarrow>
     (\<exists>s hs. eb_str w' = eb_str w @ s \<and> eb_lheads w' = eb_lheads w @ hs \<and>
        heads_within (length (eb_str w)) (length (eb_str w) + length s) hs \<and>
        render (length (eb_str w)) s hs = e \<and> eb_lhsize w' + length s = eb_lhsize w + length e)"

lemma copy_heads_render:
  "heads_within strpos (length str) hs \<Longrightarrow> strpos \<le> length str \<Longrightarrow>
   copy_heads str strpos hs = render strpos (drop strpos str) hs"
proof (induction hs arbitrary: strpos)
  case (Cons h hs)
  have off: "strpos \<le> lh_offset h" "lh_offset h \<le> length str"
    and within: "heads_within (lh_offset h) (length str) hs"
    using Cons.prems by (auto simp: heads_within_def)
  have "drop (lh_offset h - strpos) (drop strpos str) = drop (lh_offset h) str" using off by simp
  then show ?case using Cons.IH [OF within off(2)] off by (simp add: drop_take Let_def)
qed simp

lemma render_append:
  "heads_within base (base + length s) hs \<Longrightarrow> \<forall>h \<in> set hs'. base + length s \<le> lh_offset h \<Longrightarrow>
   render base (s @ s') (hs @ hs') = render base s hs @ render (base + length s) s' hs'"
proof (induction hs arbitrary: base s)
  case Nil
  then show ?case by (cases hs') auto
next
  case (Cons h hs)
  let ?k = "lh_offset h - base"
  have off: "base \<le> lh_offset h" "?k \<le> length s" using Cons.prems by (auto simp: heads_within_def)
  then have eq: "lh_offset h + length (drop ?k s) = base + length s" by simp
  have "heads_within (lh_offset h) (lh_offset h + length (drop ?k s)) hs"
    unfolding eq using Cons.prems(1) by (auto simp: heads_within_def)
  from Cons.IH [OF this] Cons.prems(2) have
    "render (lh_offset h) (drop ?k s @ s') (hs @ hs') =
     render (lh_offset h) (drop ?k s) hs @ render (base + length s) s' hs'"
    unfolding eq by blast
  then show ?case using off by simp
qed

lemma emits_refl: "emits w w []"
  unfolding emits_def by (rule exI [of _ "[]"], rule exI [of _ "[]"]) (simp add: heads_within_def)

lemma emits_trans:
  assumes "emits w w1 e1" "emits w1 w2 e2"
  shows "emits w w2 (e1 @ e2)"
proof -
  let ?b = "length (eb_str w)"
  from assms(1) obtain s hs where 1: "eb_str w1 = eb_str w @ s" "eb_lheads w1 = eb_lheads w @ hs"
    "heads_within ?b (?b + length s) hs" "render ?b s hs = e1" "eb_lhsize w1 + length s = eb_lhsize w + length e1"
    by (auto simp: emits_def)
  from assms(2) 1 obtain s' hs' where 2: "eb_str w2 = eb_str w @ s @ s'" "eb_lheads w2 = eb_lheads w @ hs @ hs'"
    "heads_within (?b + length s) (?b + length s + length s') hs'" "render (?b + length s) s' hs' = e2"
    "eb_lhsize w2 + length s' = eb_lhsize w1 + length e2"
    by (auto simp: emits_def)
  have "heads_within ?b (?b + length (s @ s')) (hs @ hs')"
    using 1(3) 2(3) by (fastforce simp: heads_within_def sorted_append)
  moreover have "render ?b (s @ s') (hs @ hs') = e1 @ e2"
    using render_append [OF 1(3), of hs' s'] 1(4) 2(3,4) by (auto simp: heads_within_def)
  ultimately show ?thesis
    unfolding emits_def using 1(5) 2(1,2,5)
    by (intro exI [of _ "s @ s'"] exI [of _ "hs @ hs'"]) simp
qed

lemma emits_append: "emits w (eb_append w b) b"
  unfolding emits_def eb_append_def
  by (rule exI [of _ b], rule exI [of _ "[]"]) (simp add: heads_within_def)

lemma emits_list:
  assumes "eb_list w = (w1, index)" "emits w1 w2 e" "length e < 2 ^ 63"
  shows "emits w (eb_listEnd w2 index) (rlp_list e)"
proof -
  let ?b = "length (eb_str w)"
  let ?h = "\<lparr>lh_offset = ?b, lh_size = eb_lhsize w\<rparr>"
  have w1: "eb_str w1 = eb_str w" "eb_lheads w1 = eb_lheads w @ [?h]" "eb_lhsize w1 = eb_lhsize w"
    and index: "index = length (eb_lheads w)"
    using assms(1) by (auto simp: eb_list_def Let_def)
  from assms(2) w1 obtain s hs where 2: "eb_str w2 = eb_str w @ s" "eb_lheads w2 = eb_lheads w @ ?h # hs"
    "heads_within ?b (?b + length s) hs" "render ?b s hs = e" "eb_lhsize w2 + length s = eb_lhsize w + length e"
    by (auto simp: emits_def)
  have e: "unat (word_of_nat (length e) :: u64) = length e" using assms(3) by (rule unat_of_nat_u64)
  let ?h' = "?h\<lparr>lh_size := length e\<rparr>"
  have sz: "eb_size w2 - ?b - eb_lhsize w = length e" using 2(1,5) by (simp add: eb_size_def)
  have enc: "head_encode ?h' = rlp_head 192 (length e)" by (simp add: head_encode_def puthead_list e)
  have w3: "eb_listEnd w2 index = w2\<lparr>eb_lheads := eb_lheads w @ ?h' # hs,
      eb_lhsize := eb_lhsize w2 + length (rlp_head 192 (length e))\<rparr>"
    using sz by (simp add: eb_listEnd_def Let_def 2(2) index nth_append rlp_head_def intsize_be e)
  have "heads_within ?b (?b + length s) (?h' # hs)" using 2(3) by (auto simp: heads_within_def)
  moreover have "render ?b s (?h' # hs) = rlp_list e" using 2(4) enc by (simp add: rlp_list_def)
  ultimately show ?thesis
    unfolding emits_def using 2(1,5) w3
    by (intro exI [of _ s] exI [of _ "?h' # hs"]) (simp add: rlp_list_def)
qed

lemma emits_in_list:
  assumes "\<And>w1. \<exists>w2. body w1 = Inr w2 \<and> emits w1 w2 e" "length e < 2 ^ 63"
  shows "\<exists>w'. in_list body w = Inr w' \<and> emits w w' (rlp_list e)"
proof -
  obtain w1 index where l: "eb_list w = (w1, index)" by fastforce
  from assms(1) [of w1] obtain w2 where "body w1 = Inr w2" "emits w1 w2 e" by blast
  with emits_list [OF l _ assms(2)] l show ?thesis by (auto simp: in_list_def)
qed

text \<open>A finished buffer: its size and its bytes.\<close>

lemma emits_makeBytes:
  assumes "emits eb_reset w e"
  shows "eb_size w = length e" "copyTo w = e" "makeBytes w = e"
proof -
  from assms obtain s hs where w: "eb_str w = s" "eb_lheads w = hs" "heads_within 0 (length s) hs"
    "render 0 s hs = e" "eb_lhsize w + length s = length e"
    by (auto simp: emits_def eb_reset_def)
  show 1: "eb_size w = length e" using w(1,5) by (simp add: eb_size_def)
  show 2: "copyTo w = e" using copy_heads_render [of 0 s hs] w by (simp add: copyTo_def)
  show "makeBytes w = e" by (simp add: makeBytes_def 1 2)
qed

subsection \<open>The primitive writers\<close>

lemma encodeStringHeader_eq:
  "n < 2 ^ 63 \<Longrightarrow> encodeStringHeader w n = eb_append w (rlp_head 128 n)"
  by (simp add: encodeStringHeader_def rlp_head_def putint_be unat_of_nat_u64 Let_def)

lemma eb_append_append: "eb_append (eb_append w a) b = eb_append w (a @ b)"
  by (simp add: eb_append_def)

lemma le_7f_iff: "(b :: byte) \<le> 0x7F \<longleftrightarrow> unat b < 128"
  by (simp add: word_le_nat_alt) linarith

lemma eb_writeBytes_eq: "length b < 2 ^ 63 \<Longrightarrow> eb_writeBytes w b = eb_append w (rlp_string b)"
  by (cases b) (auto simp: eb_writeBytes_def rlp_string_def le_7f_iff encodeStringHeader_eq eb_append_append)

lemma eb_writeUint64_eq: "eb_writeUint64 w i = eb_append w (rlp_string (uint_bytes (unat i)))"
proof (cases "128 \<le> unat i")
  case True
  moreover have "i \<noteq> 0" using True by auto
  ultimately show ?thesis by (simp add: eb_writeUint64_def rlp_uint_large putint_be Let_def word_less_nat_alt)
next
  case False
  then show ?thesis using AppendUint64_ref [of "[]" i]
    by (simp add: eb_writeUint64_def AppendUint64_def word_less_nat_alt split: if_splits)
qed

lemma eb_writeBool_eq: "eb_writeBool w b = eb_append w (rlp_string (uint_bytes (of_bool b)))"
  by (simp add: eb_writeBool_def uint_bytes_def rlp_string_def rlp_head_def be_bytes_last)

lemma byteArrayWriter_eq:
  "length b = n \<Longrightarrow> n < 2 ^ 63 \<Longrightarrow> byteArrayWriter n b w = eb_append w (rlp_string b)"
  by (cases b) (auto simp: byteArrayWriter_def rlp_string_def rlp_head_def le_7f_iff encodeStringHeader_eq eb_append_append)

subsubsection \<open>Big integers\<close>

lemma BitLen_iff: "BitLen n \<le> k \<longleftrightarrow> n < 2 ^ k"
proof (induction n arbitrary: k rule: BitLen.induct)
  case (1 n)
  show ?case
  proof (cases "n = 0")
    case False
    show ?thesis
    proof (cases k)
      case 0
      then show ?thesis using False by (subst BitLen.simps) simp
    next
      case (Suc k')
      have "BitLen n \<le> k \<longleftrightarrow> n div 2 < 2 ^ k'" using 1 [OF False] False Suc by (subst BitLen.simps) simp
      then show ?thesis using Suc by (simp add: div_less_iff_less_mult mult.commute)
    qed
  qed (simp add: BitLen.simps)
qed

lemma big_length_eq: "big_length b = (b + 7) div 8"
proof -
  have "drop_bit 3 ((int b + 7) AND (- 8)) = drop_bit 3 (int b + 7)"
  proof (rule bit_eqI)
    fix n
    have "(- 8 :: int) = push_bit 3 (- 1)" by (simp add: push_bit_eq_mult)
    then have "bit (- 8 :: int) (3 + n)" by (simp only: bit_push_bit_iff) simp
    then show "bit (drop_bit 3 ((int b + 7) AND (- 8))) n \<longleftrightarrow> bit (drop_bit 3 (int b + 7)) n"
      by (simp add: bit_drop_bit_eq bit_and_iff)
  qed
  also have "\<dots> = int ((b + 7) div 8)" by (simp add: drop_bit_eq_div zdiv_int)
  finally show ?thesis by (simp add: big_length_def)
qed

lemma length_be_bytes_bits:
  assumes "0 < n"
  shows "length (be_bytes n) = (BitLen n + 7) div 8"
proof -
  have le: "length (be_bytes n) \<le> k \<longleftrightarrow> (BitLen n + 7) div 8 \<le> k" for k
  proof (cases "k = 0")
    case True
    have "BitLen n > 0" using assms by (subst BitLen.simps) simp
    then show ?thesis using True by simp
  next
    case False
    have "length (be_bytes n) \<le> k \<longleftrightarrow> n < 256 ^ k"
      using length_be_bytes_le [of n k] length_be_bytes_gt [of k n] False by force
    also have "\<dots> \<longleftrightarrow> BitLen n \<le> 8 * k" by (simp add: BitLen_iff power_mult)
    also have "\<dots> \<longleftrightarrow> (BitLen n + 7) div 8 \<le> k" by linarith
    finally show ?thesis .
  qed
  show ?thesis using le [of "length (be_bytes n)"] le [of "(BitLen n + 7) div 8"] by simp
qed

text \<open>The low \<open>k\<close> bytes of a number, most significant first.\<close>

fun low_bytes :: "nat \<Rightarrow> nat \<Rightarrow> bytes" where
  "low_bytes 0 n = []"
| "low_bytes (Suc k) n = low_bytes k (n div 256) @ [word_of_nat n]"

lemma length_low_bytes [simp]: "length (low_bytes k n) = k"
  by (induction k arbitrary: n) simp_all

lemma low_bytes_be: "n < 256 ^ k \<Longrightarrow> be_val (low_bytes k n) = n"
  by (induction k arbitrary: n)
    (auto simp: div_less_iff_less_mult mult.commute unat_of_nat)

lemma low_bytes_be_bytes: "low_bytes (length (be_bytes n)) n = be_bytes n"
proof (induction n rule: be_bytes.induct)
  case (1 n)
  then show ?case by (cases "n < 256") (simp_all add: be_bytes_last be_bytes_step)
qed

lemma low_bytes_add: "low_bytes (j + k) n = low_bytes j (n div 256 ^ k) @ low_bytes k n"
  by (induction k arbitrary: n) (simp_all add: div_mult2_eq)

lemma low_bytes_0: "low_bytes k 0 = replicate k 0"
  by (induction k) (simp_all add: replicate_append_same)

lemma low_bytes_mod: "k \<le> 8 \<Longrightarrow> low_bytes k (n mod 2 ^ 64) = low_bytes k n"
proof -
  have "low_bytes k (n mod 256 ^ j) = low_bytes k n" if "k \<le> j" for j
    using that
  proof (induction k arbitrary: n j)
    case (Suc k)
    then obtain j' where j: "j = Suc j'" "k \<le> j'" by (cases j) auto
    have "n mod 256 ^ j div 256 = n div 256 mod 256 ^ j'"
      by (simp add: j mod_mult2_eq flip: mult.commute [of "256 :: nat"])
    moreover have "(word_of_nat (n mod 256 ^ j) :: byte) = word_of_nat n"
    proof -
      have "n mod 256 ^ j mod 256 = n mod 256" unfolding j(1) by (rule mod_mod_cancel) simp
      then show ?thesis
        using word_of_nat_mod_byte [of "n mod 256 ^ j"] word_of_nat_mod_byte [of n] by simp
    qed
    ultimately show ?case using Suc.IH [OF j(2), of "n div 256"] by simp
  qed simp
  from this [of 8] show "k \<le> 8 \<Longrightarrow> ?thesis" by simp
qed

lemma fill_word_eq:
  "fill_word j index d acc = (index - min (8 - j) index, low_bytes (min (8 - j) index) (unat d) @ acc)"
proof (induction j index d acc rule: fill_word.induct)
  case (1 j index d acc)
  show ?case
  proof (cases "j < 8 \<and> index > 0")
    case True
    let ?m = "min (8 - (j + 1)) (index - 1)"
    have m: "min (8 - j) index = Suc ?m" using True by auto
    have "fill_word j index d acc = fill_word (j + 1) (index - 1) (drop_bit 8 d) (ucast d # acc)"
      using True by (subst fill_word.simps) simp
    also have "\<dots> = (index - 1 - ?m, low_bytes ?m (unat d div 256) @ ucast d # acc)"
      using 1 [OF True] by (simp add: unat_drop_bit)
    also have "\<dots> = (index - Suc ?m, low_bytes (Suc ?m) (unat d) @ acc)"
      by simp
    finally show ?thesis by (simp only: m)
  next
    case False
    then have "min (8 - j) index = 0" by auto
    moreover have "fill_word j index d acc = (index, acc)" using False by (subst fill_word.simps) auto
    ultimately show ?thesis by simp
  qed
qed

lemma fill_words_eq:
  "n < 256 ^ index \<Longrightarrow> fill_words index (big_Bits n) acc = (i', acc') \<Longrightarrow>
   replicate i' 0 @ acc' = low_bytes index n @ acc"
proof (induction n arbitrary: index acc rule: big_Bits.induct)
  case (1 n)
  show ?case
  proof (cases "n = 0")
    case True
    then show ?thesis using 1(3) by (simp add: big_Bits.simps low_bytes_0)
  next
    case False
    let ?m = "min 8 index"
    have fw: "fill_word 0 index (word_of_nat n) acc = (index - ?m, low_bytes ?m n @ acc)"
      by (simp add: fill_word_eq unat_of_nat low_bytes_mod [simplified])
    have "n div 2 ^ 64 < 256 ^ (index - ?m)"
    proof (cases "index \<le> 8")
      case True
      have "n < 256 ^ 8" using 1(2) power_increasing [OF True, of "256 :: nat"] by simp
      then show ?thesis using True by simp
    next
      case False
      then have "(256 :: nat) ^ index = 256 ^ (index - 8) * 256 ^ 8" by (simp only: flip: power_add) simp
      then have "n < 256 ^ (index - 8) * 18446744073709551616" using 1(2) by simp
      then show ?thesis using False by (simp add: div_less_iff_less_mult)
    qed
    moreover have "fill_words (index - ?m) (big_Bits (n div 2 ^ 64)) (low_bytes ?m n @ acc) = (i', acc')"
      using 1(3) False fw by (subst (asm) big_Bits.simps) simp
    ultimately have "replicate i' 0 @ acc' = low_bytes (index - ?m) (n div 2 ^ 64) @ low_bytes ?m n @ acc"
      using 1(1) False by blast
    moreover have "low_bytes (index - ?m) (n div 2 ^ 64) @ low_bytes ?m n = low_bytes index n"
      using low_bytes_add [of "index - 8" 8 n] by (cases "index \<le> 8") (simp_all add: min_def)
    ultimately show ?thesis by simp
  qed
qed

lemma eb_writeBigInt_eq:
  assumes "length (be_bytes i) < 2 ^ 63"
  shows "eb_writeBigInt w i = eb_append w (rlp_string (uint_bytes i))"
proof (cases "BitLen i \<le> 64")
  case True
  then have "unat (word_of_nat i :: u64) = i" by (simp add: BitLen_iff unat_of_nat)
  then show ?thesis using True by (simp add: eb_writeBigInt_def eb_writeUint64_eq)
next
  case False
  let ?n = "length (be_bytes i)"
  have i: "2 ^ 64 \<le> i" using False by (simp add: BitLen_iff not_less)
  then have n: "big_length (BitLen i) = ?n" by (simp add: big_length_eq length_be_bytes_bits)
  obtain index acc where f: "fill_words ?n (big_Bits i) [] = (index, acc)" by fastforce
  have "i < 256 ^ ?n" using be_val_less [of "be_bytes i"] by simp
  from fill_words_eq [OF this f] have "replicate index 0 @ acc = be_bytes i" by (simp add: low_bytes_be_bytes)
  moreover have "?n \<noteq> 1" using i be_bytes_single [of i] by auto
  ultimately show ?thesis
    using False n f i assms
    by (simp add: eb_writeBigInt_def Let_def encodeStringHeader_eq eb_append_append rlp_string_def uint_bytes_def)
qed

subsection \<open>Every writer emits the reference encoding\<close>

lemma length_concat_le: "x \<in> set xs \<Longrightarrow> length x \<le> length (concat xs)"
  by (induction xs) auto

lemma length_rlp_list: "length p \<le> length (rlp_list p)"
  by (simp add: rlp_list_def)

lemma length_rlp_string: "length b \<le> length (rlp_string b)"
  by (simp add: rlp_string_def)

lemma writeItem_emits: "length (rlp_enc it) < 2 ^ 63 \<Longrightarrow> emits w (writeItem it w) (rlp_enc it)"
proof (induction it arbitrary: w)
  case (Str b)
  then have "length b < 2 ^ 63" using length_rlp_string [of b] by simp
  then show ?case by (simp add: eb_writeBytes_eq emits_append)
next
  case (Lst xs)
  let ?e = "concat (map rlp_enc xs)"
  have e: "length ?e < 2 ^ 63" using Lst.prems length_rlp_list [of ?e] by simp
  have step: "emits w1 (fold writeItem ys w1) (concat (map rlp_enc ys))" if "set ys \<subseteq> set xs" for ys w1
    using that
  proof (induction ys arbitrary: w1)
    case Nil
    show ?case by (simp add: emits_refl)
  next
    case (Cons y ys)
    have "length (rlp_enc y) \<le> length ?e" using Cons.prems by (intro length_concat_le) auto
    then have "emits w1 (writeItem y w1) (rlp_enc y)" using Lst.IH [of y w1] e Cons.prems by simp
    with Cons.IH [of "writeItem y w1"] Cons.prems show ?case by (auto intro: emits_trans)
  qed
  show ?case
  proof (cases "xs = []")
    case True
    then show ?thesis using emits_append [of w "[0xC0]"] by (simp add: rlp_list_def rlp_head_def)
  next
    case False
    obtain w1 index where l: "eb_list w = (w1, index)" by fastforce
    with emits_list [OF l step [of xs w1] e] False show ?thesis by simp
  qed
qed

text \<open>
  The reference: which values a type has, how many fields of a struct are written, and the
  encoding of a value under the tags of its field.
\<close>

definition fieldCount :: "field list \<Rightarrow> rval list \<Rightarrow> nat" where
  "fieldCount fs vs =
     (let first = firstOptionalField fs
      in if first = length fs then length fs else lastField_loop first fs vs (length fs))"

function has_type :: "rtype \<Rightarrow> rval \<Rightarrow> bool" where
  "has_type TRaw = (\<lambda>v. \<exists>b. v = VRaw b)"
| "has_type TBig = (\<lambda>v. v = VBig None \<or> (\<exists>i \<ge> 0. v = VBig (Some i)))"
| "has_type (TUint bits) = (\<lambda>v. \<exists>n. v = VUint n \<and> unat n < 2 ^ bits)"
| "has_type TBool = (\<lambda>v. \<exists>b. v = VBool b)"
| "has_type TString = (\<lambda>v. \<exists>b. v = VBytes False b)"
| "has_type TByteSlice = (\<lambda>v. \<exists>isnil b. v = VBytes isnil b \<and> (isnil \<longrightarrow> b = []))"
| "has_type (TByteArray n) = (\<lambda>v. \<exists>b. v = VBytes False b \<and> length b = n)"
| "has_type (TSlice t) =
     (\<lambda>v. \<exists>isnil vs. v = VSlice isnil vs \<and> list_all (has_type t) vs \<and> (isnil \<longrightarrow> vs = []))"
| "has_type (TArray n t) = (\<lambda>v. \<exists>vs. v = VArray vs \<and> length vs = n \<and> list_all (has_type t) vs)"
| "has_type (TStruct fs) =
     (\<lambda>v. \<exists>vs. v = VStruct vs \<and> list_all2 (\<lambda>z x. z x) (map (\<lambda>f. has_type (f_type f)) fs) vs)"
| "has_type (TPtr t) = (\<lambda>v. v = VPtr None \<or> (\<exists>v'. v = VPtr (Some v') \<and> has_type t v'))"
| "has_type TIface = (\<lambda>v. \<exists>i. v = VIface i)"
  by pat_completeness auto
termination
  by (relation "measure size") (auto dest: size_field_type)

function renc :: "tags \<Rightarrow> rtype \<Rightarrow> rval \<Rightarrow> bytes" where
  "renc tg TRaw = (\<lambda>v. case v of VRaw b \<Rightarrow> b | _ \<Rightarrow> [])"
| "renc tg TBig = (\<lambda>v. case v of VBig (Some i) \<Rightarrow> rlp_string (uint_bytes (nat i)) | _ \<Rightarrow> rlp_string [])"
| "renc tg (TUint bits) = (\<lambda>v. case v of VUint n \<Rightarrow> rlp_string (uint_bytes (unat n)) | _ \<Rightarrow> [])"
| "renc tg TBool = (\<lambda>v. case v of VBool b \<Rightarrow> rlp_string (uint_bytes (of_bool b)) | _ \<Rightarrow> [])"
| "renc tg TString = (\<lambda>v. case v of VBytes isnil b \<Rightarrow> rlp_string b | _ \<Rightarrow> [])"
| "renc tg TByteSlice = (\<lambda>v. case v of VBytes isnil b \<Rightarrow> rlp_string b | _ \<Rightarrow> [])"
| "renc tg (TByteArray n) = (\<lambda>v. case v of VBytes isnil b \<Rightarrow> rlp_string b | _ \<Rightarrow> [])"
| "renc tg (TSlice t) =
     (\<lambda>v. case v of
        VSlice isnil vs \<Rightarrow>
          (let p = concat (map (renc noTags t) vs) in if Tail tg then p else rlp_list p)
      | _ \<Rightarrow> [])"
| "renc tg (TArray n t) =
     (\<lambda>v. case v of VArray vs \<Rightarrow> rlp_list (concat (map (renc noTags t) vs)) | _ \<Rightarrow> [])"
| "renc tg (TStruct fs) =
     (\<lambda>v. case v of
        VStruct vs \<Rightarrow>
          rlp_list (concat (map (\<lambda>(enc, v). enc v)
            (take (fieldCount fs vs) (zip (map (\<lambda>f. renc (f_tags f) (f_type f)) fs) vs))))
      | _ \<Rightarrow> [])"
| "renc tg (TPtr t) =
     (\<lambda>v. case v of
        VPtr (Some v') \<Rightarrow> renc noTags t v'
      | _ \<Rightarrow> if typeNilKind t tg = String then rlp_string [] else rlp_list [])"
| "renc tg TIface = (\<lambda>v. case v of VIface (Some it) \<Rightarrow> rlp_enc it | _ \<Rightarrow> rlp_list [])"
  by pat_completeness auto
termination
  by (relation "measure (\<lambda>(tg, t). size t)") (auto dest: size_field_type)

text \<open>The tags \<^verbatim>\<open>ProcessFields\<close> accepts: a tail is a slice and the last field, and no plain field follows an optional one.\<close>

definition tags_ok :: "tags \<Rightarrow> rtype \<Rightarrow> bool" where
  "tags_ok tg t \<longleftrightarrow> (Tail tg \<longrightarrow> (\<exists>t'. t = TSlice t')) \<and> (NilOK tg \<longrightarrow> (\<exists>t'. t = TPtr t')) \<and> NilKind tg \<noteq> Byte"

fun fields_ok :: "field list \<Rightarrow> bool" where
  "fields_ok [] = True"
| "fields_ok (f # fs) =
     ((Tail (f_tags f) \<longrightarrow> fs = [] \<and> \<not> Optional (f_tags f)) \<and>
      (Optional (f_tags f) \<longrightarrow> list_all (\<lambda>g. Optional (f_tags g) \<or> Tail (f_tags g)) fs) \<and> fields_ok fs)"

function type_ok :: "rtype \<Rightarrow> bool" where
  "type_ok (TUint bits) = (bits \<in> {8, 16, 32, 64})"
| "type_ok (TSlice t) = type_ok t"
| "type_ok (TArray n t) = type_ok t"
| "type_ok (TStruct fs) = (fields_ok fs \<and> list_all (\<lambda>f. tags_ok (f_tags f) (f_type f) \<and> type_ok (f_type f)) fs)"
| "type_ok (TPtr t) = type_ok t"
| "type_ok TRaw = True" | "type_ok TBig = True" | "type_ok TBool = True" | "type_ok TString = True"
| "type_ok TByteSlice = True" | "type_ok (TByteArray n) = True" | "type_ok TIface = True"
  by pat_completeness auto
termination
  by (relation "measure size") (auto dest: size_field_type)

lemma write_all_emits:
  assumes "list_all2 (\<lambda>v e. \<forall>w. \<exists>w'. wr v w = Inr w' \<and> emits w w' e) vs es"
  shows "\<exists>w'. write_all wr vs w = Inr w' \<and> emits w w' (concat es)"
  using assms
proof (induction arbitrary: w rule: list_all2_induct)
  case (Cons v vs e es)
  from Cons(1) obtain w1 where 1: "wr v w = Inr w1" "emits w w1 e" by blast
  from Cons(3) obtain w2 where "write_all wr vs w1 = Inr w2" "emits w1 w2 (concat es)" by blast
  with 1 show ?case by (auto intro: emits_trans)
qed (simp add: emits_refl)

lemma sliceWriter_emits:
  assumes el: "\<And>v w. v \<in> set vs \<Longrightarrow> \<exists>w'. wr v w = Inr w' \<and> emits w w' (enc v)"
    and len: "length (concat (map enc vs)) < 2 ^ 63"
  shows "\<exists>w'. sliceWriter tg wr vs w = Inr w' \<and>
    emits w w' (if Tail tg then concat (map enc vs) else rlp_list (concat (map enc vs)))"
proof -
  have "list_all2 (\<lambda>v e. \<forall>w. \<exists>w'. wr v w = Inr w' \<and> emits w w' e) vs (map enc vs)"
    using el by (simp add: list_all2_map2 list_all2_same)
  note all = write_all_emits [OF this]
  show ?thesis
  proof (cases "Tail tg")
    case True
    with all show ?thesis by (simp add: sliceWriter_def)
  next
    case False
    then show ?thesis
      using emits_in_list [OF all len, of w] emits_append [of w "[0xC0]"]
      by (cases "vs = []") (auto simp: sliceWriter_def rlp_list_def rlp_head_def)
  qed
qed

lemma lastField_loop_spec:
  assumes "first \<le> k"
  shows "lastField_loop first fs vs k \<le> k" "first \<le> lastField_loop first fs vs k"
    "lastField_loop first fs vs k \<le> i \<Longrightarrow> i < k \<Longrightarrow> IsZero (f_type (fs ! i)) (vs ! i)"
  using assms by (induction k) (auto simp: le_Suc_eq less_Suc_eq split: if_splits)

lemma fieldCount_le: "fieldCount fs vs \<le> length fs"
  using lastField_loop_spec(1) [of "firstOptionalField fs" "length fs" fs vs]
  by (auto simp: fieldCount_def Let_def firstOptionalField_def length_takeWhile_le)

lemma structWriter_emits:
  assumes len: "length vs = length fs" "length writers = length fs" "length encs = length fs"
    and el: "\<And>i w. i < fieldCount fs vs \<Longrightarrow> \<exists>w'. (writers ! i) (vs ! i) w = Inr w' \<and> emits w w' ((encs ! i) (vs ! i))"
    and small: "length (concat (map (\<lambda>(enc, v). enc v) (take (fieldCount fs vs) (zip encs vs)))) < 2 ^ 63"
  shows "\<exists>w'. structWriter fs writers vs w = Inr w' \<and>
    emits w w' (rlp_list (concat (map (\<lambda>(enc, v). enc v) (take (fieldCount fs vs) (zip encs vs)))))"
proof -
  have "list_all2 (\<lambda>p e. \<forall>w. \<exists>w'. (\<lambda>(wr, v). wr v) p w = Inr w' \<and> emits w w' e)
      (take (fieldCount fs vs) (zip writers vs)) (map (\<lambda>(enc, v). enc v) (take (fieldCount fs vs) (zip encs vs)))"
    using el len by (auto simp: list_all2_conv_all_nth)
  note all = write_all_emits [OF this]
  have "structWriter fs writers vs w = in_list (write_all (\<lambda>(wr, v). wr v) (take (fieldCount fs vs) (zip writers vs))) w"
    by (simp add: structWriter_def fieldCount_def Let_def)
  with emits_in_list [OF all small, of w] show ?thesis by simp
qed

lemma makeWriter_emits:
  assumes "has_type t v" "type_ok t" "tags_ok tg t" "length (renc tg t v) < 2 ^ 63"
  shows "\<exists>w'. makeWriter tg t v w = Inr w' \<and> emits w w' (renc tg t v)"
  using assms
proof (induction tg t arbitrary: v w rule: makeWriter.induct)
  case (2 tg)
  then consider "v = VBig None" | i where "v = VBig (Some i)" "i \<ge> 0" by auto
  then show ?case
  proof cases
    case 1
    then show ?thesis using emits_append [of w "[0x80]"]
      by (simp add: writeBigIntPtr_def rlp_string_def rlp_head_def)
  next
    case (2 i)
    have "length (be_bytes (nat i)) < 2 ^ 63"
    proof (cases "i = 0")
      case False
      then show ?thesis
        using \<open>length (renc tg TBig v) < 2 ^ 63\<close> 2 length_rlp_string [of "uint_bytes (nat i)"]
        by (simp add: uint_bytes_def)
    qed (simp add: be_bytes_last)
    with 2 show ?thesis by (simp add: writeBigIntPtr_def eb_writeBigInt_eq emits_append)
  qed
next
  case (5 tg)
  then obtain b where v: "v = VBytes False b" by auto
  with 5 have "length b < 2 ^ 63" using length_rlp_string [of b] by simp
  with v show ?case by (simp add: eb_writeBytes_eq emits_append)
next
  case (6 tg)
  then obtain isnil b where v: "v = VBytes isnil b" by auto
  with 6 have "length b < 2 ^ 63" using length_rlp_string [of b] by simp
  with v show ?case by (simp add: eb_writeBytes_eq emits_append)
next
  case (7 tg n)
  then obtain b where v: "v = VBytes False b" "length b = n" by auto
  with 7 have "n < 2 ^ 63" using length_rlp_string [of b] by simp
  with v show ?case by (simp add: byteArrayWriter_eq emits_append)
next
  case (8 tg t)
  then obtain isnil vs where v: "v = VSlice isnil vs" "list_all (has_type t) vs" by auto
  let ?p = "concat (map (renc noTags t) vs)"
  have p: "length ?p < 2 ^ 63" using 8(5) v length_rlp_list [of ?p] by (simp add: Let_def split: if_splits)
  have "\<exists>w'. makeWriter noTags t x w = Inr w' \<and> emits w w' (renc noTags t x)" if "x \<in> set vs" for x w
  proof (rule 8(1))
    show "has_type t x" using v(2) that by (simp add: list_all_iff)
    show "length (renc noTags t x) < 2 ^ 63"
      using p length_concat_le [of "renc noTags t x" "map (renc noTags t) vs"] that by simp
  qed (use 8(3) in \<open>simp_all add: tags_ok_def noTags_def\<close>)
  from sliceWriter_emits [OF this p, of tg w] v show ?case by (simp add: Let_def)
next
  case (9 tg n t)
  then obtain vs where v: "v = VArray vs" "list_all (has_type t) vs" by auto
  let ?p = "concat (map (renc noTags t) vs)"
  have p: "length ?p < 2 ^ 63" using 9(5) v length_rlp_list [of ?p] by simp
  have "\<exists>w'. makeWriter noTags t x w = Inr w' \<and> emits w w' (renc noTags t x)" if "x \<in> set vs" for x w
  proof (rule 9(1))
    show "has_type t x" using v(2) that by (simp add: list_all_iff)
    show "length (renc noTags t x) < 2 ^ 63"
      using p length_concat_le [of "renc noTags t x" "map (renc noTags t) vs"] that by simp
  qed (use 9(3) in \<open>simp_all add: tags_ok_def noTags_def\<close>)
  from sliceWriter_emits [OF this p, of tg w] v 9(4) show ?case by (simp add: tags_ok_def)
next
  case (10 tg fs)
  then obtain vs where v: "v = VStruct vs" "length vs = length fs"
    "\<And>i. i < length fs \<Longrightarrow> has_type (f_type (fs ! i)) (vs ! i)"
    by (auto simp: list_all2_conv_all_nth)
  let ?encs = "map (\<lambda>f. renc (f_tags f) (f_type f)) fs"
  let ?zs = "take (fieldCount fs vs) (zip ?encs vs)"
  have small: "length (concat (map (\<lambda>(enc, v). enc v) ?zs)) < 2 ^ 63"
    using 10(5) v(1) length_rlp_list [of "concat (map (\<lambda>(enc, v). enc v) ?zs)"] by simp
  have "\<exists>w'. (map (\<lambda>f. makeWriter (f_tags f) (f_type f)) fs ! i) (vs ! i) w = Inr w' \<and> emits w w' ((?encs ! i) (vs ! i))"
    if i: "i < fieldCount fs vs" for i w
  proof -
    have i': "i < length fs" using i fieldCount_le [of fs vs] by simp
    let ?f = "fs ! i"
    have "?zs ! i = (renc (f_tags ?f) (f_type ?f), vs ! i)" "i < length ?zs" using i i' v(2) fieldCount_le [of fs vs] by simp_all
    then have "renc (f_tags ?f) (f_type ?f) (vs ! i) \<in> set (map (\<lambda>(enc, v). enc v) ?zs)"
      by (metis (mono_tags, lifting) case_prod_conv image_eqI list.set_map nth_mem)
    from length_concat_le [OF this] small have "length (renc (f_tags ?f) (f_type ?f) (vs ! i)) < 2 ^ 63" by simp
    moreover have "type_ok (f_type ?f)" "tags_ok (f_tags ?f) (f_type ?f)" using 10(3) i' by (simp_all add: list_all_length)
    ultimately show ?thesis using 10(1) [OF v(1), of ?f "vs ! i" w] v(3) i' by simp
  qed
  from structWriter_emits [OF v(2) _ _ this small, of w] v(1) show ?case by simp
next
  case (11 tg t)
  then show ?case
    using emits_append [of w "[0x80]"] emits_append [of w "[0xC0]"]
    by (auto simp: rlp_string_def rlp_list_def rlp_head_def tags_ok_def noTags_def)
next
  case (12 tg)
  then show ?case
    using emits_append [of w "[0xC0]"]
    by (auto simp: rlp_list_def rlp_head_def writeItem_emits split: option.splits)
qed (auto simp: emits_append eb_writeUint64_eq eb_writeBool_eq)

end
