(* ===== verification/Rlp_Stream.thy ===== *)
theory Rlp_Stream
  imports Rlp_Encode
begin

text \<open>
  The decoder of \<^verbatim>\<open>rlp/decode.go\<close>: the operations of \<^verbatim>\<open>Stream\<close> over a byte reader,
  and the type-directed decoders built on them, which fill a fresh (zero) value.

  The stack of list sizes has its top first. An operation returns an error or a value together
  with the stream it leaves, since the kind of the value ahead stays cached after an error.
\<close>

subsection \<open>The stream\<close>

record stream =
  s_r :: bytes
  s_remaining :: u64
  s_size :: u64
  s_kinderr :: "rlpError option"
  s_stack :: "u64 list"
  s_kind :: "Kind option"
  s_byteval :: byte
  s_limited :: bool

type_synonym 'a sr = "stream \<Rightarrow> (rlpError + 'a) \<times> stream"

definition sr_bind :: "'a sr \<Rightarrow> ('a \<Rightarrow> 'b sr) \<Rightarrow> 'b sr" where
  "sr_bind m f = (\<lambda>s. case m s of (Inl e, s') \<Rightarrow> (Inl e, s') | (Inr x, s') \<Rightarrow> f x s')"

definition sr_return :: "'a \<Rightarrow> 'a sr" where
  "sr_return x = (\<lambda>s. (Inr x, s))"

definition sr_fail :: "rlpError \<Rightarrow> 'a sr" where
  "sr_fail e = (\<lambda>s. (Inl e, s))"

text \<open>\<^verbatim>\<open>Reset\<close> on a reader over a byte slice: an unspecified limit is the length of the data.\<close>

definition stream_Reset :: "bytes \<Rightarrow> u64 \<Rightarrow> stream" where
  "stream_Reset r inputLimit =
     \<lparr>s_r = r, s_remaining = (if inputLimit > 0 then inputLimit else word_of_nat (length r)),
      s_size = 0, s_kinderr = None, s_stack = [], s_kind = None, s_byteval = 0, s_limited = True\<rparr>"

definition NewListStream :: "bytes \<Rightarrow> u64 \<Rightarrow> stream" where
  "NewListStream r len = (stream_Reset r len)\<lparr>s_kind := Some List, s_size := len\<rparr>"

definition listLimit :: "stream \<Rightarrow> bool \<times> u64" where
  "listLimit s = (case s_stack s of [] \<Rightarrow> (False, 0) | l # _ \<Rightarrow> (True, l))"

definition willRead :: "u64 \<Rightarrow> unit sr" where
  "willRead n s =
     (let s = s\<lparr>s_kind := None\<rparr>;
          (inList, limit) = listLimit s
      in if inList \<and> n > limit then (Inl ErrElemTooLarge, s)
         else
           let s = (if inList then s\<lparr>s_stack := (limit - n) # tl (s_stack s)\<rparr> else s)
           in if s_limited s then
                (if n > s_remaining s then (Inl ErrValueTooLarge, s)
                 else (Inr (), s\<lparr>s_remaining := s_remaining s - n\<rparr>))
              else (Inr (), s))"

text \<open>The reader delivers the bytes that are there; \<^verbatim>\<open>io.EOF\<close> before the end of the buffer is unexpected.\<close>

definition readFull :: "nat \<Rightarrow> bytes sr" where
  "readFull n =
     sr_bind (willRead (word_of_nat n)) (\<lambda>_ s.
       if n \<le> length (s_r s) then (Inr (take n (s_r s)), s\<lparr>s_r := drop n (s_r s)\<rparr>)
       else (Inl io_ErrUnexpectedEOF, s\<lparr>s_r := []\<rparr>))"

definition readByte :: "byte sr" where
  "readByte =
     sr_bind (willRead 1) (\<lambda>_ s.
       case s_r s of
         [] \<Rightarrow> (Inl io_ErrUnexpectedEOF, s)
       | b # r \<Rightarrow> (Inr b, s\<lparr>s_r := r\<rparr>))"

definition readUint :: "byte \<Rightarrow> u64 sr" where
  "readUint sz =
     (if sz = 0 then (\<lambda>s. (Inr 0, s\<lparr>s_kind := None\<rparr>))
      else if sz = 1 then sr_bind readByte (\<lambda>b. sr_return (ucast b))
      else
        sr_bind (readFull (unat sz)) (\<lambda>buffer.
          if buffer ! 0 = 0 then sr_fail ErrCanonSize else sr_return (be_word buffer)))"

text \<open>\<^verbatim>\<open>readKind\<close> of the stream; on an error the kind is still returned with it.\<close>

definition stream_readKind :: "stream \<Rightarrow> (Kind \<times> u64 \<times> rlpError option) \<times> stream" where
  "stream_readKind s =
     (case readByte s of
        (Inl err, s) \<Rightarrow>
          ((Byte, 0, Some (if s_stack s = [] \<and> (err = io_ErrUnexpectedEOF \<or> err = ErrValueTooLarge) then io_EOF else err)), s)
      | (Inr b, s) \<Rightarrow>
          let s = s\<lparr>s_byteval := 0\<rparr>;
              long = (\<lambda>k n. case readUint n s of
                        (Inl err, s) \<Rightarrow> ((k, 0, Some err), s)
                      | (Inr sz, s) \<Rightarrow> ((k, sz, if sz < 56 then Some ErrCanonSize else None), s))
          in if b < 0x80 then ((Byte, 0, None), s\<lparr>s_byteval := b\<rparr>)
             else if b < 0xB8 then ((String, ucast (b - 0x80), None), s)
             else if b < 0xC0 then long String (b - 0xB7)
             else if b < 0xF8 then ((List, ucast (b - 0xC0), None), s)
             else long List (b - 0xF7))"

definition stream_Kind :: "(Kind \<times> u64) sr" where
  "stream_Kind s =
     (case s_kind s of
        Some k \<Rightarrow> (case s_kinderr s of Some err \<Rightarrow> (Inl err, s) | None \<Rightarrow> (Inr (k, s_size s), s))
      | None \<Rightarrow>
          let (inList, limit) = listLimit s
          in if inList \<and> limit = 0 then (Inl EOL, s)
             else
               let ((k, sz, err), s') = stream_readKind s;
                   err' = (case err of
                             Some e \<Rightarrow> Some e
                           | None \<Rightarrow>
                               if inList \<and> sz > limit then Some ErrElemTooLarge
                               else if s_limited s' \<and> sz > s_remaining s' then Some ErrValueTooLarge
                               else None);
                   s'' = s'\<lparr>s_kind := Some k, s_size := sz, s_kinderr := err'\<rparr>
               in (case err' of Some e \<Rightarrow> (Inl e, s'') | None \<Rightarrow> (Inr (k, sz), s'')))"

definition rearm :: "'a \<Rightarrow> 'a sr" where
  "rearm x s = (Inr x, s\<lparr>s_kind := None\<rparr>)"

definition byteval :: "byte sr" where
  "byteval s = (Inr (s_byteval s), s)"

definition stream_Bytes :: "bytes sr" where
  "stream_Bytes =
     sr_bind stream_Kind (\<lambda>(kind, sz).
       case kind of
         Byte \<Rightarrow> sr_bind byteval (\<lambda>b. rearm [b])
       | String \<Rightarrow>
           sr_bind (readFull (unat sz)) (\<lambda>b.
             if sz = 1 \<and> b ! 0 < 128 then sr_fail ErrCanonSize else sr_return b)
       | List \<Rightarrow> sr_fail ErrExpectedString)"

definition stream_ReadBytes :: "nat \<Rightarrow> bytes sr" where
  "stream_ReadBytes len =
     sr_bind stream_Kind (\<lambda>(kind, sz).
       case kind of
         Byte \<Rightarrow> if len \<noteq> 1 then sr_fail (errWrongSize 1 len) else sr_bind byteval (\<lambda>b. rearm [b])
       | String \<Rightarrow>
           if word_of_nat len \<noteq> sz then sr_fail (errWrongSize (unat sz) len)
           else
             sr_bind (readFull len) (\<lambda>b.
               if sz = 1 \<and> b ! 0 < 128 then sr_fail ErrCanonSize else sr_return b)
       | List \<Rightarrow> sr_fail ErrExpectedString)"

definition stream_Raw :: "bytes sr" where
  "stream_Raw =
     sr_bind stream_Kind (\<lambda>(kind, sz).
       if kind = Byte then sr_bind byteval (\<lambda>b. rearm [b])
       else
         sr_bind (readFull (unat sz)) (\<lambda>content.
           sr_return ((if kind = String then puthead 0x80 0xB7 sz else puthead 0xC0 0xF7 sz) @ content)))"

definition stream_uint :: "nat \<Rightarrow> u64 sr" where
  "stream_uint maxbits =
     sr_bind stream_Kind (\<lambda>(kind, sz).
       case kind of
         Byte \<Rightarrow>
           sr_bind byteval (\<lambda>b. if b = 0 then sr_fail ErrCanonInt else rearm (ucast b))
       | String \<Rightarrow>
           if sz > word_of_nat (maxbits div 8) then sr_fail errUintOverflow
           else (\<lambda>s.
             case readUint (ucast sz) s of
               (Inl err, s) \<Rightarrow> (Inl (if err = ErrCanonSize then ErrCanonInt else err), s)
             | (Inr v, s) \<Rightarrow> if sz > 0 \<and> v < 128 then (Inl ErrCanonSize, s) else (Inr v, s))
       | List \<Rightarrow> sr_fail ErrExpectedString)"

definition stream_Bool :: "bool sr" where
  "stream_Bool =
     sr_bind (stream_uint 8) (\<lambda>num.
       if num = 0 then sr_return False
       else if num = 1 then sr_return True
       else sr_fail (errInvalidBool num))"

definition stream_List :: "u64 sr" where
  "stream_List =
     sr_bind stream_Kind (\<lambda>(kind, sz) s.
       if kind \<noteq> List then (Inl ErrExpectedList, s)
       else
         let (inList, limit) = listLimit s;
             s = (if inList then s\<lparr>s_stack := (limit - sz) # tl (s_stack s)\<rparr> else s)
         in (Inr sz, s\<lparr>s_stack := sz # s_stack s, s_kind := None, s_size := 0\<rparr>))"

definition stream_ListEnd :: "unit sr" where
  "stream_ListEnd s =
     (let (inList, limit) = listLimit s
      in if \<not> inList then (Inl errNotInList, s)
         else if limit > 0 then (Inl errNotAtEOL, s)
         else (Inr (), s\<lparr>s_stack := tl (s_stack s), s_kind := None, s_size := 0\<rparr>))"

definition MoreDataInList :: "stream \<Rightarrow> bool" where
  "MoreDataInList s = (snd (listLimit s) > 0)"

text \<open>\<^verbatim>\<open>decodeBigInt\<close>; \<^verbatim>\<open>SetBytes\<close> reads the buffer as a big-endian number.\<close>

definition stream_BigInt :: "nat sr" where
  "stream_BigInt =
     sr_bind
       (sr_bind stream_Kind (\<lambda>(kind, sz).
          if kind = List then sr_fail ErrExpectedString
          else if kind = Byte then sr_bind byteval (\<lambda>b. rearm [b])
          else if sz = 0 then rearm []
          else
            sr_bind (readFull (unat sz)) (\<lambda>buffer.
              if sz \<le> 32 \<and> sz = 1 \<and> buffer ! 0 < 128 then sr_fail ErrCanonSize else sr_return buffer)))
       (\<lambda>buffer.
          if length buffer > 0 \<and> buffer ! 0 = 0 then sr_fail ErrCanonInt else sr_return (be_val buffer))"

subsection \<open>The decoders\<close>

definition wrapStreamError :: "rlpError \<Rightarrow> rlpError" where
  "wrapStreamError err =
     (case err of
        ErrCanonInt \<Rightarrow> decodeError ''non-canonical integer (leading zero bytes)''
      | ErrCanonSize \<Rightarrow> decodeError ''non-canonical size information''
      | ErrExpectedList \<Rightarrow> decodeError ''expected input list''
      | ErrExpectedString \<Rightarrow> decodeError ''expected input string or byte''
      | errUintOverflow \<Rightarrow> decodeError ''input string too long''
      | errNotAtEOL \<Rightarrow> decodeError ''input list has too many elements''
      | _ \<Rightarrow> err)"

definition sr_wrap :: "'a sr \<Rightarrow> 'a sr" where
  "sr_wrap m = (\<lambda>s. case m s of (Inl e, s') \<Rightarrow> (Inl (wrapStreamError e), s') | r \<Rightarrow> r)"

text \<open>
  The loop of \<^verbatim>\<open>decodeSliceElems\<close>. Every element takes at least one byte, so one round more
  than there are bytes is enough fuel.
\<close>

fun sliceElems_loop :: "nat \<Rightarrow> 'v sr \<Rightarrow> 'v list sr" where
  "sliceElems_loop 0 dec s = (Inl outOfFuel, s)"
| "sliceElems_loop (Suc n) dec s =
     (case dec s of
        (Inl err, s') \<Rightarrow> if err = EOL then (Inr [], s') else (Inl err, s')
      | (Inr v, s') \<Rightarrow> sr_bind (sliceElems_loop n dec) (\<lambda>vs. sr_return (v # vs)) s')"

definition decodeSliceElems :: "'v sr \<Rightarrow> 'v list sr" where
  "decodeSliceElems dec s = sliceElems_loop (Suc (length (s_r s))) dec s"

definition decodeListSlice :: "'v sr \<Rightarrow> 'v list sr" where
  "decodeListSlice dec =
     sr_bind (sr_wrap stream_List) (\<lambda>sz.
       if sz = 0 then sr_bind stream_ListEnd (\<lambda>_. sr_return [])
       else sr_bind (decodeSliceElems dec) (\<lambda>vs. sr_bind stream_ListEnd (\<lambda>_. sr_return vs)))"

fun arrayElems_loop :: "nat \<Rightarrow> 'v sr \<Rightarrow> 'v list sr" where
  "arrayElems_loop 0 dec s = (Inr [], s)"
| "arrayElems_loop (Suc n) dec s =
     (case dec s of
        (Inl err, s') \<Rightarrow>
          (Inl (if err = EOL then decodeError ''input list has too few elements'' else err), s')
      | (Inr v, s') \<Rightarrow> sr_bind (arrayElems_loop n dec) (\<lambda>vs. sr_return (v # vs)) s')"

definition decodeListArray :: "nat \<Rightarrow> 'v sr \<Rightarrow> 'v list sr" where
  "decodeListArray vlen dec =
     sr_bind (sr_wrap stream_List) (\<lambda>_.
       sr_bind (arrayElems_loop vlen dec) (\<lambda>vs.
         sr_bind (sr_wrap stream_ListEnd) (\<lambda>_. sr_return vs)))"

definition decodeByteArray :: "nat \<Rightarrow> bytes sr" where
  "decodeByteArray len =
     sr_bind stream_Kind (\<lambda>(kind, sz).
       case kind of
         Byte \<Rightarrow>
           if len = 0 then sr_fail (decodeError ''input string too long'')
           else if len > 1 then sr_fail (decodeError ''input string too short'')
           else sr_bind byteval (\<lambda>b. rearm [b])
       | String \<Rightarrow>
           if word_of_nat len < sz then sr_fail (decodeError ''input string too long'')
           else if word_of_nat len > sz then sr_fail (decodeError ''input string too short'')
           else
             sr_bind (readFull len) (\<lambda>slice.
               if sz = 1 \<and> slice ! 0 < 128 then sr_fail (wrapStreamError ErrCanonSize) else sr_return slice)
       | List \<Rightarrow> sr_fail (wrapStreamError ErrExpectedString))"

text \<open>
  \<^verbatim>\<open>decodeInterface\<close> recurses into nested lists; the depth is below the number of bytes.
\<close>

fun decodeInterface_loop :: "nat \<Rightarrow> item sr" where
  "decodeInterface_loop 0 = sr_fail outOfFuel"
| "decodeInterface_loop (Suc n) =
     sr_bind stream_Kind (\<lambda>(kind, sz).
       if kind = List then
         sr_bind (decodeListSlice (decodeInterface_loop n)) (\<lambda>items. sr_return (Lst items))
       else sr_bind stream_Bytes (\<lambda>b. sr_return (Str b)))"

definition decodeInterface :: "item sr" where
  "decodeInterface s = decodeInterface_loop (Suc (length (s_r s))) s"

function zeroVal :: "rtype \<Rightarrow> rval" where
  "zeroVal TRaw = VRaw []"
| "zeroVal TBig = VBig None"
| "zeroVal (TUint bits) = VUint 0"
| "zeroVal TBool = VBool False"
| "zeroVal TString = VBytes False []"
| "zeroVal TByteSlice = VBytes True []"
| "zeroVal (TByteArray n) = VBytes False (replicate n 0)"
| "zeroVal (TSlice t) = VSlice True []"
| "zeroVal (TArray n t) = VArray (replicate n (zeroVal t))"
| "zeroVal (TStruct fs) = VStruct (map (\<lambda>f. zeroVal (f_type f)) fs)"
| "zeroVal (TPtr t) = VPtr None"
| "zeroVal TIface = VIface None"
  by pat_completeness auto
termination
  by (relation "measure size") (auto dest: size_field_type)

text \<open>The loop of the struct decoder over the fields and their decoders.\<close>

fun structFields_loop :: "(field \<times> rval sr) list \<Rightarrow> rval list sr" where
  "structFields_loop [] s = (Inr [], s)"
| "structFields_loop ((f, dec) # fds) s =
     (case dec s of
        (Inl err, s') \<Rightarrow>
          if err = EOL then
            (if Optional (f_tags f) then (Inr (map (\<lambda>(g, _). zeroVal (f_type g)) ((f, dec) # fds)), s')
             else (Inl (decodeError ''too few elements''), s'))
          else (Inl err, s')
      | (Inr v, s') \<Rightarrow> sr_bind (structFields_loop fds) (\<lambda>vs. sr_return (v # vs)) s')"

definition structDecoder :: "(field \<times> rval sr) list \<Rightarrow> rval list sr" where
  "structDecoder fds =
     sr_bind (sr_wrap stream_List) (\<lambda>_.
       sr_bind (structFields_loop fds) (\<lambda>vs.
         sr_bind (sr_wrap stream_ListEnd) (\<lambda>_. sr_return vs)))"

definition nilPtrDecoder :: "Kind \<Rightarrow> rval sr \<Rightarrow> rval sr" where
  "nilPtrDecoder nilKind dec =
     sr_bind (sr_wrap stream_Kind) (\<lambda>(kind, sz).
       if kind \<noteq> Byte \<and> sz = 0 then
         (if kind \<noteq> nilKind then sr_fail (decodeError ''wrong kind of empty value'') else rearm (VPtr None))
       else sr_bind dec (\<lambda>v. sr_return (VPtr (Some v))))"

function makeDecoder :: "tags \<Rightarrow> rtype \<Rightarrow> rval sr" where
  "makeDecoder tg TRaw = sr_bind stream_Raw (\<lambda>b. sr_return (VRaw b))"
| "makeDecoder tg TBig = sr_bind (sr_wrap stream_BigInt) (\<lambda>i. sr_return (VBig (Some (int i))))"
| "makeDecoder tg (TUint bits) = sr_bind (sr_wrap (stream_uint bits)) (\<lambda>n. sr_return (VUint n))"
| "makeDecoder tg TBool = sr_bind (sr_wrap stream_Bool) (\<lambda>b. sr_return (VBool b))"
| "makeDecoder tg TString = sr_bind (sr_wrap stream_Bytes) (\<lambda>b. sr_return (VBytes False b))"
| "makeDecoder tg TByteSlice = sr_bind (sr_wrap stream_Bytes) (\<lambda>b. sr_return (VBytes False b))"
| "makeDecoder tg (TByteArray n) = sr_bind (decodeByteArray n) (\<lambda>b. sr_return (VBytes False b))"
| "makeDecoder tg (TSlice t) =
     sr_bind ((if Tail tg then decodeSliceElems else decodeListSlice) (makeDecoder noTags t))
       (\<lambda>vs. sr_return (VSlice False vs))"
| "makeDecoder tg (TArray n t) =
     sr_bind (decodeListArray n (makeDecoder noTags t)) (\<lambda>vs. sr_return (VArray vs))"
| "makeDecoder tg (TStruct fs) =
     sr_bind (structDecoder (map (\<lambda>f. (f, makeDecoder (f_tags f) (f_type f))) fs)) (\<lambda>vs. sr_return (VStruct vs))"
| "makeDecoder tg (TPtr t) =
     (if \<not> NilOK tg then sr_bind (makeDecoder noTags t) (\<lambda>v. sr_return (VPtr (Some v)))
      else nilPtrDecoder (typeNilKind t tg) (makeDecoder noTags t))"
| "makeDecoder tg TIface = sr_bind decodeInterface (\<lambda>it. sr_return (VIface (Some it)))"
  by pat_completeness auto
termination
  by (relation "measure (\<lambda>(tg, t). size t)") (auto dest: size_field_type)

text \<open>\<^verbatim>\<open>DecodeBytes\<close>: one value and nothing after it.\<close>

definition DecodeBytes :: "rtype \<Rightarrow> bytes \<Rightarrow> rlpError + rval" where
  "DecodeBytes t b =
     (case makeDecoder noTags t (stream_Reset b (word_of_nat (length b))) of
        (Inl err, s) \<Rightarrow> Inl err
      | (Inr v, s) \<Rightarrow> if length (s_r s) > 0 then Inl ErrMoreThanOneValue else Inr v)"

end
