(* ===== verification/Rlp_Roundtrip.thy ===== *)
theory Rlp_Roundtrip
  imports Rlp_Stream
begin

text \<open>
  The decoder of \<open>Rlp_Stream\<close> reads back what the encoder of \<open>Rlp_Encode\<close> writes, for
  every type and every value the encoding can represent.

  \<open>decodes dec v e\<close> says that \<open>dec\<close>, positioned before the bytes \<open>e\<close> in a list that
  has room for them, returns \<open>v\<close> and leaves the stream just behind them.
\<close>

subsection \<open>Stream states\<close>

definition at :: "stream \<Rightarrow> bytes \<Rightarrow> u64 list \<Rightarrow> bool" where
  "at s r stk \<longleftrightarrow> s_r s = r \<and> s_stack s = stk \<and> (s_limited s \<longrightarrow> length r \<le> unat (s_remaining s))"

definition ready :: "stream \<Rightarrow> bytes \<Rightarrow> u64 list \<Rightarrow> bool" where
  "ready s r stk \<longleftrightarrow> at s r stk \<and> s_kind s = None"

definition room :: "u64 list \<Rightarrow> nat \<Rightarrow> bool" where
  "room stk n \<longleftrightarrow> (case stk of [] \<Rightarrow> True | l # _ \<Rightarrow> n \<le> unat l)"

definition consume :: "u64 list \<Rightarrow> nat \<Rightarrow> u64 list" where
  "consume stk n = (case stk of [] \<Rightarrow> [] | l # ls \<Rightarrow> (l - word_of_nat n) # ls)"

lemma consume_add: "consume (consume stk a) b = consume stk (a + b)"
  by (simp add: consume_def split: list.splits)

lemma consume_0 [simp]: "consume stk 0 = stk"
  by (simp add: consume_def split: list.splits)

lemma unat_minus_of_nat: "n \<le> unat l \<Longrightarrow> unat (l - word_of_nat n) = unat l - n" for l :: u64
proof -
  assume n: "n \<le> unat l"
  then have "n < 2 ^ 64" using unat_u64_less [of l] by (simp add: le_less_trans)
  then have "unat (word_of_nat n :: u64) = n" by (simp add: unat_of_nat)
  with n show ?thesis by (simp add: unat_sub_if')
qed

lemma room_consume: "room stk (a + b) \<Longrightarrow> room (consume stk a) b"
  by (auto simp: room_def consume_def unat_minus_of_nat split: list.splits)

lemma room_mono: "room stk n \<Longrightarrow> m \<le> n \<Longrightarrow> room stk m"
  by (auto simp: room_def split: list.splits)

lemma room_fst: "room stk (a + b) \<Longrightarrow> room stk a"
  by (erule room_mono) simp

lemma willRead_ok:
  assumes "at s r stk" "room stk n" "n \<le> length r" "length r < 2 ^ 63"
  shows "\<exists>s'. willRead (word_of_nat n) s = (Inr (), s') \<and> s_kind s' = None \<and> s_r s' = r \<and>
    s_stack s' = consume stk n \<and> s_limited s' = s_limited s \<and> s_byteval s' = s_byteval s \<and>
    (s_limited s \<longrightarrow> length r - n \<le> unat (s_remaining s'))"
proof -
  have n: "unat (word_of_nat n :: u64) = n" using assms(3,4) by (intro unat_of_nat_u64) simp
  have "s_limited s \<Longrightarrow> n \<le> unat (s_remaining s)" using assms(1,3) by (auto simp: at_def)
  moreover have "s_limited s \<Longrightarrow> length r \<le> unat (s_remaining s)" using assms(1) by (auto simp: at_def)
  ultimately show ?thesis
    using assms(1,2) n
    by (auto simp: willRead_def listLimit_def at_def room_def consume_def Let_def word_less_nat_alt
        unat_minus_of_nat split: list.splits)
qed

lemma readFull_ok:
  assumes "at s (b @ r) stk" "room stk (length b)" "length (b @ r) < 2 ^ 63"
  shows "\<exists>s'. readFull (length b) s = (Inr b, s') \<and> ready s' r (consume stk (length b))"
proof -
  from willRead_ok [OF assms(1,2) _ assms(3)] obtain s' where
    "willRead (word_of_nat (length b)) s = (Inr (), s')" "s_kind s' = None" "s_r s' = b @ r"
    "s_stack s' = consume stk (length b)" "s_limited s' = s_limited s"
    "s_limited s \<longrightarrow> length r \<le> unat (s_remaining s')"
    by auto
  then show ?thesis by (simp add: readFull_def sr_bind_def ready_def at_def)
qed

lemma readByte_ok:
  assumes "at s (b # r) stk" "room stk 1" "length (b # r) < 2 ^ 63"
  shows "\<exists>s'. readByte s = (Inr b, s') \<and> ready s' r (consume stk 1)"
proof -
  from willRead_ok [OF assms(1,2) _ assms(3)] obtain s' where
    "willRead 1 s = (Inr (), s')" "s_kind s' = None" "s_r s' = b # r"
    "s_stack s' = consume stk 1" "s_limited s' = s_limited s"
    "s_limited s \<longrightarrow> length r \<le> unat (s_remaining s')"
    by auto
  then show ?thesis by (simp add: readByte_def sr_bind_def ready_def at_def)
qed

lemma readUint_ok:
  assumes "at s (be_bytes n @ r) stk" "room stk (length (be_bytes n))" "length (be_bytes n @ r) < 2 ^ 63" "0 < n"
    "length (be_bytes n) \<le> 8"
  shows "\<exists>s'. readUint (word_of_nat (length (be_bytes n))) s = (Inr (word_of_nat n), s') \<and>
    ready s' r (consume stk (length (be_bytes n)))"
proof -
  let ?m = "length (be_bytes n)"
  have m: "unat (word_of_nat ?m :: byte) = ?m" using assms(5) by simp
  have "?m \<noteq> 0" by simp
  then have nz: "(word_of_nat ?m :: byte) \<noteq> 0" using m by (metis unat_0)
  show ?thesis
  proof (cases "?m = 1")
    case True
    then obtain b where b: "be_bytes n = [b]" by (auto simp: length_Suc_conv)
    then have "unat b = n" using be_val_be_bytes [of n] by simp
    then have "ucast b = (word_of_nat n :: u64)" by auto
    with readByte_ok [of s b r stk] assms(1-3) b show ?thesis
      by (auto simp: readUint_def sr_bind_def sr_return_def)
  next
    case False
    then have one: "(word_of_nat ?m :: byte) \<noteq> 1" using m by (metis unat_1)
    from readFull_ok [OF assms(1-3)] obtain s' where
      s': "readFull ?m s = (Inr (be_bytes n), s')" "ready s' r (consume stk ?m)" by blast
    have "be_bytes n ! 0 \<noteq> 0" using be_bytes_hd [OF assms(4)] by (simp add: hd_conv_nth)
    then show ?thesis using s' nz one m by (simp add: readUint_def sr_bind_def sr_return_def be_word_val)
  qed
qed

definition armed :: "stream \<Rightarrow> bytes \<Rightarrow> u64 list \<Rightarrow> Kind \<Rightarrow> u64 \<Rightarrow> bool" where
  "armed s r stk k sz \<longleftrightarrow> at s r stk \<and> s_kind s = Some k \<and> s_kinderr s = None \<and> s_size s = sz"

lemma stream_Kind_armed: "armed s r stk k sz \<Longrightarrow> stream_Kind s = (Inr (k, sz), s)"
  by (simp add: stream_Kind_def armed_def)

lemma stream_Kind_idem: "stream_Kind s = (x, s') \<Longrightarrow> stream_Kind s' = (x, s')"
proof (cases "s_kind s")
  case (Some k)
  assume "stream_Kind s = (x, s')"
  with Some have "s' = s" by (simp add: stream_Kind_def split: option.splits)
  with \<open>stream_Kind s = (x, s')\<close> show ?thesis by simp
next
  case None
  assume a: "stream_Kind s = (x, s')"
  obtain inList limit where l: "listLimit s = (inList, limit)" by fastforce
  obtain k sz err t where rk: "stream_readKind s = ((k, sz, err), t)" by (metis prod_cases3 surj_pair)
  show ?thesis
  proof (cases "inList \<and> limit = 0")
    case True
    with a None l have "x = Inl EOL \<and> s' = s" by (simp add: stream_Kind_def)
    with a show ?thesis by simp
  next
    case False
    with a None l rk show ?thesis by (auto simp: stream_Kind_def Let_def split: option.splits if_splits)
  qed
qed

text \<open>The length of the tag of a value, and what \<^verbatim>\<open>Kind\<close> reports for it.\<close>

definition tagBytes :: "Kind \<Rightarrow> bytes \<Rightarrow> nat" where
  "tagBytes k c = (case k of Byte \<Rightarrow> 1 | String \<Rightarrow> length (rlp_head 128 (length c)) | List \<Rightarrow> length (rlp_head 192 (length c)))"

lemma stream_readKind_long:
  assumes "at s (be_bytes n @ c @ r) stk" "room stk (length (be_bytes n))" "length (be_bytes n @ c @ r) < 2 ^ 63"
    "56 \<le> n" "n < 2 ^ 63"
  shows "\<exists>s'. readUint (word_of_nat (length (be_bytes n))) s = (Inr (word_of_nat n), s') \<and>
    ready s' (c @ r) (consume stk (length (be_bytes n))) \<and> \<not> (word_of_nat n :: u64) < 56"
proof -
  have n: "unat (word_of_nat n :: u64) = n" using assms(5) by (rule unat_of_nat_u64)
  have "length (be_bytes n) \<le> 8" using length_be_bytes_u64(1) [of "word_of_nat n"] n by simp
  with readUint_ok [OF assms(1-3)] assms(4) n show ?thesis by (auto simp: word_less_nat_alt)
qed

text \<open>
  The tag of a frame says its kind and length; that a single small byte is its own encoding is
  checked after it, and not at all by \<^verbatim>\<open>Raw\<close>.
\<close>

definition tag_ok :: "Kind \<Rightarrow> bytes \<Rightarrow> bool" where
  "tag_ok k c \<longleftrightarrow> (k = Byte \<longrightarrow> frame_ok k c)"

lemma frame_tag_ok: "frame_ok k c \<Longrightarrow> tag_ok k c"
  by (auto simp: tag_ok_def)

lemma stream_readKind_ok:
  assumes "at s (frame k c @ r) stk" "tag_ok k c" "room stk (tagBytes k c)" "length (frame k c @ r) < 2 ^ 63"
  shows "\<exists>s'. stream_readKind s = ((k, if k = Byte then 0 else word_of_nat (length c), None), s') \<and>
    at s' (if k = Byte then r else c @ r) (consume stk (tagBytes k c)) \<and> (k = Byte \<longrightarrow> s_byteval s' = hd c)"
proof -
  obtain b xs where f: "frame k c @ r = b # xs"
    using assms(2) by (cases "frame k c @ r") (auto simp: frame_def tag_ok_def frame_ok_def split: Kind.splits)
  have "1 \<le> tagBytes k c" by (simp add: tagBytes_def Suc_leI split: Kind.splits)
  with assms(3) have "room stk 1" by (rule room_mono)
  then obtain s1 where s1: "readByte s = (Inr b, s1)" "at s1 xs (consume stk 1)"
    using readByte_ok [of s b xs stk] assms(1,4) f by (auto simp: ready_def)
  let ?s = "s1\<lparr>s_byteval := 0\<rparr>"
  have at: "at (s1\<lparr>s_byteval := y\<rparr>) xs (consume stk 1)" for y using s1(2) by (simp add: at_def)
  have short: "tag + length c < 256 \<Longrightarrow> b = word_of_nat (tag + length c) \<Longrightarrow> unat n = tag \<Longrightarrow>
      unat b = tag + length c \<and> b - n = word_of_nat (length c) \<and>
      (ucast (b - n) :: u64) = word_of_nat (length c)" for tag n
    using byte_tag [of b tag "length c" n] by (simp add: word_unat_eq_iff unat_of_nat)
  let ?n = "length c" and ?m = "length (be_bytes (length c))"
  have n63: "?n < 2 ^ 63" using assms(4) by (cases k) (simp_all add: frame_def rlp_list_def)
  have m: "1 \<le> ?m \<and> ?m \<le> 8" if "\<not> ?n < 56"
    using length_be_bytes_u64 [of "word_of_nat ?n"] unat_of_nat_u64 [OF n63] by simp
  have long: "\<exists>s2. readUint (word_of_nat ?m) ?s = (Inr (word_of_nat ?n), s2) \<and> at s2 (c @ r) (consume stk (1 + ?m)) \<and>
      \<not> (word_of_nat ?n :: u64) < 56"
    if "\<not> ?n < 56" "tagBytes k c = 1 + ?m" "xs = be_bytes ?n @ c @ r"
  proof -
    have "room (consume stk 1) ?m" using room_consume [of stk 1 ?m] assms(3) that(2) by simp
    from stream_readKind_long [of ?s ?n c r "consume stk 1", OF _ this] at [of 0] that f assms(4) n63
    show ?thesis by (auto simp: consume_add ready_def)
  qed
  show ?thesis
  proof (cases k)
    case Byte
    then have "b = hd c" "xs = r" "unat b < 128" using f assms(2) by (auto simp: frame_def tag_ok_def frame_ok_def length_Suc_conv)
    then show ?thesis using s1(1) at [of b] Byte
      by (simp add: stream_readKind_def word_less_nat_alt Let_def tagBytes_def)
  next
    case String
    show ?thesis
    proof (cases "length c < 56")
      case True
      then have b: "b = word_of_nat (128 + length c)" "xs = c @ r" "tagBytes k c = 1"
        using f String by (auto simp: frame_def rlp_head_def tagBytes_def)
      with short [of 128 "0x80"] True show ?thesis
        using s1(1) at [of 0] String by (simp add: stream_readKind_def word_less_nat_alt Let_def)
    next
      case False
      then have b: "b = word_of_nat (183 + ?m)" "xs = be_bytes ?n @ c @ r" "tagBytes k c = 1 + ?m"
        using f String by (auto simp: frame_def rlp_head_def tagBytes_def)
      from long [OF False b(3,2)] obtain s2 where s2:
        "readUint (word_of_nat ?m) ?s = (Inr (word_of_nat ?n), s2)" "at s2 (c @ r) (consume stk (1 + ?m))"
        "\<not> (word_of_nat ?n :: u64) < 56" by blast
      from m [OF False] byte_tag [OF b(1), of "0xB7"] have "unat b = 183 + ?m" "b - 0xB7 = word_of_nat ?m" "1 \<le> ?m" "?m \<le> 8"
        by simp_all
      then show ?thesis using s1(1) s2 String b(3)
        by (simp add: stream_readKind_def word_less_nat_alt [where ?'a = 8] Let_def)
    qed
  next
    case List
    show ?thesis
    proof (cases "length c < 56")
      case True
      then have b: "b = word_of_nat (192 + length c)" "xs = c @ r" "tagBytes k c = 1"
        using f List by (auto simp: frame_def rlp_list_def rlp_head_def tagBytes_def)
      with short [of 192 "0xC0"] True show ?thesis
        using s1(1) at [of 0] List by (simp add: stream_readKind_def word_less_nat_alt Let_def)
    next
      case False
      then have b: "b = word_of_nat (247 + ?m)" "xs = be_bytes ?n @ c @ r" "tagBytes k c = 1 + ?m"
        using f List by (auto simp: frame_def rlp_list_def rlp_head_def tagBytes_def)
      from long [OF False b(3,2)] obtain s2 where s2:
        "readUint (word_of_nat ?m) ?s = (Inr (word_of_nat ?n), s2)" "at s2 (c @ r) (consume stk (1 + ?m))"
        "\<not> (word_of_nat ?n :: u64) < 56" by blast
      from m [OF False] byte_tag [OF b(1), of "0xF7"] have "unat b = 247 + ?m" "b - 0xF7 = word_of_nat ?m" "1 \<le> ?m" "?m \<le> 8"
        by simp_all
      then show ?thesis using s1(1) s2 List b(3)
        by (simp add: stream_readKind_def word_less_nat_alt [where ?'a = 8] Let_def)
    qed
  qed
qed

lemma length_tag: "tag_ok k c \<Longrightarrow> length (frame k c) = tagBytes k c + (if k = Byte then 0 else length c)"
  by (cases k) (simp_all add: frame_def tag_ok_def frame_ok_def tagBytes_def rlp_list_def)

lemmas length_frame_tag = length_tag [OF frame_tag_ok]

lemma tagBytes_pos: "1 \<le> tagBytes k c"
  by (simp add: tagBytes_def Suc_leI split: Kind.splits)

lemma stream_Kind_tag:
  assumes "ready s (frame k c @ r) stk" "tag_ok k c" "room stk (length (frame k c))" "length (frame k c @ r) < 2 ^ 63"
  shows "\<exists>s'. stream_Kind s = (Inr (k, if k = Byte then 0 else word_of_nat (length c)), s') \<and>
    armed s' (if k = Byte then r else c @ r) (consume stk (tagBytes k c)) k (if k = Byte then 0 else word_of_nat (length c)) \<and>
    (k = Byte \<longrightarrow> s_byteval s' = hd c)"
proof -
  define sz where "sz = (if k = Byte then 0 else word_of_nat (length c) :: u64)"
  have len: "length (frame k c) = tagBytes k c + (if k = Byte then 0 else length c)"
    using assms(2) by (rule length_tag)
  have "room stk (tagBytes k c)" using assms(3) len by (auto intro: room_mono)
  with stream_readKind_ok [of s k c r stk] assms(1,2,4) obtain s' where
    rk: "stream_readKind s = ((k, sz, None), s')" "at s' (if k = Byte then r else c @ r) (consume stk (tagBytes k c))"
    "k = Byte \<longrightarrow> s_byteval s' = hd c"
    by (auto simp: ready_def sz_def)
  have "length c < 2 ^ 63" using assms(4) by (cases k) (simp_all add: frame_def rlp_list_def)
  then have sz: "unat sz = (if k = Byte then 0 else length c)" by (simp add: unat_of_nat_u64 sz_def)
  have "s_limited s' \<Longrightarrow> unat sz \<le> unat (s_remaining s')"
    using rk(2) sz by (cases "k = Byte") (auto simp: at_def)
  then have "\<not> (s_limited s' \<and> sz > s_remaining s')" by (auto simp: word_less_nat_alt not_less)
  moreover have "listLimit s = (inList, limit) \<Longrightarrow> \<not> (inList \<and> limit = 0) \<and> \<not> (inList \<and> sz > limit)" for inList limit
    using assms(1,3) sz len tagBytes_pos [of k c]
    by (cases "k = Byte") (auto simp: listLimit_def ready_def at_def room_def word_less_nat_alt split: list.splits)
  moreover have "s_kind s = None" using assms(1) by (simp add: ready_def)
  moreover obtain inList limit where "listLimit s = (inList, limit)" by fastforce
  ultimately have "stream_Kind s = (Inr (k, sz), s'\<lparr>s_kind := Some k, s_size := sz, s_kinderr := None\<rparr>)"
    using rk(1) by (auto simp: stream_Kind_def Let_def)
  then show ?thesis using rk(2,3) unfolding sz_def by (auto simp: armed_def at_def)
qed

lemmas stream_Kind_ok = stream_Kind_tag [OF _ frame_tag_ok]

lemma stream_Kind_EOL: "ready s r (0 # ls) \<Longrightarrow> stream_Kind s = (Inl EOL, s)"
  by (simp add: stream_Kind_def ready_def at_def listLimit_def)

subsection \<open>Decoding one value\<close>

definition decodes :: "'v sr \<Rightarrow> 'v \<Rightarrow> bytes \<Rightarrow> bool" where
  "decodes dec v e \<longleftrightarrow>
     (\<forall>s r stk. ready s (e @ r) stk \<longrightarrow> room stk (length e) \<longrightarrow> length (e @ r) < 2 ^ 63 \<longrightarrow>
        (\<exists>s'. dec s = (Inr v, s') \<and> ready s' r (consume stk (length e))))"

definition eol_ok :: "'v sr \<Rightarrow> bool" where
  "eol_ok dec \<longleftrightarrow> (\<forall>s r ls. ready s r (0 # ls) \<longrightarrow> dec s = (Inl EOL, s))"

lemma decodesD:
  "decodes dec v e \<Longrightarrow> ready s (e @ r) stk \<Longrightarrow> room stk (length e) \<Longrightarrow> length (e @ r) < 2 ^ 63 \<Longrightarrow>
   \<exists>s'. dec s = (Inr v, s') \<and> ready s' r (consume stk (length e))"
  by (simp add: decodes_def)

lemma decodes_bind_return: "decodes m x e \<Longrightarrow> decodes (sr_bind m (\<lambda>x. sr_return (f x))) (f x) e"
  unfolding decodes_def sr_bind_def sr_return_def by fastforce

lemma decodes_wrap: "decodes m x e \<Longrightarrow> decodes (sr_wrap m) x e"
  unfolding decodes_def sr_wrap_def by fastforce

lemma eol_bind: "eol_ok m \<Longrightarrow> eol_ok (sr_bind m f)"
  by (simp add: eol_ok_def sr_bind_def)

lemma eol_wrap: "eol_ok m \<Longrightarrow> eol_ok (sr_wrap m)"
  by (simp add: eol_ok_def sr_wrap_def wrapStreamError_def)

lemma eol_Kind: "eol_ok stream_Kind"
  by (simp add: eol_ok_def stream_Kind_EOL)

text \<open>
  A decoder that starts with \<^verbatim>\<open>Kind\<close> decodes a frame if its continuation reads the content.
\<close>

lemma decodes_tag:
  assumes ok: "tag_ok k c"
    and body: "\<And>s r stk. armed s (if k = Byte then r else c @ r) stk k (if k = Byte then 0 else word_of_nat (length c)) \<Longrightarrow>
      (k = Byte \<Longrightarrow> s_byteval s = hd c) \<Longrightarrow> room stk (if k = Byte then 0 else length c) \<Longrightarrow> length (c @ r) < 2 ^ 63 \<Longrightarrow>
      \<exists>s'. f (k, if k = Byte then 0 else word_of_nat (length c)) s = (Inr v, s') \<and>
           ready s' r (consume stk (if k = Byte then 0 else length c))"
  shows "decodes (sr_bind stream_Kind f) v (frame k c)"
  unfolding decodes_def
proof (intro allI impI)
  fix s r stk
  assume a: "ready s (frame k c @ r) stk" "room stk (length (frame k c))" "length (frame k c @ r) < 2 ^ 63"
  from stream_Kind_tag [OF a(1) ok a(2,3)] obtain s1 where s1:
    "stream_Kind s = (Inr (k, if k = Byte then 0 else word_of_nat (length c)), s1)"
    "armed s1 (if k = Byte then r else c @ r) (consume stk (tagBytes k c)) k (if k = Byte then 0 else word_of_nat (length c))"
    "k = Byte \<longrightarrow> s_byteval s1 = hd c" by blast
  have "length (c @ r) < 2 ^ 63" using a(3) by (cases k) (simp_all add: frame_def rlp_list_def)
  moreover have "room (consume stk (tagBytes k c)) (if k = Byte then 0 else length c)"
    using a(2) length_tag [OF ok] by (auto intro: room_consume)
  ultimately obtain s' where "f (k, if k = Byte then 0 else word_of_nat (length c)) s1 = (Inr v, s')"
    "ready s' r (consume (consume stk (tagBytes k c)) (if k = Byte then 0 else length c))"
    using body [OF s1(2)] s1(3) by blast
  then show "\<exists>s'. sr_bind stream_Kind f s = (Inr v, s') \<and> ready s' r (consume stk (length (frame k c)))"
    using s1(1) length_tag [OF ok] by (auto simp: sr_bind_def consume_add)
qed

lemmas decodes_frame = decodes_tag [OF frame_tag_ok]

text \<open>The three ways to read the content: the byte in the tag, the bytes of a string, an empty string.\<close>

lemma frame_string_cases:
  obtains (Byte) b where "c = [b]" "unat b < 128" "rlp_string c = frame Byte c" "frame_ok Byte c"
  | (String) "rlp_string c = frame String c" "frame_ok String c"
  by (cases "length c = 1 \<and> unat (hd c) < 128")
    (auto simp: rlp_string_def frame_def frame_ok_def length_Suc_conv)

lemma armed_byte:
  assumes "armed s r stk Byte 0" "s_byteval s = b"
  shows "\<exists>s'. sr_bind byteval (\<lambda>b. rearm (g b)) s = (Inr (g b), s') \<and> ready s' r stk"
  using assms by (simp add: sr_bind_def byteval_def rearm_def armed_def ready_def at_def)

lemma armed_readFull:
  assumes "armed s (c @ r) stk k sz" "room stk (length c)" "length (c @ r) < 2 ^ 63"
  shows "\<exists>s'. readFull (length c) s = (Inr c, s') \<and> ready s' r (consume stk (length c))"
  using assms by (intro readFull_ok) (auto simp: armed_def)

lemma not_small: "frame_ok String c \<Longrightarrow> word_of_nat (length c) = (1 :: u64) \<Longrightarrow> length c < 2 ^ 63 \<Longrightarrow> \<not> c ! 0 < 128"
proof -
  assume a: "frame_ok String c" "word_of_nat (length c) = (1 :: u64)" "length c < 2 ^ 63"
  have "length c = 1" using unat_of_nat_u64 [OF a(3)] a(2) by (metis unat_1)
  with a(1) show ?thesis by (cases c) (auto simp: frame_ok_def word_less_nat_alt)
qed

lemma decodes_Bytes: "decodes stream_Bytes c (rlp_string c)"
proof (cases rule: frame_string_cases [of c])
  case (Byte b)
  have "decodes stream_Bytes c (frame Byte c)"
    unfolding stream_Bytes_def
    by (rule decodes_frame [OF Byte(4)]) (use armed_byte [where g = "\<lambda>b. [b]"] Byte(1) in auto)
  then show ?thesis by (simp add: Byte(3))
next
  case String
  have "decodes stream_Bytes c (frame String c)"
    unfolding stream_Bytes_def
  proof (rule decodes_frame [OF String(2)], simp)
    fix s r stk
    assume a: "armed s (c @ r) stk String (word_of_nat (length c))" "room stk (length c)" "length c + length r < 9223372036854775808"
    then have "unat (word_of_nat (length c) :: u64) = length c" by (intro unat_of_nat_u64) simp
    with armed_readFull [OF a(1,2)] a(3) not_small [OF String(2)]
    show "\<exists>s'. sr_bind (readFull (unat (word_of_nat (length c) :: u64)))
          (\<lambda>b. if word_of_nat (length c) = (1 :: u64) \<and> b ! 0 < 128 then sr_fail ErrCanonSize else sr_return b) s = (Inr c, s') \<and>
          ready s' r (consume stk (length c))"
      by (auto simp: sr_bind_def sr_return_def)
  qed
  then show ?thesis by (simp add: String(1))
qed

lemma decodes_ByteArray: "decodes (decodeByteArray (length c)) c (rlp_string c)"
proof (cases rule: frame_string_cases [of c])
  case (Byte b)
  have "decodes (decodeByteArray (length c)) c (frame Byte c)"
    unfolding decodeByteArray_def
    by (rule decodes_frame [OF Byte(4)]) (use armed_byte [where g = "\<lambda>b. [b]"] Byte(1) in auto)
  then show ?thesis by (simp add: Byte(3))
next
  case String
  have "decodes (decodeByteArray (length c)) c (frame String c)"
    unfolding decodeByteArray_def
  proof (rule decodes_frame [OF String(2)], simp)
    fix s r stk
    assume a: "armed s (c @ r) stk String (word_of_nat (length c))" "room stk (length c)" "length c + length r < 9223372036854775808"
    with armed_readFull [OF a(1,2)] not_small [OF String(2)]
    show "\<exists>s'. sr_bind (readFull (length c))
          (\<lambda>b. if word_of_nat (length c) = (1 :: u64) \<and> b ! 0 < 128 then sr_fail (wrapStreamError ErrCanonSize) else sr_return b) s =
            (Inr c, s') \<and>
          ready s' r (consume stk (length c))"
      by (auto simp: sr_bind_def sr_return_def)
  qed
  then show ?thesis by (simp add: String(1))
qed

lemma decodes_Raw_tag: "tag_ok k c \<Longrightarrow> decodes stream_Raw (frame k c) (frame k c)"
proof -
  assume ok: "tag_ok k c"
  show ?thesis
    unfolding stream_Raw_def
  proof (rule decodes_tag [OF ok])
    fix s r stk
    assume a: "armed s (if k = Byte then r else c @ r) stk k (if k = Byte then 0 else word_of_nat (length c))"
      "k = Byte \<Longrightarrow> s_byteval s = hd c" "room stk (if k = Byte then 0 else length c)" "length (c @ r) < 2 ^ 63"
    have c: "unat (word_of_nat (length c) :: u64) = length c" using a(4) by (intro unat_of_nat_u64) simp
    show "\<exists>s'. (case (k, if k = Byte then 0 else word_of_nat (length c)) of
            (kind, sz) \<Rightarrow>
              if kind = Byte then sr_bind byteval (\<lambda>b. rearm [b])
              else sr_bind (readFull (unat sz)) (\<lambda>content.
                     sr_return ((if kind = String then puthead 0x80 0xB7 sz else puthead 0xC0 0xF7 sz) @ content))) s =
          (Inr (frame k c), s') \<and> ready s' r (consume stk (if k = Byte then 0 else length c))"
    proof (cases "k = Byte")
      case True
      then have "frame k c = [hd c]" using ok by (auto simp: frame_def tag_ok_def frame_ok_def length_Suc_conv)
      with True armed_byte [of s r stk "hd c" "\<lambda>b. [b]"] a show ?thesis by simp
    next
      case False
      then have "(if k = String then puthead 0x80 0xB7 (word_of_nat (length c)) else puthead 0xC0 0xF7 (word_of_nat (length c))) @ c = frame k c"
        by (cases k) (simp_all add: puthead_string puthead_list c frame_def rlp_list_def)
      with False armed_readFull [of s c r stk k "word_of_nat (length c)"] a c show ?thesis
        by (auto simp: sr_bind_def sr_return_def)
    qed
  qed
qed

lemmas decodes_Raw = decodes_Raw_tag [OF frame_tag_ok]

lemma uint_bytes_Cons: "uint_bytes n = [b] \<Longrightarrow> unat b = n \<and> n \<noteq> 0"
  using be_val_uint_bytes [of n] by (auto simp: uint_bytes_def split: if_splits)

lemma uint_bytes_ge_128:
  assumes "uint_bytes n \<noteq> []" "frame_ok String (uint_bytes n)"
  shows "uint_bytes n = be_bytes n" "128 \<le> n"
proof -
  show b: "uint_bytes n = be_bytes n" using assms(1) by (simp add: uint_bytes_def split: if_splits)
  show "128 \<le> n"
  proof (rule ccontr)
    assume "\<not> 128 \<le> n"
    then have "be_bytes n = [word_of_nat n]" "unat (word_of_nat n :: byte) < 128" by (simp_all add: be_bytes_last)
    with assms(2) b show False by (simp add: frame_ok_def)
  qed
qed

lemma length_uint_bytes_bits:
  assumes "unat (n :: u64) < 2 ^ bits" "bits \<in> {8, 16, 32, 64}"
  shows "length (uint_bytes (unat n)) \<le> bits div 8"
proof (cases "unat n = 0")
  case False
  have "bits = 8 * (bits div 8)" "0 < bits div 8" using assms(2) by auto
  moreover have "(256 :: nat) ^ (bits div 8) = 2 ^ (8 * (bits div 8))" by (simp add: power_mult)
  ultimately have "unat n < 256 ^ (bits div 8)" using assms(1) by metis
  then show ?thesis using length_be_bytes_le [of "unat n" "bits div 8"] \<open>0 < bits div 8\<close> by (simp add: uint_bytes_def)
qed (simp add: uint_bytes_def)

lemma decodes_uint:
  assumes "unat (n :: u64) < 2 ^ bits" "bits \<in> {8, 16, 32, 64}"
  shows "decodes (stream_uint bits) n (rlp_string (uint_bytes (unat n)))"
proof (cases rule: frame_string_cases [of "uint_bytes (unat n)"])
  case (Byte b)
  then have b: "unat b = unat n" "unat b \<noteq> 0" using uint_bytes_Cons by auto
  then have b': "b \<noteq> 0" "ucast b = n" by (auto simp: word_unat_eq_iff)
  have "decodes (stream_uint bits) n (frame Byte [b])"
    unfolding stream_uint_def
  proof (rule decodes_frame)
    show "frame_ok Byte [b]" using Byte by simp
    fix s r stk
    assume "armed s (if Byte = Byte then r else [b] @ r) stk Byte (if Byte = Byte then 0 else word_of_nat (length [b]))"
      "Byte = Byte \<Longrightarrow> s_byteval s = hd [b]"
    then have "armed s r stk Byte 0" "s_byteval s = b" by simp_all
    then show "\<exists>s'. (case (Byte, if Byte = Byte then 0 else word_of_nat (length [b])) of (kind, sz) \<Rightarrow>
         case kind of
           Byte \<Rightarrow> sr_bind byteval (\<lambda>b. if b = 0 then sr_fail ErrCanonInt else rearm (ucast b))
         | String \<Rightarrow>
             if word_of_nat (bits div 8) < sz then sr_fail errUintOverflow
             else (\<lambda>s. case readUint (ucast sz) s of
                 (Inl err, s) \<Rightarrow> (Inl (if err = ErrCanonSize then ErrCanonInt else err), s)
               | (Inr v, s) \<Rightarrow> if 0 < sz \<and> v < 128 then (Inl ErrCanonSize, s) else (Inr v, s))
         | List \<Rightarrow> sr_fail ErrExpectedString) s = (Inr n, s') \<and>
        ready s' r (consume stk (if Byte = Byte then 0 else length [b]))"
      using b' by (simp add: sr_bind_def byteval_def rearm_def armed_def ready_def at_def)
  qed
  then show ?thesis using Byte by simp
next
  case String
  let ?c = "uint_bytes (unat n)" and ?sz = "word_of_nat (length (uint_bytes (unat n))) :: u64"
  have l8: "length ?c \<le> 8" by (rule length_uint_bytes_u64)
  then have sz: "unat ?sz = length ?c" by (intro unat_of_nat_u64) simp
  have szb: "(ucast ?sz :: byte) = word_of_nat (length ?c)"
    using l8 sz by (simp add: word_unat_eq_iff)
  have over: "\<not> word_of_nat (bits div 8) < ?sz"
    using length_uint_bytes_bits [OF assms] sz assms(2) by (auto simp: word_less_nat_alt not_less)
  have "decodes (stream_uint bits) n (frame String ?c)"
    unfolding stream_uint_def
  proof (rule decodes_frame [OF String(2)], simp add: over szb)
    fix s r stk
    assume a: "armed s (?c @ r) stk String ?sz" "room stk (length ?c)" "length ?c + length r < 9223372036854775808"
    show "\<exists>s'. (case readUint (word_of_nat (length ?c)) s of
                 (Inl err, s) \<Rightarrow> (Inl (if err = ErrCanonSize then ErrCanonInt else err), s)
               | (Inr v, s) \<Rightarrow> if 0 < ?sz \<and> v < 128 then (Inl ErrCanonSize, s) else (Inr v, s)) = (Inr n, s') \<and>
            ready s' r (consume stk (length ?c))"
    proof (cases "?c = []")
      case True
      then have "unat n = 0" by (simp add: uint_bytes_def split: if_splits)
      then have "n = 0" by (simp add: unat_eq_zero)
      with True a(1) show ?thesis by (simp add: readUint_def armed_def ready_def at_def uint_bytes_def)
    next
      case False
      note c = uint_bytes_ge_128 [OF False String(2)]
      have "\<not> n < 128" using c(2) by (simp add: word_less_nat_alt)
      with readUint_ok [of s "unat n" r stk] a c l8 show ?thesis by (auto simp: armed_def)
    qed
  qed
  then show ?thesis by (simp add: String(1))
qed

lemma decodes_Bool: "decodes stream_Bool b (rlp_string (uint_bytes (of_bool b)))"
proof -
  have "decodes (stream_uint 8) (of_bool b) (rlp_string (uint_bytes (unat (of_bool b :: u64))))"
    by (rule decodes_uint) (cases b; simp)+
  moreover have "unat (of_bool b :: u64) = of_bool b" by (cases b) simp_all
  ultimately show ?thesis
    unfolding stream_Bool_def decodes_def sr_bind_def sr_return_def by (cases b) fastforce+
qed

lemma decodes_check:
  assumes "decodes read (uint_bytes i) e" "\<not> (length (uint_bytes i) > 0 \<and> uint_bytes i ! 0 = 0)"
  shows "decodes (sr_bind read (\<lambda>buffer.
    if length buffer > 0 \<and> buffer ! 0 = 0 then sr_fail ErrCanonInt else sr_return (be_val buffer))) i e"
  unfolding decodes_def
proof (intro allI impI)
  fix s r stk
  assume "ready s (e @ r) stk" "room stk (length e)" "length (e @ r) < 2 ^ 63"
  from decodesD [OF assms(1) this] assms(2) show
    "\<exists>s'. sr_bind read (\<lambda>buffer. if length buffer > 0 \<and> buffer ! 0 = 0 then sr_fail ErrCanonInt else sr_return (be_val buffer)) s =
       (Inr i, s') \<and> ready s' r (consume stk (length e))"
    by (auto simp: sr_bind_def sr_return_def uint_bytes_Nil)
qed

lemma decodes_BigInt: "decodes stream_BigInt i (rlp_string (uint_bytes i))"
proof -
  let ?c = "uint_bytes i"
  define read where "read = sr_bind stream_Kind (\<lambda>(kind, sz).
          if kind = List then sr_fail ErrExpectedString
          else if kind = Byte then sr_bind byteval (\<lambda>b. rearm [b])
          else if sz = 0 then rearm []
          else
            sr_bind (readFull (unat sz)) (\<lambda>buffer.
              if sz \<le> 32 \<and> sz = 1 \<and> buffer ! 0 < 128 then sr_fail ErrCanonSize else sr_return buffer))"
  have "decodes read ?c (rlp_string ?c)"
  proof (cases rule: frame_string_cases [of ?c])
    case (Byte b)
    have "decodes read ?c (frame Byte ?c)"
      unfolding read_def
      by (rule decodes_frame [OF Byte(4)]) (use armed_byte [where g = "\<lambda>b. [b]"] Byte(1) in auto)
    then show ?thesis by (simp add: Byte(3))
  next
    case String
    have "decodes read ?c (frame String ?c)"
      unfolding read_def
    proof (rule decodes_frame [OF String(2)], simp)
      fix s r stk
      assume a: "armed s (?c @ r) stk String (word_of_nat (length ?c))" "room stk (length ?c)" "length ?c + length r < 9223372036854775808"
      then have u: "unat (word_of_nat (length ?c) :: u64) = length ?c" by (intro unat_of_nat_u64) simp
      then have z: "word_of_nat (length ?c) = (0 :: u64) \<longleftrightarrow> ?c = []" using unat_eq_zero [of "word_of_nat (length ?c) :: u64"] by simp
      show "(word_of_nat (length ?c) = (0 :: u64) \<longrightarrow>
             (\<exists>s'. rearm [] s = (Inr ?c, s') \<and> ready s' r (consume stk (length ?c)))) \<and>
            (word_of_nat (length ?c) \<noteq> (0 :: u64) \<longrightarrow>
             (\<exists>s'. sr_bind (readFull (unat (word_of_nat (length ?c) :: u64)))
               (\<lambda>buffer. if word_of_nat (length ?c) \<le> (32 :: u64) \<and> word_of_nat (length ?c) = (1 :: u64) \<and> buffer ! 0 < 128
                  then sr_fail ErrCanonSize else sr_return buffer) s = (Inr ?c, s') \<and>
              ready s' r (consume stk (length ?c))))"
      proof (cases "?c = []")
        case True
        with a(1) show ?thesis by (simp add: rearm_def armed_def ready_def at_def)
      next
        case False
        have "length (?c @ r) < 2 ^ 63" using a(3) by simp
        from armed_readFull [OF a(1,2) this] obtain s' where s': "readFull (length ?c) s = (Inr ?c, s')"
          "ready s' r (consume stk (length ?c))" by blast
        have "\<not> (word_of_nat (length ?c) = (1 :: u64) \<and> ?c ! 0 < 128)" using not_small [OF String(2)] a(3) by auto
        then show ?thesis unfolding z u using False s' by (auto simp: sr_bind_def sr_return_def)
      qed
    qed
    then show ?thesis by (simp add: String(1))
  qed
  moreover have "\<not> (length ?c > 0 \<and> ?c ! 0 = 0)"
    using hd_uint_bytes [of i] by (auto simp: hd_conv_nth)
  ultimately show ?thesis
    unfolding stream_BigInt_def read_def [symmetric] by (rule decodes_check)
qed

subsection \<open>Lists\<close>

lemma stream_ListEnd_ok: "ready s r (0 # ls) \<Longrightarrow> \<exists>s'. stream_ListEnd s = (Inr (), s') \<and> ready s' r ls"
  by (simp add: stream_ListEnd_def ready_def at_def listLimit_def)

lemma stream_List_ok:
  assumes a: "ready s (rlp_list p @ r) stk" "room stk (length (rlp_list p))" "length (rlp_list p @ r) < 2 ^ 63"
  shows "\<exists>s'. stream_List s = (Inr (word_of_nat (length p)), s') \<and>
    ready s' (p @ r) (word_of_nat (length p) # consume stk (length (rlp_list p)))"
proof -
  let ?sz = "word_of_nat (length p) :: u64"
  have fr: "frame List p = rlp_list p" "frame_ok List p" by (simp_all add: frame_def frame_ok_def)
  from stream_Kind_ok [of s List p r stk] a fr obtain s1 where s1:
    "stream_Kind s = (Inr (List, ?sz), s1)" "armed s1 (p @ r) (consume stk (tagBytes List p)) List ?sz" by auto
  define s2 where "s2 = (let s = (if stk = [] then s1 else s1\<lparr>s_stack := consume stk (length (rlp_list p))\<rparr>)
      in s\<lparr>s_stack := ?sz # s_stack s, s_kind := None, s_size := 0\<rparr>)"
  have stk1: "s_stack s1 = consume stk (tagBytes List p)" using s1(2) by (simp add: armed_def at_def)
  have len: "length (rlp_list p) = tagBytes List p + length p" using length_frame_tag [OF fr(2)] fr(1) by simp
  have "stream_List s = (Inr ?sz, s2)"
    using s1(1) stk1 len
    by (cases stk) (simp_all add: stream_List_def sr_bind_def listLimit_def s2_def consume_def Let_def diff_diff_eq)
  moreover have "ready s2 (p @ r) (?sz # consume stk (length (rlp_list p)))"
    using s1(2) stk1 by (cases stk) (auto simp: s2_def ready_def armed_def at_def consume_def Let_def)
  ultimately show ?thesis by blast
qed

lemma decodes_List:
  assumes "\<And>s r ls. ready s (p @ r) (word_of_nat (length p) # ls) \<Longrightarrow> length (p @ r) < 2 ^ 63 \<Longrightarrow>
      \<exists>s'. f (word_of_nat (length p)) s = (Inr v, s') \<and> ready s' r ls"
  shows "decodes (sr_bind (sr_wrap stream_List) f) v (rlp_list p)"
  unfolding decodes_def
proof (intro allI impI)
  fix s r stk
  assume a: "ready s (rlp_list p @ r) stk" "room stk (length (rlp_list p))" "length (rlp_list p @ r) < 2 ^ 63"
  from stream_List_ok [OF a] obtain s2 where
    "stream_List s = (Inr (word_of_nat (length p)), s2)"
    "ready s2 (p @ r) (word_of_nat (length p) # consume stk (length (rlp_list p)))" by blast
  moreover have "length (p @ r) < 2 ^ 63" using a(3) length_rlp_list [of p] by simp
  ultimately show "\<exists>s'. sr_bind (sr_wrap stream_List) f s = (Inr v, s') \<and> ready s' r (consume stk (length (rlp_list p)))"
    using assms [of s2 r "consume stk (length (rlp_list p))"] by (simp add: sr_bind_def sr_wrap_def)
qed

lemma eol_List: "eol_ok stream_List"
  unfolding stream_List_def by (intro eol_bind eol_Kind)

text \<open>The elements of a list whose limit is exactly their length.\<close>

lemma room_exact: "unat l = length (e @ es) \<Longrightarrow> room (l # ls) (length e)"
  by (simp add: room_def)

lemma consume_exact:
  assumes "unat l = length (e @ es)"
  shows "\<exists>l'. consume (l # ls) (length e) = l' # ls \<and> unat l' = length es"
  using assms unat_minus_of_nat [of "length e" l] by (simp add: consume_def)

lemma sliceElems_ok:
  assumes "list_all2 (decodes dec) vs es" "eol_ok dec" "length vs < fuel"
    "ready s (concat es @ r) (l # ls)" "unat l = length (concat es)" "length (concat es @ r) < 2 ^ 63"
  shows "\<exists>s'. sliceElems_loop fuel dec s = (Inr vs, s') \<and> ready s' r (0 # ls)"
  using assms
proof (induction vs es arbitrary: fuel s l rule: list_all2_induct)
  case Nil
  then have "l = 0" by (simp add: unat_eq_zero)
  then have "dec s = (Inl EOL, s)" "ready s r (0 # ls)" using Nil by (auto simp: eol_ok_def)
  with Nil show ?case by (cases fuel) auto
next
  case (Cons v vs e es)
  obtain n where n: "fuel = Suc n" "length vs < n" using Cons.prems(2) by (cases fuel) auto
  have l: "unat l = length (e @ concat es)" using Cons.prems(4) by simp
  from consume_exact [OF l, of ls] obtain l' where l': "consume (l # ls) (length e) = l' # ls" "unat l' = length (concat es)"
    by blast
  from decodesD [OF Cons.hyps(1), of s "concat es @ r" "l # ls"] room_exact [OF l] Cons.prems(3,5) obtain s1 where
    "dec s = (Inr v, s1)" "ready s1 (concat es @ r) (l' # ls)"
    unfolding l'(1) by auto
  with Cons.IH [OF Cons.prems(1) n(2), of s1 l'] l'(2) Cons.prems(5) n(1) show ?case
    by (auto simp: sr_bind_def sr_return_def)
qed

lemma length_le_concat: "\<forall>e \<in> set es. e \<noteq> [] \<Longrightarrow> length es \<le> length (concat es)"
  by (induction es) (auto simp: Suc_le_eq add_strict_increasing neq_Nil_conv)

lemma decodeSliceElems_ok:
  assumes "list_all2 (decodes dec) vs es" "eol_ok dec" "\<forall>e \<in> set es. e \<noteq> []"
    "ready s (concat es @ r) (l # ls)" "unat l = length (concat es)" "length (concat es @ r) < 2 ^ 63"
  shows "\<exists>s'. decodeSliceElems dec s = (Inr vs, s') \<and> ready s' r (0 # ls)"
proof -
  have "length vs < Suc (length (s_r s))"
    using list_all2_lengthD [OF assms(1)] length_le_concat [OF assms(3)] assms(4)
    by (auto simp: ready_def at_def)
  then show ?thesis unfolding decodeSliceElems_def by (rule sliceElems_ok [OF assms(1,2) _ assms(4-6)])
qed

lemma decodes_ListSlice:
  assumes "list_all2 (decodes dec) vs es" "es \<noteq> [] \<Longrightarrow> eol_ok dec" "\<forall>e \<in> set es. e \<noteq> []"
  shows "decodes (decodeListSlice dec) vs (rlp_list (concat es))"
  unfolding decodeListSlice_def
proof (rule decodes_List)
  fix s r ls
  assume a: "ready s (concat es @ r) (word_of_nat (length (concat es)) # ls)" "length (concat es @ r) < 2 ^ 63"
  let ?sz = "word_of_nat (length (concat es)) :: u64"
  have u: "unat ?sz = length (concat es)" using a(2) by (intro unat_of_nat_u64) simp
  show "\<exists>s'. (if ?sz = 0 then sr_bind stream_ListEnd (\<lambda>_. sr_return [])
      else sr_bind (decodeSliceElems dec) (\<lambda>vs. sr_bind stream_ListEnd (\<lambda>_. sr_return vs))) s = (Inr vs, s') \<and> ready s' r ls"
  proof (cases "es = []")
    case True
    then have "vs = []" using assms(1) by simp
    with True a(1) stream_ListEnd_ok [of s r ls] show ?thesis by (auto simp: sr_bind_def sr_return_def)
  next
    case False
    then have "length (concat es) \<noteq> 0" using assms(3) length_le_concat [OF assms(3)] by (cases es) auto
    then have "?sz \<noteq> 0" using u by (metis unat_0)
    moreover from decodeSliceElems_ok [OF assms(1,2,3) a(1) u a(2)] False obtain s1 where
      s1: "decodeSliceElems dec s = (Inr vs, s1)" "ready s1 r (0 # ls)" by blast
    ultimately show ?thesis using stream_ListEnd_ok [OF s1(2)] by (auto simp: sr_bind_def sr_return_def)
  qed
qed

lemma arrayElems_ok:
  assumes "list_all2 (decodes dec) vs es" "ready s (concat es @ r) (l # ls)" "unat l = length (concat es)"
    "length (concat es @ r) < 2 ^ 63"
  shows "\<exists>s'. arrayElems_loop (length vs) dec s = (Inr vs, s') \<and> ready s' r (0 # ls)"
  using assms
proof (induction vs es arbitrary: s l rule: list_all2_induct)
  case Nil
  then have "l = 0" by (simp add: unat_eq_zero)
  with Nil show ?case by simp
next
  case (Cons v vs e es)
  have l: "unat l = length (e @ concat es)" using Cons.prems(2) by simp
  from consume_exact [OF l, of ls] obtain l' where l': "consume (l # ls) (length e) = l' # ls" "unat l' = length (concat es)"
    by blast
  from decodesD [OF Cons.hyps(1), of s "concat es @ r" "l # ls"] room_exact [OF l] Cons.prems(1,3) obtain s1 where
    "dec s = (Inr v, s1)" "ready s1 (concat es @ r) (l' # ls)"
    unfolding l'(1) by auto
  with Cons.IH [of s1 l'] l'(2) Cons.prems(3) show ?case by (auto simp: sr_bind_def sr_return_def)
qed

lemma decodes_ListArray:
  assumes "list_all2 (decodes dec) vs es"
  shows "decodes (decodeListArray (length vs) dec) vs (rlp_list (concat es))"
  unfolding decodeListArray_def
proof (rule decodes_List)
  fix s r ls
  assume a: "ready s (concat es @ r) (word_of_nat (length (concat es)) # ls)" "length (concat es @ r) < 2 ^ 63"
  have "unat (word_of_nat (length (concat es)) :: u64) = length (concat es)" using a(2) by (intro unat_of_nat_u64) simp
  from arrayElems_ok [OF assms a(1) this a(2)] obtain s1 where
    s1: "arrayElems_loop (length vs) dec s = (Inr vs, s1)" "ready s1 r (0 # ls)" by blast
  with stream_ListEnd_ok [OF s1(2)]
  show "\<exists>s'. sr_bind (arrayElems_loop (length vs) dec)
      (\<lambda>vs. sr_bind (sr_wrap stream_ListEnd) (\<lambda>_. sr_return vs)) s = (Inr vs, s') \<and> ready s' r ls"
    by (auto simp: sr_bind_def sr_return_def sr_wrap_def)
qed

subsection \<open>Items\<close>

text \<open>A decoder that starts with \<^verbatim>\<open>Kind\<close> may be called after another call of \<^verbatim>\<open>Kind\<close>.\<close>

definition starts :: "'v sr \<Rightarrow> bool" where
  "starts dec \<longleftrightarrow> (\<forall>s x s1. stream_Kind s = (Inr x, s1) \<longrightarrow> dec s1 = dec s)"

lemma starts_Kind: "starts stream_Kind"
  unfolding starts_def using stream_Kind_idem by metis

lemma starts_bind: "starts m \<Longrightarrow> starts (sr_bind m f)"
  unfolding starts_def sr_bind_def by fastforce

lemma starts_wrap: "starts m \<Longrightarrow> starts (sr_wrap m)"
  unfolding starts_def sr_wrap_def by fastforce

lemma decodes_after_Kind:
  assumes "decodes dec v e" "starts dec" "e = frame k c" "frame_ok k c"
    and "\<And>s. f (k, if k = Byte then 0 else word_of_nat (length c)) s = sr_bind dec (\<lambda>v. sr_return (g v)) s"
  shows "decodes (sr_bind (sr_wrap stream_Kind) f) (g v) e" "decodes (sr_bind stream_Kind f) (g v) e"
proof -
  have *: "\<exists>s1. stream_Kind s = (Inr (k, if k = Byte then 0 else word_of_nat (length c)), s1) \<and>
      (\<exists>s'. f (k, if k = Byte then 0 else word_of_nat (length c)) s1 = (Inr (g v), s') \<and> ready s' r (consume stk (length e)))"
    if a: "ready s (e @ r) stk" "room stk (length e)" "length (e @ r) < 2 ^ 63" for s r stk
  proof -
    from stream_Kind_ok [of s k c r stk] a assms(3,4) obtain s1 where
      s1: "stream_Kind s = (Inr (k, if k = Byte then 0 else word_of_nat (length c)), s1)" by blast
    with assms(2) have "dec s1 = dec s" by (simp add: starts_def)
    with decodesD [OF assms(1) a] assms(5) [of s1] s1 show ?thesis by (auto simp: sr_bind_def sr_return_def)
  qed
  show "decodes (sr_bind (sr_wrap stream_Kind) f) (g v) e"
    unfolding decodes_def sr_bind_def sr_wrap_def using * by fastforce
  show "decodes (sr_bind stream_Kind f) (g v) e"
    unfolding decodes_def sr_bind_def using * by fastforce
qed

lemmas starts_ops = starts_bind starts_wrap starts_Kind

lemma starts_Bytes: "starts stream_Bytes"
  unfolding stream_Bytes_def by (intro starts_ops)

lemma starts_ListSlice: "starts (decodeListSlice dec)"
  unfolding decodeListSlice_def stream_List_def by (intro starts_ops)

lemma eol_decodeInterface: "0 < n \<Longrightarrow> eol_ok (decodeInterface_loop n)"
  by (cases n) (auto intro!: eol_bind eol_Kind)

lemma rlp_string_frame: "\<exists>k. k \<noteq> List \<and> rlp_string c = frame k c \<and> frame_ok k c"
  by (cases rule: frame_string_cases [of c]) auto

lemma decodes_item: "length (rlp_enc it) \<le> n \<Longrightarrow> decodes (decodeInterface_loop n) it (rlp_enc it)"
proof (induction it arbitrary: n)
  case (Str b)
  then obtain m where n: "n = Suc m" by (cases n) auto
  obtain k where k: "k \<noteq> List" "rlp_string b = frame k b" "frame_ok k b" using rlp_string_frame by blast
  show ?case
    unfolding n decodeInterface_loop.simps
    by (rule decodes_after_Kind(2) [of stream_Bytes b _ k b, where g = Str])
      (use k decodes_Bytes [of b] starts_Bytes in simp_all)
next
  case (Lst xs)
  let ?p = "concat (map rlp_enc xs)"
  have hd: "length (rlp_enc (Lst xs)) \<ge> Suc (length ?p)" by (simp add: rlp_list_def Suc_le_eq)
  with Lst.prems obtain m where n: "n = Suc m" "length ?p \<le> m" by (cases n) auto
  have el: "length (rlp_enc x) \<le> m" if "x \<in> set xs" for x
    using length_concat_le [of "rlp_enc x" "map rlp_enc xs"] that n(2) by simp
  have "list_all2 (decodes (decodeInterface_loop m)) xs (map rlp_enc xs)"
    using Lst.IH el by (simp add: list_all2_map2 list_all2_same)
  moreover have "eol_ok (decodeInterface_loop m)" if "map rlp_enc xs \<noteq> []"
  proof (rule eol_decodeInterface)
    from that obtain x where "x \<in> set xs" by (cases xs) auto
    from el [OF this] show "0 < m" by (metis length_greater_0_conv less_le_trans rlp_enc_not_Nil(1))
  qed
  ultimately have "decodes (decodeListSlice (decodeInterface_loop m)) xs (rlp_list ?p)"
    by (rule decodes_ListSlice) auto
  then have "decodes (decodeInterface_loop (Suc m)) (Lst xs) (rlp_list ?p)"
    unfolding decodeInterface_loop.simps
    by (rule decodes_after_Kind(2) [where k = List and c = ?p and g = Lst])
      (simp_all add: starts_ListSlice frame_def frame_ok_def)
  then show ?case by (simp add: n)
qed

lemma decodes_Interface: "decodes decodeInterface it (rlp_enc it)"
  unfolding decodes_def
proof (intro allI impI)
  fix s r stk
  assume a: "ready s (rlp_enc it @ r) stk" "room stk (length (rlp_enc it))" "length (rlp_enc it @ r) < 2 ^ 63"
  then have "length (rlp_enc it) \<le> Suc (length (s_r s))" by (simp add: ready_def at_def)
  from decodesD [OF decodes_item [OF this] a]
  show "\<exists>s'. decodeInterface s = (Inr it, s') \<and> ready s' r (consume stk (length (rlp_enc it)))"
    by (simp add: decodeInterface_def)
qed

subsection \<open>Values that can be read back\<close>

text \<open>Values up to the difference between a nil and an empty slice, which the encoding does not keep.\<close>

fun erase :: "rval \<Rightarrow> rval" where
  "erase (VBytes isnil b) = VBytes False b"
| "erase (VSlice isnil vs) = VSlice False (map erase vs)"
| "erase (VArray vs) = VArray (map erase vs)"
| "erase (VStruct vs) = VStruct (map erase vs)"
| "erase (VPtr p) = VPtr (map_option erase p)"
| "erase v = v"

fun ptr_base :: "rtype \<Rightarrow> rtype" where
  "ptr_base (TPtr t) = ptr_base t"
| "ptr_base t = t"

text \<open>
  What the encoding cannot represent: a nil big integer or interface (read back as zero or as an
  empty list), a nil pointer outside a \<^verbatim>\<open>nil\<close> field, a pointer in a \<^verbatim>\<open>nil\<close> field to a value
  that is encoded as empty, a raw value that is not one encoded value.
\<close>

function rt_ok :: "tags \<Rightarrow> rtype \<Rightarrow> rval \<Rightarrow> bool" where
  "rt_ok tg TRaw = (\<lambda>v. \<exists>k c. v = VRaw (frame k c) \<and> frame_ok k c)"
| "rt_ok tg TBig = (\<lambda>v. \<exists>i \<ge> 0. v = VBig (Some i))"
| "rt_ok tg (TUint bits) = (\<lambda>v. \<exists>n. v = VUint n \<and> unat n < 2 ^ bits)"
| "rt_ok tg TBool = (\<lambda>v. \<exists>b. v = VBool b)"
| "rt_ok tg TString = (\<lambda>v. \<exists>b. v = VBytes False b)"
| "rt_ok tg TByteSlice = (\<lambda>v. \<exists>isnil b. v = VBytes isnil b)"
| "rt_ok tg (TByteArray n) = (\<lambda>v. \<exists>b. v = VBytes False b \<and> length b = n)"
| "rt_ok tg (TSlice t) = (\<lambda>v. \<exists>isnil vs. v = VSlice isnil vs \<and> list_all (rt_ok noTags t) vs)"
| "rt_ok tg (TArray n t) = (\<lambda>v. \<exists>vs. v = VArray vs \<and> length vs = n \<and> list_all (rt_ok noTags t) vs)"
| "rt_ok tg (TStruct fs) =
     (\<lambda>v. \<exists>vs. v = VStruct vs \<and> has_type (TStruct fs) v \<and>
        list_all (\<lambda>(ok, v). ok v) (take (fieldCount fs vs) (zip (map (\<lambda>f. rt_ok (f_tags f) (f_type f)) fs) vs)))"
| "rt_ok tg (TPtr t) =
     (\<lambda>v. NilOK tg \<and> v = VPtr None \<or>
        (\<exists>v'. v = VPtr (Some v') \<and> rt_ok noTags t v' \<and>
          (NilOK tg \<longrightarrow> ptr_base t \<noteq> TIface \<and> renc noTags t v' \<notin> {[0x80], [0xC0]})))"
| "rt_ok tg TIface = (\<lambda>v. \<exists>it. v = VIface (Some it))"
  by pat_completeness auto
termination
  by (relation "measure (\<lambda>(tg, t). size t)") (auto dest: size_field_type)

definition is_frame :: "bytes \<Rightarrow> bool" where
  "is_frame e \<longleftrightarrow> (\<exists>k c. e = frame k c \<and> frame_ok k c)"

lemma is_frameI: "frame_ok k c \<Longrightarrow> is_frame (frame k c)"
  unfolding is_frame_def by blast

lemma is_frame_string [simp]: "is_frame (rlp_string c)"
  using rlp_string_frame [of c] by (auto simp: is_frame_def)

lemma is_frame_list [simp]: "is_frame (rlp_list p)"
  unfolding is_frame_def by (rule exI [of _ List], rule exI [of _ p]) (simp add: frame_def frame_ok_def)

lemma is_frame_item [simp]: "is_frame (rlp_enc it)"
  by (cases it) simp_all

lemma is_frame_not_Nil: "is_frame e \<Longrightarrow> e \<noteq> []"
proof -
  assume "is_frame e"
  then obtain k c where "e = frame k c" "frame_ok k c" by (auto simp: is_frame_def)
  then show ?thesis by (cases k) (auto simp: frame_def frame_ok_def)
qed

lemma renc_frame:
  "rt_ok tg t v \<Longrightarrow> \<not> (Tail tg \<and> (\<exists>t'. t = TSlice t')) \<Longrightarrow> is_frame (renc tg t v)"
proof (induction tg t arbitrary: v rule: rt_ok.induct)
  case (1 tg)
  then show ?case by (auto intro: is_frameI)
next
  case (11 tg t)
  then show ?case by (auto simp: noTags_def)
qed (auto simp: Let_def)

lemma IsZero_zeroVal: "IsZero t v \<Longrightarrow> has_type t v \<Longrightarrow> erase v = erase (zeroVal t)"
proof (induction t arbitrary: v rule: zeroVal.induct)
  case (7 n)
  then obtain b where b: "v = VBytes False b" "length b = n" "list_all (\<lambda>x. x = 0) b" by auto
  then have "b = replicate n 0" by (simp add: list_all_iff replicate_eqI)
  with b show ?case by simp
next
  case (9 n t)
  then obtain vs where v: "v = VArray vs" "length vs = n" "list_all (IsZero t) vs" "list_all (has_type t) vs" by auto
  then have "map erase vs = replicate n (erase (zeroVal t))"
    using 9(1) by (intro replicate_eqI) (auto simp: list_all_iff)
  with v show ?case by simp
next
  case (10 fs)
  then obtain vs where v: "v = VStruct vs" "list_all2 (\<lambda>z x. z x) (map (\<lambda>f. IsZero (f_type f)) fs) vs"
    "list_all2 (\<lambda>z x. z x) (map (\<lambda>f. has_type (f_type f)) fs) vs" by auto
  then have "map erase vs = map (\<lambda>f. erase (zeroVal (f_type f))) fs"
    using 10(1) by (intro nth_equalityI) (auto simp: list_all2_conv_all_nth)
  with v(1) show ?case by simp
qed (auto split: rval.splits)

subsection \<open>Structs\<close>

text \<open>A \<^verbatim>\<open>tail\<close> field takes all that is left of the list.\<close>

definition tail_decodes :: "rval sr \<Rightarrow> rval \<Rightarrow> bytes \<Rightarrow> bool" where
  "tail_decodes dec v e \<longleftrightarrow>
     (\<forall>s r l ls. ready s (e @ r) (l # ls) \<longrightarrow> unat l = length e \<longrightarrow> length (e @ r) < 2 ^ 63 \<longrightarrow>
        (\<exists>s'. dec s = (Inr v, s') \<and> ready s' r (0 # ls)))"

definition field_decodes :: "field \<Rightarrow> rval sr \<Rightarrow> rval \<Rightarrow> bytes \<Rightarrow> bool" where
  "field_decodes f dec v e \<longleftrightarrow> (if Tail (f_tags f) then tail_decodes dec v e else decodes dec v e)"

text \<open>The fields that were written (\<open>xs\<close>), then those left out because they are zero (\<open>ys\<close>).\<close>

definition omitted_decodes :: "(field \<times> rval sr) list \<Rightarrow> rval list \<Rightarrow> bool" where
  "omitted_decodes ys vs \<longleftrightarrow>
     (\<forall>s r ls. ready s r (0 # ls) \<longrightarrow> length r < 2 ^ 63 \<longrightarrow>
        (\<exists>s'. structFields_loop ys s = (Inr vs, s') \<and> ready s' r (0 # ls)))"

lemma omitted_Nil: "omitted_decodes [] []"
  by (simp add: omitted_decodes_def)

lemma omitted_Optional:
  "Optional (f_tags f) \<Longrightarrow> eol_ok dec \<Longrightarrow>
   omitted_decodes ((f, dec) # ys) (map (\<lambda>(g, _). zeroVal (f_type g)) ((f, dec) # ys))"
  unfolding omitted_decodes_def
proof (intro allI impI)
  fix s r ls
  assume "Optional (f_tags f)" "eol_ok dec" "ready s r (0 # ls)"
  moreover from this have "dec s = (Inl EOL, s)" by (auto simp: eol_ok_def)
  ultimately show "\<exists>s'. structFields_loop ((f, dec) # ys) s =
      (Inr (map (\<lambda>(g, _). zeroVal (f_type g)) ((f, dec) # ys)), s') \<and> ready s' r (0 # ls)"
    by simp
qed

lemma omitted_Tail: "tail_decodes dec v [] \<Longrightarrow> omitted_decodes [(f, dec)] [v]"
  unfolding omitted_decodes_def
proof (intro allI impI)
  fix s r ls
  assume "tail_decodes dec v []" "ready s r (0 # ls)" "length r < 2 ^ 63"
  then obtain s' where "dec s = (Inr v, s')" "ready s' r (0 # ls)"
    unfolding tail_decodes_def by (metis append_Nil length_0_conv unat_0)
  then show "\<exists>s'. structFields_loop [(f, dec)] s = (Inr [v], s') \<and> ready s' r (0 # ls)"
    by (simp add: sr_bind_def sr_return_def)
qed

definition tail_last :: "(field \<times> rval sr) list \<Rightarrow> 'a list \<times> 'b list \<Rightarrow> bool" where
  "tail_last xs rest \<longleftrightarrow> (\<forall>as f dec bs. xs = as @ (f, dec) # bs \<longrightarrow> Tail (f_tags f) \<longrightarrow> bs = [] \<and> rest = ([], []))"

lemma tail_last_Cons:
  assumes "tail_last (x # xs) rest"
  shows "tail_last xs rest" "Tail (f_tags (fst x)) \<Longrightarrow> xs = [] \<and> rest = ([], [])"
proof -
  show "tail_last xs rest" using assms unfolding tail_last_def by (metis append_Cons)
  show "Tail (f_tags (fst x)) \<Longrightarrow> xs = [] \<and> rest = ([], [])"
    using assms unfolding tail_last_def by (metis append_Nil prod.collapse)
qed

lemma structFields_ok:
  assumes "list_all2 (\<lambda>(f, dec) (v, e). field_decodes f dec v e) xs ves"
    and "tail_last xs (ys, vs)"
    and ys: "omitted_decodes ys vs"
    and "ready s (concat (map snd ves) @ r) (l # ls)"
    and "unat l = length (concat (map snd ves))"
    and "length (concat (map snd ves) @ r) < 2 ^ 63"
  shows "\<exists>s'. structFields_loop (xs @ ys) s = (Inr (map fst ves @ vs), s') \<and> ready s' r (0 # ls)"
  using assms(1,2,4,5,6)
proof (induction xs ves arbitrary: s l rule: list_all2_induct)
  case Nil
  then have "l = 0" by (simp add: unat_eq_zero)
  with Nil ys show ?case by (simp add: omitted_decodes_def)
next
  case (Cons x xs y ves)
  obtain f dec v e where x: "x = (f, dec)" "y = (v, e)" by fastforce
  let ?e = "concat (map snd ves)"
  have fd: "field_decodes f dec v e" using Cons.hyps(1) x by simp
  have l: "unat l = length (e @ ?e)" using Cons.prems(3) x by simp
  show ?case
  proof (cases "Tail (f_tags f)")
    case True
    with tail_last_Cons(2) [OF Cons.prems(1)] x have nil: "xs = []" "ys = []" "vs = []" by simp_all
    then have nil': "ves = []" using Cons.hyps(2) by simp
    from True fd have "tail_decodes dec v e" by (simp add: field_decodes_def)
    then obtain s' where "dec s = (Inr v, s')" "ready s' r (0 # ls)"
      using Cons.prems(2-4) x nil' unfolding tail_decodes_def by fastforce
    with nil nil' x show ?thesis by (auto simp: sr_bind_def sr_return_def)
  next
    case False
    with fd have v: "decodes dec v e" by (auto simp: field_decodes_def)
    from consume_exact [OF l, of ls] obtain l' where l': "consume (l # ls) (length e) = l' # ls" "unat l' = length ?e" by blast
    from decodesD [OF v, of s "?e @ r" "l # ls"] room_exact [OF l] Cons.prems(2,4) x obtain s1 where
      s1: "dec s = (Inr v, s1)" "ready s1 (?e @ r) (l' # ls)"
      unfolding l'(1) by auto
    have "\<exists>s'. structFields_loop (xs @ ys) s1 = (Inr (map fst ves @ vs), s') \<and> ready s' r (0 # ls)"
      by (rule Cons.IH [OF tail_last_Cons(1) [OF Cons.prems(1)] s1(2) l'(2)]) (use Cons.prems(4) in simp)
    with s1(1) x show ?thesis by (auto simp: sr_bind_def sr_return_def)
  qed
qed

lemma decodes_struct:
  assumes "list_all2 (\<lambda>(f, dec) (v, e). field_decodes f dec v e) xs ves"
    and "tail_last xs (ys, vs)"
    and "omitted_decodes ys vs"
  shows "decodes (structDecoder (xs @ ys)) (map fst ves @ vs) (rlp_list (concat (map snd ves)))"
  unfolding structDecoder_def
proof (rule decodes_List)
  let ?p = "concat (map snd ves)"
  fix s r ls
  assume a: "ready s (?p @ r) (word_of_nat (length ?p) # ls)" "length (?p @ r) < 2 ^ 63"
  have "unat (word_of_nat (length ?p) :: u64) = length ?p" using a(2) by (intro unat_of_nat_u64) simp
  from structFields_ok [OF assms a(1) this a(2)] obtain s1 where
    s1: "structFields_loop (xs @ ys) s = (Inr (map fst ves @ vs), s1)" "ready s1 r (0 # ls)" by blast
  with stream_ListEnd_ok [OF s1(2)]
  show "\<exists>s'. sr_bind (structFields_loop (xs @ ys)) (\<lambda>vs. sr_bind (sr_wrap stream_ListEnd) (\<lambda>_. sr_return vs)) s =
      (Inr (map fst ves @ vs), s') \<and> ready s' r ls"
    by (auto simp: sr_bind_def sr_return_def sr_wrap_def)
qed

subsection \<open>All types\<close>

lemmas eol_ops = eol_bind eol_wrap eol_Kind

lemma eol_makeDecoder: "\<not> (Tail tg \<and> (\<exists>t'. t = TSlice t')) \<Longrightarrow> eol_ok (makeDecoder tg t)"
proof (induction tg t rule: makeDecoder.induct)
  case (11 tg t)
  then show ?case by (auto simp: noTags_def nilPtrDecoder_def intro!: eol_ops)
next
  case (12 tg)
  have "eol_ok decodeInterface" unfolding eol_ok_def decodeInterface_def
    using eol_decodeInterface [of "Suc (length (s_r s))" for s] unfolding eol_ok_def by blast
  then show ?case by (simp add: eol_bind)
qed (auto simp: stream_Raw_def stream_BigInt_def stream_uint_def stream_Bool_def stream_Bytes_def decodeByteArray_def
    decodeListSlice_def decodeListArray_def structDecoder_def stream_List_def intro!: eol_ops)

lemma starts_makeDecoder:
  "\<not> (Tail tg \<and> (\<exists>t'. t = TSlice t')) \<Longrightarrow> ptr_base t \<noteq> TIface \<Longrightarrow> starts (makeDecoder tg t)"
proof (induction tg t rule: makeDecoder.induct)
  case (11 tg t)
  then show ?case by (auto simp: noTags_def nilPtrDecoder_def intro!: starts_ops)
qed (auto simp: stream_Raw_def stream_BigInt_def stream_uint_def stream_Bool_def stream_Bytes_def decodeByteArray_def
    decodeListSlice_def decodeListArray_def structDecoder_def stream_List_def intro!: starts_ops)

lemma fields_ok_nth:
  assumes "fields_ok fs" "i < length fs"
  shows "Tail (f_tags (fs ! i)) \<Longrightarrow> i = length fs - 1 \<and> \<not> Optional (f_tags (fs ! i))"
    "Optional (f_tags (fs ! i)) \<Longrightarrow> i \<le> j \<Longrightarrow> j < length fs \<Longrightarrow> Optional (f_tags (fs ! j)) \<or> Tail (f_tags (fs ! j))"
  using assms
proof (induction fs arbitrary: i j)
  case (Cons f fs)
  {
    case 1
    then show ?case using Cons.IH(1) [of "i - 1"] by (cases i) (auto simp: Suc_diff_Suc)
  next
    case 2
    then show ?case using Cons.IH(2) [of "i - 1" "j - 1"] by (cases i; cases j) (auto simp: list_all_length)
  }
qed simp_all

lemma fieldCount_omitted:
  assumes "fields_ok fs" "fieldCount fs vs \<le> i" "i < length fs"
  shows "IsZero (f_type (fs ! i)) (vs ! i)" "Optional (f_tags (fs ! i)) \<or> Tail (f_tags (fs ! i))"
proof -
  let ?first = "firstOptionalField fs"
  have first: "?first < length fs"
    using assms(2,3) length_takeWhile_le [of "\<lambda>f. \<not> Optional (f_tags f)" fs]
    by (auto simp: fieldCount_def Let_def firstOptionalField_def split: if_splits)
  then have n: "fieldCount fs vs = lastField_loop ?first fs vs (length fs)" by (simp add: fieldCount_def)
  note spec = lastField_loop_spec [of ?first "length fs" fs vs, OF less_imp_le [OF first]]
  show "IsZero (f_type (fs ! i)) (vs ! i)" using spec(3) assms(2,3) n by simp
  have "Optional (f_tags (fs ! ?first))"
    using first nth_length_takeWhile [of "\<lambda>f. \<not> Optional (f_tags f)" fs] by (simp add: firstOptionalField_def)
  with fields_ok_nth(2) [OF assms(1) first] spec(2) n assms(2,3)
  show "Optional (f_tags (fs ! i)) \<or> Tail (f_tags (fs ! i))" by simp
qed

lemma tail_decodes_slice:
  assumes "list_all2 (decodes dec) vs es" "eol_ok dec" "\<forall>e \<in> set es. e \<noteq> []"
  shows "tail_decodes (sr_bind (decodeSliceElems dec) (\<lambda>vs. sr_return (VSlice False vs))) (VSlice False vs) (concat es)"
  unfolding tail_decodes_def
proof (intro allI impI)
  fix s r l ls
  assume "ready s (concat es @ r) (l # ls)" "unat l = length (concat es)" "length (concat es @ r) < 2 ^ 63"
  from decodeSliceElems_ok [OF assms this]
  show "\<exists>s'. sr_bind (decodeSliceElems dec) (\<lambda>vs. sr_return (VSlice False vs)) s = (Inr (VSlice False vs), s') \<and>
      ready s' r (0 # ls)"
    by (auto simp: sr_bind_def sr_return_def)
qed

definition type_decodes :: "tags \<Rightarrow> rtype \<Rightarrow> rval \<Rightarrow> bool" where
  "type_decodes tg t v \<longleftrightarrow>
     (\<exists>v'. erase v' = erase v \<and> field_decodes (Field tg t) (makeDecoder tg t) v' (renc tg t v))"

lemma type_decodes_noTail:
  "\<not> Tail tg \<Longrightarrow> type_decodes tg t v \<longleftrightarrow> (\<exists>v'. erase v' = erase v \<and> decodes (makeDecoder tg t) v' (renc tg t v))"
  by (simp add: type_decodes_def field_decodes_def)

lemma elems_decode:
  assumes "\<And>v. v \<in> set vs \<Longrightarrow> type_decodes noTags t v \<and> rt_ok noTags t v"
  obtains vs' where "list_all2 (decodes (makeDecoder noTags t)) vs' (map (renc noTags t) vs)" "map erase vs' = map erase vs"
    "\<forall>e \<in> set (map (renc noTags t) vs). e \<noteq> []" "eol_ok (makeDecoder noTags t)" "length vs' = length vs"
proof -
  have nt: "\<not> Tail noTags" by (simp add: noTags_def)
  obtain g where g: "\<And>v. v \<in> set vs \<Longrightarrow> erase (g v) = erase v \<and> decodes (makeDecoder noTags t) (g v) (renc noTags t v)"
    using assms unfolding type_decodes_noTail [OF nt] by metis
  show thesis
  proof (rule that [of "map g vs"])
    show "list_all2 (decodes (makeDecoder noTags t)) (map g vs) (map (renc noTags t) vs)"
      using g by (simp add: list_all2_map1 list_all2_map2 list_all2_same)
    show "map erase (map g vs) = map erase vs" using g by simp
    show "\<forall>e \<in> set (map (renc noTags t) vs). e \<noteq> []"
      using assms renc_frame [of noTags t] is_frame_not_Nil nt by auto
    show "eol_ok (makeDecoder noTags t)" by (rule eol_makeDecoder) (simp add: nt)
  qed simp
qed

text \<open>The decoders of the omitted fields of a struct return their zero values.\<close>

lemma struct_omitted:
  assumes fs: "fields_ok fs" "\<And>f. f \<in> set fs \<Longrightarrow> tags_ok (f_tags f) (f_type f)"
    and ty: "has_type (TStruct fs) (VStruct vs)"
  shows "\<exists>zs. map erase zs = map erase (drop (fieldCount fs vs) vs) \<and> (fieldCount fs vs = length fs \<longrightarrow> zs = []) \<and>
    omitted_decodes (map (\<lambda>f. (f, makeDecoder (f_tags f) (f_type f))) (drop (fieldCount fs vs) fs)) zs"
proof (cases "fieldCount fs vs = length fs")
  case True
  then show ?thesis using ty omitted_Nil by (auto simp: list_all2_conv_all_nth)
next
  case False
  let ?n = "fieldCount fs vs" and ?dec = "\<lambda>f. (f, makeDecoder (f_tags f) (f_type f))"
  have lt: "?n < length fs" using False fieldCount_le [of fs vs] by simp
  have len: "length vs = length fs" and hty: "\<And>i. i < length fs \<Longrightarrow> has_type (f_type (fs ! i)) (vs ! i)"
    using ty by (auto simp: list_all2_conv_all_nth)
  let ?f = "fs ! ?n"
  have split: "drop ?n fs = ?f # drop (Suc ?n) fs" using lt by (simp add: Cons_nth_drop_Suc)
  have zero: "map erase (map (\<lambda>g. zeroVal (f_type g)) (drop ?n fs)) = map erase (drop ?n vs)"
  proof (rule nth_equalityI)
    fix i
    assume "i < length (map erase (map (\<lambda>g. zeroVal (f_type g)) (drop ?n fs)))"
    then have i: "?n + i < length fs" by simp
    then show "map erase (map (\<lambda>g. zeroVal (f_type g)) (drop ?n fs)) ! i = map erase (drop ?n vs) ! i"
      using IsZero_zeroVal [OF fieldCount_omitted(1) [OF fs(1) le_add1 i] hty [OF i]] len by simp
  qed (simp add: len)
  show ?thesis
  proof (cases "Tail (f_tags ?f)")
    case True
    with fields_ok_nth(1) [OF fs(1) lt] lt have n: "Suc ?n = length fs" by simp
    obtain t' where t': "f_type ?f = TSlice t'" using fs(2) [of ?f] True lt by (auto simp: tags_ok_def)
    have "tail_decodes (sr_bind (decodeSliceElems (makeDecoder noTags t')) (\<lambda>vs. sr_return (VSlice False vs)))
        (VSlice False []) (concat [])"
      by (rule tail_decodes_slice [of _ "[]"]) (auto intro!: eol_makeDecoder simp: noTags_def)
    then have om: "omitted_decodes [?dec ?f] [VSlice False []]"
      using True t' by (intro omitted_Tail) simp
    show ?thesis
    proof (intro exI conjI)
      show "map erase [VSlice False []] = map erase (drop ?n vs)" unfolding zero [symmetric] using split t' n by simp
      show "?n = length fs \<longrightarrow> [VSlice False []] = []" using lt by simp
      show "omitted_decodes (map ?dec (drop ?n fs)) [VSlice False []]" using om split n by simp
    qed
  next
    case False
    then have "Optional (f_tags ?f)" using fieldCount_omitted(2) [OF fs(1) order_refl lt] by simp
    moreover have "eol_ok (makeDecoder (f_tags ?f) (f_type ?f))" using False by (intro eol_makeDecoder) simp
    ultimately have "omitted_decodes (map ?dec (drop ?n fs)) (map (\<lambda>g. zeroVal (f_type g)) (drop ?n fs))"
      using omitted_Optional [of ?f "makeDecoder (f_tags ?f) (f_type ?f)" "map ?dec (drop (Suc ?n) fs)"]
      by (simp add: split comp_def)
    with zero lt show ?thesis by (intro exI [of _ "map (\<lambda>g. zeroVal (f_type g)) (drop ?n fs)"]) simp
  qed
qed

lemma struct_decodes:
  assumes fs: "fields_ok fs" "\<And>f. f \<in> set fs \<Longrightarrow> tags_ok (f_tags f) (f_type f)"
    and ty: "has_type (TStruct fs) (VStruct vs)"
    and el: "\<And>i. i < fieldCount fs vs \<Longrightarrow> type_decodes (f_tags (fs ! i)) (f_type (fs ! i)) (vs ! i)"
  shows "\<exists>v'. erase v' = erase (VStruct vs) \<and> decodes (makeDecoder tg (TStruct fs)) v' (renc tg (TStruct fs) (VStruct vs))"
proof -
  let ?n = "fieldCount fs vs"
  let ?dec = "\<lambda>f. (f, makeDecoder (f_tags f) (f_type f))" and ?enc = "\<lambda>f. renc (f_tags f) (f_type f)"
  have n: "?n \<le> length fs" by (rule fieldCount_le)
  have len: "length vs = length fs" using ty by (auto simp: list_all2_conv_all_nth)
  obtain g where g: "\<And>i. i < ?n \<Longrightarrow> erase (g i) = erase (vs ! i) \<and>
      field_decodes (fs ! i) (makeDecoder (f_tags (fs ! i)) (f_type (fs ! i))) (g i) (?enc (fs ! i) (vs ! i))"
    using el unfolding type_decodes_def field_decodes_def by (metis field.sel(1))
  from struct_omitted [OF fs ty] obtain zs where zs: "map erase zs = map erase (drop ?n vs)"
    "?n = length fs \<longrightarrow> zs = []" "omitted_decodes (map ?dec (drop ?n fs)) zs" by blast
  define ves where "ves = map (\<lambda>i. (g i, ?enc (fs ! i) (vs ! i))) [0..<?n]"
  have es: "concat (map snd ves) = concat (map (\<lambda>(enc, v). enc v) (take ?n (zip (map ?enc fs) vs)))"
    using n len by (intro arg_cong [where f = concat] nth_equalityI) (auto simp: ves_def)
  have vals: "map erase (map fst ves @ zs) = map erase vs"
  proof -
    have "map erase (map fst ves) = map erase (take ?n vs)"
      using g n len by (intro nth_equalityI) (auto simp: ves_def)
    then have "map erase (map fst ves @ zs) = map erase (take ?n vs @ drop ?n vs)" using zs(1) by (simp only: map_append)
    then show ?thesis by simp
  qed
  have "list_all2 (\<lambda>(f, dec) (v, e). field_decodes f dec v e) (map ?dec (take ?n fs)) ves"
    using g n by (auto simp: list_all2_conv_all_nth ves_def)
  moreover have "tail_last (map ?dec (take ?n fs)) (map ?dec (drop ?n fs), zs)"
    unfolding tail_last_def
  proof (intro allI impI)
    fix as f dec bs
    assume a: "map ?dec (take ?n fs) = as @ (f, dec) # bs" "Tail (f_tags f)"
    let ?i = "length as"
    have l: "length as + Suc (length bs) = ?n" using arg_cong [OF a(1), of length] n by simp
    then have i: "?i < ?n" by simp
    have "map ?dec (take ?n fs) ! ?i = (f, dec)" using a(1) by simp
    then have "f = fs ! ?i" using i n by simp
    with fields_ok_nth(1) [OF fs(1), of ?i] a(2) i n have "?i = length fs - 1" by simp
    with l i n have "length bs = 0" "?n = length fs" by linarith+
    with zs(2) show "bs = [] \<and> (map ?dec (drop ?n fs), zs) = ([], [])" by simp
  qed
  ultimately have "decodes (structDecoder (map ?dec (take ?n fs) @ map ?dec (drop ?n fs))) (map fst ves @ zs) (rlp_list (concat (map snd ves)))"
    using zs(3) by (rule decodes_struct)
  then have "decodes (structDecoder (map ?dec fs)) (map fst ves @ zs) (rlp_list (concat (map snd ves)))"
    by (simp flip: map_append)
  from decodes_bind_return [OF this, of VStruct] vals es show ?thesis
    by (intro exI [of _ "VStruct (map fst ves @ zs)"]) simp
qed

lemma nilPtr_None:
  assumes "k = String \<or> k = List"
  shows "decodes (nilPtrDecoder k dec) (VPtr None) (if k = String then rlp_string [] else rlp_list [])"
proof -
  have fr: "(if k = String then rlp_string [] else rlp_list []) = frame k []" "frame_ok k []"
    using assms by (auto simp: frame_def frame_ok_def rlp_string_def rlp_list_def)
  show ?thesis
    unfolding fr(1) decodes_def
  proof (intro allI impI)
    fix s r stk
    assume a: "ready s (frame k [] @ r) stk" "room stk (length (frame k []))" "length (frame k [] @ r) < 2 ^ 63"
    from stream_Kind_ok [OF a(1) fr(2) a(2,3)] assms obtain s1 where
      s1: "stream_Kind s = (Inr (k, 0), s1)" "armed s1 r (consume stk (tagBytes k [])) k 0" by auto
    moreover have "length (frame k []) = tagBytes k []" using length_frame_tag [OF fr(2)] by simp
    ultimately show "\<exists>s'. nilPtrDecoder k dec s = (Inr (VPtr None), s') \<and> ready s' r (consume stk (length (frame k [])))"
      using assms by (auto simp: nilPtrDecoder_def sr_bind_def sr_wrap_def rearm_def armed_def ready_def at_def)
  qed
qed

lemma nilPtr_Some:
  assumes "decodes dec v e" "starts dec" "is_frame e" "e \<notin> {[0x80], [0xC0]}"
  shows "decodes (nilPtrDecoder nk dec) (VPtr (Some v)) e"
proof -
  from assms(3) obtain k c where f: "e = frame k c" "frame_ok k c" by (auto simp: is_frame_def)
  show ?thesis
    unfolding decodes_def
  proof (intro allI impI)
    fix s r stk
    assume a: "ready s (e @ r) stk" "room stk (length e)" "length (e @ r) < 2 ^ 63"
    let ?sz = "if k = Byte then 0 else word_of_nat (length c) :: u64"
    from stream_Kind_ok [of s k c r stk] a f obtain s1 where s1: "stream_Kind s = (Inr (k, ?sz), s1)" by blast
    have "length c < 2 ^ 63" using a(3) f(1) by (cases k) (simp_all add: frame_def rlp_list_def)
    moreover have "k \<noteq> Byte \<Longrightarrow> c \<noteq> []"
      using assms(4) f(1) by (cases k) (auto simp: frame_def rlp_list_def rlp_head_def)
    ultimately have "\<not> (k \<noteq> Byte \<and> ?sz = 0)"
      using unat_of_nat_u64 [of "length c"] unat_eq_zero [of "word_of_nat (length c) :: u64"] by auto
    then have "nilPtrDecoder nk dec s = sr_bind dec (\<lambda>v. sr_return (VPtr (Some v))) s1"
    proof -
      have "sr_wrap stream_Kind s = (Inr (k, ?sz), s1)" using s1 by (simp add: sr_wrap_def)
      then show ?thesis using \<open>\<not> (k \<noteq> Byte \<and> ?sz = 0)\<close>
        unfolding nilPtrDecoder_def sr_bind_def [of "sr_wrap stream_Kind"] by (simp only: prod.case sum.case if_False)
    qed
    moreover have "dec s1 = dec s" using assms(2) s1 by (simp add: starts_def)
    ultimately show "\<exists>s'. nilPtrDecoder nk dec s = (Inr (VPtr (Some v)), s') \<and> ready s' r (consume stk (length e))"
      using decodesD [OF assms(1) a] by (auto simp: sr_bind_def sr_return_def)
  qed
qed

lemma type_decodes_all:
  assumes "rt_ok tg t v" "type_ok t" "tags_ok tg t"
  shows "type_decodes tg t v"
  using assms
proof (induction tg t arbitrary: v rule: rt_ok.induct)
  case (1 tg)
  then obtain k c where v: "v = VRaw (frame k c)" "frame_ok k c" by auto
  with 1(3) decodes_bind_return [OF decodes_Raw [OF v(2)], of VRaw] show ?case
    by (auto simp: type_decodes_noTail tags_ok_def intro!: exI [of _ "VRaw (frame k c)"])
next
  case (2 tg)
  then obtain i where v: "v = VBig (Some i)" "i \<ge> 0" by auto
  with 2(3) decodes_bind_return [OF decodes_wrap [OF decodes_BigInt [of "nat i"]], of "\<lambda>i. VBig (Some (int i))"] show ?case
    by (auto simp: type_decodes_noTail tags_ok_def intro!: exI [of _ "VBig (Some i)"])
next
  case (3 tg bits)
  then obtain n where v: "v = VUint n" "unat n < 2 ^ bits" by auto
  moreover have "bits \<in> {8, 16, 32, 64}" using 3(2) by simp
  ultimately show ?case
    using 3(3) decodes_bind_return [OF decodes_wrap [OF decodes_uint], of n bits VUint]
    by (auto simp: type_decodes_noTail tags_ok_def intro!: exI [of _ "VUint n"])
next
  case (4 tg)
  then obtain b where v: "v = VBool b" by auto
  with 4(3) decodes_bind_return [OF decodes_wrap [OF decodes_Bool [of b]], of VBool] show ?case
    by (auto simp: type_decodes_noTail tags_ok_def intro!: exI [of _ "VBool b"])
next
  case (5 tg)
  then obtain b where v: "v = VBytes False b" by auto
  with 5(3) decodes_bind_return [OF decodes_wrap [OF decodes_Bytes [of b]], of "VBytes False"] show ?case
    by (auto simp: type_decodes_noTail tags_ok_def intro!: exI [of _ "VBytes False b"])
next
  case (6 tg)
  then obtain isnil b where v: "v = VBytes isnil b" by auto
  with 6(3) decodes_bind_return [OF decodes_wrap [OF decodes_Bytes [of b]], of "VBytes False"] show ?case
    by (auto simp: type_decodes_noTail tags_ok_def intro!: exI [of _ "VBytes False b"])
next
  case (7 tg n)
  then obtain b where v: "v = VBytes False b" "length b = n" by auto
  with 7(3) decodes_bind_return [OF decodes_ByteArray [of b], of "VBytes False"] show ?case
    by (auto simp: type_decodes_noTail tags_ok_def intro!: exI [of _ "VBytes False b"])
next
  case (8 tg t)
  then obtain isnil vs where v: "v = VSlice isnil vs" "list_all (rt_ok noTags t) vs" by auto
  have "type_decodes noTags t x \<and> rt_ok noTags t x" if "x \<in> set vs" for x
    using 8(1) [of x] 8(3) v(2) that by (auto simp: list_all_iff tags_ok_def noTags_def)
  then obtain vs' where vs': "list_all2 (decodes (makeDecoder noTags t)) vs' (map (renc noTags t) vs)"
    "map erase vs' = map erase vs" "\<forall>e \<in> set (map (renc noTags t) vs). e \<noteq> []" "eol_ok (makeDecoder noTags t)"
    by (rule elems_decode)
  have er: "erase (VSlice False vs') = erase v" using vs'(2) v(1) by simp
  have "field_decodes (Field tg (TSlice t)) (makeDecoder tg (TSlice t)) (VSlice False vs') (renc tg (TSlice t) v)"
    using tail_decodes_slice [OF vs'(1,4,3)] decodes_bind_return [OF decodes_ListSlice [OF vs'(1,4,3)], of "VSlice False"] v(1)
    by (auto simp: field_decodes_def)
  with er show ?case unfolding type_decodes_def by blast
next
  case (9 tg n t)
  then obtain vs where v: "v = VArray vs" "length vs = n" "list_all (rt_ok noTags t) vs" by auto
  have "type_decodes noTags t x \<and> rt_ok noTags t x" if "x \<in> set vs" for x
    using 9(1) [of x] 9(3) v(3) that by (auto simp: list_all_iff tags_ok_def noTags_def)
  then obtain vs' where vs': "list_all2 (decodes (makeDecoder noTags t)) vs' (map (renc noTags t) vs)"
    "map erase vs' = map erase vs" "length vs' = length vs" by (rule elems_decode)
  with 9(4) decodes_bind_return [OF decodes_ListArray [OF vs'(1)], of VArray] v show ?case
    by (auto simp: type_decodes_noTail tags_ok_def intro!: exI [of _ "VArray vs'"])
next
  case (10 tg fs)
  then obtain vs where v: "v = VStruct vs" "has_type (TStruct fs) v"
    "list_all (\<lambda>(ok, v). ok v) (take (fieldCount fs vs) (zip (map (\<lambda>f. rt_ok (f_tags f) (f_type f)) fs) vs))" by auto
  have len: "length vs = length fs" using v(1,2) by (auto simp: list_all2_conv_all_nth)
  have "type_decodes (f_tags (fs ! i)) (f_type (fs ! i)) (vs ! i)" if "i < fieldCount fs vs" for i
  proof -
    have i: "i < length fs" using that fieldCount_le [of fs vs] by simp
    then have "rt_ok (f_tags (fs ! i)) (f_type (fs ! i)) (vs ! i)"
      using v(3) that len by (auto simp: list_all_length)
    then show ?thesis using 10(1) [of "fs ! i"] 10(3) i by (auto simp: list_all_length)
  qed
  with struct_decodes [of fs vs tg] 10(3,4) v(1,2) show ?case
    by (auto simp: type_decodes_noTail tags_ok_def list_all_iff)
next
  case (11 tg t)
  have nt: "\<not> Tail tg" "\<not> Tail noTags" using 11(4) by (auto simp: tags_ok_def noTags_def)
  have nk: "NilOK tg \<Longrightarrow> typeNilKind t tg = String \<or> typeNilKind t tg = List"
    using 11(4) by (cases "NilKind tg") (auto simp: typeNilKind_def tags_ok_def)
  from 11(2) consider "NilOK tg" "v = VPtr None" |
    v' where "v = VPtr (Some v')" "rt_ok noTags t v'" "NilOK tg \<longrightarrow> ptr_base t \<noteq> TIface \<and> renc noTags t v' \<notin> {[0x80], [0xC0]}"
    by auto
  then show ?case
  proof cases
    case 1
    with nilPtr_None [OF nk, of "makeDecoder noTags t"] show ?thesis
      unfolding type_decodes_noTail [OF nt(1)] by (intro exI [of _ "VPtr None"]) simp
  next
    case (2 v')
    have "type_decodes noTags t v'" using 11(1) [of v'] 2 11(3) by (auto simp: tags_ok_def noTags_def)
    then obtain v'' where v'': "erase v'' = erase v'" "decodes (makeDecoder noTags t) v'' (renc noTags t v')"
      unfolding type_decodes_noTail [OF nt(2)] by blast
    have "decodes (makeDecoder tg (TPtr t)) (VPtr (Some v'')) (renc noTags t v')"
      using nilPtr_Some [OF v''(2) _ renc_frame [OF 2(2)]] starts_makeDecoder [of noTags t] 2(3) nt
        decodes_bind_return [OF v''(2), of "\<lambda>v. VPtr (Some v)"] by auto
    then show ?thesis
      unfolding type_decodes_noTail [OF nt(1)] using v''(1) 2(1) by (intro exI [of _ "VPtr (Some v'')"]) simp
  qed
next
  case (12 tg)
  then obtain it where v: "v = VIface (Some it)" by auto
  with 12(3) decodes_bind_return [OF decodes_Interface [of it], of "\<lambda>it. VIface (Some it)"] show ?case
    by (auto simp: type_decodes_noTail tags_ok_def intro!: exI [of _ "VIface (Some it)"])
qed

subsection \<open>Properties\<close>

lemma EncodeToBytes_renc:
  assumes "has_type t v" "type_ok t" "length (renc noTags t v) < 2 ^ 63"
  shows "EncodeToBytes t v = Inr (renc noTags t v)"
proof -
  have "tags_ok noTags t" by (simp add: tags_ok_def noTags_def)
  from makeWriter_emits [OF assms(1,2) this assms(3)] obtain w where
    "makeWriter noTags t v eb_reset = Inr w" "emits eb_reset w (renc noTags t v)" by blast
  then show ?thesis using emits_makeBytes(3) by (simp add: EncodeToBytes_def)
qed

lemma DecodeBytes_renc:
  assumes "rt_ok noTags t v" "type_ok t" "length (renc noTags t v) < 2 ^ 63"
  shows "\<exists>v'. DecodeBytes t (renc noTags t v) = Inr v' \<and> erase v' = erase v"
proof -
  let ?e = "renc noTags t v"
  have nt: "\<not> Tail noTags" by (simp add: noTags_def)
  have "type_decodes noTags t v"
    using assms(1,2) by (rule type_decodes_all) (simp add: tags_ok_def noTags_def)
  then obtain v' where v': "erase v' = erase v" "decodes (makeDecoder noTags t) v' ?e"
    unfolding type_decodes_noTail [OF nt] by blast
  have u: "unat (word_of_nat (length ?e) :: u64) = length ?e" using assms(3) by (rule unat_of_nat_u64)
  have "ready (stream_Reset ?e (word_of_nat (length ?e))) (?e @ []) []"
    using u by (auto simp: stream_Reset_def ready_def at_def)
  from decodesD [OF v'(2) this] assms(3) obtain s' where
    "makeDecoder noTags t (stream_Reset ?e (word_of_nat (length ?e))) = (Inr v', s')" "ready s' [] (consume [] (length ?e))"
    by (auto simp: room_def)
  then show ?thesis using v'(1) by (simp add: DecodeBytes_def ready_def at_def)
qed



text \<open>
  C15: the encoder that collects list headers on the side and merges them at the end produces,
  for every type and value, the recursive encoding that puts each header in front of its content;
  \<^verbatim>\<open>size\<close> announces its length exactly.
\<close>

theorem encBuffer_reference:
  assumes "type_ok t" "has_type t v" "length (renc noTags t v) < 2 ^ 63"
  shows "\<exists>w. makeWriter noTags t v eb_reset = Inr w \<and> eb_size w = length (renc noTags t v) \<and>
    makeBytes w = renc noTags t v"
proof -
  have "tags_ok noTags t" by (simp add: tags_ok_def noTags_def)
  from makeWriter_emits [OF assms(2,1) this assms(3)] obtain w where
    "makeWriter noTags t v eb_reset = Inr w" "emits eb_reset w (renc noTags t v)" by blast
  with emits_makeBytes show ?thesis by blast
qed

theorem encBuffer_reference_witness:
  "let t = TSlice (TSlice TString); v = VSlice False [VSlice False [VBytes False [100, 111, 103]], VSlice False []]
   in \<exists>w. makeWriter noTags t v eb_reset = Inr w \<and> eb_size w = length (renc noTags t v) \<and> makeBytes w = renc noTags t v"
  unfolding Let_def
  by (rule encBuffer_reference) (auto simp: noTags_def rlp_list_def rlp_string_def rlp_head_def)


end
