(* ===== verification/Rlp_Canonical.thy ===== *)
theory Rlp_Canonical
  imports Rlp_Roundtrip
begin

text \<open>
  The converse of the round trip. A decoder that succeeds has read exactly the encoding of the
  value it returns, so an encoded value has one representation and a decoded one is of its type.

  \<open>reads s e s'\<close> says that the stream moved over the bytes \<open>e\<close>; list limits are tracked as
  the code keeps them, modulo 2 to the 64, and the check of \<^verbatim>\<open>ListEnd\<close> turns the congruence into
  an equation.
\<close>

subsection \<open>Moving over bytes\<close>

definition reads :: "stream \<Rightarrow> bytes \<Rightarrow> stream \<Rightarrow> bool" where
  "reads s e s' \<longleftrightarrow> s_r s = e @ s_r s' \<and> s_stack s' = consume (s_stack s) (length e)"

definition exact :: "'v sr \<Rightarrow> ('v \<Rightarrow> bytes) \<Rightarrow> bool" where
  "exact dec enc \<longleftrightarrow>
     (\<forall>s v s'. s_kind s = None \<longrightarrow> length (s_r s) < 2 ^ 63 \<longrightarrow> dec s = (Inr v, s') \<longrightarrow>
        reads s (enc v) s' \<and> s_kind s' = None)"

definition eol_exact :: "'v sr \<Rightarrow> bool" where
  "eol_exact dec \<longleftrightarrow>
     (\<forall>s s'. s_kind s = None \<longrightarrow> length (s_r s) < 2 ^ 63 \<longrightarrow> dec s = (Inl EOL, s') \<longrightarrow> s' = s \<and> stream_Kind s = (Inl EOL, s))"

lemma reads_refl [simp]: "reads s [] s"
  by (simp add: reads_def)

lemma reads_trans: "reads s a t \<Longrightarrow> reads t b u \<Longrightarrow> reads s (a @ b) u"
  by (simp add: reads_def consume_add)

lemma reads_length: "reads s e s' \<Longrightarrow> length (s_r s) < n \<Longrightarrow> length (s_r s') < n"
  by (simp add: reads_def)

lemma reads_upd [simp]:
  "reads s e (s'\<lparr>s_kind := k\<rparr>) = reads s e s'" "reads s e (s'\<lparr>s_byteval := b\<rparr>) = reads s e s'"
  "reads s e (s'\<lparr>s_size := z\<rparr>) = reads s e s'" "reads s e (s'\<lparr>s_kinderr := x\<rparr>) = reads s e s'"
  "reads (s\<lparr>s_kind := k\<rparr>) e s' = reads s e s'" "reads (s\<lparr>s_byteval := b\<rparr>) e s' = reads s e s'"
  by (simp_all add: reads_def)

lemma exactD:
  "exact dec enc \<Longrightarrow> dec s = (Inr v, s') \<Longrightarrow> s_kind s = None \<Longrightarrow> length (s_r s) < 2 ^ 63 \<Longrightarrow>
   reads s (enc v) s' \<and> s_kind s' = None"
  unfolding exact_def by blast

lemma sr_bind_Inr: "sr_bind m f s = (Inr v, s') \<longleftrightarrow> (\<exists>x t. m s = (Inr x, t) \<and> f x t = (Inr v, s'))"
  by (auto simp: sr_bind_def split: prod.splits sum.splits)

lemma sr_bind_Inl:
  "sr_bind m f s = (Inl e, s') \<longleftrightarrow> m s = (Inl e, s') \<or> (\<exists>x t. m s = (Inr x, t) \<and> f x t = (Inl e, s'))"
  by (auto simp: sr_bind_def split: prod.splits sum.splits)

lemma sr_wrap_Inr [simp]: "sr_wrap m s = (Inr v, s') \<longleftrightarrow> m s = (Inr v, s')"
  by (auto simp: sr_wrap_def split: prod.splits sum.splits)

lemma wrapStreamError_EOL [simp]: "wrapStreamError e = EOL \<longleftrightarrow> e = EOL" "EOL = wrapStreamError e \<longleftrightarrow> e = EOL"
  by (cases e; simp add: wrapStreamError_def)+

lemma sr_wrap_EOL [simp]: "sr_wrap m s = (Inl EOL, s') \<longleftrightarrow> m s = (Inl EOL, s')"
  by (auto simp: sr_wrap_def split: prod.splits sum.splits)

lemma sr_return_fail [simp]:
  "sr_return x s = (Inr v, s') \<longleftrightarrow> x = v \<and> s = s'" "sr_return x s \<noteq> (Inl e, s')"
  "sr_fail e s \<noteq> (Inr v, s')" "sr_fail e s = (Inl e', s') \<longleftrightarrow> e = e' \<and> s = s'"
  by (auto simp: sr_return_def sr_fail_def)

lemma willRead_exact:
  assumes "willRead n s = (Inr (), s')"
  shows "s_r s' = s_r s" "s_stack s' = consume (s_stack s) (unat n)" "s_kind s' = None"
  using assms
  by (auto simp: willRead_def listLimit_def consume_def Let_def split: list.splits if_splits)

lemma willRead_error: "willRead n s = (Inl e, s') \<Longrightarrow> e \<noteq> EOL"
  by (auto simp: willRead_def Let_def split: prod.splits if_splits)

lemma readFull_exact:
  assumes "readFull n s = (Inr b, s')" "length (s_r s) < 2 ^ 63"
  shows "length b = n" "reads s b s'" "s_kind s' = None"
proof -
  from assms(1) obtain t where t: "willRead (word_of_nat n) s = (Inr (), t)" "n \<le> length (s_r t)"
    "b = take n (s_r t)" "s' = t\<lparr>s_r := drop n (s_r t)\<rparr>"
    by (auto simp: readFull_def sr_bind_Inr split: if_splits)
  note w = willRead_exact [OF t(1)]
  have n: "unat (word_of_nat n :: u64) = n" using t(2) w(1) assms(2) by (intro unat_of_nat_u64) simp
  show "length b = n" using t(2,3) by simp
  with t w n show "reads s b s'" "s_kind s' = None" by (simp_all add: reads_def)
qed

lemma readFull_error: "readFull n s = (Inl e, s') \<Longrightarrow> e \<noteq> EOL"
  by (auto simp: readFull_def sr_bind_Inl dest: willRead_error split: if_splits)

lemma readByte_exact:
  assumes "readByte s = (Inr b, s')"
  shows "reads s [b] s'" "s_kind s' = None"
proof -
  from assms obtain u where u: "willRead 1 s = (Inr (), u)"
    "(case s_r u of [] \<Rightarrow> (Inl io_ErrUnexpectedEOF, u) | b # r \<Rightarrow> (Inr b, u\<lparr>s_r := r\<rparr>)) = (Inr b, s')"
    by (auto simp: readByte_def sr_bind_Inr)
  then obtain r where r: "s_r u = b # r" "s' = u\<lparr>s_r := r\<rparr>"
    by (cases "s_r u") auto
  with willRead_exact [OF u(1)] show "reads s [b] s'" "s_kind s' = None" by (simp_all add: reads_def)
qed

lemma readByte_error: "readByte s = (Inl e, s') \<Longrightarrow> e \<noteq> EOL"
  unfolding readByte_def sr_bind_Inl by (auto dest: willRead_error simp: list.case_eq_if split: if_splits)

lemma readUint_exact:
  assumes "readUint n s = (Inr v, s')" "length (s_r s) < 2 ^ 63"
  shows "\<exists>buf. length buf = unat n \<and> reads s buf s' \<and> s_kind s' = None \<and> v = be_word buf \<and>
    (length buf \<noteq> 1 \<longrightarrow> buf \<noteq> [] \<longrightarrow> hd buf \<noteq> 0)"
proof -
  consider (0) "n = 0" | (1) "n = 1" | (more) "n \<noteq> 0" "n \<noteq> 1" by blast
  then show ?thesis
  proof cases
    case 0
    with assms show ?thesis by (intro exI [of _ "[]"]) (auto simp: readUint_def be_word_def)
  next
    case 1
    with assms(1) obtain b where "readByte s = (Inr b, s')" "v = ucast b"
      by (auto simp: readUint_def sr_bind_Inr)
    with readByte_exact [of s b s'] 1 show ?thesis by (intro exI [of _ "[b]"]) (auto simp: be_word_def)
  next
    case more
    with assms(1) obtain buf where buf: "readFull (unat n) s = (Inr buf, s')" "buf ! 0 \<noteq> 0" "v = be_word buf"
      by (auto simp: readUint_def sr_bind_Inr split: if_splits)
    with readFull_exact [OF buf(1) assms(2)] show ?thesis by (auto simp: hd_conv_nth)
  qed
qed

lemma readUint_error: "readUint n s = (Inl e, s') \<Longrightarrow> e \<noteq> EOL"
  by (auto simp: readUint_def sr_bind_Inl dest: readByte_error readFull_error split: if_splits)

subsection \<open>The tag of a value\<close>

definition tag :: "Kind \<Rightarrow> u64 \<Rightarrow> byte \<Rightarrow> bytes" where
  "tag k sz b = (case k of Byte \<Rightarrow> [b] | String \<Rightarrow> rlp_head 128 (unat sz) | List \<Rightarrow> rlp_head 192 (unat sz))"

lemma short_head:
  assumes "t \<le> unat b" "unat b < t + 56"
  shows "rlp_head t (unat b - t) = [b :: byte]"
  using assms by (simp add: rlp_head_def)

lemma long_head:
  assumes "t + 56 \<le> unat b" "unat b \<le> t + 63" "length buf = unat b - (t + 55)" "\<not> (be_word buf :: u64) < 56"
    "length buf \<noteq> 1 \<longrightarrow> buf \<noteq> [] \<longrightarrow> hd buf \<noteq> 0"
  shows "rlp_head t (unat (be_word buf)) = (b :: byte) # buf"
proof -
  have n: "unat (be_word buf) = be_val buf" using assms(2,3) by (intro unat_be_word) simp
  have ne: "buf \<noteq> []" using assms(1,3) by auto
  then have "be_bytes (be_val buf) = buf" using assms(5) by (intro be_bytes_be_val) auto
  moreover have "\<not> be_val buf < 56" using assms(4) n by (simp add: word_less_nat_alt)
  moreover have "(word_of_nat (t + 55 + length buf) :: byte) = b" using assms(1,3) by simp
  ultimately show ?thesis using n by (simp add: rlp_head_def)
qed

lemma readKind_long_exact:
  assumes "(case readUint n s of (Inl err, s) \<Rightarrow> ((k, 0, Some err), s)
            | (Inr sz, s) \<Rightarrow> ((k, sz, if sz < 56 then Some ErrCanonSize else None), s)) = ((k', sz, None), s')"
    "length (s_r s) < 2 ^ 63" "t + 56 \<le> unat b" "unat b \<le> t + 63" "unat n = unat b - (t + 55)"
  shows "k' = k \<and> (\<exists>buf. rlp_head t (unat sz) = b # buf \<and> reads s buf s')"
proof -
  obtain x u where x: "readUint n s = (x, u)" by fastforce
  with assms(1) obtain v where v: "x = Inr v" by (cases x) auto
  from readUint_exact [OF x [unfolded v] assms(2)] obtain buf where buf: "length buf = unat n" "reads s buf u"
    "v = be_word buf" "length buf \<noteq> 1 \<longrightarrow> buf \<noteq> [] \<longrightarrow> hd buf \<noteq> 0" by blast
  with assms(1) x v have "k' = k" "sz = be_word buf" "\<not> (be_word buf :: u64) < 56" "s' = u" by (auto split: if_splits)
  with long_head [OF assms(3,4), of buf] buf assms(5) show ?thesis by auto
qed

lemma stream_readKind_exact:
  assumes "stream_readKind s = ((k, sz, None), s')" "length (s_r s) < 2 ^ 63"
  shows "reads s (tag k sz (s_byteval s')) s' \<and> (k = Byte \<longrightarrow> sz = 0 \<and> unat (s_byteval s') < 128)"
proof -
  obtain x u where x: "readByte s = (x, u)" by fastforce
  with assms(1) obtain b where b: "x = Inr b" by (cases x) (auto simp: stream_readKind_def)
  note rb = readByte_exact [OF x [unfolded b]]
  have len: "length (s_r (u\<lparr>s_byteval := 0\<rparr>)) < 2 ^ 63" using reads_length [OF rb(1) assms(2)] by simp
  note eq = assms(1) [unfolded stream_readKind_def x b prod.case sum.case Let_def]
  consider (byte) "unat b < 128" | (str) "128 \<le> unat b" "unat b < 184" | (lstr) "184 \<le> unat b" "unat b < 192"
    | (lst) "192 \<le> unat b" "unat b < 248" | (llst) "248 \<le> unat b"
    by linarith
  then show ?thesis
  proof cases
    case byte
    with eq rb(1) show ?thesis by (auto simp: word_less_nat_alt tag_def)
  next
    case str
    then have "unat (b - 0x80) = unat b - 128" by (simp add: unat_sub_if')
    with eq rb(1) short_head [of 128 b] str show ?thesis by (auto simp: word_less_nat_alt tag_def)
  next
    case lst
    then have "unat (b - 0xC0) = unat b - 192" by (simp add: unat_sub_if')
    with eq rb(1) short_head [of 192 b] lst show ?thesis by (auto simp: word_less_nat_alt tag_def)
  next
    case lstr
    then have n: "unat (b - 0xB7) = unat b - 183" by (simp add: unat_sub_if')
    from lstr eq have "(case readUint (b - 0xB7) (u\<lparr>s_byteval := 0\<rparr>) of (Inl err, s) \<Rightarrow> ((String, 0, Some err), s)
            | (Inr sz, s) \<Rightarrow> ((String, sz, if sz < 56 then Some ErrCanonSize else None), s)) = ((k, sz, None), s')"
      by (simp add: word_less_nat_alt [where ?'a = 8])
    from readKind_long_exact [OF this len, of 128 b] lstr n obtain buf where
      "k = String" "rlp_head 128 (unat sz) = b # buf" "reads u buf s'" by auto
    with reads_trans [OF rb(1)] show ?thesis by (fastforce simp: tag_def)
  next
    case llst
    then have n: "unat (b - 0xF7) = unat b - 247" by (simp add: unat_sub_if')
    have "unat b \<le> 255" using unat_byte_less [of b] by linarith
    from llst eq have "(case readUint (b - 0xF7) (u\<lparr>s_byteval := 0\<rparr>) of (Inl err, s) \<Rightarrow> ((List, 0, Some err), s)
            | (Inr sz, s) \<Rightarrow> ((List, sz, if sz < 56 then Some ErrCanonSize else None), s)) = ((k, sz, None), s')"
      by (simp add: word_less_nat_alt [where ?'a = 8])
    from readKind_long_exact [OF this len, of 192 b] llst n \<open>unat b \<le> 255\<close> obtain buf where
      "k = List" "rlp_head 192 (unat sz) = b # buf" "reads u buf s'" by auto
    with reads_trans [OF rb(1)] show ?thesis by (fastforce simp: tag_def)
  qed
qed

lemma stream_Kind_exact:
  assumes "stream_Kind s = (Inr (k, sz), s')" "s_kind s = None" "length (s_r s) < 2 ^ 63"
  shows "reads s (tag k sz (s_byteval s')) s'" "k = Byte \<Longrightarrow> sz = 0" "k = Byte \<Longrightarrow> unat (s_byteval s') < 128"
proof -
  obtain inList limit where l: "listLimit s = (inList, limit)" by fastforce
  obtain k' sz' err u where rk: "stream_readKind s = ((k', sz', err), u)" by (metis prod_cases3 surj_pair)
  from assms(1,2) l rk have "err = None" "k' = k" "sz' = sz"
    "\<exists>x. s' = u\<lparr>s_kind := Some k, s_size := sz, s_kinderr := x\<rparr>"
    by (auto simp: stream_Kind_def Let_def split: option.splits if_splits)
  with stream_readKind_exact [of s k sz u] rk assms(3)
  show "reads s (tag k sz (s_byteval s')) s'" "k = Byte \<Longrightarrow> sz = 0" "k = Byte \<Longrightarrow> unat (s_byteval s') < 128"
    by auto
qed

lemma stream_readKind_error: "stream_readKind s = ((k, sz, Some e), s') \<Longrightarrow> e \<noteq> EOL"
  by (auto simp: stream_readKind_def Let_def dest: readByte_error readUint_error
      split: prod.splits sum.splits if_splits)

lemma eol_exact_Kind: "eol_exact stream_Kind"
  unfolding eol_exact_def
proof (intro allI impI)
  fix s s'
  assume a: "s_kind s = None" "stream_Kind s = (Inl EOL, s')"
  obtain inList limit where l: "listLimit s = (inList, limit)" by fastforce
  obtain k sz err u where rk: "stream_readKind s = ((k, sz, err), u)" by (metis prod_cases3 surj_pair)
  with stream_readKind_error [of s k sz _ u] have "err \<noteq> Some EOL" by auto
  with a l rk have "s' = s" by (auto simp: stream_Kind_def Let_def split: option.splits if_splits)
  with a(2) show "s' = s \<and> stream_Kind s = (Inl EOL, s)" by simp
qed

subsection \<open>Strings, integers and raw values\<close>

lemma kind_content:
  assumes "stream_Kind s = (Inr (k, sz), t)" "s_kind s = None" "length (s_r s) < 2 ^ 63"
    "k \<noteq> Byte" "readFull (unat sz) t = (Inr b, s')"
  shows "reads s (rlp_head (if k = String then 128 else 192) (length b) @ b) s'" "s_kind s' = None" "length b = unat sz"
proof -
  note K = stream_Kind_exact [OF assms(1-3)]
  note F = readFull_exact [OF assms(5) reads_length [OF K(1) assms(3)]]
  show "reads s (rlp_head (if k = String then 128 else 192) (length b) @ b) s'"
    using reads_trans [OF K(1) F(2)] F(1) assms(4) by (cases k) (simp_all add: tag_def)
  show "s_kind s' = None" "length b = unat sz" using F by simp_all
qed

lemma kind_byte:
  assumes "stream_Kind s = (Inr (Byte, sz), t)" "s_kind s = None" "length (s_r s) < 2 ^ 63"
    "sr_bind byteval (\<lambda>b. rearm (g b)) t = (Inr v, s')"
  shows "\<exists>b. v = g b \<and> reads s [b] s' \<and> s_kind s' = None \<and> unat b < 128"
  using stream_Kind_exact [OF assms(1-3)] assms(4)
  by (auto simp: sr_bind_Inr byteval_def rearm_def tag_def)

lemma rlp_string_small: "unat b < 128 \<Longrightarrow> rlp_string [b] = [b]"
  by (simp add: rlp_string_def)

lemma rlp_string_large: "\<not> (length b = 1 \<and> b ! 0 < 128) \<Longrightarrow> rlp_string b = rlp_head 128 (length b) @ b"
  by (cases b) (auto simp: rlp_string_def word_less_nat_alt)

lemma unat_eq_1_iff: "(sz :: u64) = 1 \<longleftrightarrow> unat sz = 1"
  by (metis unat_1 word_unat_eq_iff)

lemma exact_Bytes: "exact stream_Bytes rlp_string"
  unfolding exact_def
proof (intro allI impI)
  fix s v s'
  assume a: "s_kind s = None" "length (s_r s) < 2 ^ 63" "stream_Bytes s = (Inr v, s')"
  then obtain k sz t where k: "stream_Kind s = (Inr (k, sz), t)"
    and f: "(case k of Byte \<Rightarrow> sr_bind byteval (\<lambda>b. rearm [b])
       | String \<Rightarrow> sr_bind (readFull (unat sz)) (\<lambda>b. if sz = 1 \<and> b ! 0 < 128 then sr_fail ErrCanonSize else sr_return b)
       | List \<Rightarrow> sr_fail ErrExpectedString) t = (Inr v, s')"
    by (auto simp: stream_Bytes_def sr_bind_Inr)
  show "reads s (rlp_string v) s' \<and> s_kind s' = None"
  proof (cases k)
    case Byte
    with kind_byte [OF _ a(1,2), of sz t "\<lambda>b. [b]"] k f show ?thesis by (auto simp: rlp_string_small)
  next
    case String
    with f obtain b where b: "readFull (unat sz) t = (Inr b, s')" "\<not> (sz = 1 \<and> b ! 0 < 128)" "v = b"
      by (auto simp: sr_bind_Inr split: if_splits)
    with kind_content [OF k a(1,2) _ b(1)] String show ?thesis
      by (auto simp: unat_eq_1_iff rlp_string_large)
  qed (use f in simp)
qed

lemma exact_Raw: "exact stream_Raw (\<lambda>v. v)"
  unfolding exact_def
proof (intro allI impI)
  fix s v s'
  assume a: "s_kind s = None" "length (s_r s) < 2 ^ 63" "stream_Raw s = (Inr v, s')"
  then obtain k sz t where k: "stream_Kind s = (Inr (k, sz), t)"
    and f: "(if k = Byte then sr_bind byteval (\<lambda>b. rearm [b])
       else sr_bind (readFull (unat sz)) (\<lambda>content.
           sr_return ((if k = String then puthead 0x80 0xB7 sz else puthead 0xC0 0xF7 sz) @ content))) t = (Inr v, s')"
    by (auto simp: stream_Raw_def sr_bind_Inr)
  show "reads s v s' \<and> s_kind s' = None"
  proof (cases "k = Byte")
    case True
    with kind_byte [OF _ a(1,2), of sz t "\<lambda>b. [b]"] k f show ?thesis by auto
  next
    case False
    with f obtain b where b: "readFull (unat sz) t = (Inr b, s')"
      "v = (if k = String then puthead 0x80 0xB7 sz else puthead 0xC0 0xF7 sz) @ b"
      by (auto simp: sr_bind_Inr)
    with kind_content [OF k a(1,2) False b(1)] show ?thesis
      by (auto simp: puthead_string puthead_list split: if_splits)
  qed
qed

lemma exact_ByteArray: "exact (decodeByteArray n) rlp_string"
  unfolding exact_def
proof (intro allI impI)
  fix s v s'
  assume a: "s_kind s = None" "length (s_r s) < 2 ^ 63" "decodeByteArray n s = (Inr v, s')"
  then obtain k sz t where k: "stream_Kind s = (Inr (k, sz), t)"
    and f: "(case k of
         Byte \<Rightarrow>
           if n = 0 then sr_fail (decodeError ''input string too long'')
           else if n > 1 then sr_fail (decodeError ''input string too short'')
           else sr_bind byteval (\<lambda>b. rearm [b])
       | String \<Rightarrow>
           if word_of_nat n < sz then sr_fail (decodeError ''input string too long'')
           else if word_of_nat n > sz then sr_fail (decodeError ''input string too short'')
           else
             sr_bind (readFull n) (\<lambda>slice.
               if sz = 1 \<and> slice ! 0 < 128 then sr_fail (wrapStreamError ErrCanonSize) else sr_return slice)
       | List \<Rightarrow> sr_fail (wrapStreamError ErrExpectedString)) t = (Inr v, s')"
    by (auto simp: decodeByteArray_def sr_bind_Inr)
  show "reads s (rlp_string v) s' \<and> s_kind s' = None"
  proof (cases k)
    case Byte
    with kind_byte [OF _ a(1,2), of sz t "\<lambda>b. [b]"] k f show ?thesis
      by (auto simp: rlp_string_small split: if_splits)
  next
    case String
    with f have f': "sr_bind (readFull n) (\<lambda>slice.
               if sz = 1 \<and> slice ! 0 < 128 then sr_fail (wrapStreamError ErrCanonSize) else sr_return slice) t = (Inr v, s')"
      and n: "word_of_nat n = sz" by (auto split: if_splits)
    then obtain b where b: "readFull n t = (Inr b, s')" "\<not> (sz = 1 \<and> b ! 0 < 128)" "v = b"
      by (auto simp: sr_bind_Inr split: if_splits)
    have tl: "length (s_r t) < 2 ^ 63" using stream_Kind_exact(1) [OF k a(1,2)] a(2) by (rule reads_length)
    have "length b = n" "length b \<le> length (s_r t)" using readFull_exact [OF b(1) tl] by (auto simp: reads_def)
    with tl have "unat (word_of_nat n :: u64) = n" by (intro unat_of_nat_u64) simp
    then have "readFull (unat sz) t = (Inr b, s')" using b(1) n by simp
    from kind_content [OF k a(1,2) _ this] b String show ?thesis
      by (auto simp: unat_eq_1_iff rlp_string_large)
  qed (use f in simp)
qed

lemma exact_uint:
  assumes "maxbits \<le> 64"
  shows "exact (stream_uint maxbits) (\<lambda>v. rlp_string (uint_bytes (unat v)))"
  unfolding exact_def
proof (intro allI impI)
  fix s v s'
  assume a: "s_kind s = None" "length (s_r s) < 2 ^ 63" "stream_uint maxbits s = (Inr v, s')"
  then obtain k sz t where k: "stream_Kind s = (Inr (k, sz), t)"
    and f: "(case k of
         Byte \<Rightarrow> sr_bind byteval (\<lambda>b. if b = 0 then sr_fail ErrCanonInt else rearm (ucast b))
       | String \<Rightarrow>
           if sz > word_of_nat (maxbits div 8) then sr_fail errUintOverflow
           else (\<lambda>s.
             case readUint (ucast sz) s of
               (Inl err, s) \<Rightarrow> (Inl (if err = ErrCanonSize then ErrCanonInt else err), s)
             | (Inr v, s) \<Rightarrow> if sz > 0 \<and> v < 128 then (Inl ErrCanonSize, s) else (Inr v, s))
       | List \<Rightarrow> sr_fail ErrExpectedString) t = (Inr v, s')"
    by (auto simp: stream_uint_def sr_bind_Inr)
  note K = stream_Kind_exact [OF k a(1,2)]
  show "reads s (rlp_string (uint_bytes (unat v))) s' \<and> s_kind s' = None"
  proof (cases k)
    case Byte
    let ?b = "s_byteval t"
    from f Byte have b: "?b \<noteq> 0" "v = ucast ?b" "s' = t\<lparr>s_kind := None\<rparr>"
      by (auto simp: sr_bind_Inr byteval_def rearm_def split: if_splits)
    have "uint_bytes (unat v) = [?b]" using uint_bytes_be_val [of "[?b]"] b by simp
    with K Byte b(3) show ?thesis by (simp add: tag_def rlp_string_small)
  next
    case String
    have "unat (word_of_nat (maxbits div 8) :: u64) = maxbits div 8" using assms by (intro unat_of_nat_u64) simp
    moreover from f String have "\<not> sz > word_of_nat (maxbits div 8)" by (auto split: if_splits)
    ultimately have sz: "unat sz \<le> 8" using assms by (simp add: word_less_nat_alt)
    with f String obtain r: "readUint (ucast sz) t = (Inr v, s')" and v: "\<not> (sz > 0 \<and> v < 128)"
      by (auto split: if_splits prod.splits sum.splits)
    have "unat (ucast sz :: byte) = unat sz" using sz by simp
    with readUint_exact [OF r reads_length [OF K(1) a(2)]] obtain buf where
      buf: "length buf = unat sz" "reads t buf s'" "s_kind s' = None" "v = be_word buf"
        "length buf \<noteq> 1 \<longrightarrow> buf \<noteq> [] \<longrightarrow> hd buf \<noteq> 0"
      by metis
    have n: "unat v = be_val buf" using buf(1,4) sz by (simp add: unat_be_word)
    have small: "\<not> (length buf = 1 \<and> buf ! 0 < 128)"
    proof
      assume l: "length buf = 1 \<and> buf ! 0 < 128"
      then obtain b where "buf = [b]" by (auto simp: length_Suc_conv)
      moreover have "sz > 0" using l buf(1) by (simp add: word_less_nat_alt)
      ultimately show False using v n l by (simp add: word_less_nat_alt)
    qed
    have "buf = [] \<or> hd buf \<noteq> 0"
      using buf(5) small by (cases buf) (auto simp: word_less_nat_alt)
    then have "uint_bytes (unat v) = buf" unfolding n by (rule uint_bytes_be_val)
    with rlp_string_large [OF small] reads_trans [OF K(1) buf(2)] buf(1,3) String show ?thesis by (simp add: tag_def)
  qed (use f in simp)
qed

lemma exact_Bool: "exact stream_Bool (\<lambda>b. rlp_string (uint_bytes (of_bool b)))"
  unfolding exact_def
proof (intro allI impI)
  fix s v s'
  assume a: "s_kind s = None" "length (s_r s) < 2 ^ 63" "stream_Bool s = (Inr v, s')"
  then obtain n where n: "stream_uint 8 s = (Inr n, s')" "n = 0 \<and> \<not> v \<or> n = 1 \<and> v"
    by (auto simp: stream_Bool_def sr_bind_Inr split: if_splits)
  with exactD [OF exact_uint [of 8] n(1) a(1,2)] show "reads s (rlp_string (uint_bytes (of_bool v))) s' \<and> s_kind s' = None"
    by auto
qed

lemma exact_BigInt: "exact stream_BigInt (\<lambda>i. rlp_string (uint_bytes i))"
  unfolding exact_def
proof (intro allI impI)
  fix s v s'
  assume a: "s_kind s = None" "length (s_r s) < 2 ^ 63" "stream_BigInt s = (Inr v, s')"
  then obtain k sz t buf where k: "stream_Kind s = (Inr (k, sz), t)"
    and f: "(if k = List then sr_fail ErrExpectedString
          else if k = Byte then sr_bind byteval (\<lambda>b. rearm [b])
          else if sz = 0 then rearm []
          else
            sr_bind (readFull (unat sz)) (\<lambda>buffer.
              if sz \<le> 32 \<and> sz = 1 \<and> buffer ! 0 < 128 then sr_fail ErrCanonSize else sr_return buffer)) t = (Inr buf, s')"
    and v: "v = be_val buf" "\<not> (length buf > 0 \<and> buf ! 0 = 0)"
    by (auto simp: stream_BigInt_def sr_bind_Inr split: if_splits)
  have "buf = [] \<or> hd buf \<noteq> 0" using v(2) by (cases buf) auto
  then have u: "uint_bytes v = buf" unfolding v(1) by (rule uint_bytes_be_val)
  note K = stream_Kind_exact [OF k a(1,2)]
  show "reads s (rlp_string (uint_bytes v)) s' \<and> s_kind s' = None"
  proof (cases "k = Byte")
    case True
    with kind_byte [OF _ a(1,2), of sz t "\<lambda>b. [b]"] k f u show ?thesis by (auto simp: rlp_string_small)
  next
    case False
    with f have String: "k = String" by (cases k) auto
    show ?thesis
    proof (cases "sz = 0")
      case True
      with f String have "buf = []" "s' = t\<lparr>s_kind := None\<rparr>" by (auto simp: rearm_def)
      with K(1) String True u show ?thesis by (simp add: tag_def rlp_string_def)
    next
      case nz: False
      with f String have b: "readFull (unat sz) t = (Inr buf, s')" "\<not> (sz = 1 \<and> buf ! 0 < 128)"
        by (auto simp: sr_bind_Inr split: if_splits)
      with kind_content [OF k a(1,2) False b(1)] String u show ?thesis
        by (auto simp: unat_eq_1_iff rlp_string_large)
    qed
  qed
qed

subsection \<open>The end of a list\<close>

definition no_eol :: "'v sr \<Rightarrow> bool" where
  "no_eol dec \<longleftrightarrow> (\<forall>s s'. dec s \<noteq> (Inl EOL, s'))"

lemma no_eol_basic:
  "no_eol (sr_return x)" "e \<noteq> EOL \<Longrightarrow> no_eol (sr_fail e)" "no_eol byteval" "no_eol (rearm x)" "no_eol (readFull n)"
  "no_eol (readUint m)" "no_eol stream_ListEnd"
  by (auto simp: no_eol_def byteval_def rearm_def stream_ListEnd_def Let_def dest: readFull_error readUint_error split: prod.splits if_splits)

lemma no_eol_bind: "no_eol m \<Longrightarrow> (\<And>x. no_eol (f x)) \<Longrightarrow> no_eol (sr_bind m f)"
  by (auto simp: no_eol_def sr_bind_Inl)

lemma no_eol_wrap: "no_eol m \<Longrightarrow> no_eol (sr_wrap m)"
  by (auto simp: no_eol_def)

lemma no_eol_slice: "no_eol (sliceElems_loop n dec)"
  unfolding no_eol_def
proof (intro allI)
  show "sliceElems_loop n dec s \<noteq> (Inl EOL, s')" for s s'
    by (induction n dec s rule: sliceElems_loop.induct)
      (auto simp: sr_bind_Inl split: prod.splits sum.splits if_splits)
qed

lemma no_eol_array: "no_eol (arrayElems_loop n dec)"
  unfolding no_eol_def
proof (intro allI)
  show "arrayElems_loop n dec s \<noteq> (Inl EOL, s')" for s s'
    by (induction n dec s rule: arrayElems_loop.induct)
      (auto simp: sr_bind_Inl split: prod.splits sum.splits if_splits)
qed

lemma no_eol_struct: "no_eol (structFields_loop fds)"
  unfolding no_eol_def
proof (intro allI)
  show "structFields_loop fds s \<noteq> (Inl EOL, s')" for s s'
    by (induction fds s rule: structFields_loop.induct)
      (auto simp: sr_bind_Inl split: prod.splits sum.splits if_splits)
qed

lemma no_eol_sliceElems: "no_eol (decodeSliceElems dec)"
  using no_eol_slice unfolding no_eol_def decodeSliceElems_def by blast

lemmas no_eol_loops = no_eol_array no_eol_struct no_eol_sliceElems

lemma eol_exact_no_eol: "no_eol dec \<Longrightarrow> eol_exact dec"
  by (simp add: eol_exact_def no_eol_def)

lemma eol_exact_bind: "eol_exact m \<Longrightarrow> (\<And>x. no_eol (f x)) \<Longrightarrow> eol_exact (sr_bind m f)"
  unfolding eol_exact_def no_eol_def sr_bind_Inl by blast

lemma eol_exact_wrap: "eol_exact m \<Longrightarrow> eol_exact (sr_wrap m)"
  unfolding eol_exact_def sr_wrap_EOL .

lemma eol_exact_return: "eol_exact m \<Longrightarrow> eol_exact (sr_bind m (\<lambda>x. sr_return (g x)))"
  by (rule eol_exact_bind) (auto intro: no_eol_basic)

text \<open>A decoder called after \<^verbatim>\<open>Kind\<close> does not find the end of the list.\<close>

lemma not_eol_after_Kind:
  assumes "eol_exact dec" "starts dec" "stream_Kind s = (Inr x, t)" "s_kind s = None" "length (s_r s) < 2 ^ 63"
  shows "dec t \<noteq> (Inl EOL, s')"
  using assms unfolding eol_exact_def starts_def by (metis Pair_inject sum.distinct(1))

lemma eol_exact_Kind_bind:
  assumes "\<And>s x t s'. stream_Kind s = (Inr x, t) \<Longrightarrow> s_kind s = None \<Longrightarrow> length (s_r s) < 2 ^ 63 \<Longrightarrow> f x t \<noteq> (Inl EOL, s')"
  shows "eol_exact (sr_bind stream_Kind f)" "eol_exact (sr_bind (sr_wrap stream_Kind) f)"
  using eol_exact_Kind assms unfolding eol_exact_def sr_bind_Inl sr_wrap_Inr sr_wrap_EOL by blast+

lemma eol_exact_List: "eol_exact stream_List"
  unfolding stream_List_def
  by (rule eol_exact_Kind_bind) (auto simp: Let_def split: prod.splits if_splits)

lemma no_eol_case:
  "no_eol a \<Longrightarrow> no_eol b \<Longrightarrow> no_eol c \<Longrightarrow> no_eol (case k of Byte \<Rightarrow> a | String \<Rightarrow> b | List \<Rightarrow> c)"
  "no_eol a \<Longrightarrow> no_eol b \<Longrightarrow> no_eol (if q then a else b)"
  by (cases k) auto

lemma no_eol_split: "(\<And>x y. no_eol (f x y)) \<Longrightarrow> no_eol (case p of (x, y) \<Rightarrow> f x y)"
  by (cases p) simp

lemmas no_eol_ops = no_eol_split no_eol_case no_eol_bind no_eol_wrap no_eol_basic no_eol_loops

lemma eol_exact_ListSlice: "eol_exact (decodeListSlice dec)"
  unfolding decodeListSlice_def
  by (rule eol_exact_bind [OF eol_exact_wrap [OF eol_exact_List]]) (intro no_eol_ops)

lemma eol_exact_ListArray: "eol_exact (decodeListArray n dec)"
  unfolding decodeListArray_def
  by (rule eol_exact_bind [OF eol_exact_wrap [OF eol_exact_List]]) (intro no_eol_ops)

lemma eol_exact_struct: "eol_exact (structDecoder fds)"
  unfolding structDecoder_def
  by (rule eol_exact_bind [OF eol_exact_wrap [OF eol_exact_List]]) (intro no_eol_ops)

lemma eol_exact_Bytes: "eol_exact stream_Bytes"
  unfolding stream_Bytes_def by (rule eol_exact_bind [OF eol_exact_Kind], intro no_eol_ops) simp_all

lemma eol_exact_Raw: "eol_exact stream_Raw"
  unfolding stream_Raw_def by (rule eol_exact_bind [OF eol_exact_Kind]; intro no_eol_ops)

lemma eol_exact_ByteArray: "eol_exact (decodeByteArray n)"
  unfolding decodeByteArray_def by (rule eol_exact_bind [OF eol_exact_Kind], intro no_eol_ops) simp_all

lemma eol_exact_uint: "eol_exact (stream_uint n)"
  unfolding stream_uint_def
proof (rule eol_exact_bind [OF eol_exact_Kind], intro no_eol_ops)
  fix sz :: u64
  show "no_eol (\<lambda>s. case readUint (ucast sz) s of
               (Inl err, s) \<Rightarrow> (Inl (if err = ErrCanonSize then ErrCanonInt else err), s)
             | (Inr v, s) \<Rightarrow> if sz > 0 \<and> v < 128 then (Inl ErrCanonSize, s) else (Inr v, s))"
    by (auto simp: no_eol_def dest: readUint_error split: prod.splits sum.splits if_splits)
qed simp_all

lemma eol_exact_Bool: "eol_exact stream_Bool"
  unfolding stream_Bool_def by (rule eol_exact_bind [OF eol_exact_uint], intro no_eol_ops) simp_all

lemma eol_exact_BigInt: "eol_exact stream_BigInt"
  unfolding stream_BigInt_def
  by (rule eol_exact_bind, rule eol_exact_bind [OF eol_exact_Kind], (intro no_eol_ops; simp)+)

subsection \<open>Lists\<close>

lemma stream_List_exact:
  assumes "stream_List s = (Inr sz, t)" "s_kind s = None" "length (s_r s) < 2 ^ 63"
  shows "s_r s = rlp_head 192 (unat sz) @ s_r t" "s_kind t = None"
    "s_stack t = sz # consume (s_stack s) (length (rlp_head 192 (unat sz)) + unat sz)"
proof -
  from assms(1) obtain u where k: "stream_Kind s = (Inr (List, sz), u)"
    and t: "t = (let (inList, limit) = listLimit u;
             s = (if inList then u\<lparr>s_stack := (limit - sz) # tl (s_stack u)\<rparr> else u)
         in s\<lparr>s_stack := sz # s_stack s, s_kind := None, s_size := 0\<rparr>)"
    by (auto simp: stream_List_def sr_bind_Inr Let_def split: prod.splits if_splits)
  from stream_Kind_exact(1) [OF k assms(2,3)] have u: "s_r s = rlp_head 192 (unat sz) @ s_r u"
    "s_stack u = consume (s_stack s) (length (rlp_head 192 (unat sz)))"
    by (simp_all add: reads_def tag_def)
  have "s_stack t = sz # consume (s_stack u) (unat sz)"
    using t by (auto simp: listLimit_def consume_def Let_def split: list.splits)
  then show "s_stack t = sz # consume (s_stack s) (length (rlp_head 192 (unat sz)) + unat sz)"
    by (simp add: u(2) consume_add)
  have "s_r t = s_r u" using t by (simp add: listLimit_def Let_def split: list.splits)
  with u(1) show "s_r s = rlp_head 192 (unat sz) @ s_r t" by simp
  show "s_kind t = None" using t by (simp add: listLimit_def Let_def split: list.splits)
qed

lemma list_exact:
  assumes "stream_List s = (Inr sz, t)" "s_kind s = None" "length (s_r s) < 2 ^ 63"
    "reads t p u" "stream_ListEnd u = (Inr x, s')"
  shows "reads s (rlp_list p) s' \<and> s_kind s' = None"
proof -
  note L = stream_List_exact [OF assms(1-3)]
  let ?h = "rlp_head 192 (unat sz)"
  have u: "s_stack u = (sz - word_of_nat (length p)) # consume (s_stack s) (length ?h + unat sz)" "s_r t = p @ s_r u"
    using assms(4) L(3) by (simp_all add: reads_def consume_def)
  with assms(5) have e: "sz = word_of_nat (length p)" "s_r s' = s_r u" "s_kind s' = None"
    "s_stack s' = consume (s_stack s) (length ?h + unat sz)"
    by (auto simp: stream_ListEnd_def listLimit_def word_less_nat_alt unat_eq_zero split: if_splits)
  have "length p < 2 ^ 63" using assms(3) L(1) u(2) by simp
  then have "unat sz = length p" unfolding e(1) by (rule unat_of_nat_u64)
  with e L(1) u(2) show ?thesis by (simp add: reads_def rlp_list_def)
qed

lemma stream_List_length:
  "stream_List s = (Inr sz, t) \<Longrightarrow> s_kind s = None \<Longrightarrow> length (s_r s) < 2 ^ 63 \<Longrightarrow> length (s_r t) < 2 ^ 63"
  using stream_List_exact(1) [of s sz t] by simp

lemma sliceElems_exact:
  assumes "exact dec enc" "eol_exact dec" "sliceElems_loop n dec s = (Inr vs, s')" "s_kind s = None" "length (s_r s) < 2 ^ 63"
  shows "reads s (concat (map enc vs)) s' \<and> s_kind s' = None"
  using assms(3-5)
proof (induction n arbitrary: s vs)
  case (Suc n)
  obtain x t where x: "dec s = (x, t)" by fastforce
  show ?case
  proof (cases x)
    case (Inl e)
    with Suc.prems(1) x have "e = EOL" "vs = []" "s' = t" by (auto split: if_splits)
    moreover from this Inl x Suc.prems(2,3) assms(2) have "t = s" by (simp add: eol_exact_def)
    ultimately show ?thesis using Suc.prems(2) by simp
  next
    case (Inr v)
    with Suc.prems(1) x obtain ws where ws: "sliceElems_loop n dec t = (Inr ws, s')" "vs = v # ws"
      by (auto simp: sr_bind_Inr)
    from exactD [OF assms(1) x [unfolded Inr] Suc.prems(2,3)] have t: "reads s (enc v) t" "s_kind t = None" by auto
    from Suc.IH [OF ws(1) t(2) reads_length [OF t(1) Suc.prems(3)]] reads_trans [OF t(1)] ws(2) show ?thesis by auto
  qed
qed simp

lemma exact_sliceElems:
  "exact dec enc \<Longrightarrow> eol_exact dec \<Longrightarrow> exact (decodeSliceElems dec) (\<lambda>vs. concat (map enc vs))"
  unfolding exact_def [of "decodeSliceElems dec"] decodeSliceElems_def using sliceElems_exact by blast

lemma exact_ListSlice:
  assumes "exact dec enc" "eol_exact dec"
  shows "exact (decodeListSlice dec) (\<lambda>vs. rlp_list (concat (map enc vs)))"
  unfolding exact_def
proof (intro allI impI)
  fix s vs s'
  assume a: "s_kind s = None" "length (s_r s) < 2 ^ 63" "decodeListSlice dec s = (Inr vs, s')"
  then obtain sz t where t: "stream_List s = (Inr sz, t)"
    and f: "(if sz = 0 then sr_bind stream_ListEnd (\<lambda>_. sr_return [])
       else sr_bind (decodeSliceElems dec) (\<lambda>vs. sr_bind stream_ListEnd (\<lambda>_. sr_return vs))) t = (Inr vs, s')"
    by (auto simp: decodeListSlice_def sr_bind_Inr)
  have "\<exists>u x. reads t (concat (map enc vs)) u \<and> stream_ListEnd u = (Inr x, s')"
  proof (cases "sz = 0")
    case True
    with f have "\<exists>x. stream_ListEnd t = (Inr x, s')" "vs = []" by (auto simp: sr_bind_Inr)
    then show ?thesis by (auto intro!: exI [of _ t])
  next
    case False
    with f obtain u x where u: "decodeSliceElems dec t = (Inr vs, u)" "stream_ListEnd u = (Inr x, s')"
      by (auto simp: sr_bind_Inr)
    with exactD [OF exact_sliceElems [OF assms] u(1)] stream_List_exact(2) [OF t a(1,2)] stream_List_length [OF t a(1,2)]
    show ?thesis by blast
  qed
  with list_exact [OF t a(1,2)] show "reads s (rlp_list (concat (map enc vs))) s' \<and> s_kind s' = None" by blast
qed

lemma arrayElems_exact:
  assumes "exact dec enc" "arrayElems_loop n dec s = (Inr vs, s')" "s_kind s = None" "length (s_r s) < 2 ^ 63"
  shows "reads s (concat (map enc vs)) s' \<and> s_kind s' = None"
  using assms(2-4)
proof (induction n arbitrary: s vs)
  case (Suc n)
  obtain x t where x: "dec s = (x, t)" by fastforce
  with Suc.prems(1) obtain v ws where ws: "x = Inr v" "arrayElems_loop n dec t = (Inr ws, s')" "vs = v # ws"
    by (cases x) (auto simp: sr_bind_Inr)
  from exactD [OF assms(1) x [unfolded ws(1)] Suc.prems(2,3)] have t: "reads s (enc v) t" "s_kind t = None" by auto
  from Suc.IH [OF ws(2) t(2) reads_length [OF t(1) Suc.prems(3)]] reads_trans [OF t(1)] ws(3) show ?case by auto
qed simp

lemma exact_ListArray:
  assumes "exact dec enc"
  shows "exact (decodeListArray n dec) (\<lambda>vs. rlp_list (concat (map enc vs)))"
  unfolding exact_def
proof (intro allI impI)
  fix s vs s'
  assume a: "s_kind s = None" "length (s_r s) < 2 ^ 63" "decodeListArray n dec s = (Inr vs, s')"
  then obtain sz t u x where t: "stream_List s = (Inr sz, t)" "arrayElems_loop n dec t = (Inr vs, u)"
    "stream_ListEnd u = (Inr x, s')"
    by (auto simp: decodeListArray_def sr_bind_Inr)
  from arrayElems_exact [OF assms t(2) stream_List_exact(2) [OF t(1) a(1,2)] stream_List_length [OF t(1) a(1,2)]]
  show "reads s (rlp_list (concat (map enc vs))) s' \<and> s_kind s' = None"
    using list_exact [OF t(1) a(1,2) _ t(3)] by blast
qed

lemma structFields_exact:
  assumes "list_all2 (\<lambda>(f, dec) enc. exact dec enc \<and> \<not> Optional (f_tags f)) fds encs"
    "structFields_loop fds s = (Inr vs, s')" "s_kind s = None" "length (s_r s) < 2 ^ 63"
  shows "reads s (concat (map (\<lambda>(enc, v). enc v) (zip encs vs))) s' \<and> s_kind s' = None"
  using assms
proof (induction fds encs arbitrary: s vs rule: list_all2_induct)
  case (Cons fd fds enc encs)
  obtain f dec where fd: "fd = (f, dec)" by fastforce
  with Cons.hyps have e: "exact dec enc" "\<not> Optional (f_tags f)" by auto
  obtain x t where x: "dec s = (x, t)" by fastforce
  with Cons.prems(1) fd e(2) obtain v ws where ws: "x = Inr v" "structFields_loop fds t = (Inr ws, s')" "vs = v # ws"
    by (cases x) (auto simp: sr_bind_Inr split: if_splits)
  from exactD [OF e(1) x [unfolded ws(1)] Cons.prems(2,3)] have t: "reads s (enc v) t" "s_kind t = None" by auto
  from Cons.IH [OF ws(2) t(2) reads_length [OF t(1) Cons.prems(3)]] reads_trans [OF t(1)] ws(3) show ?case by auto
qed simp

lemma exact_struct:
  assumes "list_all2 (\<lambda>(f, dec) enc. exact dec enc \<and> \<not> Optional (f_tags f)) fds encs"
  shows "exact (structDecoder fds) (\<lambda>vs. rlp_list (concat (map (\<lambda>(enc, v). enc v) (zip encs vs))))"
  unfolding exact_def
proof (intro allI impI)
  fix s vs s'
  assume a: "s_kind s = None" "length (s_r s) < 2 ^ 63" "structDecoder fds s = (Inr vs, s')"
  then obtain sz t u x where t: "stream_List s = (Inr sz, t)" "structFields_loop fds t = (Inr vs, u)"
    "stream_ListEnd u = (Inr x, s')"
    by (auto simp: structDecoder_def sr_bind_Inr)
  from structFields_exact [OF assms t(2) stream_List_exact(2) [OF t(1) a(1,2)] stream_List_length [OF t(1) a(1,2)]]
  show "reads s (rlp_list (concat (map (\<lambda>(enc, v). enc v) (zip encs vs)))) s' \<and> s_kind s' = None"
    using list_exact [OF t(1) a(1,2) _ t(3)] by blast
qed

subsection \<open>All types\<close>

text \<open>
  \<open>good\<close> decoders are exact, report the end of the list without moving, and may be called after
  \<^verbatim>\<open>Kind\<close> has looked at the value.
\<close>

definition good :: "'v sr \<Rightarrow> ('v \<Rightarrow> bytes) \<Rightarrow> bool" where
  "good dec enc \<longleftrightarrow> exact dec enc \<and> eol_exact dec \<and>
     (\<forall>s x t s'. s_kind s = None \<longrightarrow> length (s_r s) < 2 ^ 63 \<longrightarrow> stream_Kind s = (Inr x, t) \<longrightarrow>
        dec t \<noteq> (Inl EOL, s') \<and> (\<forall>v. dec t = (Inr v, s') \<longrightarrow> reads s (enc v) s' \<and> s_kind s' = None))"

lemma goodD: "good dec enc \<Longrightarrow> exact dec enc" "good dec enc \<Longrightarrow> eol_exact dec"
  by (simp_all add: good_def)

lemma good_after:
  assumes "good dec enc" "stream_Kind s = (Inr x, t)" "s_kind s = None" "length (s_r s) < 2 ^ 63"
  shows "dec t \<noteq> (Inl EOL, s')" "dec t = (Inr v, s') \<Longrightarrow> reads s (enc v) s' \<and> s_kind s' = None"
  using assms unfolding good_def by blast+

lemma good_starts:
  assumes "exact dec enc" "eol_exact dec" "starts dec"
  shows "good dec enc"
  unfolding good_def
proof (intro conjI allI impI assms(1,2))
  fix s x t s'
  assume a: "s_kind s = None" "length (s_r s) < 2 ^ 63" "stream_Kind s = (Inr x, t)"
  show "dec t \<noteq> (Inl EOL, s')" by (rule not_eol_after_Kind [OF assms(2,3) a(3,1,2)])
  fix v
  assume v: "dec t = (Inr v, s')"
  have "dec t = dec s" using assms(3) a(3) unfolding starts_def by blast
  with exactD [OF assms(1), of s v s'] v a(1,2) show "reads s (enc v) s'" "s_kind s' = None" by auto
qed

lemma exact_return:
  assumes "exact m enc" "\<And>x. enc' (g x) = enc x"
  shows "exact (sr_bind m (\<lambda>x. sr_return (g x))) enc'"
  unfolding exact_def
proof (intro allI impI)
  fix s v s'
  assume a: "s_kind s = None" "length (s_r s) < 2 ^ 63" "sr_bind m (\<lambda>x. sr_return (g x)) s = (Inr v, s')"
  then obtain x where "m s = (Inr x, s')" "v = g x" by (auto simp: sr_bind_Inr)
  with exactD [OF assms(1), of s x s'] a(1,2) assms(2) show "reads s (enc' v) s' \<and> s_kind s' = None" by simp
qed

lemma exact_wrap: "exact m enc \<Longrightarrow> exact (sr_wrap m) enc"
  unfolding exact_def sr_wrap_Inr .

lemma good_return:
  assumes "good m enc" "\<And>x. enc' (g x) = enc x"
  shows "good (sr_bind m (\<lambda>x. sr_return (g x))) enc'"
  unfolding good_def
proof (intro conjI allI impI)
  show "exact (sr_bind m (\<lambda>x. sr_return (g x))) enc'"
    by (rule exact_return [where enc = enc]) (use assms in \<open>auto dest: goodD\<close>)
  show "eol_exact (sr_bind m (\<lambda>x. sr_return (g x)))"
    by (rule eol_exact_return [OF goodD(2) [OF assms(1)]])
next
  fix s x t s'
  assume a: "s_kind s = None" "length (s_r s) < 2 ^ 63" "stream_Kind s = (Inr x, t)"
  note G = good_after [OF assms(1) a(3,1,2)]
  show "sr_bind m (\<lambda>x. sr_return (g x)) t \<noteq> (Inl EOL, s')" using G(1) by (auto simp: sr_bind_Inl)
  fix v
  assume "sr_bind m (\<lambda>x. sr_return (g x)) t = (Inr v, s')"
  then obtain y where "m t = (Inr y, s')" "v = g y" by (auto simp: sr_bind_Inr)
  with G(2) assms(2) show "reads s (enc' v) s'" "s_kind s' = None" by auto
qed

lemma good_Kind_bind:
  assumes "\<And>s x t v s'. stream_Kind s = (Inr x, t) \<Longrightarrow> s_kind s = None \<Longrightarrow> length (s_r s) < 2 ^ 63 \<Longrightarrow>
      f x t = (Inr v, s') \<Longrightarrow> reads s (enc v) s' \<and> s_kind s' = None"
    "\<And>s x t s'. stream_Kind s = (Inr x, t) \<Longrightarrow> s_kind s = None \<Longrightarrow> length (s_r s) < 2 ^ 63 \<Longrightarrow> f x t \<noteq> (Inl EOL, s')"
  shows "good (sr_bind stream_Kind f) enc" "good (sr_bind (sr_wrap stream_Kind) f) enc"
proof -
  have "exact (sr_bind stream_Kind f) enc" "exact (sr_bind (sr_wrap stream_Kind) f) enc"
    using assms(1) unfolding exact_def sr_bind_Inr sr_wrap_Inr by blast+
  moreover have "eol_exact (sr_bind stream_Kind f)" "eol_exact (sr_bind (sr_wrap stream_Kind) f)"
    by (rule eol_exact_Kind_bind, rule assms(2), assumption+)+
  ultimately show "good (sr_bind stream_Kind f) enc" "good (sr_bind (sr_wrap stream_Kind) f) enc"
    by (auto intro: good_starts starts_ops)
qed

lemma good_Bytes: "good stream_Bytes rlp_string"
  by (rule good_starts [OF exact_Bytes eol_exact_Bytes starts_Bytes])

lemma good_ListSlice:
  "exact dec enc \<Longrightarrow> eol_exact dec \<Longrightarrow> good (decodeListSlice dec) (\<lambda>vs. rlp_list (concat (map enc vs)))"
  by (rule good_starts [OF exact_ListSlice eol_exact_ListSlice starts_ListSlice])

lemma good_Interface_loop: "good (decodeInterface_loop n) rlp_enc"
proof (induction n)
  case 0
  show ?case by (auto simp: good_def exact_def eol_exact_def)
next
  case (Suc n)
  have l: "good (decodeListSlice (decodeInterface_loop n)) (\<lambda>vs. rlp_list (concat (map rlp_enc vs)))"
    using Suc by (intro good_ListSlice goodD)
  show ?case
    unfolding decodeInterface_loop.simps
  proof (rule good_Kind_bind)
    fix s x t v s'
    assume a: "stream_Kind s = (Inr x, t)" "s_kind s = None" "length (s_r s) < 2 ^ 63"
    note L = good_after [OF l a] and B = good_after [OF good_Bytes a]
    obtain k sz where x: "x = (k, sz)" by fastforce
    show "(case x of (kind, sz) \<Rightarrow> if kind = List then sr_bind (decodeListSlice (decodeInterface_loop n)) (\<lambda>items. sr_return (Lst items))
        else sr_bind stream_Bytes (\<lambda>b. sr_return (Str b))) t \<noteq> (Inl EOL, s')"
      using L(1) B(1) by (auto simp: x sr_bind_Inl)
    assume "(case x of (kind, sz) \<Rightarrow> if kind = List then sr_bind (decodeListSlice (decodeInterface_loop n)) (\<lambda>items. sr_return (Lst items))
        else sr_bind stream_Bytes (\<lambda>b. sr_return (Str b))) t = (Inr v, s')"
    with L(2) B(2) show "reads s (rlp_enc v) s' \<and> s_kind s' = None"
      by (auto simp: x sr_bind_Inr split: if_splits)
  qed
qed

lemma good_Interface: "good decodeInterface rlp_enc"
proof -
  have G: "good (decodeInterface_loop (Suc (length (s_r s)))) rlp_enc" for s by (rule good_Interface_loop)
  show ?thesis
    unfolding good_def
  proof (intro conjI allI impI)
    show "exact decodeInterface rlp_enc"
      using exactD [OF goodD(1) [OF G]] unfolding exact_def decodeInterface_def by blast
    show "eol_exact decodeInterface"
      using goodD(2) [OF G] unfolding eol_exact_def decodeInterface_def by blast
    fix s x t s'
    assume a: "s_kind s = None" "length (s_r s) < 2 ^ 63" "stream_Kind s = (Inr x, t)"
    show "decodeInterface t \<noteq> (Inl EOL, s')"
      unfolding decodeInterface_def by (rule good_after(1) [OF G a(3,1,2)])
    fix v
    assume "decodeInterface t = (Inr v, s')"
    with good_after(2) [OF G a(3,1,2), of t v s'] show "reads s (rlp_enc v) s'" "s_kind s' = None"
      by (simp_all add: decodeInterface_def)
  qed
qed

lemma good_nilPtr:
  assumes "good dec enc" "nk \<noteq> Byte"
    and enc': "\<And>v. enc' (VPtr (Some v)) = enc v" "enc' (VPtr None) = (if nk = String then rlp_string [] else rlp_list [])"
  shows "good (nilPtrDecoder nk dec) enc'"
  unfolding nilPtrDecoder_def
proof (rule good_Kind_bind)
  fix s x t v s'
  assume a: "stream_Kind s = (Inr x, t)" "s_kind s = None" "length (s_r s) < 2 ^ 63"
  note G = good_after [OF assms(1) a]
  obtain k sz where x: "x = (k, sz)" by fastforce
  let ?f = "\<lambda>kind sz. if kind \<noteq> Byte \<and> sz = 0 then
         (if kind \<noteq> nk then sr_fail (decodeError ''wrong kind of empty value'') else rearm (VPtr None))
       else sr_bind dec (\<lambda>v. sr_return (VPtr (Some v)))"
  show "(case x of (kind, sz) \<Rightarrow> ?f kind sz) t \<noteq> (Inl EOL, s')"
    using G(1) by (auto simp: x sr_bind_Inl rearm_def)
  assume v: "(case x of (kind, sz) \<Rightarrow> ?f kind sz) t = (Inr v, s')"
  show "reads s (enc' v) s' \<and> s_kind s' = None"
  proof (cases "k \<noteq> Byte \<and> sz = 0")
    case True
    with v x have "k = nk" "v = VPtr None" "s' = t\<lparr>s_kind := None\<rparr>" by (auto simp: rearm_def split: if_splits)
    with stream_Kind_exact(1) [OF a(1) [unfolded x] a(2,3)] True enc'(2) show ?thesis
      by (cases k) (simp_all add: tag_def rlp_string_def rlp_list_def)
  next
    case False
    with v x obtain w where "dec t = (Inr w, s')" "v = VPtr (Some w)" by (auto simp: sr_bind_Inr)
    with G(2) enc'(1) show ?thesis by auto
  qed
qed

text \<open>Types without optional fields: a trailing zero of an optional field may be written or left out.\<close>

function strict :: "rtype \<Rightarrow> bool" where
  "strict (TSlice t) = strict t"
| "strict (TArray n t) = strict t"
| "strict (TStruct fs) = list_all (\<lambda>f. \<not> Optional (f_tags f) \<and> strict (f_type f)) fs"
| "strict (TPtr t) = strict t"
| "strict TRaw = True" | "strict TBig = True" | "strict TBool = True" | "strict TString = True"
| "strict TByteSlice = True" | "strict (TByteArray n) = True" | "strict TIface = True" | "strict (TUint n) = True"
  by pat_completeness auto
termination
  by (relation "measure size") (auto dest: size_field_type)

lemma fieldCount_strict: "list_all (\<lambda>f. \<not> Optional (f_tags f)) fs \<Longrightarrow> fieldCount fs vs = length fs"
  by (simp add: fieldCount_def firstOptionalField_def list_all_iff takeWhile_eq_all_conv [THEN iffD2])

lemma good_makeDecoder:
  assumes "type_ok t" "strict t" "tags_ok tg t"
  shows "exact (makeDecoder tg t) (renc tg t) \<and> eol_exact (makeDecoder tg t) \<and>
    (\<not> Tail tg \<longrightarrow> good (makeDecoder tg t) (renc tg t))"
  using assms
proof (induction tg t rule: makeDecoder.induct)
  case (1 tg)
  have "good stream_Raw (\<lambda>v. v)"
    by (rule good_starts [OF exact_Raw eol_exact_Raw]) (auto simp: stream_Raw_def intro: starts_ops)
  then have "good (makeDecoder tg TRaw) (renc tg TRaw)" by (simp add: good_return)
  then show ?case by (simp add: goodD)
next
  case (2 tg)
  have "good (sr_wrap stream_BigInt) (\<lambda>i. rlp_string (uint_bytes i))"
    by (rule good_starts [OF exact_wrap [OF exact_BigInt] eol_exact_wrap [OF eol_exact_BigInt]])
      (auto simp: stream_BigInt_def intro: starts_ops)
  then have "good (makeDecoder tg TBig) (renc tg TBig)" by (simp add: good_return)
  then show ?case by (simp add: goodD)
next
  case (3 tg bits)
  then have "bits \<le> 64" by auto
  then have "good (sr_wrap (stream_uint bits)) (\<lambda>n. rlp_string (uint_bytes (unat n)))"
    by (intro good_starts [OF exact_wrap [OF exact_uint] eol_exact_wrap [OF eol_exact_uint]])
      (auto simp: stream_uint_def intro: starts_ops)
  then have "good (makeDecoder tg (TUint bits)) (renc tg (TUint bits))" by (simp add: good_return)
  then show ?case by (simp add: goodD)
next
  case (4 tg)
  have "good (sr_wrap stream_Bool) (\<lambda>b. rlp_string (uint_bytes (of_bool b)))"
    by (rule good_starts [OF exact_wrap [OF exact_Bool] eol_exact_wrap [OF eol_exact_Bool]])
      (auto simp: stream_Bool_def stream_uint_def intro: starts_ops)
  then have "good (makeDecoder tg TBool) (renc tg TBool)" by (simp add: good_return)
  then show ?case by (simp add: goodD)
next
  case (5 tg)
  have "good (sr_wrap stream_Bytes) rlp_string"
    by (rule good_starts [OF exact_wrap [OF exact_Bytes] eol_exact_wrap [OF eol_exact_Bytes] starts_wrap [OF starts_Bytes]])
  then have "good (makeDecoder tg TString) (renc tg TString)" by (simp add: good_return)
  then show ?case by (simp add: goodD)
next
  case (6 tg)
  have "good (sr_wrap stream_Bytes) rlp_string"
    by (rule good_starts [OF exact_wrap [OF exact_Bytes] eol_exact_wrap [OF eol_exact_Bytes] starts_wrap [OF starts_Bytes]])
  then have "good (makeDecoder tg TByteSlice) (renc tg TByteSlice)" by (simp add: good_return)
  then show ?case by (simp add: goodD)
next
  case (7 tg n)
  have "good (decodeByteArray n) rlp_string"
    by (rule good_starts [OF exact_ByteArray eol_exact_ByteArray]) (auto simp: decodeByteArray_def intro: starts_ops)
  then have "good (makeDecoder tg (TByteArray n)) (renc tg (TByteArray n))" by (simp add: good_return)
  then show ?case by (simp add: goodD)
next
  case (8 tg t)
  then have IH: "exact (makeDecoder noTags t) (renc noTags t)" "eol_exact (makeDecoder noTags t)"
    by (auto simp: tags_ok_def noTags_def)
  show ?case
  proof (cases "Tail tg")
    case True
    with exact_return [OF exact_sliceElems [OF IH], of "renc tg (TSlice t)" "VSlice False"]
      eol_exact_return [OF eol_exact_no_eol [OF no_eol_sliceElems]] show ?thesis by (simp add: Let_def)
  next
    case False
    with good_return [OF good_ListSlice [OF IH], of "renc tg (TSlice t)" "VSlice False"] show ?thesis
      by (simp add: Let_def goodD)
  qed
next
  case (9 tg n t)
  then have IH: "exact (makeDecoder noTags t) (renc noTags t)" by (auto simp: tags_ok_def noTags_def)
  have "good (decodeListArray n (makeDecoder noTags t)) (\<lambda>vs. rlp_list (concat (map (renc noTags t) vs)))"
    by (rule good_starts [OF exact_ListArray [OF IH] eol_exact_ListArray])
      (auto simp: decodeListArray_def stream_List_def intro: starts_ops)
  then have "good (makeDecoder tg (TArray n t)) (renc tg (TArray n t))" by (simp add: good_return)
  then show ?case by (simp add: goodD)
next
  case (10 tg fs)
  let ?fds = "map (\<lambda>f. (f, makeDecoder (f_tags f) (f_type f))) fs" and ?encs = "map (\<lambda>f. renc (f_tags f) (f_type f)) fs"
  have "list_all2 (\<lambda>(f, dec) enc. exact dec enc \<and> \<not> Optional (f_tags f)) ?fds ?encs"
    using 10 by (simp add: list_all2_map1 list_all2_map2 list_all2_same list_all_iff)
  then have "good (structDecoder ?fds) (\<lambda>vs. rlp_list (concat (map (\<lambda>(enc, v). enc v) (zip ?encs vs))))"
    by (intro good_starts [OF exact_struct eol_exact_struct])
      (auto simp: structDecoder_def stream_List_def intro: starts_ops)
  moreover have "fieldCount fs vs = length fs" for vs
    using 10(3) by (intro fieldCount_strict) (simp add: list_all_iff)
  ultimately have "good (makeDecoder tg (TStruct fs)) (renc tg (TStruct fs))" by (simp add: good_return)
  then show ?case by (simp add: goodD)
next
  case (11 tg t)
  have nt: "tags_ok noTags t" "\<not> Tail noTags" by (simp_all add: tags_ok_def noTags_def)
  show ?case
  proof (cases "NilOK tg")
    case True
    then have "good (makeDecoder noTags t) (renc noTags t)" using 11(2) 11(3-4) nt by simp
    moreover have "typeNilKind t tg \<noteq> Byte" using True 11(5) by (simp add: typeNilKind_def tags_ok_def)
    ultimately have "good (nilPtrDecoder (typeNilKind t tg) (makeDecoder noTags t)) (renc tg (TPtr t))"
      by (rule good_nilPtr) simp_all
    with True show ?thesis by (simp add: goodD)
  next
    case False
    then have "good (makeDecoder noTags t) (renc noTags t)" using 11(1) 11(3-4) nt by simp
    then have "good (makeDecoder tg (TPtr t)) (renc tg (TPtr t))" using False by (simp add: good_return)
    then show ?thesis by (simp add: goodD)
  qed
next
  case (12 tg)
  have "good (makeDecoder tg TIface) (renc tg TIface)" using good_Interface by (simp add: good_return)
  then show ?case by (simp add: goodD)
qed

subsection \<open>Decoded values have their type\<close>

definition typed :: "'v sr \<Rightarrow> ('v \<Rightarrow> bool) \<Rightarrow> bool" where
  "typed dec P \<longleftrightarrow> (\<forall>s v s'. dec s = (Inr v, s') \<longrightarrow> P v)"

lemma typedI: "(\<And>s v s'. dec s = (Inr v, s') \<Longrightarrow> P v) \<Longrightarrow> typed dec P"
  by (simp add: typed_def)

lemma typedD: "typed dec P \<Longrightarrow> dec s = (Inr v, s') \<Longrightarrow> P v"
  unfolding typed_def by blast

lemma typed_return: "typed m P \<Longrightarrow> (\<And>x. P x \<Longrightarrow> Q (g x)) \<Longrightarrow> typed (sr_bind m (\<lambda>x. sr_return (g x))) Q"
  by (auto simp: typed_def sr_bind_Inr)

lemma typed_any: "typed m (\<lambda>x. True)"
  by (simp add: typed_def)

lemma typed_wrap: "typed m P \<Longrightarrow> typed (sr_wrap m) P"
  by (simp add: typed_def)

lemma readFull_length: "readFull n s = (Inr b, s') \<Longrightarrow> length b = n"
  by (auto simp: readFull_def sr_bind_Inr split: if_splits)

lemma typed_ByteArray: "typed (decodeByteArray n) (\<lambda>b. length b = n)"
proof (rule typedI)
  fix s v s'
  assume "decodeByteArray n s = (Inr v, s')"
  then obtain k sz t where "stream_Kind s = (Inr (k, sz), t)" and f: "(case k of
         Byte \<Rightarrow>
           if n = 0 then sr_fail (decodeError ''input string too long'')
           else if n > 1 then sr_fail (decodeError ''input string too short'')
           else sr_bind byteval (\<lambda>b. rearm [b])
       | String \<Rightarrow>
           if word_of_nat n < sz then sr_fail (decodeError ''input string too long'')
           else if word_of_nat n > sz then sr_fail (decodeError ''input string too short'')
           else
             sr_bind (readFull n) (\<lambda>slice.
               if sz = 1 \<and> slice ! 0 < 128 then sr_fail (wrapStreamError ErrCanonSize) else sr_return slice)
       | List \<Rightarrow> sr_fail (wrapStreamError ErrExpectedString)) t = (Inr v, s')"
    by (auto simp: decodeByteArray_def sr_bind_Inr)
  then show "length v = n"
    by (cases k) (auto simp: sr_bind_Inr byteval_def rearm_def dest: readFull_length split: if_splits)
qed

lemma readUint_bound:
  assumes "readUint n s = (Inr v, s')" "unat n \<le> 8"
  shows "unat v < 256 ^ unat n"
proof -
  consider "n = 0" | "n = 1" | "n \<noteq> 0" "n \<noteq> 1" by blast
  then show ?thesis
  proof cases
    case 3
    with assms(1) obtain buf where "readFull (unat n) s = (Inr buf, s')" "v = be_word buf"
      by (auto simp: readUint_def sr_bind_Inr split: if_splits)
    with readFull_length be_val_less [of buf] unat_be_word [of buf] assms(2) show ?thesis by auto
  qed (use assms(1) in \<open>auto simp: readUint_def sr_bind_Inr\<close>)
qed

lemma typed_uint:
  assumes "bits \<in> {8, 16, 32, 64}"
  shows "typed (stream_uint bits) (\<lambda>n. unat n < 2 ^ bits)"
  unfolding typed_def
proof (intro allI impI)
  fix s v s'
  assume "stream_uint bits s = (Inr v, s')"
  then obtain k sz t where "stream_Kind s = (Inr (k, sz), t)" and f: "(case k of
         Byte \<Rightarrow> sr_bind byteval (\<lambda>b. if b = 0 then sr_fail ErrCanonInt else rearm (ucast b))
       | String \<Rightarrow>
           if sz > word_of_nat (bits div 8) then sr_fail errUintOverflow
           else (\<lambda>s.
             case readUint (ucast sz) s of
               (Inl err, s) \<Rightarrow> (Inl (if err = ErrCanonSize then ErrCanonInt else err), s)
             | (Inr v, s) \<Rightarrow> if sz > 0 \<and> v < 128 then (Inl ErrCanonSize, s) else (Inr v, s))
       | List \<Rightarrow> sr_fail ErrExpectedString) t = (Inr v, s')"
    by (auto simp: stream_uint_def sr_bind_Inr)
  have b: "bits div 8 * 8 = bits" "1 \<le> bits div 8" "bits div 8 \<le> 8" using assms by auto
  have "(256 :: nat) ^ (bits div 8) = (2 ^ 8) ^ (bits div 8)" by simp
  then have p: "(256 :: nat) ^ (bits div 8) = 2 ^ bits" using b(1) by (simp only: mult.commute flip: power_mult)
  show "unat v < 2 ^ bits"
  proof (cases k)
    case Byte
    with f obtain c :: byte where c: "v = ucast c" by (auto simp: sr_bind_Inr byteval_def rearm_def split: if_splits)
    have "(256 :: nat) ^ 1 \<le> 256 ^ (bits div 8)" using b(2) by (intro power_increasing) simp_all
    then have "256 \<le> (2 :: nat) ^ bits" using p by simp
    then show ?thesis unfolding c unat_ucast_up by (rule less_le_trans [OF unat_byte_less])
  next
    case String
    have "unat (word_of_nat (bits div 8) :: u64) = bits div 8" using b(3) by (intro unat_of_nat_u64) simp
    moreover from f String have "\<not> sz > word_of_nat (bits div 8)" by (auto split: if_splits)
    ultimately have sz: "unat sz \<le> bits div 8" by (simp add: word_less_nat_alt)
    have u: "unat (ucast sz :: byte) = unat sz" using sz b(3) by simp
    from f String have r: "readUint (ucast sz) t = (Inr v, s')"
      by (auto split: if_splits prod.splits sum.splits)
    have "unat v < 256 ^ unat sz" using readUint_bound [OF r] u sz b(3) by simp
    also have "\<dots> \<le> 256 ^ (bits div 8)" using sz by (intro power_increasing) simp_all
    finally show ?thesis by (simp add: p)
  qed (use f in simp)
qed

lemma typed_slice: "typed dec P \<Longrightarrow> typed (sliceElems_loop n dec) (list_all P)"
proof (rule typedI)
  show "typed dec P \<Longrightarrow> sliceElems_loop n dec s = (Inr vs, s') \<Longrightarrow> list_all P vs" for s vs s'
    by (induction n arbitrary: s vs) (auto simp: sr_bind_Inr dest: typedD split: prod.splits sum.splits if_splits)
qed

lemma typed_sliceElems: "typed dec P \<Longrightarrow> typed (decodeSliceElems dec) (list_all P)"
  by (rule typedI) (auto simp: decodeSliceElems_def simp del: sliceElems_loop.simps dest: typedD [OF typed_slice])

lemma typed_ListSlice: "typed dec P \<Longrightarrow> typed (decodeListSlice dec) (list_all P)"
  by (rule typedI) (auto simp: decodeListSlice_def sr_bind_Inr dest: typedD [OF typed_sliceElems] split: if_splits)

lemma typed_array: "typed dec P \<Longrightarrow> typed (arrayElems_loop n dec) (\<lambda>vs. length vs = n \<and> list_all P vs)"
proof (rule typedI)
  show "typed dec P \<Longrightarrow> arrayElems_loop n dec s = (Inr vs, s') \<Longrightarrow> length vs = n \<and> list_all P vs" for s vs s'
    by (induction n arbitrary: s vs) (auto simp: sr_bind_Inr dest: typedD split: prod.splits sum.splits)
qed

lemma typed_ListArray: "typed dec P \<Longrightarrow> typed (decodeListArray n dec) (\<lambda>vs. length vs = n \<and> list_all P vs)"
  by (rule typedI) (auto simp: decodeListArray_def sr_bind_Inr dest: typedD [OF typed_array])

lemma zeros_typed:
  "list_all2 (\<lambda>(f, dec) P. typed dec P \<and> P (zeroVal (f_type f))) fds Ps \<Longrightarrow>
   list_all2 (\<lambda>P v. P v) Ps (map (\<lambda>(g, _). zeroVal (f_type g)) fds)"
  by (induction rule: list_all2_induct) auto

lemma typed_struct_fields:
  assumes "list_all2 (\<lambda>(f, dec) P. typed dec P \<and> P (zeroVal (f_type f))) fds Ps"
  shows "typed (structFields_loop fds) (list_all2 (\<lambda>P v. P v) Ps)"
  unfolding typed_def
proof (intro allI impI)
  fix s vs s'
  assume "structFields_loop fds s = (Inr vs, s')"
  with assms show "list_all2 (\<lambda>P v. P v) Ps vs"
  proof (induction fds Ps arbitrary: s vs rule: list_all2_induct)
    case (Cons fd fds P Ps)
    obtain f dec where fd: "fd = (f, dec)" by fastforce
    obtain x t where x: "dec s = (x, t)" by fastforce
    show ?case
    proof (cases x)
      case (Inr v)
      with Cons.prems x fd obtain ws where "structFields_loop fds t = (Inr ws, s')" "vs = v # ws"
        by (auto simp: sr_bind_Inr)
      with Cons.IH Cons.hyps fd x Inr show ?thesis by (auto dest: typedD)
    next
      case (Inl e)
      with Cons.prems x fd have vs: "vs = map (\<lambda>(g, _). zeroVal (f_type g)) (fd # fds)" by (auto split: if_splits)
      from zeros_typed [OF Cons.hyps(2)] Cons.hyps(1) fd show ?thesis unfolding vs by simp
    qed
  qed simp
qed

lemma typed_struct:
  assumes "list_all2 (\<lambda>(f, dec) P. typed dec P \<and> P (zeroVal (f_type f))) fds Ps"
  shows "typed (structDecoder fds) (list_all2 (\<lambda>P v. P v) Ps)"
  by (rule typedI) (auto simp: structDecoder_def sr_bind_Inr dest: typedD [OF typed_struct_fields [OF assms]])

lemma zeroVal_typed: "has_type t (zeroVal t)"
  by (induction t rule: zeroVal.induct)
    (auto simp: list_all_length list_all2_map1 list_all2_map2 list_all2_same)

lemma typed_nilPtr:
  "typed dec P \<Longrightarrow> Q (VPtr None) \<Longrightarrow> (\<And>v. P v \<Longrightarrow> Q (VPtr (Some v))) \<Longrightarrow> typed (nilPtrDecoder k dec) Q"
  by (rule typedI) (auto simp: nilPtrDecoder_def sr_bind_Inr rearm_def dest: typedD split: if_splits)

lemma typed_makeDecoder: "type_ok t \<Longrightarrow> typed (makeDecoder tg t) (has_type t)"
proof (induction tg t rule: makeDecoder.induct)
  case (3 tg bits)
  then have "typed (sr_wrap (stream_uint bits)) (\<lambda>n. unat n < 2 ^ bits)" by (intro typed_wrap typed_uint) simp
  then show ?case by (auto intro: typed_return)
next
  case (7 tg n)
  show ?case using typed_ByteArray [of n] by (auto intro: typed_return)
next
  case (8 tg t)
  then have "typed (makeDecoder noTags t) (has_type t)" by simp
  from typed_sliceElems [OF this] typed_ListSlice [OF this] show ?case by (auto intro: typed_return)
next
  case (9 tg n t)
  then have "typed (makeDecoder noTags t) (has_type t)" by simp
  from typed_ListArray [OF this] show ?case by (auto intro: typed_return)
next
  case (10 tg fs)
  then have "list_all2 (\<lambda>(f, dec) P. typed dec P \<and> P (zeroVal (f_type f)))
     (map (\<lambda>f. (f, makeDecoder (f_tags f) (f_type f))) fs) (map (\<lambda>f. has_type (f_type f)) fs)"
    by (simp add: list_all2_map1 list_all2_map2 list_all2_same list_all_iff zeroVal_typed)
  from typed_struct [OF this] show ?case by (auto intro: typed_return)
next
  case (11 tg t)
  then show ?case by (auto intro!: typed_return typed_nilPtr)
qed (auto intro: typed_return [OF typed_any])

subsection \<open>Raw values\<close>

text \<open>What \<^verbatim>\<open>Raw\<close> returns: a tag and its content.\<close>

definition raw_ok :: "bytes \<Rightarrow> bool" where
  "raw_ok v \<longleftrightarrow> (\<exists>k c. v = frame k c \<and> tag_ok k c)"

lemma is_frame_raw_ok: "is_frame v \<Longrightarrow> raw_ok v"
  unfolding is_frame_def raw_ok_def using frame_tag_ok by blast

lemma decodes_raw_ok: "raw_ok v \<Longrightarrow> decodes stream_Raw v v"
  unfolding raw_ok_def using decodes_Raw_tag by blast

lemma raw_ok_not_Nil: "raw_ok v \<Longrightarrow> v \<noteq> []"
proof -
  assume "raw_ok v"
  then obtain k c where "v = frame k c" "tag_ok k c" by (auto simp: raw_ok_def)
  then show ?thesis by (cases k) (auto simp: frame_def tag_ok_def frame_ok_def)
qed

lemma stream_Raw_ok:
  assumes "stream_Raw s = (Inr v, s')" "s_kind s = None" "length (s_r s) < 2 ^ 63"
  shows "raw_ok v"
proof -
  from assms(1) obtain k sz t where k: "stream_Kind s = (Inr (k, sz), t)"
    and f: "(if k = Byte then sr_bind byteval (\<lambda>b. rearm [b])
       else sr_bind (readFull (unat sz)) (\<lambda>content.
           sr_return ((if k = String then puthead 0x80 0xB7 sz else puthead 0xC0 0xF7 sz) @ content))) t = (Inr v, s')"
    by (auto simp: stream_Raw_def sr_bind_Inr)
  show ?thesis
  proof (cases "k = Byte")
    case True
    with kind_byte [OF _ assms(2,3), of sz t "\<lambda>b. [b]"] k f obtain b where "v = [b]" "unat b < 128" by auto
    then have "v = frame Byte [b] \<and> tag_ok Byte [b]" by (simp add: frame_def tag_ok_def frame_ok_def)
    then show ?thesis unfolding raw_ok_def by blast
  next
    case False
    with f obtain b where b: "readFull (unat sz) t = (Inr b, s')"
      "v = (if k = String then puthead 0x80 0xB7 sz else puthead 0xC0 0xF7 sz) @ b"
      by (auto simp: sr_bind_Inr)
    with kind_content(3) [OF k assms(2,3) False b(1)] False have "v = frame k b \<and> tag_ok k b"
      by (cases k) (simp_all add: frame_def rlp_list_def tag_ok_def puthead_string puthead_list)
    then show ?thesis unfolding raw_ok_def by blast
  qed
qed

lemma ready_Reset: "length b < 2 ^ 63 \<Longrightarrow> ready (stream_Reset b 0) b []"
  using unat_of_nat_u64 [of "length b"] by (simp add: ready_def at_def stream_Reset_def)

lemma raw_ok_list_prefix:
  assumes "raw_ok v" "v = rlp_list p @ rest" "length v < 2 ^ 63"
  shows "rest = []"
proof -
  have "decodes stream_Raw v v" "decodes stream_Raw (rlp_list p) (rlp_list p)"
    by (rule decodes_raw_ok [OF assms(1)], rule decodes_raw_ok [OF is_frame_raw_ok [OF is_frame_list]])
  moreover have "ready (stream_Reset v 0) (v @ []) []" "ready (stream_Reset v 0) (rlp_list p @ rest) []"
    using ready_Reset [OF assms(3)] assms(2) by simp_all
  ultimately have "\<exists>s'. stream_Raw (stream_Reset v 0) = (Inr v, s')" "\<exists>s'. stream_Raw (stream_Reset v 0) = (Inr (rlp_list p), s')"
    using decodesD [of stream_Raw v v "stream_Reset v 0" "[]" "[]"]
      decodesD [of stream_Raw "rlp_list p" "rlp_list p" "stream_Reset v 0" rest "[]"] assms(2,3)
    by (auto simp: room_def)
  then have "v = rlp_list p" by auto
  with assms(2) show ?thesis by simp
qed

subsection \<open>Properties\<close>

text \<open>
  C11: an encoded value has one representation: whatever the decoder accepts for a type without
  optional fields is, byte for byte, what the encoder writes for the value it returned. Two
  different byte strings never decode to the same value.
\<close>

theorem rlp_canonical:
  assumes "type_ok t" "strict t" "length b < 2 ^ 63" "DecodeBytes t b = Inr v"
  shows "EncodeToBytes t v = Inr b"
proof -
  let ?s = "stream_Reset b (word_of_nat (length b))"
  from assms(4) obtain s' where d: "makeDecoder noTags t ?s = (Inr v, s')" "s_r s' = []"
    by (auto simp: DecodeBytes_def split: prod.splits sum.splits if_splits)
  have tg: "tags_ok noTags t" by (simp add: tags_ok_def noTags_def)
  have "exact (makeDecoder noTags t) (renc noTags t)" using good_makeDecoder [OF assms(1,2) tg] by simp
  from exactD [OF this d(1)] assms(3) d(2) have e: "renc noTags t v = b" by (simp add: stream_Reset_def reads_def)
  have "has_type t v" using typed_makeDecoder [OF assms(1)] d(1) unfolding typed_def by blast
  from EncodeToBytes_renc [OF this assms(1)] assms(3) e show ?thesis by simp
qed

theorem rlp_canonical_witness:
  "let t = TSlice (TUint 64); b = [0xC3, 0x82, 0x04, 0x00]; v = VSlice False [VUint 1024]
   in DecodeBytes t b = Inr v \<and> EncodeToBytes t v = Inr b"
  unfolding Let_def
proof
  show d: "DecodeBytes (TSlice (TUint 64)) [0xC3, 0x82, 0x04, 0x00] = Inr (VSlice False [VUint 1024])" by code_simp
  show "EncodeToBytes (TSlice (TUint 64)) (VSlice False [VUint 1024]) = Inr [0xC3, 0x82, 0x04, 0x00]"
    by (rule rlp_canonical [OF _ _ _ d]) simp_all
qed

text \<open>
  C20: decoding is type safe: a value the decoder returns is one of the Go type it was asked for,
  optional and nil fields included. Integers fit their width, arrays have their length.
\<close>

theorem rlp_decode_typed:
  assumes "type_ok t" "DecodeBytes t b = Inr v"
  shows "has_type t v"
  using assms(2) typed_makeDecoder [OF assms(1), of noTags] unfolding typed_def
  by (auto simp: DecodeBytes_def split: prod.splits sum.splits if_splits)

theorem rlp_decode_typed_witness:
  "let t = TStruct [Field noTags (TUint 8), Field (noTags\<lparr>Optional := True\<rparr>) (TByteArray 2)]
   in DecodeBytes t [0xC1, 0x07] = Inr (VStruct [VUint 7, VBytes False [0, 0]]) \<and> has_type t (VStruct [VUint 7, VBytes False [0, 0]])"
  unfolding Let_def
proof
  let ?t = "TStruct [Field noTags (TUint 8), Field (noTags\<lparr>Optional := True\<rparr>) (TByteArray 2)]"
  show d: "DecodeBytes ?t [0xC1, 0x07] = Inr (VStruct [VUint 7, VBytes False [0, 0]])" by code_simp
  show "has_type ?t (VStruct [VUint 7, VBytes False [0, 0]])"
    by (rule rlp_decode_typed [OF _ d]) (simp add: tags_ok_def noTags_def)
qed

end
