(* ===== verification/Enr.thy ===== *)
theory Enr
  imports Rlp_Canonical
begin

text \<open>
  Node records (\<^verbatim>\<open>p2p/enr/enr.go\<close>): a sequence number, a signature and key/value pairs kept
  sorted by key, with \<^verbatim>\<open>Load\<close>, \<^verbatim>\<open>Set\<close>, \<^verbatim>\<open>SetSig\<close> and the RLP form of a record.

  Keys are byte strings in the order of Go's string comparison; values are encoded RLP values.
  The identity scheme of \<^verbatim>\<open>SetSig\<close> is an argument: its verification result.
\<close>

subsection \<open>Binary search\<close>

text \<open>\<^verbatim>\<open>sort.Search(n, f)\<close> of the standard library.\<close>

function search_loop :: "(nat \<Rightarrow> bool) \<Rightarrow> nat \<Rightarrow> nat \<Rightarrow> nat" where
  "search_loop f i j =
     (if i < j then
        (let h = (i + j) div 2 in if \<not> f h then search_loop f (h + 1) j else search_loop f i h)
      else i)"
  by auto
termination by (relation "measure (\<lambda>(f, i, j). j - i)") auto

declare search_loop.simps [simp del]

definition sort_Search :: "nat \<Rightarrow> (nat \<Rightarrow> bool) \<Rightarrow> nat" where
  "sort_Search n f = search_loop f 0 n"

lemma search_loop_least:
  assumes "\<And>a b. a \<le> b \<Longrightarrow> b < n \<Longrightarrow> f a \<Longrightarrow> f b" "i \<le> j" "j \<le> n"
    "\<And>a. a < i \<Longrightarrow> \<not> f a" "\<And>a. j \<le> a \<Longrightarrow> a < n \<Longrightarrow> f a"
  shows "search_loop f i j \<le> n \<and> (\<forall>a < search_loop f i j. \<not> f a) \<and> (\<forall>a. search_loop f i j \<le> a \<longrightarrow> a < n \<longrightarrow> f a)"
  using assms
proof (induction f i j rule: search_loop.induct)
  case (1 f i j)
  show ?case
  proof (cases "i < j")
    case True
    let ?h = "(i + j) div 2"
    have h: "i \<le> ?h" "?h < j" "?h < n" using True 1(5) by auto
    show ?thesis
    proof (cases "f ?h")
      case False
      have below: "\<not> f a" if "a < ?h + 1" for a using 1(3) [of a ?h] that False h(3) by auto
      have "search_loop f i j = search_loop f (?h + 1) j" using True False by (subst search_loop.simps) simp
      with 1(1) [OF True refl False 1(3)] h 1(5,7) below show ?thesis by simp
    next
      case fh: True
      have above: "f a" if "?h \<le> a" "a < n" for a using 1(3) [of ?h a] that fh by auto
      have "search_loop f i j = search_loop f i ?h" using True fh by (subst search_loop.simps) simp
      with 1(2) [OF True refl _ 1(3)] fh h 1(6) above show ?thesis by simp
    qed
  next
    case False
    then have "search_loop f i j = i" by (subst search_loop.simps) simp
    then show ?thesis using 1(4-7) False by auto
  qed
qed

lemma sort_Search_least:
  assumes "\<And>a b. a \<le> b \<Longrightarrow> b < n \<Longrightarrow> f a \<Longrightarrow> f b"
  shows "sort_Search n f \<le> n" "a < sort_Search n f \<Longrightarrow> \<not> f a" "sort_Search n f \<le> a \<Longrightarrow> a < n \<Longrightarrow> f a"
  using search_loop_least [of n f 0 n] assms by (auto simp: sort_Search_def)

subsection \<open>Records\<close>

type_synonym pair = "bytes \<times> bytes"

record enrRecord =
  enr_seq :: u64
  enr_signature :: "bytes option"
  enr_raw :: bytes
  enr_pairs :: "pair list"

datatype enrError =
    errNotSorted | errDuplicateKey | errIncompletePair | errIncompleteList | errTooBig
  | errEncodeUnsigned | errNotFound | ErrInvalidSig | rlpErr rlpError | schemeErr string

definition enr_search :: "pair list \<Rightarrow> bytes \<Rightarrow> nat" where
  "enr_search ps k = sort_Search (length ps) (\<lambda>i. \<not> str_less (fst (ps ! i)) k)"

definition SetSeq :: "enrRecord \<Rightarrow> u64 \<Rightarrow> enrRecord" where
  "SetSeq r s = r\<lparr>enr_signature := None, enr_raw := [], enr_seq := s\<rparr>"

text \<open>\<^verbatim>\<open>Load\<close> of an entry with a key and a Go type.\<close>

definition enr_Load :: "enrRecord \<Rightarrow> bytes \<Rightarrow> rtype \<Rightarrow> enrError + rval" where
  "enr_Load r k t =
     (let i = enr_search (enr_pairs r) k
      in if i < length (enr_pairs r) \<and> fst (enr_pairs r ! i) = k then
           map_sum rlpErr id (DecodeBytes t (snd (enr_pairs r ! i)))
         else Inl errNotFound)"

definition enr_invalidate :: "enrRecord \<Rightarrow> enrRecord" where
  "enr_invalidate r =
     (let r = (if enr_signature r \<noteq> None then r\<lparr>enr_seq := enr_seq r + 1\<rparr> else r)
      in r\<lparr>enr_signature := None, enr_raw := []\<rparr>)"

definition pairs_Set :: "pair list \<Rightarrow> bytes \<Rightarrow> bytes \<Rightarrow> pair list" where
  "pairs_Set ps k blob =
     (let i = enr_search ps k
      in if i < length ps \<and> fst (ps ! i) = k then ps[i := (k, blob)]
         else if i < length ps then take i ps @ (k, blob) # drop i ps
         else ps @ [(k, blob)])"

text \<open>\<^verbatim>\<open>Set\<close> panics if the value cannot be encoded.\<close>

definition enr_Set :: "enrRecord \<Rightarrow> bytes \<Rightarrow> rtype \<Rightarrow> rval \<Rightarrow> enrRecord go" where
  "enr_Set r k t v =
     (case EncodeToBytes t v of
        Inl err \<Rightarrow> Panicked
      | Inr blob \<Rightarrow>
          let r = enr_invalidate r
          in Ret (r\<lparr>enr_pairs := pairs_Set (enr_pairs r) k blob\<rparr>))"

definition SizeLimit :: nat where
  "SizeLimit = 300"

text \<open>\<^verbatim>\<open>AppendElements\<close>: the sequence number and the pairs, each with its Go type.\<close>

definition AppendElements :: "enrRecord \<Rightarrow> (rtype \<times> rval) list \<Rightarrow> (rtype \<times> rval) list" where
  "AppendElements r list =
     list @ (TUint 64, VUint (enr_seq r)) #
       concat (map (\<lambda>(k, v). [(TString, VBytes False k), (TRaw, VRaw v)]) (enr_pairs r))"

definition enr_encode :: "enrRecord \<Rightarrow> bytes \<Rightarrow> enrError + bytes" where
  "enr_encode r sig =
     (let list = AppendElements r [(TByteSlice, VBytes False sig)]
      in case in_list (write_all (\<lambda>(t, v). makeWriter noTags t v) list) eb_reset of
           Inl err \<Rightarrow> Inl (rlpErr err)
         | Inr w \<Rightarrow> let raw = makeBytes w in if length raw > SizeLimit then Inl errTooBig else Inr raw)"

text \<open>\<^verbatim>\<open>SetSig\<close> with a scheme whose verification of the signature has the given result; and without one.\<close>

definition SetSig :: "enrRecord \<Rightarrow> (enrRecord \<Rightarrow> bytes \<Rightarrow> enrError option) option \<Rightarrow> bytes option \<Rightarrow> (enrError + enrRecord) go" where
  "SetSig r verify sig =
     (case (verify, sig) of
        (None, Some _) \<Rightarrow> Panicked
      | (Some _, None) \<Rightarrow> Panicked
      | (Some vf, Some sg) \<Rightarrow>
          Ret (case vf r sg of
                 Some err \<Rightarrow> Inl err
               | None \<Rightarrow>
                   (case enr_encode r sg of
                      Inl err \<Rightarrow> Inl err
                    | Inr raw \<Rightarrow> Inr (r\<lparr>enr_signature := Some sg, enr_raw := raw\<rparr>)))
      | (None, None) \<Rightarrow> Ret (Inr (r\<lparr>enr_signature := None, enr_raw := []\<rparr>)))"

definition enr_EncodeRLP :: "enrRecord \<Rightarrow> encBuffer \<Rightarrow> enrError + encBuffer" where
  "enr_EncodeRLP r w = (if enr_signature r = None then Inl errEncodeUnsigned else Inr (eb_append w (enr_raw r)))"

text \<open>\<^verbatim>\<open>s.Decode\<close> into a string or a byte slice.\<close>

definition decodeBytesValue :: "bytes sr" where
  "decodeBytesValue = sr_wrap stream_Bytes"

text \<open>
  The loop over the pairs; \<open>prev\<close> is the previous key from the second round on. A pair takes at
  least two bytes, so the number of bytes is enough fuel.
\<close>

fun pairs_loop :: "nat \<Rightarrow> bytes option \<Rightarrow> stream \<Rightarrow> enrError + pair list \<times> stream" where
  "pairs_loop 0 prev s = Inl (rlpErr outOfFuel)"
| "pairs_loop (Suc n) prev s =
     (case decodeBytesValue s of
        (Inl err, s) \<Rightarrow> if err = EOL then Inr ([], s) else Inl (rlpErr err)
      | (Inr k, s) \<Rightarrow>
          (case stream_Raw s of
             (Inl err, s) \<Rightarrow> Inl (if err = EOL then errIncompletePair else rlpErr err)
           | (Inr v, s) \<Rightarrow>
               if prev = Some k then Inl errDuplicateKey
               else if (case prev of None \<Rightarrow> False | Some p \<Rightarrow> str_less k p) then Inl errNotSorted
               else (case pairs_loop n (Some k) s of
                       Inl err \<Rightarrow> Inl err
                     | Inr (ps, s) \<Rightarrow> Inr ((k, v) # ps, s))))"

definition decodeContainer :: "bytes \<Rightarrow> enrError + enrRecord" where
  "decodeContainer raw =
     (case stream_List (stream_Reset raw 0) of
        (Inl err, s) \<Rightarrow> Inl (rlpErr err)
      | (Inr _, s) \<Rightarrow>
          (case decodeBytesValue s of
             (Inl err, s) \<Rightarrow> Inl (if err = EOL then errIncompleteList else rlpErr err)
           | (Inr sig, s) \<Rightarrow>
               (case sr_wrap (stream_uint 64) s of
                  (Inl err, s) \<Rightarrow> Inl (if err = EOL then errIncompleteList else rlpErr err)
                | (Inr sq, s) \<Rightarrow>
                    (case pairs_loop (Suc (length raw)) None s of
                       Inl err \<Rightarrow> Inl err
                     | Inr (ps, s) \<Rightarrow>
                         (case stream_ListEnd s of
                            (Inl err, s) \<Rightarrow> Inl (rlpErr err)
                          | (Inr _, s) \<Rightarrow>
                              Inr \<lparr>enr_seq = sq, enr_signature = Some sig, enr_raw = raw, enr_pairs = ps\<rparr>)))))"

definition decodeRecord :: "stream \<Rightarrow> (enrError + enrRecord) \<times> stream" where
  "decodeRecord s =
     (case stream_Raw s of
        (Inl err, s) \<Rightarrow> (Inl (rlpErr err), s)
      | (Inr raw, s) \<Rightarrow> (if length raw > SizeLimit then Inl errTooBig else decodeContainer raw, s))"

text \<open>\<^verbatim>\<open>IdentityScheme\<close>: the string under the key \<^verbatim>\<open>id\<close>; empty if there is none or it is no string.\<close>

definition enr_IdentityScheme :: "enrRecord \<Rightarrow> bytes" where
  "enr_IdentityScheme r =
     (case enr_Load r [105, 100] TString of Inr (VBytes isnil b) \<Rightarrow> b | _ \<Rightarrow> [])"

record scheme =
  sch_Verify :: "enrRecord \<Rightarrow> bytes option \<Rightarrow> enrError option"
  sch_NodeAddr :: "enrRecord \<Rightarrow> bytes option"

definition SchemeMap_Verify :: "(bytes \<rightharpoonup> scheme) \<Rightarrow> enrRecord \<Rightarrow> bytes option \<Rightarrow> enrError option" where
  "SchemeMap_Verify m r sig =
     (case m (enr_IdentityScheme r) of None \<Rightarrow> Some ErrInvalidSig | Some s \<Rightarrow> sch_Verify s r sig)"

definition SchemeMap_NodeAddr :: "(bytes \<rightharpoonup> scheme) \<Rightarrow> enrRecord \<Rightarrow> bytes option" where
  "SchemeMap_NodeAddr m r =
     (case m (enr_IdentityScheme r) of None \<Rightarrow> None | Some s \<Rightarrow> sch_NodeAddr s r)"

definition VerifySignature :: "scheme \<Rightarrow> enrRecord \<Rightarrow> enrError option" where
  "VerifySignature s r = sch_Verify s r (enr_signature r)"

subsection \<open>Sorted pairs\<close>

abbreviation sorted_keys :: "pair list \<Rightarrow> bool" where
  "sorted_keys ps \<equiv> sorted_wrt str_less (map fst ps)"

lemma sorted_keys_nth: "sorted_keys ps \<Longrightarrow> i < j \<Longrightarrow> j < length ps \<Longrightarrow> str_less (fst (ps ! i)) (fst (ps ! j))"
  by (auto simp: sorted_wrt_iff_nth_less)

lemma enr_search_least:
  assumes "sorted_keys ps"
  shows "enr_search ps k \<le> length ps"
    "i < enr_search ps k \<Longrightarrow> str_less (fst (ps ! i)) k"
    "enr_search ps k \<le> i \<Longrightarrow> i < length ps \<Longrightarrow> \<not> str_less (fst (ps ! i)) k"
proof -
  have mono: "\<not> str_less (fst (ps ! b)) k" if "a \<le> b" "b < length ps" "\<not> str_less (fst (ps ! a)) k" for a b
  proof (cases "a = b")
    case False
    with that have "str_less (fst (ps ! a)) (fst (ps ! b))" by (intro sorted_keys_nth [OF assms]) auto
    with that(3) str_less_trans show ?thesis by blast
  qed (use that in simp)
  show "enr_search ps k \<le> length ps" unfolding enr_search_def by (rule sort_Search_least(1)) (rule mono)
  show "i < enr_search ps k \<Longrightarrow> str_less (fst (ps ! i)) k"
    using sort_Search_least(2) [of "length ps" "\<lambda>i. \<not> str_less (fst (ps ! i)) k" i] mono unfolding enr_search_def by blast
  show "enr_search ps k \<le> i \<Longrightarrow> i < length ps \<Longrightarrow> \<not> str_less (fst (ps ! i)) k"
    using sort_Search_least(3) [of "length ps" "\<lambda>i. \<not> str_less (fst (ps ! i)) k" i] mono unfolding enr_search_def by blast
qed

text \<open>The search splits the pairs at the key.\<close>

lemma enr_search_split:
  assumes "sorted_keys ps"
  shows "\<forall>p \<in> set (take (enr_search ps k) ps). str_less (fst p) k"
    "\<forall>p \<in> set (drop (enr_search ps k) ps). \<not> str_less (fst p) k"
proof -
  note S = enr_search_least [OF assms]
  show "\<forall>p \<in> set (take (enr_search ps k) ps). str_less (fst p) k"
    using S(2) by (auto simp: in_set_conv_nth) (metis fst_conv)
  show "\<forall>p \<in> set (drop (enr_search ps k) ps). \<not> str_less (fst p) k"
  proof
    fix p
    assume "p \<in> set (drop (enr_search ps k) ps)"
    then obtain i where "i < length ps - enr_search ps k" "p = drop (enr_search ps k) ps ! i"
      by (metis in_set_conv_nth length_drop)
    with S(1) [of k] S(3) [of k "enr_search ps k + i"] show "\<not> str_less (fst p) k" by simp
  qed
qed

lemma sorted_keys_distinct: "sorted_keys ps \<Longrightarrow> distinct (map fst ps)"
proof (induction ps)
  case (Cons p ps)
  then show ?case using str_less_irrefl by fastforce
qed simp

lemma map_of_nth_key: "sorted_keys ps \<Longrightarrow> i < length ps \<Longrightarrow> map_of ps (fst (ps ! i)) = Some (snd (ps ! i))"
  using sorted_keys_distinct [of ps] by (metis map_of_eq_Some_iff nth_mem prod.collapse)

lemma map_of_search:
  assumes "sorted_keys ps"
  shows "map_of ps k =
    (let i = enr_search ps k in if i < length ps \<and> fst (ps ! i) = k then Some (snd (ps ! i)) else None)"
proof (cases "enr_search ps k < length ps \<and> fst (ps ! enr_search ps k) = k")
  case True
  with map_of_nth_key [OF assms, of "enr_search ps k"] show ?thesis by (simp add: Let_def)
next
  case False
  have "k \<notin> fst ` set ps"
  proof
    assume "k \<in> fst ` set ps"
    then obtain j where j: "j < length ps" "fst (ps ! j) = k" by (auto simp: in_set_conv_nth)
    have "enr_search ps k \<le> j" using enr_search_least(2) [OF assms, of j k] j(2) by (metis not_le str_less_irrefl)
    moreover have "enr_search ps k \<noteq> j" using False j by auto
    ultimately have lt: "enr_search ps k < j" by simp
    then have "str_less (fst (ps ! enr_search ps k)) k" using sorted_keys_nth [OF assms lt j(1)] j(2) by simp
    with enr_search_least(3) [OF assms, of k "enr_search ps k"] lt j(1) show False by simp
  qed
  then have "map_of ps k = None" by (simp add: map_of_eq_None_iff)
  with False show ?thesis by (simp add: Let_def)
qed

lemma pairs_Set_cases:
  assumes "sorted_keys ps"
  obtains (upd) as v bs where "ps = as @ (k, v) # bs" "pairs_Set ps k blob = as @ (k, blob) # bs"
  | (ins) as bs where "ps = as @ bs" "pairs_Set ps k blob = as @ (k, blob) # bs"
      "\<forall>p \<in> set as. str_less (fst p) k" "\<forall>p \<in> set bs. str_less k (fst p)"
proof -
  let ?i = "enr_search ps k"
  show thesis
  proof (cases "?i < length ps \<and> fst (ps ! ?i) = k")
    case True
    then have "ps = take ?i ps @ (k, snd (ps ! ?i)) # drop (Suc ?i) ps"
      by (metis id_take_nth_drop prod.collapse)
    moreover have "pairs_Set ps k blob = take ?i ps @ (k, blob) # drop (Suc ?i) ps"
      using True by (simp add: pairs_Set_def Let_def upd_conv_take_nth_drop)
    ultimately show thesis by (rule upd)
  next
    case False
    have s: "pairs_Set ps k blob = take ?i ps @ (k, blob) # drop ?i ps"
      using False by (auto simp: pairs_Set_def Let_def)
    have "str_less k (fst p)" if p: "p \<in> set (drop ?i ps)" for p
    proof -
      have "map_of ps k = None" using False map_of_search [OF assms, of k] by (auto simp: Let_def)
      then have "fst p \<noteq> k" using p in_set_dropD by (fastforce simp: map_of_eq_None_iff)
      with enr_search_split(2) [OF assms] p str_less_linear [of k "fst p"] show ?thesis by auto
    qed
    with s enr_search_split(1) [OF assms] show thesis
      by (intro ins [of "take ?i ps" "drop ?i ps"]) auto
  qed
qed

lemma pairs_Set_sorted: "sorted_keys ps \<Longrightarrow> sorted_keys (pairs_Set ps k blob)"
proof -
  assume s: "sorted_keys ps"
  then show ?thesis
  proof (cases rule: pairs_Set_cases [of ps k blob])
    case (ins as bs)
    with s show ?thesis by (auto simp: sorted_wrt_append intro: str_less_trans)
  qed (use s in \<open>simp add: sorted_wrt_append\<close>)
qed

lemma pairs_Set_map_of: "sorted_keys ps \<Longrightarrow> map_of (pairs_Set ps k blob) = (map_of ps)(k \<mapsto> blob)"
proof -
  assume s: "sorted_keys ps"
  then show ?thesis
  proof (cases rule: pairs_Set_cases [of ps k blob])
    case (upd as v bs)
    have "map_of as k = None" using sorted_keys_distinct [OF s] upd(1) by (auto simp: map_of_eq_None_iff)
    with upd show ?thesis by (auto simp: map_add_def fun_eq_iff split: option.splits)
  next
    case (ins as bs)
    have "map_of as k = None" using ins(3) str_less_irrefl by (auto simp: map_of_eq_None_iff)
    with ins(1,2) show ?thesis by (auto simp: map_add_def fun_eq_iff split: option.splits)
  qed
qed

lemma pairs_Set_values: "set (pairs_Set ps k blob) \<subseteq> insert (k, blob) (set ps)"
  by (auto simp: pairs_Set_def Let_def dest: in_set_takeD in_set_dropD set_update_subset_insert [THEN subsetD])

subsection \<open>The encoding of a record\<close>

definition pairs_enc :: "pair list \<Rightarrow> bytes" where
  "pairs_enc ps = concat (map (\<lambda>(k, v). rlp_string k @ v) ps)"

definition enr_enc :: "enrRecord \<Rightarrow> bytes \<Rightarrow> bytes" where
  "enr_enc r sig = rlp_list (rlp_string sig @ rlp_string (uint_bytes (unat (enr_seq r))) @ pairs_enc (enr_pairs r))"

lemma pairs_enc_simps [simp]: "pairs_enc [] = []" "pairs_enc ((k, v) # ps) = rlp_string k @ v @ pairs_enc ps"
  by (simp_all add: pairs_enc_def)

lemma AppendElements_enc:
  "concat (map (\<lambda>(t, v). renc noTags t v) (AppendElements r [(TByteSlice, VBytes False sig)])) =
   rlp_string sig @ rlp_string (uint_bytes (unat (enr_seq r))) @ pairs_enc (enr_pairs r)"
proof -
  have "concat (map (\<lambda>(t, v). renc noTags t v) (concat (map (\<lambda>(k, v). [(TString, VBytes False k), (TRaw, VRaw v)]) ps))) =
      pairs_enc ps" for ps
    by (induction ps) auto
  then show ?thesis by (simp add: AppendElements_def)
qed

lemma AppendElements_typed:
  "(t, v) \<in> set (AppendElements r [(TByteSlice, VBytes False sig)]) \<Longrightarrow> has_type t v \<and> type_ok t \<and> tags_ok noTags t"
  by (auto simp: AppendElements_def tags_ok_def noTags_def)

lemma enr_encode_eq:
  assumes "length (enr_enc r sig) < 2 ^ 63"
  shows "enr_encode r sig = (if length (enr_enc r sig) > SizeLimit then Inl errTooBig else Inr (enr_enc r sig))"
proof -
  let ?l = "AppendElements r [(TByteSlice, VBytes False sig)]"
  let ?es = "map (\<lambda>(t, v). renc noTags t v) ?l"
  have len: "length (concat ?es) < 2 ^ 63"
    using assms length_rlp_list [of "concat ?es"] unfolding AppendElements_enc enr_enc_def by simp
  have "list_all2 (\<lambda>x e. \<forall>w. \<exists>w'. (case x of (t, v) \<Rightarrow> makeWriter noTags t v) w = Inr w' \<and> emits w w' e) ?l ?es"
    unfolding list_all2_map2 list_all2_same
  proof (intro ballI allI)
    fix x w
    assume x: "x \<in> set ?l"
    obtain t v where tv: "x = (t, v)" by fastforce
    have "length (renc noTags t v) \<le> length (concat ?es)"
      using length_concat_le [of "renc noTags t v" ?es] x tv by force
    with makeWriter_emits [of t v noTags w] AppendElements_typed x tv len
    show "\<exists>w'. (case x of (t, v) \<Rightarrow> makeWriter noTags t v) w = Inr w' \<and> emits w w' (case x of (t, v) \<Rightarrow> renc noTags t v)"
      by auto
  qed
  from emits_in_list [OF write_all_emits [OF this] len, of eb_reset] obtain w where
    "in_list (write_all (\<lambda>(t, v). makeWriter noTags t v) ?l) eb_reset = Inr w" "emits eb_reset w (enr_enc r sig)"
    unfolding AppendElements_enc enr_enc_def by auto
  with emits_makeBytes(3) show ?thesis by (simp add: enr_encode_def Let_def)
qed

text \<open>\<^verbatim>\<open>decodeRecord\<close> accepts what \<^verbatim>\<open>encode\<close> wrote.\<close>

lemma eol_decodeBytesValue: "eol_ok decodeBytesValue"
  unfolding decodeBytesValue_def stream_Bytes_def by (intro eol_wrap eol_bind eol_Kind)

lemma decodes_decodeBytesValue: "decodes decodeBytesValue c (rlp_string c)"
  unfolding decodeBytesValue_def by (intro decodes_wrap decodes_Bytes)

lemma pairs_loop_ok:
  assumes "sorted_keys (case prev of None \<Rightarrow> ps | Some k \<Rightarrow> (k, []) # ps)" "list_all (\<lambda>p. raw_ok (snd p)) ps" "length ps < n"
    "ready s (pairs_enc ps @ r) (l # ls)" "unat l = length (pairs_enc ps)" "length (pairs_enc ps @ r) < 2 ^ 63"
  shows "\<exists>s'. pairs_loop n prev s = Inr (ps, s') \<and> ready s' r (0 # ls)"
  using assms
proof (induction ps arbitrary: n s l prev)
  case Nil
  then have "l = 0" by (simp add: unat_eq_zero)
  then have "decodeBytesValue s = (Inl EOL, s)" "ready s r (0 # ls)"
    using Nil eol_decodeBytesValue by (auto simp: eol_ok_def)
  with Nil show ?case by (cases n) auto
next
  case (Cons p ps)
  obtain k v where p: "p = (k, v)" by fastforce
  obtain m where n: "n = Suc m" "length ps < m" using Cons.prems(3) by (cases n) auto
  have l: "unat l = length (rlp_string k @ v @ pairs_enc ps)" using Cons.prems(5) p by simp
  from consume_exact [OF l, of ls] obtain l1 where
    l1: "consume (l # ls) (length (rlp_string k)) = l1 # ls" "unat l1 = length (v @ pairs_enc ps)" by blast
  from decodesD [OF decodes_decodeBytesValue, of s k "v @ pairs_enc ps @ r" "l # ls"] room_exact [OF l] Cons.prems(4,6) p l1(1)
  obtain s1 where s1: "decodeBytesValue s = (Inr k, s1)" "ready s1 (v @ pairs_enc ps @ r) (l1 # ls)" by auto
  from consume_exact [OF l1(2), of ls] obtain l2 where
    l2: "consume (l1 # ls) (length v) = l2 # ls" "unat l2 = length (pairs_enc ps)" by blast
  from Cons.prems(2) p have v: "raw_ok v" by simp
  from decodesD [OF decodes_raw_ok [OF v], of s1 "pairs_enc ps @ r" "l1 # ls"] room_exact [OF l1(2)] s1(2) Cons.prems(6) p l2(1)
  obtain s2 where s2: "stream_Raw s1 = (Inr v, s2)" "ready s2 (pairs_enc ps @ r) (l2 # ls)" by auto
  have "sorted_keys (case Some k of None \<Rightarrow> ps | Some k \<Rightarrow> (k, []) # ps)"
    using Cons.prems(1) p by (auto split: option.splits)
  from Cons.IH [OF this _ n(2) s2(2) l2(2)] Cons.prems(2,6) p obtain s' where
    "pairs_loop m (Some k) s2 = Inr (ps, s')" "ready s' r (0 # ls)" by auto
  moreover have "prev \<noteq> Some k" "\<not> (case prev of None \<Rightarrow> False | Some q \<Rightarrow> str_less k q)"
    using Cons.prems(1) p str_less_asym by (auto split: option.splits)
  ultimately show ?case using s1(1) s2(1) n(1) p by (simp split: option.splits)
qed

lemma length_pairs_enc: "list_all (\<lambda>p. raw_ok (snd p)) ps \<Longrightarrow> length ps \<le> length (pairs_enc ps)"
proof (induction ps)
  case (Cons p ps)
  then show ?case by (cases p) (auto dest: raw_ok_not_Nil simp: Suc_le_eq add_strict_increasing neq_Nil_conv)
qed simp

definition record_ok :: "enrRecord \<Rightarrow> bool" where
  "record_ok r \<longleftrightarrow> sorted_keys (enr_pairs r) \<and> list_all (\<lambda>p. raw_ok (snd p)) (enr_pairs r)"

lemma decodeContainer_ok:
  assumes "record_ok r" "length (enr_enc r sig) < 2 ^ 63"
  shows "decodeContainer (enr_enc r sig) = Inr (r\<lparr>enr_signature := Some sig, enr_raw := enr_enc r sig\<rparr>)"
proof -
  let ?seq = "rlp_string (uint_bytes (unat (enr_seq r)))" and ?ps = "pairs_enc (enr_pairs r)"
  let ?p = "rlp_string sig @ ?seq @ ?ps"
  have raw: "enr_enc r sig = rlp_list ?p" by (simp add: enr_enc_def)
  have len: "length ?p < 2 ^ 63" using assms(2) raw length_rlp_list [of ?p] by simp
  define l :: u64 where "l = word_of_nat (length ?p)"
  have l: "unat l = length ?p" unfolding l_def using len by (rule unat_of_nat_u64)
  from stream_List_ok [of "stream_Reset (enr_enc r sig) 0" ?p "[]" "[]"] ready_Reset [OF assms(2)] assms(2)
  obtain s0 where s0: "stream_List (stream_Reset (enr_enc r sig) 0) = (Inr l, s0)" "ready s0 ?p [l]"
    by (auto simp: raw l_def room_def consume_def)
  from consume_exact [OF l, of "[]"] obtain l1 where
    l1: "consume [l] (length (rlp_string sig)) = [l1]" "unat l1 = length (?seq @ ?ps)" by blast
  from decodesD [OF decodes_decodeBytesValue, of s0 sig "?seq @ ?ps" "[l]"] room_exact [OF l] s0(2) len l1(1)
  obtain s1 where s1: "decodeBytesValue s0 = (Inr sig, s1)" "ready s1 (?seq @ ?ps) [l1]" by auto
  from consume_exact [OF l1(2), of "[]"] obtain l2 where
    l2: "consume [l1] (length ?seq) = [l2]" "unat l2 = length ?ps" by blast
  have "decodes (sr_wrap (stream_uint 64)) (enr_seq r) ?seq"
    by (rule decodes_wrap, rule decodes_uint) simp_all
  from decodesD [OF this, of s1 ?ps "[l1]"] room_exact [OF l1(2)] s1(2) len l2(1)
  obtain s2 where s2: "sr_wrap (stream_uint 64) s1 = (Inr (enr_seq r), s2)" "ready s2 (?ps @ []) [l2]" by auto
  have n: "length (enr_pairs r) < Suc (length (enr_enc r sig))"
    using length_pairs_enc [of "enr_pairs r"] assms(1) raw length_rlp_list [of ?p] by (simp add: record_ok_def)
  have "sorted_keys (case None of None \<Rightarrow> enr_pairs r | Some k \<Rightarrow> (k, []) # enr_pairs r)"
    "list_all (\<lambda>p. raw_ok (snd p)) (enr_pairs r)"
    using assms(1) by (auto simp: record_ok_def)
  from pairs_loop_ok [OF this n s2(2) l2(2)] len obtain s3 where
    s3: "pairs_loop (Suc (length (enr_enc r sig))) None s2 = Inr (enr_pairs r, s3)" "ready s3 [] [0]" by auto
  from stream_ListEnd_ok [OF s3(2)] obtain s4 where "stream_ListEnd s3 = (Inr (), s4)" by blast
  with s0(1) s1(1) s2(1) s3(1) show ?thesis by (simp add: decodeContainer_def del: pairs_loop.simps sr_wrap_Inr)
qed

text \<open>And nothing else.\<close>

lemma exact_decodeBytesValue: "exact decodeBytesValue rlp_string"
  unfolding decodeBytesValue_def by (rule exact_wrap [OF exact_Bytes])

lemma eol_exact_decodeBytesValue: "eol_exact decodeBytesValue"
  unfolding decodeBytesValue_def by (rule eol_exact_wrap [OF eol_exact_Bytes])

lemma pairs_loop_exact:
  assumes "pairs_loop n prev s = Inr (ps, s')" "s_kind s = None" "length (s_r s) < 2 ^ 63"
  shows "reads s (pairs_enc ps) s' \<and> s_kind s' = None \<and> list_all (\<lambda>p. raw_ok (snd p)) ps \<and>
    sorted_keys ps \<and> (\<forall>q p. prev = Some q \<longrightarrow> p \<in> set ps \<longrightarrow> str_less q (fst p))"
  using assms
proof (induction n arbitrary: prev s ps)
  case (Suc n)
  obtain x t where x: "decodeBytesValue s = (x, t)" by fastforce
  show ?case
  proof (cases x)
    case (Inl e)
    with Suc.prems(1) x have e: "e = EOL" "ps = []" "s' = t" by (auto split: if_splits)
    with eol_exact_decodeBytesValue x Inl Suc.prems(2,3) have "t = s" by (simp add: eol_exact_def)
    with e Suc.prems(2) show ?thesis by simp
  next
    case (Inr k)
    from exactD [OF exact_decodeBytesValue x [unfolded Inr] Suc.prems(2,3)] have
      t: "reads s (rlp_string k) t" "s_kind t = None" by auto
    have tl: "length (s_r t) < 2 ^ 63" using t(1) Suc.prems(3) by (rule reads_length)
    obtain y u where y: "stream_Raw t = (y, u)" by fastforce
    with Suc.prems(1) x Inr obtain v where v: "y = Inr v" by (cases y) auto
    from exactD [OF exact_Raw y [unfolded v] t(2) tl] have u: "reads t v u" "s_kind u = None" by auto
    have ul: "length (s_r u) < 2 ^ 63" using u(1) tl by (rule reads_length)
    from Suc.prems(1) x Inr y v obtain qs where qs: "pairs_loop n (Some k) u = Inr (qs, s')" "ps = (k, v) # qs"
      and prev: "prev \<noteq> Some k" "\<not> (case prev of None \<Rightarrow> False | Some p \<Rightarrow> str_less k p)"
      by (auto split: if_splits sum.splits)
    from Suc.IH [OF qs(1) u(2) ul] have
      IH: "reads u (pairs_enc qs) s'" "s_kind s' = None" "list_all (\<lambda>p. raw_ok (snd p)) qs" "sorted_keys qs"
        "\<forall>p \<in> set qs. str_less k (fst p)" by auto
    have "str_less q k" if "prev = Some q" for q
      using prev that str_less_linear [of q k] by auto
    with IH(5) str_less_trans have "\<forall>q p. prev = Some q \<longrightarrow> p \<in> set ps \<longrightarrow> str_less q (fst p)"
      by (auto simp: qs(2))
    moreover have "reads s (pairs_enc ps) s'"
      using reads_trans [OF t(1) reads_trans [OF u(1) IH(1)]] qs(2) by simp
    ultimately show ?thesis
      using IH qs(2) stream_Raw_ok [OF y [unfolded v] t(2) tl] by auto
  qed
qed simp

lemma decodeContainer_exact:
  assumes "decodeContainer raw = Inr r" "length raw < 2 ^ 63"
  shows "record_ok r \<and> enr_raw r = raw \<and> (\<exists>sig rest. enr_signature r = Some sig \<and> raw = enr_enc r sig @ rest)"
proof -
  let ?s = "stream_Reset raw 0"
  have k: "s_kind ?s = None" "length (s_r ?s) < 2 ^ 63" using assms(2) by (simp_all add: stream_Reset_def)
  from assms(1) obtain sz s0 where s0: "stream_List ?s = (Inr sz, s0)"
    by (auto simp: decodeContainer_def simp del: pairs_loop.simps split: prod.splits sum.splits)
  note L = stream_List_exact(2) [OF s0 k] stream_List_length [OF s0 k]
  from assms(1) s0 obtain sig s1 where s1: "decodeBytesValue s0 = (Inr sig, s1)"
    by (auto simp: decodeContainer_def simp del: pairs_loop.simps split: prod.splits sum.splits)
  from exactD [OF exact_decodeBytesValue s1 L] have
    e1: "reads s0 (rlp_string sig) s1" "s_kind s1 = None" by auto
  have l1: "length (s_r s1) < 2 ^ 63" using e1(1) L(2) by (rule reads_length)
  from assms(1) s0 s1 obtain sq s2 where s2: "sr_wrap (stream_uint 64) s1 = (Inr sq, s2)"
    by (auto simp: decodeContainer_def simp del: pairs_loop.simps sr_wrap_Inr split: prod.splits sum.splits)
  have "exact (sr_wrap (stream_uint 64)) (\<lambda>v. rlp_string (uint_bytes (unat v)))" by (intro exact_wrap exact_uint) simp
  from exactD [OF this s2 e1(2) l1] have e2: "reads s1 (rlp_string (uint_bytes (unat sq))) s2" "s_kind s2 = None" by auto
  have l2: "length (s_r s2) < 2 ^ 63" using e2(1) l1 by (rule reads_length)
  from assms(1) s0 s1 s2 obtain ps s3 s4 where s3: "pairs_loop (Suc (length raw)) None s2 = Inr (ps, s3)"
    "stream_ListEnd s3 = (Inr (), s4)" "r = \<lparr>enr_seq = sq, enr_signature = Some sig, enr_raw = raw, enr_pairs = ps\<rparr>"
    by (auto simp: decodeContainer_def simp del: pairs_loop.simps sr_wrap_Inr split: prod.splits sum.splits)
  note P = pairs_loop_exact [OF s3(1) e2(2) l2]
  have "reads s0 (rlp_string sig @ rlp_string (uint_bytes (unat sq)) @ pairs_enc ps) s3"
    using reads_trans [OF e1(1) reads_trans [OF e2(1)]] P by blast
  from list_exact [OF s0 k this s3(2)] have "raw = enr_enc r sig @ s_r s4"
    by (simp add: reads_def enr_enc_def s3(3) stream_Reset_def)
  moreover have "record_ok r" "enr_raw r = raw" "enr_signature r = Some sig" using P s3(3) by (auto simp: record_ok_def)
  ultimately show ?thesis by blast
qed

lemma decodeRecord_ok:
  assumes "record_ok r" "length (enr_enc r sig) \<le> SizeLimit" "length (enr_enc r sig @ rest) < 2 ^ 63"
  shows "\<exists>s'. decodeRecord (stream_Reset (enr_enc r sig @ rest) 0) =
      (Inr (r\<lparr>enr_signature := Some sig, enr_raw := enr_enc r sig\<rparr>), s') \<and> s_r s' = rest"
proof -
  let ?e = "enr_enc r sig"
  have "decodes stream_Raw ?e ?e" by (intro decodes_raw_ok is_frame_raw_ok) (simp add: enr_enc_def)
  from decodesD [OF this ready_Reset [OF assms(3)]] assms(3) obtain s' where
    "stream_Raw (stream_Reset (?e @ rest) 0) = (Inr ?e, s')" "s_r s' = rest"
    by (auto simp: room_def ready_def at_def)
  with decodeContainer_ok [OF assms(1), of sig] assms(2,3) show ?thesis by (simp add: decodeRecord_def)
qed

lemma decodeRecord_exact:
  assumes "decodeRecord s = (Inr r, s')" "s_kind s = None" "length (s_r s) < 2 ^ 63"
  shows "record_ok r" "\<exists>sig. enr_signature r = Some sig \<and> enr_raw r = enr_enc r sig" "length (enr_raw r) \<le> SizeLimit"
    "s_r s = enr_raw r @ s_r s'"
proof -
  from assms(1) obtain raw where raw: "stream_Raw s = (Inr raw, s')" "length raw \<le> SizeLimit" "decodeContainer raw = Inr r"
    by (auto simp: decodeRecord_def split: prod.splits sum.splits if_splits)
  have len: "length raw < 2 ^ 63" using raw(2) by (simp add: SizeLimit_def)
  from decodeContainer_exact [OF raw(3) len] obtain sig rest where
    r: "record_ok r" "enr_raw r = raw" "enr_signature r = Some sig" "raw = enr_enc r sig @ rest" by blast
  moreover have "rest = []"
    using raw_ok_list_prefix [OF stream_Raw_ok [OF raw(1) assms(2,3)] _ len] r(4) by (simp add: enr_enc_def)
  moreover have "s_r s = raw @ s_r s'"
    using exactD [OF exact_Raw raw(1) assms(2,3)] by (simp add: reads_def)
  ultimately show "record_ok r" "\<exists>sig. enr_signature r = Some sig \<and> enr_raw r = enr_enc r sig"
    "length (enr_raw r) \<le> SizeLimit" "s_r s = enr_raw r @ s_r s'" using raw(2) by auto
qed

subsection \<open>The life of a record\<close>

definition emptyRecord :: enrRecord where
  "emptyRecord = \<lparr>enr_seq = 0, enr_signature = None, enr_raw = [], enr_pairs = []\<rparr>"

text \<open>
  The operations on a record. An entry encodes to one RLP value, and what is put into a record
  fits the address space.
\<close>

inductive enr_step :: "enrRecord \<Rightarrow> enrRecord \<Rightarrow> bool" where
  Set: "enr_step r r'" if "enr_Set r k t v = Ret r'" "EncodeToBytes t v = Inr b" "raw_ok b"
    "length (pairs_enc (enr_pairs r')) < 2 ^ 61"
| SetSeq: "enr_step r (SetSeq r s)"
| SetSig: "enr_step r r'" if "SetSig r vf sg = Ret (Inr r')" "\<forall>sig. sg = Some sig \<longrightarrow> length sig < 2 ^ 61"
| DecodeRLP: "enr_step r r'" if "decodeRecord s = (Inr r', s')" "s_kind s = None" "length (s_r s) < 2 ^ 63"

definition enr_inv :: "enrRecord \<Rightarrow> bool" where
  "enr_inv r \<longleftrightarrow> record_ok r \<and> length (pairs_enc (enr_pairs r)) < 2 ^ 61 \<and>
     (\<forall>sig. enr_signature r = Some sig \<longrightarrow> enr_raw r = enr_enc r sig \<and> length (enr_raw r) \<le> SizeLimit)"

lemma length_rlp_head_u64: "n < 2 ^ 63 \<Longrightarrow> length (rlp_head t n) \<le> 9"
  using length_be_bytes_u64(1) [of "word_of_nat n"] unat_of_nat_u64 [of n] by (simp add: rlp_head_def)

lemma length_rlp_string_le: "length b < 2 ^ 63 \<Longrightarrow> length (rlp_string b) \<le> length b + 9"
  using length_rlp_head_u64 [of "length b" 128] by (simp add: rlp_string_def)

lemma length_rlp_list_le: "length p < 2 ^ 63 \<Longrightarrow> length (rlp_list p) \<le> length p + 9"
  using length_rlp_head_u64 [of "length p" 192] by (simp add: rlp_list_def)

lemma length_uint_bytes: "length (uint_bytes (unat (i :: u64))) \<le> 8"
  using length_be_bytes_u64(1) [of i] by (simp add: uint_bytes_def)

lemma length_enr_enc:
  assumes "length sig < 2 ^ 61" "length (pairs_enc (enr_pairs r)) < 2 ^ 61"
  shows "length (enr_enc r sig) < 2 ^ 63"
proof -
  let ?seq = "rlp_string (uint_bytes (unat (enr_seq r)))"
  let ?p = "rlp_string sig @ ?seq @ pairs_enc (enr_pairs r)"
  have "length (rlp_string sig) \<le> length sig + 9" using assms(1) by (intro length_rlp_string_le) simp
  moreover have "length ?seq \<le> 17"
    using length_rlp_string_le [of "uint_bytes (unat (enr_seq r))"] length_uint_bytes [of "enr_seq r"] by simp
  ultimately have p: "length ?p < 2 ^ 62 + 26" using assms by simp
  then have "length (rlp_list ?p) \<le> length ?p + 9" by (intro length_rlp_list_le) simp
  with p show ?thesis by (simp add: enr_enc_def)
qed

lemma SetSig_cases:
  assumes "SetSig r vf sg = Ret (Inr r')"
  obtains (reset) "r' = r\<lparr>enr_signature := None, enr_raw := []\<rparr>"
  | (signed) sig raw where "sg = Some sig" "enr_encode r sig = Inr raw" "r' = r\<lparr>enr_signature := Some sig, enr_raw := raw\<rparr>"
  using assms by (auto simp: SetSig_def split: option.splits sum.splits)

lemma enr_Set_fields:
  assumes "enr_Set r k t v = Ret r'" "EncodeToBytes t v = Inr b"
  shows "enr_pairs r' = pairs_Set (enr_pairs r) k b" "enr_signature r' = None" "enr_raw r' = []"
    "enr_seq r' = (if enr_signature r = None then enr_seq r else enr_seq r + 1)"
  using assms by (auto simp: enr_Set_def enr_invalidate_def Let_def)

lemma enr_step_inv: "enr_step r r' \<Longrightarrow> enr_inv r \<Longrightarrow> enr_inv r'"
proof (induction rule: enr_step.induct)
  case (Set r k t v r' b)
  note F = enr_Set_fields [OF Set(1,2)]
  have "record_ok r'"
    using Set(3,5) pairs_Set_sorted pairs_Set_values [of "enr_pairs r" k b]
    by (fastforce simp: enr_inv_def record_ok_def F(1) list_all_iff)
  with Set(4) F show ?case by (simp add: enr_inv_def)
next
  case (SetSeq r s)
  then show ?case by (auto simp: enr_inv_def record_ok_def SetSeq_def)
next
  case (SetSig r vf sg r')
  from SetSig(1) show ?case
  proof (cases rule: SetSig_cases)
    case reset
    with SetSig(3) show ?thesis by (auto simp: enr_inv_def record_ok_def)
  next
    case (signed sig raw)
    then have "length (enr_enc r sig) < 2 ^ 63" using SetSig(2,3) by (intro length_enr_enc) (auto simp: enr_inv_def)
    with enr_encode_eq [of r sig] signed(2) have "raw = enr_enc r sig" "length raw \<le> SizeLimit" by (auto split: if_splits)
    with signed(3) SetSig(3) show ?thesis by (auto simp: enr_inv_def record_ok_def enr_enc_def)
  qed
next
  case (DecodeRLP s r' s' r)
  note D = decodeRecord_exact [OF DecodeRLP(1-3)]
  from D(2) obtain sig where sig: "enr_signature r' = Some sig" "enr_raw r' = enr_enc r' sig" by blast
  have "length (pairs_enc (enr_pairs r')) \<le> length (enr_raw r')" unfolding sig(2) by (simp add: enr_enc_def rlp_list_def)
  with D(1,3) sig show ?case by (simp add: enr_inv_def SizeLimit_def)
qed

lemma enr_inv_empty: "enr_inv emptyRecord"
  by (simp add: emptyRecord_def enr_inv_def record_ok_def)

lemma enr_reachable_inv: "enr_step\<^sup>*\<^sup>* emptyRecord r \<Longrightarrow> enr_inv r"
  by (induction rule: rtranclp_induct) (auto intro: enr_inv_empty enr_step_inv)

subsection \<open>Properties\<close>

text \<open>
  C22: reading a record from the network accepts exactly the canonical encodings of well-formed
  records: the keys are strictly sorted, the values are RLP values, the record is signed and at
  most 300 bytes long; the reader takes exactly these bytes and returns the record they encode.
\<close>

theorem enr_decode_exact:
  assumes "length b < 2 ^ 63"
  shows "(\<exists>s'. decodeRecord (stream_Reset b 0) = (Inr r, s') \<and> s_r s' = rest) \<longleftrightarrow>
    record_ok r \<and> b = enr_raw r @ rest \<and> length (enr_raw r) \<le> SizeLimit \<and>
    (\<exists>sig. enr_signature r = Some sig \<and> enr_raw r = enr_enc r sig)" (is "?L \<longleftrightarrow> ?R")
proof
  assume ?L
  then obtain s' where "decodeRecord (stream_Reset b 0) = (Inr r, s')" "s_r s' = rest" by blast
  with decodeRecord_exact [of "stream_Reset b 0" r s'] assms show ?R by (auto simp: stream_Reset_def)
next
  assume R: ?R
  then obtain sig where sig: "enr_signature r = Some sig" "enr_raw r = enr_enc r sig" by blast
  then have "r\<lparr>enr_signature := Some sig, enr_raw := enr_enc r sig\<rparr> = r" by simp
  with decodeRecord_ok [of r sig rest] R sig assms show ?L by auto
qed

theorem enr_decode_exact_witness:
  "let b = [0xC6, 0x82, 7, 9, 1, 107, 5, 200];
       r = \<lparr>enr_seq = 1, enr_signature = Some [7, 9], enr_raw = [0xC6, 0x82, 7, 9, 1, 107, 5], enr_pairs = [([107], [5])]\<rparr>
   in (\<exists>s'. decodeRecord (stream_Reset b 0) = (Inr r, s') \<and> s_r s' = [200]) \<and> record_ok r"
proof -
  let ?b = "[0xC6, 0x82, 7, 9, 1, 107, 5, 200] :: bytes"
  let ?r = "\<lparr>enr_seq = 1, enr_signature = Some [7, 9], enr_raw = [0xC6, 0x82, 7, 9, 1, 107, 5], enr_pairs = [([107], [5])]\<rparr>"
  have "\<exists>s'. decodeRecord (stream_Reset ?b 0) = (Inr ?r, s') \<and> s_r s' = [200]"
  proof -
    have "fst (decodeRecord (stream_Reset ?b 0)) = Inr ?r" "s_r (snd (decodeRecord (stream_Reset ?b 0))) = [200]"
      by code_simp+
    then show ?thesis by (metis prod.collapse)
  qed
  with enr_decode_exact [of ?b ?r "[200]"] show ?thesis by (simp add: Let_def)
qed

text \<open>
  C23: the sorted pairs with binary search are a finite map. \<^verbatim>\<open>Load\<close> is lookup, \<^verbatim>\<open>Set\<close> is update
  of the one key, keeps the keys sorted and leaves every other entry as it was; on a signed record
  it also drops the signature and counts the sequence number up by one.
\<close>

theorem enr_map_refinement:
  assumes "sorted_keys (enr_pairs r)"
  shows "enr_Load r k t =
      (case map_of (enr_pairs r) k of None \<Rightarrow> Inl errNotFound | Some b \<Rightarrow> map_sum rlpErr id (DecodeBytes t b)) \<and>
    (\<forall>b. EncodeToBytes t v = Inr b \<longrightarrow>
      (\<exists>r'. enr_Set r k t v = Ret r' \<and> sorted_keys (enr_pairs r') \<and>
        map_of (enr_pairs r') = (map_of (enr_pairs r))(k \<mapsto> b) \<and> enr_signature r' = None \<and>
        enr_seq r' = (if enr_signature r = None then enr_seq r else enr_seq r + 1)))"
proof (intro conjI allI impI)
  show "enr_Load r k t =
      (case map_of (enr_pairs r) k of None \<Rightarrow> Inl errNotFound | Some b \<Rightarrow> map_sum rlpErr id (DecodeBytes t b))"
    using map_of_search [OF assms, of k] by (simp add: enr_Load_def Let_def)
  fix b
  assume b: "EncodeToBytes t v = Inr b"
  then obtain r' where r': "enr_Set r k t v = Ret r'" by (simp add: enr_Set_def Let_def)
  with enr_Set_fields [OF r' b] pairs_Set_sorted [OF assms] pairs_Set_map_of [OF assms]
  show "\<exists>r'. enr_Set r k t v = Ret r' \<and> sorted_keys (enr_pairs r') \<and>
        map_of (enr_pairs r') = (map_of (enr_pairs r))(k \<mapsto> b) \<and> enr_signature r' = None \<and>
        enr_seq r' = (if enr_signature r = None then enr_seq r else enr_seq r + 1)" by simp
qed

theorem enr_map_refinement_witness:
  "let r = \<lparr>enr_seq = 4, enr_signature = Some [1], enr_raw = [], enr_pairs = [([105, 100], [7]), ([117], [9])]\<rparr>
   in enr_Load r [117] (TUint 16) = Inr (VUint 9) \<and>
      (\<exists>r'. enr_Set r [110] (TUint 16) (VUint 5) = Ret r' \<and> sorted_keys (enr_pairs r') \<and> enr_seq r' = 5)"
proof -
  let ?r = "\<lparr>enr_seq = 4, enr_signature = Some [1], enr_raw = [], enr_pairs = [([105, 100], [7]), ([117], [9])]\<rparr>"
  have d: "DecodeBytes (TUint 16) [9] = Inr (VUint 9)" by code_simp
  have e: "EncodeToBytes (TUint 16) (VUint 5) = Inr [5]" by code_simp
  from enr_map_refinement [of ?r "[117]" "TUint 16"] d
    enr_map_refinement [of ?r "[110]" "TUint 16" "VUint 5"] e show ?thesis
    by (auto simp: Let_def)
qed

text \<open>
  C21: whatever is done to a record, in any order, its keys stay distinct and sorted, and as long as
  it can be sent at all, what is sent is its content: a signed record is at most 300 bytes and is
  read back as the very same record; an unsigned one cannot be encoded.
\<close>

theorem enr_record_invariant:
  assumes "enr_step\<^sup>*\<^sup>* emptyRecord r"
  shows "sorted_keys (enr_pairs r) \<and>
    (case enr_EncodeRLP r eb_reset of
       Inl err \<Rightarrow> err = errEncodeUnsigned \<and> enr_signature r = None
     | Inr w \<Rightarrow> length (makeBytes w) \<le> SizeLimit \<and>
         (\<exists>s'. decodeRecord (stream_Reset (makeBytes w) 0) = (Inr r, s') \<and> s_r s' = []))"
proof (cases "enr_signature r")
  case None
  with enr_reachable_inv [OF assms] show ?thesis by (simp add: enr_EncodeRLP_def enr_inv_def record_ok_def)
next
  case (Some sig)
  with enr_reachable_inv [OF assms] have r: "record_ok r" "enr_raw r = enr_enc r sig" "length (enr_enc r sig) \<le> SizeLimit"
    by (auto simp: enr_inv_def)
  then have "r\<lparr>enr_signature := Some sig, enr_raw := enr_enc r sig\<rparr> = r" using Some by simp
  moreover have "length (enr_enc r sig @ []) < 2 ^ 63" using r(3) by (simp add: SizeLimit_def)
  ultimately have "\<exists>s'. decodeRecord (stream_Reset (enr_enc r sig) 0) = (Inr r, s') \<and> s_r s' = []"
    using decodeRecord_ok [OF r(1,3), of "[]"] by simp
  moreover have "makeBytes (eb_append eb_reset (enr_raw r)) = enr_enc r sig"
    using emits_makeBytes(3) [OF emits_append] r(2) by simp
  ultimately show ?thesis using Some r by (simp add: enr_EncodeRLP_def record_ok_def)
qed

theorem enr_record_invariant_witness:
  "let r = \<lparr>enr_seq = 0, enr_signature = Some [9], enr_raw = [0xC4, 9, 0x80, 107, 5], enr_pairs = [([107], [5])]\<rparr>
   in enr_step\<^sup>*\<^sup>* emptyRecord r \<and> enr_EncodeRLP r eb_reset = Inr (eb_append eb_reset (enr_raw r)) \<and>
      (\<exists>s'. decodeRecord (stream_Reset (enr_raw r) 0) = (Inr r, s') \<and> s_r s' = [])"
proof -
  let ?u = "emptyRecord\<lparr>enr_pairs := [([107], [5])]\<rparr>"
  let ?r = "\<lparr>enr_seq = 0, enr_signature = Some [9], enr_raw = [0xC4, 9, 0x80, 107, 5], enr_pairs = [([107], [5])]\<rparr>"
  have b: "EncodeToBytes (TUint 16) (VUint 5) = Inr [5]" by code_simp
  have "raw_ok [5]"
    unfolding raw_ok_def by (rule exI [of _ Byte], rule exI [of _ "[5]"]) (simp add: frame_def tag_ok_def frame_ok_def)
  moreover have "enr_Set emptyRecord [107] (TUint 16) (VUint 5) = Ret ?u"
    using b by (simp add: enr_Set_def emptyRecord_def enr_invalidate_def pairs_Set_def enr_search_def sort_Search_def search_loop.simps)
  ultimately have "enr_step emptyRecord ?u" using b by (intro enr_step.Set) (auto simp: rlp_string_def)
  moreover have "SetSig ?u (Some (\<lambda>_ _. None)) (Some [9]) = Ret (Inr ?r)" by code_simp
  then have "enr_step ?u ?r" by (rule enr_step.SetSig) simp
  ultimately have s: "enr_step\<^sup>*\<^sup>* emptyRecord ?r" by (meson converse_rtranclp_into_rtranclp rtranclp.rtrancl_refl)
  have "makeBytes (eb_append eb_reset [0xC4, 9, 0x80, 107, 5]) = [0xC4, 9, 0x80, 107, 5]"
    using emits_makeBytes(3) [OF emits_append] .
  with enr_record_invariant [OF s] s show ?thesis by (simp add: Let_def enr_EncodeRLP_def)
qed

end
