(* ===== verification/Netutil.thy ===== *)
theory Netutil
  imports Go_Prelude
begin

unbundle bit_operations_syntax

text \<open>
  \<^verbatim>\<open>p2p/netutil/net.go\<close>: lists of networks, the classification of addresses, the check
  of relayed addresses, prefix comparison and \<^verbatim>\<open>DistinctNetSet\<close>, which limits how many
  addresses of one network are tracked. An address is the byte slice \<^verbatim>\<open>net.IP\<close>; the
  first section models the methods of the standard library's \<^verbatim>\<open>net\<close> package in use.
\<close>

subsection \<open>Package \<^verbatim>\<open>net\<close>\<close>

type_synonym IP = bytes

definition To4 :: "IP \<Rightarrow> IP option" where
  "To4 ip =
     (if length ip = 4 then Some ip
      else if length ip = 16 \<and> take 10 ip = replicate 10 0 \<and> ip ! 10 = 0xFF \<and> ip ! 11 = 0xFF
      then Some (drop 12 ip) else None)"

definition v4InV6 :: "IP \<Rightarrow> IP" where
  "v4InV6 ip = replicate 10 0 @ [0xFF, 0xFF] @ ip"

definition To16 :: "IP \<Rightarrow> IP option" where
  "To16 ip = (if length ip = 4 then Some (v4InV6 ip) else if length ip = 16 then Some ip else None)"

definition IP_Equal :: "IP \<Rightarrow> IP \<Rightarrow> bool" where
  "IP_Equal a b =
     (if length a = length b then a = b
      else if length a = 4 \<and> length b = 16 then v4InV6 a = b
      else if length a = 16 \<and> length b = 4 then a = v4InV6 b
      else False)"

definition IPv6loopback :: IP where
  "IPv6loopback = replicate 15 0 @ [1]"

definition IsLoopback :: "IP \<Rightarrow> bool" where
  "IsLoopback ip = (case To4 ip of Some ip4 \<Rightarrow> ip4 ! 0 = 127 | None \<Rightarrow> IP_Equal ip IPv6loopback)"

definition IsMulticast :: "IP \<Rightarrow> bool" where
  "IsMulticast ip =
     (case To4 ip of Some ip4 \<Rightarrow> ip4 ! 0 AND 0xF0 = 0xE0 | None \<Rightarrow> length ip = 16 \<and> ip ! 0 = 0xFF)"

definition IsUnspecified :: "IP \<Rightarrow> bool" where
  "IsUnspecified ip = (IP_Equal ip (v4InV6 [0, 0, 0, 0]) \<or> IP_Equal ip (replicate 16 0))"

text \<open>A network is its number and the length of its mask, as \<^verbatim>\<open>ParseCIDR\<close> returns it.\<close>

record IPNet =
  net_IP :: IP
  net_ones :: nat

definition mask_byte :: "nat \<Rightarrow> nat \<Rightarrow> byte" where
  "mask_byte ones i =
     (if 8 * (i + 1) \<le> ones then 0xFF
      else if ones \<le> 8 * i then 0
      else NOT (drop_bit (ones - 8 * i) 0xFF))"

definition IPNet_Contains :: "IPNet \<Rightarrow> IP \<Rightarrow> bool" where
  "IPNet_Contains n ip =
     (let x = (case To4 ip of Some ip4 \<Rightarrow> ip4 | None \<Rightarrow> ip)
      in length x = length (net_IP n) \<and>
         list_all (\<lambda>i. net_IP n ! i AND mask_byte (net_ones n) i = x ! i AND mask_byte (net_ones n) i)
           [0..<length x])"

subsection \<open>Network lists\<close>

type_synonym Netlist = "IPNet list"

definition cidr :: "bytes \<Rightarrow> nat \<Rightarrow> IPNet" where
  "cidr ip ones = \<lparr>net_IP = ip, net_ones = ones\<rparr>"

definition lan4 :: Netlist where
  "lan4 = [cidr [0, 0, 0, 0] 8, cidr [10, 0, 0, 0] 8, cidr [172, 16, 0, 0] 12, cidr [192, 168, 0, 0] 16]"

definition lan6 :: Netlist where
  "lan6 = [cidr ([0xFE, 0x80] @ replicate 14 0) 10, cidr ([0xFC] @ replicate 15 0) 7]"

definition special4 :: Netlist where
  "special4 =
     [cidr [192, 0, 0, 0] 29, cidr [192, 0, 0, 9] 32, cidr [192, 0, 0, 170] 32, cidr [192, 0, 0, 171] 32,
      cidr [192, 0, 2, 0] 24, cidr [192, 31, 196, 0] 24, cidr [192, 52, 193, 0] 24, cidr [192, 88, 99, 0] 24,
      cidr [192, 175, 48, 0] 24, cidr [198, 18, 0, 0] 15, cidr [198, 51, 100, 0] 24, cidr [203, 0, 113, 0] 24,
      cidr [255, 255, 255, 255] 32]"

definition special6 :: Netlist where
  "special6 =
     [cidr ([0x01] @ replicate 15 0) 64, cidr ([0x20, 0x01] @ replicate 14 0) 32,
      cidr ([0x20, 0x01, 0, 1] @ replicate 11 0 @ [1]) 128, cidr ([0x20, 0x01, 0, 2] @ replicate 12 0) 48,
      cidr ([0x20, 0x01, 0, 3] @ replicate 12 0) 32, cidr ([0x20, 0x01, 0, 4, 1, 0x12] @ replicate 10 0) 48,
      cidr ([0x20, 0x01, 0, 5] @ replicate 12 0) 32, cidr ([0x20, 0x01, 0, 0x10] @ replicate 12 0) 28,
      cidr ([0x20, 0x01, 0, 0x20] @ replicate 12 0) 28, cidr ([0x20, 0x01, 0x0D, 0xB8] @ replicate 12 0) 32,
      cidr ([0x20, 0x02] @ replicate 14 0) 16]"

text \<open>A nil list contains nothing.\<close>

fun Netlist_Contains :: "Netlist option \<Rightarrow> IP \<Rightarrow> bool" where
  "Netlist_Contains None ip = False"
| "Netlist_Contains (Some []) ip = False"
| "Netlist_Contains (Some (n # l)) ip = (if IPNet_Contains n ip then True else Netlist_Contains (Some l) ip)"

definition IsLAN :: "IP \<Rightarrow> bool" where
  "IsLAN ip =
     (if IsLoopback ip then True
      else case To4 ip of Some v4 \<Rightarrow> Netlist_Contains (Some lan4) v4 | None \<Rightarrow> Netlist_Contains (Some lan6) ip)"

definition IsSpecialNetwork :: "IP \<Rightarrow> bool" where
  "IsSpecialNetwork ip =
     (if IsMulticast ip then True
      else case To4 ip of Some v4 \<Rightarrow> Netlist_Contains (Some special4) v4
           | None \<Rightarrow> Netlist_Contains (Some special6) ip)"

datatype relayError = errInvalid | errUnspecified | errSpecial | errLoopback | errLAN

definition CheckRelayIP :: "IP \<Rightarrow> IP \<Rightarrow> relayError option" where
  "CheckRelayIP sender addr =
     (if length addr \<noteq> 4 \<and> length addr \<noteq> 16 then Some errInvalid
      else if IsUnspecified addr then Some errUnspecified
      else if IsSpecialNetwork addr then Some errSpecial
      else if IsLoopback addr \<and> \<not> IsLoopback sender then Some errLoopback
      else if IsLAN addr \<and> \<not> IsLAN sender then Some errLAN
      else None)"

subsection \<open>Prefix comparison\<close>

definition prefix_mask :: "nat \<Rightarrow> byte" where
  "prefix_mask bits = NOT (drop_bit (bits mod 8) 0xFF)"

text \<open>An index out of range panics: \<open>None\<close>.\<close>

definition sameNet_bytes :: "nat \<Rightarrow> IP \<Rightarrow> IP \<Rightarrow> bool option" where
  "sameNet_bytes bits ip other =
     (let nb = bits div 8; mask = prefix_mask bits;
          tail = (if nb \<le> length ip
                  then if nb \<le> length other then Some (IP_Equal (take nb ip) (take nb other)) else None
                  else Some False)
      in if mask \<noteq> 0 \<and> nb < length ip
         then if nb < length other
              then if ip ! nb AND mask \<noteq> other ! nb AND mask then Some False else tail
              else None
         else tail)"

definition SameNet :: "nat \<Rightarrow> IP \<Rightarrow> IP \<Rightarrow> bool option" where
  "SameNet bits ip other =
     (case (To4 ip, To4 other) of
        (None, Some _) \<Rightarrow> Some False
      | (Some _, None) \<Rightarrow> Some False
      | (Some ip4, Some other4) \<Rightarrow> sameNet_bytes bits ip4 other4
      | (None, None) \<Rightarrow>
          sameNet_bytes bits (case To16 ip of Some x \<Rightarrow> x | None \<Rightarrow> [])
            (case To16 other of Some x \<Rightarrow> x | None \<Rightarrow> []))"

text \<open>Reference: the address as a sequence of bits, most significant first.\<close>

definition ip_bit :: "IP \<Rightarrow> nat \<Rightarrow> bool" where
  "ip_bit ip i = bit (ip ! (i div 8)) (7 - i mod 8)"

lemma bit_255: "bit (255 :: byte) n \<longleftrightarrow> n < 8"
proof -
  have "(255 :: byte) = - 1" by simp
  then have "bit (255 :: byte) n = bit (- 1 :: byte) n" by (rule arg_cong)
  then show ?thesis by (simp add: possible_bit_word)
qed

lemma bit_prefix_mask:
  assumes "n < 8"
  shows "bit (prefix_mask bits) n \<longleftrightarrow> 8 - bits mod 8 \<le> n"
proof -
  have "bit (255 :: byte) (bits mod 8 + n) \<longleftrightarrow> bits mod 8 + n < 8" by (rule bit_255)
  then have "bit (prefix_mask bits) n \<longleftrightarrow> \<not> bits mod 8 + n < 8"
    using assms by (simp add: prefix_mask_def bit_not_iff bit_drop_bit_eq possible_bit_word)
  then show ?thesis by linarith
qed

lemma prefix_mask_0: "prefix_mask bits = 0 \<longleftrightarrow> bits mod 8 = 0"
proof
  assume "prefix_mask bits = 0"
  then have "\<not> bit (prefix_mask bits) 7" by simp
  then show "bits mod 8 = 0" using bit_prefix_mask [of 7 bits] by simp
next
  assume "bits mod 8 = 0"
  then show "prefix_mask bits = 0" by (simp add: prefix_mask_def)
qed

lemma and_prefix_mask_eq:
  "(a AND prefix_mask bits = b AND prefix_mask bits) \<longleftrightarrow> (\<forall>j < bits mod 8. bit a (7 - j) = bit b (7 - j))"
    (is "?l \<longleftrightarrow> ?r")
proof
  assume ?l
  show ?r
  proof (intro allI impI)
    fix j assume j: "j < bits mod 8"
    have "bits mod 8 < 8" by simp
    with j have "bit (prefix_mask bits) (7 - j)" by (subst bit_prefix_mask) linarith+
    moreover from \<open>?l\<close> have "bit (a AND prefix_mask bits) (7 - j) = bit (b AND prefix_mask bits) (7 - j)"
      by (rule arg_cong)
    ultimately show "bit a (7 - j) = bit b (7 - j)" by (simp add: bit_and_iff)
  qed
next
  assume r: ?r
  show ?l
  proof (rule bit_eqI)
    fix n assume "possible_bit TYPE(byte) n"
    then have n: "n < 8" by (simp add: possible_bit_word)
    show "bit (a AND prefix_mask bits) n = bit (b AND prefix_mask bits) n"
    proof (cases "8 - bits mod 8 \<le> n")
      case True
      with n have "7 - n < bits mod 8" by linarith
      with r have "bit a (7 - (7 - n)) = bit b (7 - (7 - n))" by blast
      moreover have "7 - (7 - n) = n" using n by simp
      ultimately show ?thesis by (simp add: bit_and_iff)
    next
      case False
      then show ?thesis using n by (simp add: bit_and_iff bit_prefix_mask)
    qed
  qed
qed

lemma byte_eq_bits: "a = (b :: byte) \<longleftrightarrow> (\<forall>j < 8. bit a (7 - j) = bit b (7 - j))"
proof -
  have "a = b \<longleftrightarrow> (\<forall>n < 8. bit a n = bit b n)"
    by (auto intro!: bit_eqI simp: possible_bit_word)
  also have "\<dots> \<longleftrightarrow> (\<forall>j < 8. bit a (7 - j) = bit b (7 - j))"
  proof (rule iffI; intro allI impI)
    fix n :: nat assume h: "\<forall>j < 8. bit a (7 - j) = bit b (7 - j)" and n: "n < 8"
    from h have "bit a (7 - (7 - n)) = bit b (7 - (7 - n))" by simp
    moreover from n have "7 - (7 - n) = n" by simp
    ultimately show "bit a n = bit b n" by metis
  qed auto
  finally show ?thesis .
qed

lemma take_eq_bits:
  assumes "nb \<le> length ip" "length ip = length other"
  shows "take nb ip = take nb other \<longleftrightarrow> (\<forall>i < 8 * nb. ip_bit ip i = ip_bit other i)"
proof -
  have "take nb ip = take nb other \<longleftrightarrow> (\<forall>k < nb. ip ! k = other ! k)"
    using assms by (auto simp: list_eq_iff_nth_eq)
  also have "\<dots> \<longleftrightarrow> (\<forall>k < nb. \<forall>j < 8. bit (ip ! k) (7 - j) = bit (other ! k) (7 - j))"
    by (subst byte_eq_bits) (rule refl)
  also have "\<dots> \<longleftrightarrow> (\<forall>i < 8 * nb. ip_bit ip i = ip_bit other i)"
  proof (rule iffI; intro allI impI)
    fix i assume h: "\<forall>k < nb. \<forall>j < 8. bit (ip ! k) (7 - j) = bit (other ! k) (7 - j)" and i: "i < 8 * nb"
    from i have "i div 8 < nb" and "i mod 8 < 8" by auto
    with h show "ip_bit ip i = ip_bit other i" by (simp add: ip_bit_def)
  next
    fix k j :: nat assume h: "\<forall>i < 8 * nb. ip_bit ip i = ip_bit other i" and k: "k < nb" and j: "j < 8"
    from k j have "8 * k + j < 8 * nb" by linarith
    with h have "ip_bit ip (8 * k + j) = ip_bit other (8 * k + j)" by blast
    with j show "bit (ip ! k) (7 - j) = bit (other ! k) (7 - j)" by (simp add: ip_bit_def)
  qed
  finally show ?thesis .
qed

lemma split_prefix_bits:
  fixes bits :: nat
  shows "(\<forall>i < bits. P i) \<longleftrightarrow> (\<forall>i < 8 * (bits div 8). P i) \<and> (\<forall>j < bits mod 8. P (8 * (bits div 8) + j))"
proof (intro iffI conjI allI impI)
  fix i assume h: "(\<forall>i < 8 * (bits div 8). P i) \<and> (\<forall>j < bits mod 8. P (8 * (bits div 8) + j))" and i: "i < bits"
  show "P i"
  proof (cases "i < 8 * (bits div 8)")
    case False
    then have "i = 8 * (bits div 8) + (i - 8 * (bits div 8))" by simp
    moreover have "i - 8 * (bits div 8) < bits mod 8" 
      using i False div_mult_mod_eq [of bits 8] by linarith
    ultimately show ?thesis using h by metis
  qed (use h in blast)
next
  fix j assume h: "\<forall>i < bits. P i" and j: "j < bits mod 8"
  have "8 * (bits div 8) + j < bits" using j div_mult_mod_eq [of bits 8] by linarith
  with h show "P (8 * (bits div 8) + j)" by blast
qed auto

lemma ip_bit_offset: "j < 8 \<Longrightarrow> ip_bit ip (8 * nb + j) = bit (ip ! nb) (7 - j)"
  by (simp add: ip_bit_def)

lemma sameNet_bytes_prefix:
  assumes "length ip = length other" "bits \<le> 8 * length ip"
  shows "sameNet_bytes bits ip other = Some (\<forall>i < bits. ip_bit ip i = ip_bit other i)"
proof -
  let ?nb = "bits div 8"
  have nb: "?nb \<le> length ip" using assms(2) by linarith
  have last: "(\<forall>j < bits mod 8. ip_bit ip (8 * ?nb + j) = ip_bit other (8 * ?nb + j)) \<longleftrightarrow>
      ip ! ?nb AND prefix_mask bits = other ! ?nb AND prefix_mask bits"
    by (auto simp: and_prefix_mask_eq ip_bit_offset)
  have full: "?nb < length ip" if "prefix_mask bits \<noteq> 0"
    using that assms(2) unfolding prefix_mask_0 by presburger
  have eq: "IP_Equal (take ?nb ip) (take ?nb other) = (take ?nb ip = take ?nb other)"
    using assms(1) by (simp add: IP_Equal_def)
  show ?thesis
  proof (cases "prefix_mask bits = 0")
    case True
    then show ?thesis
      using nb assms(1) by (subst split_prefix_bits)
        (simp add: sameNet_bytes_def Let_def eq take_eq_bits prefix_mask_0)
  next
    case False
    then show ?thesis
      using nb full assms(1) by (subst split_prefix_bits)
        (auto simp add: sameNet_bytes_def Let_def eq take_eq_bits last simp del: One_nat_def)
  qed
qed

text \<open>
  On addresses of one length, \<^verbatim>\<open>sameNet\<close> compares exactly the first
  \<^verbatim>\<open>bits\<close> bits and never reads out of range.
\<close>

theorem sameNet_bytes_bits:
  assumes "length ip = length other" "bits \<le> 8 * length ip"
  shows "sameNet_bytes bits ip other = Some (\<forall>i < bits. ip_bit ip i = ip_bit other i)"
  using assms by (rule sameNet_bytes_prefix)

theorem sameNet_bytes_bits_witness:
  "length ([10, 1, 2, 3] :: IP) = length ([10, 1, 9, 9] :: IP) \<and> (12 :: nat) \<le> 8 * length ([10, 1, 2, 3] :: IP) \<and>
   sameNet_bytes 12 [10, 1, 2, 3] [10, 1, 9, 9] = Some (\<forall>i < 12. ip_bit [10, 1, 2, 3] i = ip_bit [10, 1, 9, 9] i)"
proof -
  have "length ([10, 1, 2, 3] :: IP) = length ([10, 1, 9, 9] :: IP)" "(12 :: nat) \<le> 8 * length ([10, 1, 2, 3] :: IP)"
    by simp_all
  then show ?thesis using sameNet_bytes_bits by blast
qed

subsection \<open>\<^verbatim>\<open>DistinctNetSet\<close>\<close>

record DistinctNetSet =
  Subnet :: nat
  Limit :: u64
  members :: "(bytes, u64) gomap"

text \<open>The map key: the address family and the truncated address.\<close>

definition dns_key :: "DistinctNetSet \<Rightarrow> IP \<Rightarrow> bytes" where
  "dns_key s ip0 =
     (let (typ, ip) = (case To4 ip0 of Some ip4 \<Rightarrow> (0x34, ip4) | None \<Rightarrow> (0x36, ip0));
          bits = (if Subnet s > length ip * 8 then length ip * 8 else Subnet s);
          nb = bits div 8; mask = prefix_mask bits;
          buf = typ # take nb ip
      in if nb < length ip \<and> mask \<noteq> 0 then buf @ [ip ! nb AND mask] else buf)"

text \<open>A missing key of a Go map reads as zero.\<close>

definition dns_count :: "DistinctNetSet \<Rightarrow> bytes \<Rightarrow> u64" where
  "dns_count s key = (case gomap_get (members s) key of Some n \<Rightarrow> n | None \<Rightarrow> 0)"

definition dns_Add :: "DistinctNetSet \<Rightarrow> IP \<Rightarrow> bool \<times> DistinctNetSet" where
  "dns_Add s ip =
     (let key = dns_key s ip; n = dns_count s key
      in if n < Limit s then (True, s\<lparr>members := gomap_set key (n + 1) (members s)\<rparr>) else (False, s))"

definition dns_Remove :: "DistinctNetSet \<Rightarrow> IP \<Rightarrow> DistinctNetSet" where
  "dns_Remove s ip =
     (let key = dns_key s ip
      in case gomap_get (members s) key of
           Some n \<Rightarrow> if n = 1 then s\<lparr>members := gomap_del key (members s)\<rparr>
                      else s\<lparr>members := gomap_set key (n - 1) (members s)\<rparr>
         | None \<Rightarrow> s)"

definition dns_Contains :: "DistinctNetSet \<Rightarrow> IP \<Rightarrow> bool" where
  "dns_Contains s ip = gomap_has (members s) (dns_key s ip)"

definition dns_Len :: "seed \<Rightarrow> DistinctNetSet \<Rightarrow> u64" where
  "dns_Len sd s = foldl (\<lambda>n e. n + snd e) 0 (gomap_range sd (members s))"

text \<open>Entries are positive and within the limit.\<close>

definition dns_inv :: "DistinctNetSet \<Rightarrow> bool" where
  "dns_inv s \<longleftrightarrow> gomap_ok (members s) \<and>
     (\<forall>k n. gomap_get (members s) k = Some n \<longrightarrow> 0 < n \<and> n \<le> Limit s)"

text \<open>Abstractly the set is a multiset of networks.\<close>

definition dns_abs :: "DistinctNetSet \<Rightarrow> bytes \<Rightarrow> nat" where
  "dns_abs s k = unat (dns_count s k)"

lemma dns_key_members [simp]: "dns_key (s\<lparr>members := m\<rparr>) ip = dns_key s ip"
  by (simp add: dns_key_def Let_def split_def cong: if_cong)

lemma word_less_plus_one: "n < (m :: u64) \<Longrightarrow> n + 1 \<le> m \<and> 0 < n + 1 \<and> unat (n + 1) = unat n + 1"
  by unat_arith

lemma dns_Add_spec:
  assumes "dns_inv s" "dns_Add s ip = (added, s')"
  shows "dns_inv s' \<and> Subnet s' = Subnet s \<and> Limit s' = Limit s \<and>
         (added \<longleftrightarrow> dns_abs s (dns_key s ip) < unat (Limit s)) \<and>
         dns_abs s' = (if added then (dns_abs s)(dns_key s ip := dns_abs s (dns_key s ip) + 1) else dns_abs s)"
proof (cases "dns_count s (dns_key s ip) < Limit s")
  case True
  note w = word_less_plus_one [OF True]
  have s': "s' = s\<lparr>members := gomap_set (dns_key s ip) (dns_count s (dns_key s ip) + 1) (members s)\<rparr>" and added: added
    using assms(2) True by (auto simp: dns_Add_def Let_def)
  have "dns_abs s' = (dns_abs s)(dns_key s ip := dns_abs s (dns_key s ip) + 1)"
    using w by (auto simp: s' dns_abs_def dns_count_def fun_eq_iff)
  then show ?thesis
    using assms(1) True added w by (auto simp: s' dns_inv_def dns_abs_def word_less_nat_alt split: if_splits)
next
  case False
  then show ?thesis
    using assms by (auto simp: dns_Add_def Let_def dns_abs_def word_less_nat_alt)
qed

lemma dns_Remove_spec:
  assumes "dns_inv s"
  shows "dns_inv (dns_Remove s ip) \<and>
         dns_abs (dns_Remove s ip) = (dns_abs s)(dns_key s ip := dns_abs s (dns_key s ip) - 1)"
proof (cases "gomap_get (members s) (dns_key s ip)")
  case None
  then show ?thesis
    using assms by (auto simp: dns_Remove_def Let_def dns_abs_def dns_count_def fun_eq_iff)
next
  case (Some n)
  then have n: "0 < n" "n \<le> Limit s" using assms by (auto simp: dns_inv_def)
  show ?thesis
  proof (cases "n = 1")
    case True
    with Some assms show ?thesis
      by (auto simp: dns_Remove_def Let_def dns_inv_def dns_abs_def dns_count_def fun_eq_iff)
  next
    case False
    with n have "0 < n - 1" "n - 1 \<le> Limit s" "unat (n - 1) = unat n - 1"
      by (unat_arith, unat_arith, unat_arith)
    with False Some assms show ?thesis
      by (auto simp: dns_Remove_def Let_def dns_inv_def dns_abs_def dns_count_def fun_eq_iff split: if_splits)
  qed
qed

subsubsection \<open>What the keys identify\<close>

text \<open>The canonical form of an address: its family and its shortest bytes.\<close>

definition canon_ip :: "IP \<Rightarrow> bool \<times> IP" where
  "canon_ip ip = (case To4 ip of Some ip4 \<Rightarrow> (True, ip4) | None \<Rightarrow> (False, ip))"

lemma length_To4: "To4 ip = Some x \<Longrightarrow> length x = 4"
  by (auto simp: To4_def split: if_splits)

lemma length_canon_ip:
  assumes "length x = 4 \<or> length x = 16"
  shows "length (snd (canon_ip x)) = (if fst (canon_ip x) then 4 else 16)"
proof (cases "To4 x")
  case None
  then have "length x = 16" using assms by (auto simp: To4_def)
  with None show ?thesis by (simp add: canon_ip_def)
next
  case (Some y)
  with length_To4 show ?thesis by (simp add: canon_ip_def)
qed

definition family_byte :: "bool \<Rightarrow> byte" where
  "family_byte v4 = (if v4 then 0x34 else 0x36)"

lemma dns_key_canon:
  "dns_key s x =
     (let y = snd (canon_ip x); n = min (Subnet s) (8 * length y)
      in family_byte (fst (canon_ip x)) # take (n div 8) y @
         (if n div 8 < length y \<and> prefix_mask n \<noteq> 0 then [y ! (n div 8) AND prefix_mask n] else []))"
proof -
  have m: "(if length y * 8 < Subnet s then length y * 8 else Subnet s) = min (Subnet s) (8 * length y)" for y :: IP
    by simp
  show ?thesis
    by (cases "To4 x") (simp_all add: dns_key_def canon_ip_def family_byte_def Let_def m del: min_less_iff_conj,
        auto simp: min_def split: if_splits)
qed

lemma dns_key_eq_iff:
  assumes "length ip = 4 \<or> length ip = 16" "length other = 4 \<or> length other = 16"
  shows "dns_key s ip = dns_key s other \<longleftrightarrow>
    fst (canon_ip ip) = fst (canon_ip other) \<and>
    (\<forall>i < min (Subnet s) (8 * length (snd (canon_ip ip))).
       ip_bit (snd (canon_ip ip)) i = ip_bit (snd (canon_ip other)) i)"
proof -
  define a b where "a = snd (canon_ip ip)" and "b = snd (canon_ip other)"
  define bits where "bits = min (Subnet s) (8 * length a)"
  show ?thesis
  proof (cases "fst (canon_ip ip) = fst (canon_ip other)")
    case False
    then have "family_byte (fst (canon_ip ip)) \<noteq> family_byte (fst (canon_ip other))"
      by (simp add: family_byte_def)
    with False show ?thesis by (simp add: dns_key_canon Let_def)
  next
    case True
    then have len: "length a = length b"
      using length_canon_ip [OF assms(1)] length_canon_ip [OF assms(2)] by (simp add: a_def b_def)
    have nb: "bits div 8 \<le> length a" "bits \<le> 8 * length a" by (auto simp: bits_def)
    have full: "bits div 8 < length a" if "prefix_mask bits \<noteq> 0"
      using that nb(2) unfolding prefix_mask_0 by presburger
    have ka: "dns_key s ip = family_byte (fst (canon_ip ip)) # take (bits div 8) a @
        (if prefix_mask bits \<noteq> 0 then [a ! (bits div 8) AND prefix_mask bits] else [])"
      unfolding dns_key_canon Let_def a_def [symmetric] bits_def [symmetric] using full by simp
    have kb: "dns_key s other = family_byte (fst (canon_ip ip)) # take (bits div 8) b @
        (if prefix_mask bits \<noteq> 0 then [b ! (bits div 8) AND prefix_mask bits] else [])"
      unfolding dns_key_canon Let_def b_def [symmetric] len [symmetric] bits_def [symmetric] True [symmetric]
      using full len by simp
    have "dns_key s ip = dns_key s other \<longleftrightarrow> sameNet_bytes bits a b = Some True"
      unfolding ka kb sameNet_bytes_def Let_def IP_Equal_def
      using len nb(1) full by (cases "prefix_mask bits = 0") auto
    also have "\<dots> \<longleftrightarrow> (\<forall>i < bits. ip_bit a i = ip_bit b i)"
      using len nb by (auto simp: sameNet_bytes_prefix)
    finally show ?thesis using True by (simp add: a_def b_def bits_def)
  qed
qed

text \<open>Adding a list of addresses one after the other; the accepted ones.\<close>

fun dns_adds :: "DistinctNetSet \<Rightarrow> IP list \<Rightarrow> IP list \<times> DistinctNetSet" where
  "dns_adds s [] = ([], s)"
| "dns_adds s (ip # ips) =
     (let (added, s1) = dns_Add s ip; (acc, s2) = dns_adds s1 ips
      in (if added then ip # acc else acc, s2))"

lemma dns_key_cong: "Subnet s' = Subnet s \<Longrightarrow> dns_key s' ip = dns_key s ip"
  by (simp add: dns_key_def cong: if_cong)

lemma dns_adds_subset: "dns_adds s ips = (acc, s') \<Longrightarrow> set acc \<subseteq> set ips"
proof (induction ips arbitrary: acc s)
  case (Cons ip ips)
  then show ?case by (fastforce simp: Let_def split: prod.splits if_splits)
qed simp

lemma dns_adds_count:
  assumes "dns_inv s" "dns_adds s ips = (acc, s')"
  shows "dns_inv s' \<and>
     (\<forall>k. length (filter (\<lambda>ip. dns_key s ip = k) acc) =
           min (length (filter (\<lambda>ip. dns_key s ip = k) ips)) (unat (Limit s) - dns_abs s k))"
  using assms
proof (induction ips arbitrary: s acc)
  case (Cons ip ips)
  obtain added s1 where add: "dns_Add s ip = (added, s1)" by fastforce
  obtain acc1 where run: "dns_adds s1 ips = (acc1, s')" "acc = (if added then ip # acc1 else acc1)"
    using Cons.prems(2) add by (auto split: prod.splits)
  note spec = dns_Add_spec [OF Cons.prems(1) add]
  from Cons.IH [OF _ run(1)] spec have IH: "dns_inv s'"
    "\<And>k. length (filter (\<lambda>ip. dns_key s ip = k) acc1) =
        min (length (filter (\<lambda>ip. dns_key s ip = k) ips)) (unat (Limit s) - dns_abs s1 k)"
    by (auto simp: dns_key_cong [of s1 s])
  with spec run(2) show ?case by auto
qed simp

text \<open>Reference: two addresses of one family that agree on their first \<open>bits\<close> bits.\<close>

definition in_same_net :: "nat \<Rightarrow> IP \<Rightarrow> IP \<Rightarrow> bool" where
  "in_same_net bits ip x \<longleftrightarrow> fst (canon_ip x) = fst (canon_ip ip) \<and>
    (\<forall>i < min bits (8 * length (snd (canon_ip x))). ip_bit (snd (canon_ip x)) i = ip_bit (snd (canon_ip ip)) i)"

text \<open>
  C14: starting from the empty set, \<^verbatim>\<open>Add\<close> accepts exactly the first \<^verbatim>\<open>Limit\<close>
  addresses of each network: of the addresses with the family and the first
  \<^verbatim>\<open>Subnet\<close> bits of a given address, as many are accepted as were offered, up to the limit.
\<close>

theorem distinct_net_limit:
  assumes "\<forall>x \<in> set ips. length x = 4 \<or> length x = 16" "length ip = 4 \<or> length ip = 16"
    and "dns_adds \<lparr>Subnet = bits, Limit = limit, members = []\<rparr> ips = (acc, s')"
  shows "length (filter (in_same_net bits ip) acc) = min (length (filter (in_same_net bits ip) ips)) (unat limit)"
proof -
  let ?s = "\<lparr>Subnet = bits, Limit = limit, members = []\<rparr>"
  have inv: "dns_inv ?s" by (simp add: dns_inv_def)
  have same: "in_same_net bits ip x \<longleftrightarrow> dns_key ?s x = dns_key ?s ip" if "length x = 4 \<or> length x = 16" for x
    using dns_key_eq_iff [OF that assms(2), of ?s] by (simp add: in_same_net_def)
  have sub: "set acc \<subseteq> set ips" using assms(3) by (rule dns_adds_subset)
  have "filter (in_same_net bits ip) acc = filter (\<lambda>x. dns_key ?s x = dns_key ?s ip) acc"
    "filter (in_same_net bits ip) ips = filter (\<lambda>x. dns_key ?s x = dns_key ?s ip) ips"
    using assms(1) sub same by (auto intro!: filter_cong)
  with dns_adds_count [OF inv assms(3)] show ?thesis
    by (simp add: dns_abs_def dns_count_def)
qed

theorem distinct_net_limit_witness:
  "let ips = [[10, 1, 2, 3], [10, 1, 2, 4], [10, 9, 9, 9]] :: IP list;
       r = dns_adds \<lparr>Subnet = 24, Limit = 1, members = []\<rparr> ips
   in length (filter (in_same_net 24 [10, 1, 2, 7]) (fst r)) = min (length (filter (in_same_net 24 [10, 1, 2, 7]) ips)) 1"
proof -
  let ?ips = "[[10, 1, 2, 3], [10, 1, 2, 4], [10, 9, 9, 9]] :: IP list"
  let ?r = "dns_adds \<lparr>Subnet = 24, Limit = 1, members = []\<rparr> ?ips"
  have a: "\<forall>x \<in> set ?ips. length x = 4 \<or> length x = 16" by simp
  have b: "length ([10, 1, 2, 7] :: IP) = 4 \<or> length ([10, 1, 2, 7] :: IP) = 16" by simp
  have c: "?r = (fst ?r, snd ?r)" by simp
  show ?thesis unfolding Let_def using distinct_net_limit [OF a b c] by simp
qed

subsection \<open>Printing an address\<close>

text \<open>\<^verbatim>\<open>IP.String\<close> of the standard library.\<close>

definition hex_char :: "nat \<Rightarrow> char" where
  "hex_char d = (if d < 10 then char_of (48 + d) else char_of (87 + d))"

fun fmt_hex :: "nat \<Rightarrow> string" where
  "fmt_hex n = (if n < 16 then [hex_char n] else fmt_hex (n div 16) @ [hex_char (n mod 16)])"

declare fmt_hex.simps [simp del]

definition hex_bytes :: "bytes \<Rightarrow> string" where
  "hex_bytes b = concat (map (\<lambda>x. [hex_char (unat x div 16), hex_char (unat x mod 16)]) b)"

definition v6_groups :: "IP \<Rightarrow> nat list" where
  "v6_groups ip = map (\<lambda>i. unat (ip ! (2 * i)) * 256 + unat (ip ! (2 * i + 1))) [0..<8]"

text \<open>The longest run of zero groups, the first one of that length, as its start and its end.\<close>

definition zero_run :: "nat list \<Rightarrow> nat \<Rightarrow> nat" where
  "zero_run gs i = length (takeWhile (\<lambda>g. g = 0) (drop i gs))"

function v6_scan :: "nat list \<Rightarrow> nat \<Rightarrow> nat \<times> nat \<Rightarrow> nat \<times> nat" where
  "v6_scan gs i (e0, e1) =
     (if i \<ge> 8 then (e0, e1)
      else let j = i + zero_run gs i
           in if j > i \<and> j - i > e1 - e0 then v6_scan gs (j + 1) (i, j) else v6_scan gs (i + 1) (e0, e1))"
  by pat_completeness auto
termination
  by (relation "measure (\<lambda>(gs, i, e). 8 - i)") auto

declare v6_scan.simps [simp del]

definition v6_string :: "nat list \<Rightarrow> string" where
  "v6_string gs =
     (let (e0, e1) = v6_scan gs 0 (0, 0);
          sep = (\<lambda>xs. concat (map (\<lambda>(i, g). (if i = 0 then [] else '':'') @ fmt_hex g) (enumerate 0 xs)))
      in if e1 - e0 \<le> 1 then sep gs else sep (take e0 gs) @ ''::'' @ sep (drop e1 gs))"

definition IP_String :: "IP \<Rightarrow> string" where
  "IP_String ip =
     (if ip = [] then ''<nil>''
      else case To4 ip of
        Some p \<Rightarrow> fmt_nat (unat (p ! 0)) @ ''.'' @ fmt_nat (unat (p ! 1)) @ ''.'' @
                  fmt_nat (unat (p ! 2)) @ ''.'' @ fmt_nat (unat (p ! 3))
      | None \<Rightarrow> if length ip \<noteq> 16 then ''?'' @ hex_bytes ip else v6_string (v6_groups ip))"

end
