(* ===== verification/V4wire.thy ===== *)
theory V4wire
  imports Enr Netutil
begin

text \<open>
  The packets of node discovery (\<^verbatim>\<open>p2p/discover/v4wire/v4wire.go\<close>): their RLP form, and the frame
  of hash, signature and type around it.

  A packet is a record; its RLP form is given by the type of its Go struct (with the struct tags)
  and the value that struct has. Hash function and signature scheme are arguments
  (\<open>crypto_ops\<close>); \<open>crypto_ok\<close> says what is relied on: their lengths, and that recovery undoes
  signing.
\<close>

subsection \<open>Packets\<close>

type_synonym u16 = "16 word"

record endpoint =
  ep_IP :: IP
  ep_UDP :: u16
  ep_TCP :: u16

record wireNode =
  wn_IP :: IP
  wn_UDP :: u16
  wn_TCP :: u16
  wn_ID :: bytes

datatype packet =
    Ping (Version: u64) (From: endpoint) (To: endpoint) (Expiration: u64) (ENRSeq: u64) (Rest: "bytes list")
  | Pong (PongTo: endpoint) (ReplyTok: bytes) (Expiration: u64) (ENRSeq: u64) (Rest: "bytes list")
  | Findnode (Target: bytes) (Expiration: u64) (Rest: "bytes list")
  | Neighbors (Nodes: "wireNode list") (Expiration: u64) (Rest: "bytes list")
  | ENRRequest (Expiration: u64) (Rest: "bytes list")
  | ENRResponse (ReplyTok: bytes) (Record: enrRecord) (Rest: "bytes list")

definition MaxNeighbors :: nat where
  "MaxNeighbors = 12"

definition NewEndpoint :: "IP \<Rightarrow> int \<Rightarrow> u16 \<Rightarrow> endpoint" where
  "NewEndpoint addrIP addrPort tcpPort =
     (let ip = (case To4 addrIP of Some ip4 \<Rightarrow> ip4 | None \<Rightarrow> (case To16 addrIP of Some ip6 \<Rightarrow> ip6 | None \<Rightarrow> []))
      in \<lparr>ep_IP = ip, ep_UDP = word_of_int addrPort, ep_TCP = tcpPort\<rparr>)"

fun packet_Name :: "packet \<Rightarrow> string" where
  "packet_Name (Ping v f t e q r) = ''PING/v4''"
| "packet_Name (Pong t k e q r) = ''PONG/v4''"
| "packet_Name (Findnode t e r) = ''FINDNODE/v4''"
| "packet_Name (Neighbors n e r) = ''NEIGHBORS/v4''"
| "packet_Name (ENRRequest e r) = ''ENRREQUEST/v4''"
| "packet_Name (ENRResponse k c r) = ''ENRRESPONSE/v4''"

fun packet_Kind :: "packet \<Rightarrow> byte" where
  "packet_Kind (Ping v f t e q r) = 1"
| "packet_Kind (Pong t k e q r) = 2"
| "packet_Kind (Findnode t e r) = 3"
| "packet_Kind (Neighbors n e r) = 4"
| "packet_Kind (ENRRequest e r) = 5"
| "packet_Kind (ENRResponse k c r) = 6"

text \<open>\<^verbatim>\<open>Expired\<close>: the time stamp is converted to a signed number; \<open>now\<close> is in nanoseconds.\<close>

definition Expired :: "u64 \<Rightarrow> int \<Rightarrow> bool" where
  "Expired ts now = (sint ts * 1000000000 < now)"

subsection \<open>The RLP form\<close>

definition optionalTag :: tags where
  "optionalTag = noTags\<lparr>Optional := True\<rparr>"

definition tailTag :: tags where
  "tailTag = noTags\<lparr>Tail := True\<rparr>"

definition restField :: field where
  "restField = Field tailTag (TSlice TRaw)"

definition endpointT :: rtype where
  "endpointT = TStruct [Field noTags TByteSlice, Field noTags (TUint 16), Field noTags (TUint 16)]"

definition nodeT :: rtype where
  "nodeT = TStruct [Field noTags TByteSlice, Field noTags (TUint 16), Field noTags (TUint 16), Field noTags (TByteArray 64)]"

definition pingT :: rtype where
  "pingT = TStruct [Field noTags (TUint 64), Field noTags endpointT, Field noTags endpointT, Field noTags (TUint 64),
     Field optionalTag (TUint 64), restField]"

definition pongT :: rtype where
  "pongT = TStruct [Field noTags endpointT, Field noTags TByteSlice, Field noTags (TUint 64), Field optionalTag (TUint 64), restField]"

definition findnodeT :: rtype where
  "findnodeT = TStruct [Field noTags (TByteArray 64), Field noTags (TUint 64), restField]"

definition neighborsT :: rtype where
  "neighborsT = TStruct [Field noTags (TSlice nodeT), Field noTags (TUint 64), restField]"

definition enrRequestT :: rtype where
  "enrRequestT = TStruct [Field noTags (TUint 64), restField]"

text \<open>\<^verbatim>\<open>enr.Record\<close> brings its own encoder, which writes the raw bytes, and its own decoder.\<close>

definition enrResponseT :: rtype where
  "enrResponseT = TStruct [Field noTags TByteSlice, Field noTags TRaw, restField]"

definition endpointV :: "endpoint \<Rightarrow> rval" where
  "endpointV e = VStruct [VBytes False (ep_IP e), VUint (ucast (ep_UDP e)), VUint (ucast (ep_TCP e))]"

definition nodeV :: "wireNode \<Rightarrow> rval" where
  "nodeV n = VStruct [VBytes False (wn_IP n), VUint (ucast (wn_UDP n)), VUint (ucast (wn_TCP n)), VBytes False (wn_ID n)]"

definition restV :: "bytes list \<Rightarrow> rval" where
  "restV rs = VSlice (rs = []) (map VRaw rs)"

fun packetT :: "packet \<Rightarrow> rtype" where
  "packetT (Ping v f t e q r) = pingT"
| "packetT (Pong t k e q r) = pongT"
| "packetT (Findnode t e r) = findnodeT"
| "packetT (Neighbors n e r) = neighborsT"
| "packetT (ENRRequest e r) = enrRequestT"
| "packetT (ENRResponse k c r) = enrResponseT"

fun packetV :: "packet \<Rightarrow> rval" where
  "packetV (Ping v f t e q r) = VStruct [VUint v, endpointV f, endpointV t, VUint e, VUint q, restV r]"
| "packetV (Pong t k e q r) = VStruct [endpointV t, VBytes False k, VUint e, VUint q, restV r]"
| "packetV (Findnode t e r) = VStruct [VBytes False t, VUint e, restV r]"
| "packetV (Neighbors n e r) = VStruct [VSlice (n = []) (map nodeV n), VUint e, restV r]"
| "packetV (ENRRequest e r) = VStruct [VUint e, restV r]"
| "packetV (ENRResponse k c r) = VStruct [VBytes False k, VRaw (enr_raw c), restV r]"

text \<open>The fields of a decoded struct.\<close>

fun endpointOf :: "rval \<Rightarrow> endpoint option" where
  "endpointOf (VStruct [VBytes n i, VUint u, VUint t]) = Some \<lparr>ep_IP = i, ep_UDP = ucast u, ep_TCP = ucast t\<rparr>"
| "endpointOf _ = None"

fun nodeOf :: "rval \<Rightarrow> wireNode option" where
  "nodeOf (VStruct [VBytes n i, VUint u, VUint t, VBytes m d]) = Some \<lparr>wn_IP = i, wn_UDP = ucast u, wn_TCP = ucast t, wn_ID = d\<rparr>"
| "nodeOf _ = None"

fun rawOf :: "rval \<Rightarrow> bytes option" where
  "rawOf (VRaw b) = Some b"
| "rawOf _ = None"

fun all_some :: "('a \<Rightarrow> 'b option) \<Rightarrow> 'a list \<Rightarrow> 'b list option" where
  "all_some f [] = Some []"
| "all_some f (x # xs) =
     (case f x of None \<Rightarrow> None | Some y \<Rightarrow> (case all_some f xs of None \<Rightarrow> None | Some ys \<Rightarrow> Some (y # ys)))"

fun pingOf :: "rval \<Rightarrow> packet option" where
  "pingOf (VStruct [VUint v, f, t, VUint e, VUint q, VSlice n r]) =
     (case (endpointOf f, endpointOf t, all_some rawOf r) of
        (Some f, Some t, Some r) \<Rightarrow> Some (Ping v f t e q r) | _ \<Rightarrow> None)"
| "pingOf _ = None"

fun pongOf :: "rval \<Rightarrow> packet option" where
  "pongOf (VStruct [t, VBytes m k, VUint e, VUint q, VSlice n r]) =
     (case (endpointOf t, all_some rawOf r) of (Some t, Some r) \<Rightarrow> Some (Pong t k e q r) | _ \<Rightarrow> None)"
| "pongOf _ = None"

fun findnodeOf :: "rval \<Rightarrow> packet option" where
  "findnodeOf (VStruct [VBytes m t, VUint e, VSlice n r]) = map_option (Findnode t e) (all_some rawOf r)"
| "findnodeOf _ = None"

fun neighborsOf :: "rval \<Rightarrow> packet option" where
  "neighborsOf (VStruct [VSlice m ns, VUint e, VSlice n r]) =
     (case (all_some nodeOf ns, all_some rawOf r) of (Some ns, Some r) \<Rightarrow> Some (Neighbors ns e r) | _ \<Rightarrow> None)"
| "neighborsOf _ = None"

fun enrRequestOf :: "rval \<Rightarrow> packet option" where
  "enrRequestOf (VStruct [VUint e, VSlice n r]) = map_option (ENRRequest e) (all_some rawOf r)"
| "enrRequestOf _ = None"

fun enrResponseOf :: "rval \<Rightarrow> packet option" where
  "enrResponseOf (VStruct [VBytes m k, VRaw raw, VSlice n r]) =
     (case (decodeContainer raw, all_some rawOf r) of
        (Inr c, Some r) \<Rightarrow> Some (ENRResponse k c r) | _ \<Rightarrow> None)"
| "enrResponseOf _ = None"

subsection \<open>Hashes and signatures\<close>

record 'k crypto_ops =
  Keccak256 :: "bytes \<Rightarrow> bytes"
  crypto_Sign :: "bytes \<Rightarrow> 'k \<Rightarrow> string + bytes"
  Ecrecover :: "bytes \<Rightarrow> bytes \<Rightarrow> string + bytes"

definition macSize :: nat where
  "macSize = 32"

definition sigSize :: nat where
  "sigSize = 65"

definition headSize :: nat where
  "headSize = macSize + sigSize"

text \<open>
  A hash has 32 bytes; \<^verbatim>\<open>Sign\<close> with this key succeeds on a hash and yields 65 bytes, from which
  \<^verbatim>\<open>Ecrecover\<close> gets the uncompressed public key, a format byte before it.
\<close>

definition crypto_ok :: "'k crypto_ops \<Rightarrow> 'k \<Rightarrow> bytes \<Rightarrow> bool" where
  "crypto_ok ops priv pub \<longleftrightarrow>
     length pub = 64 \<and> (\<forall>b. length (Keccak256 ops b) = 32) \<and>
     (\<forall>h. length h = 32 \<longrightarrow>
        (\<exists>sig fmt. crypto_Sign ops h priv = Inr sig \<and> length sig = 65 \<and> Ecrecover ops h sig = Inr (fmt # pub)))"

subsection \<open>The frame\<close>

datatype v4Error = ErrPacketTooSmall | ErrBadHash | errCrypto string | errUnknownType byte | errRlp rlpError | errEnr enrError

text \<open>\<^verbatim>\<open>copy(dst[i:], src)\<close>.\<close>

definition copy_at :: "nat \<Rightarrow> bytes \<Rightarrow> bytes \<Rightarrow> bytes" where
  "copy_at i src dst = take i dst @ take (length dst - i) src @ drop (i + length src) dst"

definition recoverNodeKey :: "'k crypto_ops \<Rightarrow> bytes \<Rightarrow> bytes \<Rightarrow> string + bytes" where
  "recoverNodeKey ops hash sig =
     (case Ecrecover ops hash sig of
        Inl err \<Rightarrow> Inl err
      | Inr pubkey \<Rightarrow> Inr (copy_at 0 (drop 1 pubkey) (replicate 64 0)))"

text \<open>A decoder of \<^verbatim>\<open>enr.Record\<close> as a field: the raw bytes of the record it accepts.\<close>

definition enrField :: "rval sr" where
  "enrField s =
     (case decodeRecord s of
        (Inr r, s') \<Rightarrow> (Inr (VRaw (enr_raw r)), s')
      | (Inl (rlpErr e), s') \<Rightarrow> (Inl e, s')
      | (Inl e, s') \<Rightarrow> (Inl (decodeError ''enr''), s'))"

definition enrResponseDecoder :: "rval sr" where
  "enrResponseDecoder =
     sr_bind (structDecoder
       [(Field noTags TByteSlice, makeDecoder noTags TByteSlice), (Field noTags TRaw, enrField),
        (restField, makeDecoder tailTag (TSlice TRaw))])
       (\<lambda>vs. sr_return (VStruct vs))"

definition decodePacket :: "byte \<Rightarrow> bytes \<Rightarrow> v4Error + packet" where
  "decodePacket ptype b =
     (let s = stream_Reset b 0;
          get = (\<lambda>dec packetOf. case dec s of
                   (Inl err, _) \<Rightarrow> Inl (errRlp err)
                 | (Inr v, _) \<Rightarrow> (case packetOf v of Some p \<Rightarrow> Inr p | None \<Rightarrow> Inl (errRlp typeMismatch)))
      in if ptype = 1 then get (makeDecoder noTags pingT) pingOf
         else if ptype = 2 then get (makeDecoder noTags pongT) pongOf
         else if ptype = 3 then get (makeDecoder noTags findnodeT) findnodeOf
         else if ptype = 4 then get (makeDecoder noTags neighborsT) neighborsOf
         else if ptype = 5 then get (makeDecoder noTags enrRequestT) enrRequestOf
         else if ptype = 6 then get enrResponseDecoder enrResponseOf
         else Inl (errUnknownType ptype))"

text \<open>\<^verbatim>\<open>Decode\<close>: the packet or an error, the sender's key, the hash.\<close>

definition v4_Decode :: "'k crypto_ops \<Rightarrow> bytes \<Rightarrow> (v4Error + packet) \<times> bytes \<times> bytes" where
  "v4_Decode ops input =
     (if length input < headSize + 1 then (Inl ErrPacketTooSmall, replicate 64 0, [])
      else
        let hash = take macSize input; sig = take sigSize (drop macSize input); sigdata = drop headSize input
        in if hash \<noteq> Keccak256 ops (drop macSize input) then (Inl ErrBadHash, replicate 64 0, [])
           else
             case recoverNodeKey ops (Keccak256 ops (drop headSize input)) sig of
               Inl err \<Rightarrow> (Inl (errCrypto err), replicate 64 0, hash)
             | Inr fromKey \<Rightarrow> (decodePacket (sigdata ! 0) (drop 1 sigdata), fromKey, hash))"

text \<open>\<^verbatim>\<open>rlp.Encode\<close> of a packet; a record without a signature cannot be encoded.\<close>

definition encodePacket :: "packet \<Rightarrow> v4Error + bytes" where
  "encodePacket req =
     (case req of
        ENRResponse k c r \<Rightarrow>
          if enr_signature c = None then Inl (errEnr errEncodeUnsigned)
          else map_sum errRlp id (EncodeToBytes (packetT req) (packetV req))
      | _ \<Rightarrow> map_sum errRlp id (EncodeToBytes (packetT req) (packetV req)))"

definition v4_Encode :: "'k crypto_ops \<Rightarrow> 'k \<Rightarrow> packet \<Rightarrow> v4Error + bytes \<times> bytes" where
  "v4_Encode ops priv req =
     (case encodePacket req of
        Inl err \<Rightarrow> Inl err
      | Inr body \<Rightarrow>
          let packet = replicate headSize 0 @ [packet_Kind req] @ body
          in case crypto_Sign ops (Keccak256 ops (drop headSize packet)) priv of
               Inl err \<Rightarrow> Inl (errCrypto err)
             | Inr sig \<Rightarrow>
                 let packet = copy_at macSize sig packet;
                     hash = Keccak256 ops (drop macSize packet)
                 in Inr (copy_at 0 hash packet, hash))"

subsection \<open>Public keys\<close>

text \<open>\<^verbatim>\<open>math.ReadBits\<close>: the words of a big integer, lowest first, fill the buffer from its end.\<close>

fun readWord :: "nat \<Rightarrow> u64 \<Rightarrow> nat \<times> bytes \<Rightarrow> nat \<times> bytes" where
  "readWord (Suc j) d (Suc i, buf) = readWord j (drop_bit 8 d) (i, buf[i := ucast d])"
| "readWord j d (i, buf) = (i, buf)"

definition ReadBits :: "u64 list \<Rightarrow> bytes \<Rightarrow> bytes" where
  "ReadBits words buf = snd (fold (readWord 8) words (length buf, buf))"

record publicKey =
  pk_X :: nat
  pk_Y :: nat

definition EncodePubkey :: "publicKey \<Rightarrow> bytes" where
  "EncodePubkey key = ReadBits (big_Bits (pk_X key)) (replicate 32 0) @ ReadBits (big_Bits (pk_Y key)) (replicate 32 0)"

text \<open>The curve is an argument: only \<^verbatim>\<open>IsOnCurve\<close> is used; a point off the curve is an error.\<close>

definition DecodePubkey :: "(nat \<Rightarrow> nat \<Rightarrow> bool) \<Rightarrow> bytes \<Rightarrow> publicKey option" where
  "DecodePubkey IsOnCurve e =
     (let half = length e div 2; p = \<lparr>pk_X = be_val (take half e), pk_Y = be_val (drop half e)\<rparr>
      in if IsOnCurve (pk_X p) (pk_Y p) then Some p else None)"

subsection \<open>Reading a packet's RLP form back\<close>

lemma erase_eq_iff:
  "erase v = VUint n \<longleftrightarrow> v = VUint n"
  "erase v = VRaw b \<longleftrightarrow> v = VRaw b"
  "erase v = VBytes False b \<longleftrightarrow> (\<exists>isnil. v = VBytes isnil b)"
  "erase v = VSlice False ws \<longleftrightarrow> (\<exists>isnil vs. v = VSlice isnil vs \<and> map erase vs = ws)"
  "erase v = VStruct ws \<longleftrightarrow> (\<exists>vs. v = VStruct vs \<and> map erase vs = ws)"
  by (cases v; auto)+

lemma all_some_map:
  assumes "map erase vs = map (\<lambda>x. erase (f x)) xs" "\<And>x v. x \<in> set xs \<Longrightarrow> erase v = erase (f x) \<Longrightarrow> g v = Some x"
  shows "all_some g vs = Some xs"
  using assms
proof (induction xs arbitrary: vs)
  case (Cons x xs)
  then obtain z zs where "vs = z # zs" "erase z = erase (f x)" "all_some g zs = Some xs"
    by (auto simp: map_eq_Cons_conv)
  with Cons.prems(2) [of x z] show ?case by simp
qed simp

lemma ucast_up_down [simp]: "(ucast (ucast (x :: u16) :: u64) :: u16) = x"
  by (rule unsigned_word_eqI) (simp add: unsigned_ucast_eq take_bit_word_eq_self)

lemma unat_ucast_u16 [simp]: "unat (ucast (x :: u16) :: u64) < 65536"
proof -
  have "unat x < 2 ^ LENGTH(16)" by (rule unsigned_less)
  then show ?thesis by (simp add: unsigned_ucast_eq take_bit_nat_eq_self)
qed

lemma endpointOf_erase: "erase v = erase (endpointV e) \<Longrightarrow> endpointOf v = Some e"
  by (auto simp: endpointV_def erase_eq_iff map_eq_Cons_conv)

lemma nodeOf_erase: "erase v = erase (nodeV n) \<Longrightarrow> nodeOf v = Some n"
  by (auto simp: nodeV_def erase_eq_iff map_eq_Cons_conv)

lemma restOf_erase: "erase v = erase (restV rs) \<Longrightarrow> \<exists>isnil vs. v = VSlice isnil vs \<and> all_some rawOf vs = Some rs"
  using all_some_map [of _ VRaw rs rawOf] by (auto simp: restV_def erase_eq_iff o_def)

lemma nodesOf_erase: "map erase vs = map (erase \<circ> nodeV) ns \<Longrightarrow> all_some nodeOf vs = Some ns"
  by (rule all_some_map [of _ nodeV]) (simp_all add: nodeOf_erase o_def)

definition rest_ok :: "bytes list \<Rightarrow> bool" where
  "rest_ok rs \<longleftrightarrow> list_all is_frame rs"

fun packet_ok :: "packet \<Rightarrow> bool" where
  "packet_ok (Findnode t e r) = (length t = 64 \<and> rest_ok r)"
| "packet_ok (Neighbors ns e r) = (list_all (\<lambda>n. length (wn_ID n) = 64) ns \<and> rest_ok r)"
| "packet_ok (ENRResponse k c r) =
     (record_ok c \<and> (\<exists>sig. enr_signature c = Some sig \<and> enr_raw c = enr_enc c sig) \<and> length (enr_raw c) \<le> SizeLimit \<and> rest_ok r)"
| "packet_ok p = rest_ok (Rest p)"

lemmas packetT_defs = pingT_def pongT_def findnodeT_def neighborsT_def enrRequestT_def enrResponseT_def

lemmas partT_defs = restField_def tailTag_def optionalTag_def noTags_def endpointT_def nodeT_def

lemma packet_type_ok: "type_ok (packetT p)"
  by (cases p) (simp_all add: packetT_defs partT_defs tags_ok_def)

lemma endpoint_typed [simp]: "has_type endpointT (endpointV e)"
  by (auto simp: endpointT_def endpointV_def)

lemma node_typed: "length (wn_ID n) = 64 \<Longrightarrow> has_type nodeT (nodeV n)"
  by (auto simp: nodeT_def nodeV_def)

lemma rest_typed [simp]: "has_type (TSlice TRaw) (restV rs)"
  by (auto simp: restV_def list_all_iff)

lemma packet_typed: "packet_ok p \<Longrightarrow> has_type (packetT p) (packetV p)"
proof (cases p)
  case (Neighbors ns e r)
  moreover assume "packet_ok p"
  ultimately have "list_all (has_type nodeT) (map nodeV ns)" by (auto simp: list_all_iff node_typed)
  with Neighbors show ?thesis by (auto simp: neighborsT_def restField_def restV_def list_all_iff)
qed (auto simp: packetT_defs restField_def restV_def list_all_iff)

lemma rt_ok_struct:
  assumes "has_type (TStruct fs) (VStruct vs)" "list_all2 (\<lambda>f v. rt_ok (f_tags f) (f_type f) v) fs vs"
  shows "rt_ok tg (TStruct fs) (VStruct vs)"
proof -
  have "list_all (\<lambda>(ok, v). ok v) (zip (map (\<lambda>f. rt_ok (f_tags f) (f_type f)) fs) vs)"
    using assms(2) by (auto simp: list_all_length list_all2_conv_all_nth)
  then have "list_all (\<lambda>(ok, v). ok v) (take n (zip (map (\<lambda>f. rt_ok (f_tags f) (f_type f)) fs) vs))" for n
    by (auto simp: list_all_iff dest: in_set_takeD)
  with assms(1) show ?thesis by (simp only: rt_ok.simps) blast
qed

lemma endpoint_rt [simp]: "rt_ok tg endpointT (endpointV e)"
  using endpoint_typed [of e] unfolding endpointT_def endpointV_def by (intro rt_ok_struct) auto

lemma node_rt: "length (wn_ID n) = 64 \<Longrightarrow> rt_ok tg nodeT (nodeV n)"
  using node_typed [of n] unfolding nodeT_def nodeV_def by (intro rt_ok_struct) auto

lemma rest_rt: "rest_ok rs \<Longrightarrow> rt_ok tg (TSlice TRaw) (restV rs)"
  by (auto simp: restV_def rest_ok_def list_all_iff is_frame_def)

lemma uint_rt [simp]: "rt_ok tg (TUint 64) (VUint n)"
proof -
  have "unat n < 2 ^ LENGTH(64)" by (rule unsigned_less)
  then show ?thesis by simp
qed

lemma bytes_rt [simp]: "rt_ok tg TByteSlice (VBytes isnil b)" "length b = n \<Longrightarrow> rt_ok tg (TByteArray n) (VBytes False b)"
  by simp_all

lemma nodes_rt: "list_all (\<lambda>n. length (wn_ID n) = 64) ns \<Longrightarrow> rt_ok tg (TSlice nodeT) (VSlice isnil (map nodeV ns))"
  by (auto simp: list_all_iff node_rt)

lemmas packet_part_rt = endpoint_rt uint_rt bytes_rt nodes_rt rest_rt

lemma packet_rt:
  assumes "packet_ok p" "\<forall>k c r. p \<noteq> ENRResponse k c r"
  shows "rt_ok noTags (packetT p) (packetV p)"
proof -
  obtain fs vs where p: "packetT p = TStruct fs" "packetV p = VStruct vs" "list_all2 (\<lambda>f v. rt_ok (f_tags f) (f_type f) v) fs vs"
    using assms by (cases p) (auto simp: packetT_defs restField_def packet_part_rt simp del: rt_ok.simps)
  with packet_typed [OF assms(1)] show ?thesis by (simp only: rt_ok_struct)
qed

definition packet_body :: "packet \<Rightarrow> bytes" where
  "packet_body p = renc noTags (packetT p) (packetV p)"

lemma decodes_stream:
  assumes "decodes dec v e" "length (e @ r) < 2 ^ 63"
  shows "\<exists>s'. dec (stream_Reset (e @ r) 0) = (Inr v, s')"
  using decodesD [OF assms(1) ready_Reset [OF assms(2)]] assms(2) by (auto simp: room_def)

lemma packet_stream:
  assumes "packet_ok p" "\<forall>k c r. p \<noteq> ENRResponse k c r" "length (packet_body p @ r) < 2 ^ 63"
  shows "\<exists>v s'. makeDecoder noTags (packetT p) (stream_Reset (packet_body p @ r) 0) = (Inr v, s') \<and> erase v = erase (packetV p)"
proof -
  have nt: "\<not> Tail noTags" by (simp add: noTags_def)
  have "type_decodes noTags (packetT p) (packetV p)"
    using packet_rt [OF assms(1,2)] packet_type_ok by (rule type_decodes_all) (simp add: tags_ok_def noTags_def)
  then obtain v where v: "erase v = erase (packetV p)" "decodes (makeDecoder noTags (packetT p)) v (packet_body p)"
    unfolding type_decodes_noTail [OF nt] packet_body_def by blast
  with decodes_stream [OF v(2) assms(3)] show ?thesis by blast
qed

lemma pingOf_erase: "erase v = erase (packetV (Ping w f t e q r)) \<Longrightarrow> pingOf v = Some (Ping w f t e q r)"
  using restOf_erase by (fastforce simp: erase_eq_iff map_eq_Cons_conv endpointOf_erase)

lemma pongOf_erase: "erase v = erase (packetV (Pong t k e q r)) \<Longrightarrow> pongOf v = Some (Pong t k e q r)"
  using restOf_erase by (fastforce simp: erase_eq_iff map_eq_Cons_conv endpointOf_erase)

lemma findnodeOf_erase: "erase v = erase (packetV (Findnode t e r)) \<Longrightarrow> findnodeOf v = Some (Findnode t e r)"
  using restOf_erase by (fastforce simp: erase_eq_iff map_eq_Cons_conv)

lemma neighborsOf_erase: "erase v = erase (packetV (Neighbors ns e r)) \<Longrightarrow> neighborsOf v = Some (Neighbors ns e r)"
  using restOf_erase by (fastforce simp: erase_eq_iff map_eq_Cons_conv nodesOf_erase)

lemma enrRequestOf_erase: "erase v = erase (packetV (ENRRequest e r)) \<Longrightarrow> enrRequestOf v = Some (ENRRequest e r)"
  using restOf_erase by (fastforce simp: erase_eq_iff map_eq_Cons_conv)

lemmas packetOf_erase = pingOf_erase pongOf_erase findnodeOf_erase neighborsOf_erase enrRequestOf_erase

lemma decodes_enrField:
  assumes "record_ok c" "enr_signature c = Some sig" "enr_raw c = enr_enc c sig" "length (enr_raw c) \<le> SizeLimit"
  shows "decodes enrField (VRaw (enr_raw c)) (enr_raw c)"
proof -
  have c: "decodeContainer (enr_raw c) = Inr c"
    using decodeContainer_ok [OF assms(1), of sig] assms(2-4) by (simp add: SizeLimit_def)
  have raw: "decodes stream_Raw (enr_raw c) (enr_raw c)"
    unfolding assms(3) by (intro decodes_raw_ok is_frame_raw_ok) (simp add: enr_enc_def)
  show ?thesis
    unfolding decodes_def
  proof (intro allI impI)
    fix s r stk
    assume "ready s (enr_raw c @ r) stk" "room stk (length (enr_raw c))" "length (enr_raw c @ r) < 2 ^ 63"
    from decodesD [OF raw this] assms(4) c
    show "\<exists>s'. enrField s = (Inr (VRaw (enr_raw c)), s') \<and> ready s' r (consume stk (length (enr_raw c)))"
      by (auto simp: enrField_def decodeRecord_def)
  qed
qed

lemma decodes_rest:
  assumes "rest_ok rs"
  shows "field_decodes restField (makeDecoder tailTag (TSlice TRaw)) (VSlice False (map VRaw rs)) (concat rs)"
proof -
  have "decodes (makeDecoder noTags TRaw) (VRaw b) b" if "b \<in> set rs" for b
    using that assms decodes_bind_return [OF decodes_raw_ok [OF is_frame_raw_ok, of b], of VRaw] by (simp add: rest_ok_def list_all_iff)
  then have "list_all2 (decodes (makeDecoder noTags TRaw)) (map VRaw rs) rs" by (simp add: list_all2_conv_all_nth)
  moreover have "\<forall>b \<in> set rs. b \<noteq> []" using assms is_frame_not_Nil by (auto simp: rest_ok_def list_all_iff)
  ultimately show ?thesis using eol_makeDecoder [of noTags TRaw] tail_decodes_slice
    by (simp add: field_decodes_def restField_def tailTag_def noTags_def)
qed

lemma enrResponse_body: "packet_body (ENRResponse k c r) = rlp_list (rlp_string k @ enr_raw c @ concat r)"
  by (simp add: packet_body_def enrResponseT_def restField_def restV_def fieldCount_def firstOptionalField_def
      tailTag_def noTags_def o_def)

lemma enrResponse_stream:
  assumes "packet_ok (ENRResponse k c r)" "length (packet_body (ENRResponse k c r) @ rest) < 2 ^ 63"
  shows "\<exists>s'. enrResponseDecoder (stream_Reset (packet_body (ENRResponse k c r) @ rest) 0) =
    (Inr (VStruct [VBytes False k, VRaw (enr_raw c), VSlice False (map VRaw r)]), s')"
proof -
  let ?xs = "[(Field noTags TByteSlice, makeDecoder noTags TByteSlice), (Field noTags TRaw, enrField),
    (restField, makeDecoder tailTag (TSlice TRaw))]"
  let ?ves = "[(VBytes False k, rlp_string k), (VRaw (enr_raw c), enr_raw c), (VSlice False (map VRaw r), concat r)]"
  have f: "field_decodes (Field noTags TByteSlice) (makeDecoder noTags TByteSlice) (VBytes False k) (rlp_string k)"
    using decodes_bind_return [OF decodes_wrap [OF decodes_Bytes]] by (simp add: field_decodes_def noTags_def)
  have g: "field_decodes (Field noTags TRaw) enrField (VRaw (enr_raw c)) (enr_raw c)"
    using assms(1) decodes_enrField [of c] by (auto simp: field_decodes_def noTags_def)
  have "decodes (structDecoder (?xs @ [])) (map fst ?ves @ []) (rlp_list (concat (map snd ?ves)))"
  proof (rule decodes_struct [OF _ _ omitted_Nil])
    show "list_all2 (\<lambda>(f, dec) (v, e). field_decodes f dec v e) ?xs ?ves"
      using f g decodes_rest [of r] assms(1) by simp
    show "tail_last ?xs ([], [])"
      by (auto simp: tail_last_def Cons_eq_append_conv noTags_def)
  qed
  then have "decodes enrResponseDecoder (VStruct (map fst ?ves)) (packet_body (ENRResponse k c r))"
    using decodes_bind_return unfolding enrResponseDecoder_def enrResponse_body by fastforce
  from decodes_stream [OF this assms(2)] show ?thesis by simp
qed

lemma decodePacket_ok:
  assumes "packet_ok p" "length (packet_body p @ rest) < 2 ^ 63"
  shows "decodePacket (packet_Kind p) (packet_body p @ rest) = Inr p"
proof (cases "\<exists>k c r. p = ENRResponse k c r")
  case True
  then obtain k c r where p: "p = ENRResponse k c r" by blast
  from enrResponse_stream assms p obtain s' where
    s': "enrResponseDecoder (stream_Reset (packet_body p @ rest) 0) =
      (Inr (VStruct [VBytes False k, VRaw (enr_raw c), VSlice False (map VRaw r)]), s')" by blast
  from assms(1) p obtain sig where
    c: "record_ok c" "enr_signature c = Some sig" "enr_raw c = enr_enc c sig" "length (enr_raw c) \<le> SizeLimit" by auto
  then have "decodeContainer (enr_raw c) = Inr c"
    using decodeContainer_ok [OF c(1), of sig] by (simp add: SizeLimit_def)
  moreover have "all_some rawOf (map VRaw r) = Some r" by (rule all_some_map [of _ VRaw]) (auto simp: erase_eq_iff)
  ultimately show ?thesis using s' p by (simp add: decodePacket_def)
next
  case False
  with packet_stream [OF assms(1) _ assms(2)] obtain v s' where
    v: "makeDecoder noTags (packetT p) (stream_Reset (packet_body p @ rest) 0) = (Inr v, s')" "erase v = erase (packetV p)" by blast
  with False show ?thesis
    by (cases p) (simp_all add: decodePacket_def packetOf_erase del: packetV.simps)
qed

lemma encodePacket_ok:
  assumes "packet_ok p" "length (packet_body p) < 2 ^ 63"
  shows "encodePacket p = Inr (packet_body p)"
  using EncodeToBytes_renc [OF packet_typed [OF assms(1)] packet_type_ok] assms
  by (cases p) (auto simp: encodePacket_def packet_body_def)

text \<open>The signature, then the hash, are written over the zeros in front of the packet.\<close>

lemma v4_Encode_layout:
  assumes "crypto_ok ops priv pub" "packet_ok p" "length (packet_body p) < 2 ^ 63"
  shows "\<exists>sig fmt. length sig = sigSize \<and> Ecrecover ops (Keccak256 ops (packet_Kind p # packet_body p)) sig = Inr (fmt # pub) \<and>
    v4_Encode ops priv p =
      (let tl = sig @ packet_Kind p # packet_body p; hash = Keccak256 ops tl in Inr (hash @ tl, hash))"
proof -
  let ?d = "packet_Kind p # packet_body p"
  from assms(1) obtain sig fmt where sig: "crypto_Sign ops (Keccak256 ops ?d) priv = Inr sig" "length sig = 65"
    "Ecrecover ops (Keccak256 ops ?d) sig = Inr (fmt # pub)" unfolding crypto_ok_def by blast
  have len: "length (Keccak256 ops b) = 32" for b using assms(1) by (simp add: crypto_ok_def)
  from sig len encodePacket_ok [OF assms(2,3)] show ?thesis
    by (auto simp: v4_Encode_def Let_def headSize_def macSize_def sigSize_def copy_at_def)
qed

lemma recoverNodeKey_ok:
  "Ecrecover ops h sig = Inr (fmt # pub) \<Longrightarrow> length pub = 64 \<Longrightarrow> recoverNodeKey ops h sig = Inr pub"
  by (simp add: recoverNodeKey_def copy_at_def)

lemma v4_Decode_layout:
  assumes "length hash = macSize" "length sig = sigSize" "hash = Keccak256 ops (sig @ k # body)"
    and "Ecrecover ops (Keccak256 ops (k # body)) sig = Inr (fmt # pub)" "length pub = 64"
  shows "v4_Decode ops (hash @ sig @ k # body) = (decodePacket k body, pub, hash)"
  using assms recoverNodeKey_ok [OF assms(4,5)] by (simp add: v4_Decode_def headSize_def)

subsection \<open>Properties\<close>

text \<open>
  C32: what one node encodes, another decodes: every well-formed packet is encoded, and decoding
  the datagram gives the same packet, the sender's public key and the packet's hash. The hash and
  the signature overwrite exactly the space reserved for them.
\<close>

theorem v4wire_roundtrip:
  assumes "crypto_ok ops priv pub" "packet_ok p" "length (packet_body p) < 2 ^ 63"
  shows "\<exists>datagram hash. v4_Encode ops priv p = Inr (datagram, hash) \<and> v4_Decode ops datagram = (Inr p, pub, hash)"
proof -
  from v4_Encode_layout [OF assms] obtain sig fmt where
    e: "length sig = sigSize" "Ecrecover ops (Keccak256 ops (packet_Kind p # packet_body p)) sig = Inr (fmt # pub)"
    "v4_Encode ops priv p =
      (let tl = sig @ packet_Kind p # packet_body p; hash = Keccak256 ops tl in Inr (hash @ tl, hash))" by blast
  let ?h = "Keccak256 ops (sig @ packet_Kind p # packet_body p)"
  have "length ?h = macSize" "length pub = 64" using assms(1) by (simp_all add: crypto_ok_def macSize_def)
  from v4_Decode_layout [OF this(1) e(1) refl e(2) this(2)] decodePacket_ok [of p "[]"] assms(2,3)
  show ?thesis by (simp add: e(3) Let_def)
qed

theorem v4wire_roundtrip_witness:
  "let ops = \<lparr>Keccak256 = \<lambda>b. replicate 32 (of_nat (length b)), crypto_Sign = \<lambda>h priv. Inr (replicate 65 priv),
              Ecrecover = \<lambda>h sig. Inr (replicate 65 (sig ! 0))\<rparr>;
       p = Neighbors [\<lparr>wn_IP = [10, 0, 0, 1], wn_UDP = 30303, wn_TCP = 0, wn_ID = replicate 64 9\<rparr>] 1668000000 [[5]]
   in \<exists>datagram hash. v4_Encode ops (7 :: byte) p = Inr (datagram, hash) \<and> v4_Decode ops datagram = (Inr p, replicate 64 7, hash)"
  unfolding Let_def
proof (rule v4wire_roundtrip)
  let ?p = "Neighbors [\<lparr>wn_IP = [10, 0, 0, 1], wn_UDP = 30303, wn_TCP = 0, wn_ID = replicate 64 9\<rparr>] 1668000000 [[5]]"
  show "crypto_ok \<lparr>Keccak256 = \<lambda>b. replicate 32 (of_nat (length b)), crypto_Sign = \<lambda>h priv. Inr (replicate 65 priv),
      Ecrecover = \<lambda>h sig. Inr (replicate 65 (sig ! 0))\<rparr> (7 :: byte) (replicate 64 7)"
    by (auto simp: crypto_ok_def eval_nat_numeral)
  have "is_frame [5]" using is_frame_string [of "[5]"] by (simp add: rlp_string_def)
  then show "packet_ok ?p" by (simp add: rest_ok_def)
  show "length (packet_body ?p) < 2 ^ 63"
    by (simp add: packet_body_def neighborsT_def nodeT_def nodeV_def restField_def restV_def fieldCount_def firstOptionalField_def
        tailTag_def noTags_def rlp_list_def rlp_string_def rlp_head_def uint_bytes_def be_bytes_step be_bytes_last)
qed

subsubsection \<open>The size of a reply\<close>

lemma length_rlp_string_short: "length b < 56 \<Longrightarrow> length (rlp_string b) \<le> Suc (length b)"
  by (simp add: rlp_string_def rlp_head_def)

lemma length_rlp_head_mid: "56 \<le> n \<Longrightarrow> n < 256 \<Longrightarrow> length (rlp_head t n) = 2"
  by (simp add: rlp_head_def be_bytes_last)

lemma length_rlp_head_le3: "n < 65536 \<Longrightarrow> length (rlp_head t n) \<le> 3"
  using length_be_bytes_le [of n 2] by (simp add: rlp_head_def)

lemma length_uint16: "length (rlp_string (uint_bytes (unat (ucast (x :: u16) :: u64)))) \<le> 3"
proof -
  have "length (uint_bytes (unat (ucast x :: u64))) \<le> 2"
    using length_uint_bytes_bits [of "ucast x" 16] by simp
  with length_rlp_string_short [of "uint_bytes (unat (ucast x :: u64))"] show ?thesis by linarith
qed

definition node_fits :: "wireNode \<Rightarrow> bool" where
  "node_fits n \<longleftrightarrow> length (wn_IP n) \<le> 16 \<and> length (wn_ID n) = 64"

lemma node_size: "node_fits n \<Longrightarrow> length (renc noTags nodeT (nodeV n)) \<le> 91"
proof -
  assume n: "node_fits n"
  let ?p = "rlp_string (wn_IP n) @ rlp_string (uint_bytes (unat (ucast (wn_UDP n) :: u64))) @
    rlp_string (uint_bytes (unat (ucast (wn_TCP n) :: u64))) @ rlp_string (wn_ID n)"
  have e: "renc noTags nodeT (nodeV n) = rlp_list ?p"
    by (simp add: nodeT_def nodeV_def fieldCount_def firstOptionalField_def noTags_def)
  have "length (rlp_string (wn_ID n)) = 66" using n by (simp add: node_fits_def rlp_string_def length_rlp_head_mid)
  moreover have "length (rlp_string (wn_IP n)) \<le> 17" using n length_rlp_string_short [of "wn_IP n"] by (simp add: node_fits_def)
  ultimately have "56 \<le> length ?p" "length ?p \<le> 89" using length_uint16 [of "wn_UDP n"] length_uint16 [of "wn_TCP n"] by simp_all
  then show ?thesis unfolding e rlp_list_def using length_rlp_head_mid [of "length ?p" 192] by (simp del: length_append) simp
qed

lemma nodes_size: "list_all node_fits ns \<Longrightarrow> length (concat (map (renc noTags nodeT \<circ> nodeV) ns)) \<le> 91 * length ns"
  by (induction ns) (auto dest: node_size)

lemma neighbors_body: "packet_body (Neighbors ns e []) =
    rlp_list (rlp_list (concat (map (renc noTags nodeT \<circ> nodeV) ns)) @ rlp_string (uint_bytes (unat e)))"
  by (simp add: packet_body_def neighborsT_def restField_def restV_def fieldCount_def firstOptionalField_def tailTag_def noTags_def o_def)

lemma neighbors_size:
  assumes "list_all node_fits ns" "length ns \<le> MaxNeighbors"
  shows "length (packet_body (Neighbors ns e [])) \<le> 1107"
proof -
  let ?c = "concat (map (renc noTags nodeT \<circ> nodeV) ns)"
  have c: "length ?c \<le> 1092" using nodes_size [OF assms(1)] assms(2) by (simp add: MaxNeighbors_def)
  have u: "length (rlp_string (uint_bytes (unat e))) \<le> 9"
    using length_rlp_string_short [of "uint_bytes (unat e)"] length_uint_bytes [of e] by linarith
  have l: "length (rlp_list ?c) \<le> 1095" using length_rlp_head_le3 [of "length ?c" 192] c by (simp add: rlp_list_def)
  let ?p = "rlp_list ?c @ rlp_string (uint_bytes (unat e))"
  have p: "length ?p \<le> 1104" using l u by simp
  then have "length (rlp_list ?p) \<le> 1107" using length_rlp_head_le3 [of "length ?p" 192] unfolding rlp_list_def [of ?p] by simp
  then show ?thesis by (simp only: neighbors_body)
qed

definition maxSizeNode :: wireNode where
  "maxSizeNode = \<lparr>wn_IP = replicate 16 0, wn_UDP = 65535, wn_TCP = 65535, wn_ID = replicate 64 0\<rparr>"

lemma maxSizeNode_size: "length (renc noTags nodeT (nodeV maxSizeNode)) = 91"
proof -
  have u: "unat (ucast (65535 :: u16) :: u64) = 65535" by simp
  have "length (rlp_string (uint_bytes 65535)) = 3"
    by (simp add: rlp_string_def rlp_head_def uint_bytes_def be_bytes_step be_bytes_last)
  then show ?thesis
    by (simp add: nodeT_def nodeV_def maxSizeNode_def fieldCount_def firstOptionalField_def noTags_def u rlp_list_def
        length_rlp_head_mid) (simp add: rlp_string_def rlp_head_def be_bytes_last)
qed

lemma full_packet_size: "1182 \<le> length (packet_body (Neighbors (replicate (Suc MaxNeighbors) maxSizeNode) (-1) []))"
proof -
  let ?c = "concat (map (renc noTags nodeT \<circ> nodeV) (replicate (Suc MaxNeighbors) maxSizeNode))"
  have c: "length ?c = 1183" using maxSizeNode_size by (simp add: length_concat sum_list_replicate MaxNeighbors_def)
  then show ?thesis
    unfolding neighbors_body rlp_list_def by simp
qed

text \<open>
  C33: the constant \<^verbatim>\<open>MaxNeighbors\<close> is right: a reply with that many nodes, whatever their
  addresses and ports, stays below the 1280 bytes a datagram may have, and one node more of the
  largest size would not.
\<close>

theorem MaxNeighbors_fits:
  assumes "crypto_ok ops priv pub" "list_all node_fits ns" "length ns \<le> MaxNeighbors"
  shows "\<exists>datagram hash. v4_Encode ops priv (Neighbors ns e []) = Inr (datagram, hash) \<and> length datagram < 1280 \<and>
    1280 \<le> headSize + 1 + length (packet_body (Neighbors (replicate (Suc MaxNeighbors) maxSizeNode) (-1) []))"
proof -
  let ?p = "Neighbors ns e []"
  have "packet_ok ?p" using assms(2) by (auto simp: list_all_iff node_fits_def rest_ok_def)
  moreover have s: "length (packet_body ?p) \<le> 1107" using assms(2,3) by (rule neighbors_size)
  then have "length (packet_body ?p) < 2 ^ 63" by simp
  ultimately obtain sig where sig: "length sig = sigSize" "v4_Encode ops priv ?p =
      (let tl = sig @ packet_Kind ?p # packet_body ?p; hash = Keccak256 ops tl in Inr (hash @ tl, hash))"
    using v4_Encode_layout [OF assms(1)] by blast
  have "length (Keccak256 ops b) = 32" for b using assms(1) by (simp add: crypto_ok_def)
  with sig s full_packet_size show ?thesis by (simp add: Let_def sigSize_def headSize_def macSize_def)
qed

theorem MaxNeighbors_fits_witness:
  "let ops = \<lparr>Keccak256 = \<lambda>b. replicate 32 (of_nat (length b)), crypto_Sign = \<lambda>h priv. Inr (replicate 65 priv),
              Ecrecover = \<lambda>h sig. Inr (replicate 65 (sig ! 0))\<rparr>
   in \<exists>datagram hash. v4_Encode ops (7 :: byte) (Neighbors (replicate 12 maxSizeNode) 5 []) = Inr (datagram, hash) \<and>
     length datagram < 1280 \<and> 1280 \<le> headSize + 1 + length (packet_body (Neighbors (replicate (Suc MaxNeighbors) maxSizeNode) (-1) []))"
  unfolding Let_def
proof (rule MaxNeighbors_fits)
  show "crypto_ok \<lparr>Keccak256 = \<lambda>b. replicate 32 (of_nat (length b)), crypto_Sign = \<lambda>h priv. Inr (replicate 65 priv),
      Ecrecover = \<lambda>h sig. Inr (replicate 65 (sig ! 0))\<rparr> (7 :: byte) (replicate 64 7)"
    by (auto simp: crypto_ok_def eval_nat_numeral)
qed (simp_all add: MaxNeighbors_def list_all_iff node_fits_def maxSizeNode_def)

subsubsection \<open>Public keys\<close>

lemma be_val_append: "be_val (a @ b) = be_val a * 256 ^ length b + be_val b"
  by (induction b rule: rev_induct) (simp_all add: algebra_simps flip: append_assoc)

lemma be_val_zeros [simp]: "be_val (replicate n 0) = 0"
  by (induction n) (simp_all add: be_val_Cons)

lemma list_update_mid: "(replicate (Suc i) z @ t)[i := x] = replicate i z @ x # t"
  by (simp add: list_update_append replicate_append_same list_update_length flip: replicate_append_same)

lemma readWord_spec:
  "\<exists>u. readWord j d (i, replicate i 0 @ t) = (i - min j i, replicate (i - min j i) 0 @ u @ t) \<and>
    length u = min j i \<and> be_val u = unat d mod 256 ^ min j i"
proof (induction j arbitrary: d i t)
  case (Suc j)
  show ?case
  proof (cases i)
    case (Suc i')
    from Suc.IH [of "drop_bit 8 d" i' "ucast d # t"] obtain u where
      u: "readWord j (drop_bit 8 d) (i', replicate i' 0 @ ucast d # t) =
        (i' - min j i', replicate (i' - min j i') 0 @ u @ ucast d # t)"
      "length u = min j i'" "be_val u = unat (drop_bit 8 d) mod 256 ^ min j i'" by blast
    have "be_val (u @ [ucast d]) = unat d mod 256 ^ Suc (min j i')"
      using u(3) mod_mult2_eq [of "unat d" 256 "256 ^ min j i'"]
      by (simp add: drop_bit_eq_div unat_div)
    with u Suc show ?thesis by (intro exI [of _ "u @ [ucast d]"]) (simp add: list_update_mid del: replicate_Suc)
  qed simp
qed simp

lemma ReadBits_spec:
  "\<exists>u. snd (fold (readWord 8) (big_Bits n) (i, replicate i 0 @ t)) = u @ t \<and> length u = i \<and> be_val u = n mod 256 ^ i"
proof (induction n arbitrary: i t rule: big_Bits.induct)
  case (1 n)
  show ?case
  proof (cases "n = 0")
    case False
    let ?m = "min 8 i"
    from readWord_spec [of 8 "word_of_nat n" i t] obtain u where
      u: "readWord 8 (word_of_nat n) (i, replicate i 0 @ t) = (i - ?m, replicate (i - ?m) 0 @ u @ t)"
      "length u = ?m" "be_val u = unat (word_of_nat n :: u64) mod 256 ^ ?m" by blast
    from "1.IH" [OF False, of "i - ?m" "u @ t"] obtain w where
      w: "snd (fold (readWord 8) (big_Bits (n div 2 ^ 64)) (i - ?m, replicate (i - ?m) 0 @ u @ t)) = w @ u @ t"
      "length w = i - ?m" "be_val w = (n div 2 ^ 64) mod 256 ^ (i - ?m)" by blast
    have "be_val (w @ u) = n mod 256 ^ i"
    proof (cases "8 \<le> i")
      case True
      then have "(256 :: nat) ^ i = 256 ^ 8 * 256 ^ (i - 8)" using power_add [of "256 :: nat" 8 "i - 8"] by simp
      with True u w show ?thesis using mod_mult2_eq [of n "256 ^ 8" "256 ^ (i - 8)"]
        by (simp add: be_val_append unat_of_nat)
    next
      case False
      then have "(256 :: nat) ^ i dvd 256 ^ 8" by (intro le_imp_power_dvd) simp
      then have "n mod 256 ^ 8 mod 256 ^ i = n mod 256 ^ i" by (rule mod_mod_cancel)
      with False u w show ?thesis by (simp add: be_val_append unat_of_nat)
    qed
    with False u w show ?thesis by (intro exI [of _ "w @ u"]) (simp add: big_Bits.simps [of n])
  qed (simp add: big_Bits.simps)
qed


lemma ReadBits_ok: "length (ReadBits (big_Bits n) (replicate k 0)) = k" "n < 256 ^ k \<Longrightarrow> be_val (ReadBits (big_Bits n) (replicate k 0)) = n"
  using ReadBits_spec [of n k "[]"] by (auto simp: ReadBits_def)

text \<open>
  A public key with 256-bit coordinates is 64 bytes in a packet and is read back unless the
  point is not on the curve.
\<close>

theorem pubkey_roundtrip:
  assumes "pk_X key < 2 ^ 256" "pk_Y key < 2 ^ 256"
  shows "length (EncodePubkey key) = 64 \<and>
    DecodePubkey IsOnCurve (EncodePubkey key) = (if IsOnCurve (pk_X key) (pk_Y key) then Some key else None)"
proof -
  have "(2 :: nat) ^ 256 = 256 ^ 32" by simp
  with assms have "be_val (ReadBits (big_Bits (pk_X key)) (replicate 32 0)) = pk_X key"
    "be_val (ReadBits (big_Bits (pk_Y key)) (replicate 32 0)) = pk_Y key" by (auto simp: ReadBits_ok(2))
  then show ?thesis
    by (simp_all add: EncodePubkey_def DecodePubkey_def ReadBits_ok(1))
qed

theorem pubkey_roundtrip_witness:
  "length (EncodePubkey \<lparr>pk_X = 3, pk_Y = 2 ^ 255\<rparr>) = 64 \<and>
   DecodePubkey (\<lambda>x y. odd x) (EncodePubkey \<lparr>pk_X = 3, pk_Y = 2 ^ 255\<rparr>) = Some \<lparr>pk_X = 3, pk_Y = 2 ^ 255\<rparr>"
  using pubkey_roundtrip [of "\<lparr>pk_X = 3, pk_Y = 2 ^ 255\<rparr>" "\<lambda>x y. odd x"] by simp

end
