(* ===== verification/Enode.thy ===== *)
theory Enode
  imports V4wire
begin

text \<open>
  Nodes and their identity (\<^verbatim>\<open>p2p/enode/node.go\<close>, \<^verbatim>\<open>p2p/enode/idscheme.go\<close>): signing and
  verifying a node record with the \<^verbatim>\<open>v4\<close> scheme, the node identifier, and the distance between
  identifiers. The elliptic curve operations are arguments; \<open>sign_ok\<close> says what signing and
  compressing a key promise.
\<close>

subsection \<open>The v4 identity scheme\<close>

record 'k key_ops = "'k crypto_ops" +
  PublicKey :: "'k \<Rightarrow> publicKey"
  crypto_Verify :: "bytes \<Rightarrow> bytes \<Rightarrow> bytes \<Rightarrow> bool"
  CompressPubkey :: "publicKey \<Rightarrow> bytes"
  DecompressPubkey :: "bytes \<Rightarrow> string + publicKey"

definition sign_ok :: "'k key_ops \<Rightarrow> 'k \<Rightarrow> bool" where
  "sign_ok ops priv \<longleftrightarrow>
     (\<forall>b. length (Keccak256 ops b) = 32) \<and>
     length (CompressPubkey ops (PublicKey ops priv)) = 33 \<and>
     DecompressPubkey ops (CompressPubkey ops (PublicKey ops priv)) = Inr (PublicKey ops priv) \<and>
     (\<forall>h. length h = 32 \<longrightarrow>
        (\<exists>sig. crypto_Sign ops h priv = Inr sig \<and> length sig = 65 \<and>
           crypto_Verify ops (CompressPubkey ops (PublicKey ops priv)) h (butlast sig)))"

text \<open>The entries \<^verbatim>\<open>id\<close> and \<^verbatim>\<open>secp256k1\<close>, and the name \<^verbatim>\<open>v4\<close>.\<close>

definition idKey :: bytes where
  "idKey = [105, 100]"

definition secp256k1Key :: bytes where
  "secp256k1Key = [115, 101, 99, 112, 50, 53, 54, 107, 49]"

definition v4Name :: bytes where
  "v4Name = [118, 52]"

text \<open>What is hashed and signed; an encoding error is not looked at and leaves nothing to hash.\<close>

definition signContent :: "enrRecord \<Rightarrow> bytes" where
  "signContent r =
     (case in_list (write_all (\<lambda>(t, v). makeWriter noTags t v) (AppendElements r [])) eb_reset of
        Inl err \<Rightarrow> []
      | Inr w \<Rightarrow> makeBytes w)"

definition V4ID_Verify :: "'k key_ops \<Rightarrow> enrRecord \<Rightarrow> bytes \<Rightarrow> enrError option" where
  "V4ID_Verify ops r sig =
     (case enr_Load r secp256k1Key TByteSlice of
        Inl err \<Rightarrow> Some err
      | Inr (VBytes isnil entry) \<Rightarrow>
          if length entry \<noteq> 33 then Some (schemeErr ''invalid public key'')
          else if \<not> crypto_Verify ops entry (Keccak256 ops (signContent r)) sig then Some ErrInvalidSig
          else None
      | Inr _ \<Rightarrow> Some (rlpErr typeMismatch))"

text \<open>\<^verbatim>\<open>Load\<close> of the public key entry: its decoder reads a byte string and decompresses it.\<close>

definition Secp256k1_Load :: "'k key_ops \<Rightarrow> enrRecord \<Rightarrow> enrError + publicKey" where
  "Secp256k1_Load ops r =
     (case enr_Load r secp256k1Key TByteSlice of
        Inl err \<Rightarrow> Inl err
      | Inr (VBytes isnil buf) \<Rightarrow> map_sum schemeErr id (DecompressPubkey ops buf)
      | Inr _ \<Rightarrow> Inl (rlpErr typeMismatch))"

definition V4ID_NodeAddr :: "'k key_ops \<Rightarrow> enrRecord \<Rightarrow> bytes option" where
  "V4ID_NodeAddr ops r =
     (case Secp256k1_Load ops r of
        Inl err \<Rightarrow> None
      | Inr pubkey \<Rightarrow>
          Some (Keccak256 ops (ReadBits (big_Bits (pk_X pubkey)) (replicate 32 0) @
                               ReadBits (big_Bits (pk_Y pubkey)) (replicate 32 0))))"

definition V4ID :: "'k key_ops \<Rightarrow> scheme" where
  "V4ID ops = \<lparr>sch_Verify = (\<lambda>r sig. V4ID_Verify ops r (case sig of None \<Rightarrow> [] | Some sig \<Rightarrow> sig)),
               sch_NodeAddr = V4ID_NodeAddr ops\<rparr>"

definition ValidSchemes :: "'k key_ops \<Rightarrow> bytes \<rightharpoonup> scheme" where
  "ValidSchemes ops = [v4Name \<mapsto> V4ID ops]"

text \<open>\<^verbatim>\<open>SignV4\<close>: the signed copy, which replaces the record; with an error the record stays.\<close>

definition SignV4 :: "'k key_ops \<Rightarrow> enrRecord \<Rightarrow> 'k \<Rightarrow> (enrError + enrRecord) go" where
  "SignV4 ops r privkey =
     go_bind (enr_Set r idKey TString (VBytes False v4Name)) (\<lambda>cpy.
     go_bind (enr_Set cpy secp256k1Key TByteSlice (VBytes False (CompressPubkey ops (PublicKey ops privkey)))) (\<lambda>cpy.
       case crypto_Sign ops (Keccak256 ops (signContent cpy)) privkey of
         Inl err \<Rightarrow> Ret (Inl (schemeErr err))
       | Inr sig \<Rightarrow> if sig = [] then Panicked else SetSig cpy (Some (V4ID_Verify ops)) (Some (butlast sig))))"

subsection \<open>Nodes\<close>

record enodeNode =
  nd_r :: enrRecord
  nd_id :: bytes

definition enode_New :: "(bytes \<rightharpoonup> scheme) \<Rightarrow> enrRecord \<Rightarrow> enrError + enodeNode" where
  "enode_New validSchemes r =
     (case SchemeMap_Verify validSchemes r (enr_signature r) of
        Some err \<Rightarrow> Inl err
      | None \<Rightarrow>
          let addr = (case SchemeMap_NodeAddr validSchemes r of None \<Rightarrow> [] | Some a \<Rightarrow> a);
              n = min 32 (length addr)
          in if n \<noteq> 32 then Inl (schemeErr (''invalid node ID length '' @ fmt_nat n @ '', need 32''))
             else Inr \<lparr>nd_r = r, nd_id = copy_at 0 addr (replicate 32 0)\<rparr>)"

subsection \<open>Distances\<close>

text \<open>Identifiers are 32 bytes; the loops run over both at once.\<close>

fun DistCmp :: "bytes \<Rightarrow> bytes \<Rightarrow> bytes \<Rightarrow> int" where
  "DistCmp (t # target) (x # a) (y # b) =
     (let da = x XOR t; db = y XOR t
      in if da > db then 1 else if da < db then - 1 else DistCmp target a b)"
| "DistCmp _ _ _ = 0"

definition LeadingZeros8 :: "byte \<Rightarrow> nat" where
  "LeadingZeros8 x = 8 - BitLen (unat x)"

fun lz_loop :: "nat \<Rightarrow> bytes \<Rightarrow> bytes \<Rightarrow> nat" where
  "lz_loop lz (x # a) (y # b) =
     (let z = x XOR y in if z = 0 then lz_loop (lz + 8) a b else lz + LeadingZeros8 z)"
| "lz_loop lz _ _ = lz"

definition LogDist :: "bytes \<Rightarrow> bytes \<Rightarrow> nat" where
  "LogDist a b = length a * 8 - lz_loop 0 a b"

definition xor_bytes :: "bytes \<Rightarrow> bytes \<Rightarrow> bytes" where
  "xor_bytes a b = map2 (XOR) a b"

subsection \<open>Distances as numbers\<close>

lemma length_xor [simp]: "length (xor_bytes a b) = min (length a) (length b)"
  by (simp add: xor_bytes_def)

lemma xor_bytes_Cons [simp]: "xor_bytes (x # a) (y # b) = (x XOR y) # xor_bytes a b" "xor_bytes [] b = []"
  by (simp_all add: xor_bytes_def)

lemma be_val_Cons_less:
  assumes "unat x < unat y" "length a = length b"
  shows "be_val (x # a) < be_val (y # b)"
proof -
  have "be_val (x # a) < Suc (unat x) * 256 ^ length a"
    using be_val_less [of a] by (simp add: be_val_Cons)
  also have "\<dots> \<le> unat y * 256 ^ length a" using assms(1) by (intro mult_le_mono1) simp
  finally show ?thesis using assms(2) by (simp add: be_val_Cons)
qed

lemma BitLen_high:
  assumes "0 < z" "v < 2 ^ k"
  shows "BitLen (z * 2 ^ k + v) = BitLen z + k"
proof -
  have "BitLen (z * 2 ^ k + v) \<le> j \<longleftrightarrow> BitLen z + k \<le> j" for j
  proof (cases "k \<le> j")
    case True
    then have "(2 :: nat) ^ j = 2 ^ (j - k) * 2 ^ k" by (simp flip: power_add)
    moreover have "(z * 2 ^ k + v) div 2 ^ k = z" using assms(2) by simp
    ultimately have "z * 2 ^ k + v < 2 ^ j \<longleftrightarrow> z < 2 ^ (j - k)"
      using div_less_iff_less_mult [of "2 ^ k" "z * 2 ^ k + v" "2 ^ (j - k)"] by simp
    then have "BitLen (z * 2 ^ k + v) \<le> j \<longleftrightarrow> BitLen z \<le> j - k" by (simp only: BitLen_iff)
    with True show ?thesis by (simp only: le_diff_conv2)
  next
    case False
    then have "(2 :: nat) ^ j \<le> 1 * 2 ^ k" by (simp add: power_increasing)
    also have "\<dots> \<le> z * 2 ^ k" using assms(1) by (intro mult_le_mono1) simp
    finally have "2 ^ j \<le> z * 2 ^ k + v" by simp
    with False have "\<not> BitLen (z * 2 ^ k + v) \<le> j" by (simp only: BitLen_iff not_less)
    with False show ?thesis by simp
  qed
  then show ?thesis by (metis order.refl order_antisym)
qed

lemma BitLen_byte: "BitLen (unat (x :: byte)) \<le> 8"
  using unat_byte_less [of x] by (simp add: BitLen_iff del: unat_byte_less)

lemma BitLen_xor_le: "BitLen (be_val a) \<le> 8 * length a"
  using be_val_less [of a] by (simp add: BitLen_iff power_mult)

lemma lz_loop_eq:
  "length a = length b \<Longrightarrow> lz_loop lz a b = lz + (8 * length a - BitLen (be_val (xor_bytes a b)))"
proof (induction lz a b rule: lz_loop.induct)
  case (1 lz x a y b)
  show ?case
  proof (cases "x XOR y = 0")
    case True
    with 1 BitLen_xor_le [of "xor_bytes a b"] show ?thesis by (simp add: be_val_Cons)
  next
    case False
    then have "0 < unat (x XOR y)" by (metis neq0_conv unat_eq_zero)
    moreover have "be_val (xor_bytes a b) < 2 ^ (8 * length a)" using be_val_less [of "xor_bytes a b"] 1(2) by (simp add: power_mult)
    ultimately have "BitLen (be_val ((x XOR y) # xor_bytes a b)) = BitLen (unat (x XOR y)) + 8 * length a"
      using BitLen_high [of "unat (x XOR y)" "be_val (xor_bytes a b)" "8 * length a"] 1(2) by (simp add: be_val_Cons power_mult)
    with False BitLen_byte [of "x XOR y"] show ?thesis by (simp add: LeadingZeros8_def)
  qed
qed (simp_all add: BitLen.simps)

subsection \<open>Signed records\<close>

lemma entry_roundtrip:
  assumes "t \<in> {TString, TByteSlice}" "length b < 2 ^ 61"
  shows "EncodeToBytes t (VBytes False b) = Inr (rlp_string b)"
    "\<exists>isnil. DecodeBytes t (rlp_string b) = Inr (VBytes isnil b)"
proof -
  have len: "length (renc noTags t (VBytes False b)) < 2 ^ 63"
    using length_rlp_string_le [of b] assms by auto
  have t: "has_type t (VBytes False b)" "type_ok t" "rt_ok noTags t (VBytes False b)" "renc noTags t (VBytes False b) = rlp_string b"
    using assms(1) by auto
  from EncodeToBytes_renc [OF t(1,2) len] t(4) show "EncodeToBytes t (VBytes False b) = Inr (rlp_string b)" by simp
  from DecodeBytes_renc [OF t(3,2) len] t(4) show "\<exists>isnil. DecodeBytes t (rlp_string b) = Inr (VBytes isnil b)"
    by (auto simp: erase_eq_iff)
qed

lemma length_pairs_enc_Set:
  assumes "sorted_keys ps"
  shows "length (pairs_enc (pairs_Set ps k blob)) \<le> length (pairs_enc ps) + length (rlp_string k) + length blob"
  using assms by (cases rule: pairs_Set_cases [of ps k blob]) (simp_all add: pairs_enc_def)

lemma enr_Set_entry:
  assumes "record_ok r" "t \<in> {TString, TByteSlice}" "length b < 2 ^ 61"
  shows "\<exists>r'. enr_Set r k t (VBytes False b) = Ret r' \<and> record_ok r' \<and> enr_signature r' = None \<and> enr_raw r' = [] \<and>
    map_of (enr_pairs r') = (map_of (enr_pairs r))(k \<mapsto> rlp_string b) \<and>
    length (pairs_enc (enr_pairs r')) \<le> length (pairs_enc (enr_pairs r)) + length (rlp_string k) + length (rlp_string b)"
proof -
  note e = entry_roundtrip(1) [OF assms(2,3)]
  then obtain r' where r': "enr_Set r k t (VBytes False b) = Ret r'" by (simp add: enr_Set_def Let_def)
  note F = enr_Set_fields [OF r' e]
  have "raw_ok (rlp_string b)" by (simp add: is_frame_raw_ok)
  then have "record_ok r'" using assms(1) pairs_Set_sorted pairs_Set_values [of "enr_pairs r" k "rlp_string b"]
    by (fastforce simp: record_ok_def F(1) list_all_iff)
  with r' F pairs_Set_map_of length_pairs_enc_Set assms(1) show ?thesis by (simp add: record_ok_def)
qed

lemma enr_Load_entry:
  assumes "record_ok r" "map_of (enr_pairs r) k = Some (rlp_string b)" "t \<in> {TString, TByteSlice}" "length b < 2 ^ 61"
  shows "\<exists>isnil. enr_Load r k t = Inr (VBytes isnil b)"
proof -
  let ?i = "enr_search (enr_pairs r) k"
  have "?i < length (enr_pairs r) \<and> fst (enr_pairs r ! ?i) = k" "snd (enr_pairs r ! ?i) = rlp_string b"
    using map_of_search [of "enr_pairs r" k] assms(1,2) by (auto simp: record_ok_def Let_def split: if_splits)
  with entry_roundtrip(2) [OF assms(3,4)] show ?thesis by (auto simp: enr_Load_def Let_def)
qed

lemma signContent_cong: "enr_seq r = enr_seq r' \<Longrightarrow> enr_pairs r = enr_pairs r' \<Longrightarrow> signContent r = signContent r'"
  by (simp add: signContent_def AppendElements_def)

text \<open>A record with the two entries of the scheme and a signature of its content is accepted.\<close>

definition v4_entries :: "'k key_ops \<Rightarrow> 'k \<Rightarrow> enrRecord \<Rightarrow> bool" where
  "v4_entries ops priv r \<longleftrightarrow> record_ok r \<and> map_of (enr_pairs r) idKey = Some (rlp_string v4Name) \<and>
     map_of (enr_pairs r) secp256k1Key = Some (rlp_string (CompressPubkey ops (PublicKey ops priv)))"

lemma V4ID_Verify_ok:
  assumes "sign_ok ops priv" "v4_entries ops priv r"
    and "crypto_Verify ops (CompressPubkey ops (PublicKey ops priv)) (Keccak256 ops (signContent r)) sig"
  shows "V4ID_Verify ops r sig = None"
proof -
  let ?c = "CompressPubkey ops (PublicKey ops priv)"
  have c: "length ?c = 33" using assms(1) by (simp add: sign_ok_def)
  with enr_Load_entry [of r secp256k1Key ?c TByteSlice] assms(2) obtain isnil where
    "enr_Load r secp256k1Key TByteSlice = Inr (VBytes isnil ?c)" by (auto simp: v4_entries_def)
  with c assms(3) show ?thesis by (simp add: V4ID_Verify_def)
qed

lemma V4ID_NodeAddr_ok:
  assumes "sign_ok ops priv" "v4_entries ops priv r"
  shows "V4ID_NodeAddr ops r = Some (Keccak256 ops (EncodePubkey (PublicKey ops priv)))"
proof -
  let ?c = "CompressPubkey ops (PublicKey ops priv)"
  have c: "length ?c = 33" "DecompressPubkey ops ?c = Inr (PublicKey ops priv)" using assms(1) by (simp_all add: sign_ok_def)
  with enr_Load_entry [of r secp256k1Key ?c TByteSlice] assms(2) obtain isnil where
    "enr_Load r secp256k1Key TByteSlice = Inr (VBytes isnil ?c)" by (auto simp: v4_entries_def)
  with c show ?thesis by (simp add: V4ID_NodeAddr_def Secp256k1_Load_def EncodePubkey_def)
qed

lemma enode_New_ok:
  assumes "sign_ok ops priv" "v4_entries ops priv r" "enr_signature r = Some sig"
    and "crypto_Verify ops (CompressPubkey ops (PublicKey ops priv)) (Keccak256 ops (signContent r)) sig"
  shows "enode_New (ValidSchemes ops) r = Inr \<lparr>nd_r = r, nd_id = Keccak256 ops (EncodePubkey (PublicKey ops priv))\<rparr>"
proof -
  obtain isnil where "enr_Load r [105, 100] TString = Inr (VBytes isnil v4Name)"
    using enr_Load_entry [of r idKey v4Name TString] assms(2) by (auto simp: v4_entries_def idKey_def v4Name_def)
  then have "enr_IdentityScheme r = v4Name" by (simp add: enr_IdentityScheme_def)
  moreover have "length (Keccak256 ops b) = 32" for b using assms(1) by (simp add: sign_ok_def)
  ultimately show ?thesis using V4ID_Verify_ok [OF assms(1,2,4)] V4ID_NodeAddr_ok [OF assms(1,2)] assms(3)
    by (simp add: enode_New_def SchemeMap_Verify_def SchemeMap_NodeAddr_def ValidSchemes_def V4ID_def copy_at_def)
qed

text \<open>The copy that \<^verbatim>\<open>SignV4\<close> signs.\<close>

lemma SignV4_copy:
  assumes "sign_ok ops priv" "record_ok r" "length (pairs_enc (enr_pairs r)) < 2 ^ 60"
  shows "\<exists>r1 r2. enr_Set r idKey TString (VBytes False v4Name) = Ret r1 \<and>
    enr_Set r1 secp256k1Key TByteSlice (VBytes False (CompressPubkey ops (PublicKey ops priv))) = Ret r2 \<and>
    v4_entries ops priv r2 \<and> length (pairs_enc (enr_pairs r2)) < 2 ^ 61"
proof -
  let ?c = "CompressPubkey ops (PublicKey ops priv)"
  have c: "length ?c = 33" using assms(1) by (simp add: sign_ok_def)
  from enr_Set_entry [OF assms(2), of TString v4Name idKey] obtain r1 where
    r1: "enr_Set r idKey TString (VBytes False v4Name) = Ret r1" "record_ok r1"
      "map_of (enr_pairs r1) = (map_of (enr_pairs r))(idKey \<mapsto> rlp_string v4Name)"
      "length (pairs_enc (enr_pairs r1)) \<le> length (pairs_enc (enr_pairs r)) + length (rlp_string idKey) + length (rlp_string v4Name)"
    by (auto simp: v4Name_def)
  from enr_Set_entry [OF r1(2), of TByteSlice ?c secp256k1Key] c obtain r2 where
    r2: "enr_Set r1 secp256k1Key TByteSlice (VBytes False ?c) = Ret r2" "record_ok r2"
      "map_of (enr_pairs r2) = (map_of (enr_pairs r1))(secp256k1Key \<mapsto> rlp_string ?c)"
      "length (pairs_enc (enr_pairs r2)) \<le> length (pairs_enc (enr_pairs r1)) + length (rlp_string secp256k1Key) + length (rlp_string ?c)"
    by auto
  have "length (rlp_string idKey) \<le> 11" "length (rlp_string v4Name) \<le> 11" "length (rlp_string secp256k1Key) \<le> 18" "length (rlp_string ?c) \<le> 42"
    using c length_rlp_string_le [of idKey] length_rlp_string_le [of v4Name] length_rlp_string_le [of secp256k1Key] length_rlp_string_le [of ?c]
    by (simp_all add: idKey_def v4Name_def secp256k1Key_def)
  with r1(4) r2(4) assms(3) have "length (pairs_enc (enr_pairs r2)) < 2 ^ 61" by simp
  moreover have "v4_entries ops priv r2"
    using r1(3) r2(2,3) by (simp add: v4_entries_def record_ok_def idKey_def secp256k1Key_def)
  ultimately show ?thesis using r1(1) r2(1) by blast
qed

subsection \<open>Properties\<close>

text \<open>
  The two ways of comparing identifiers are the XOR metric: \<^verbatim>\<open>LogDist\<close> is the bit length of
  the XOR read as a big-endian number, and \<^verbatim>\<open>DistCmp\<close> tells which of two nodes is nearer.
\<close>

theorem distance_metric:
  assumes "length a = length target" "length b = length target"
  shows "LogDist a b = BitLen (be_val (xor_bytes a b)) \<and>
    DistCmp target a b =
      (let da = be_val (xor_bytes a target); db = be_val (xor_bytes b target)
       in if da > db then 1 else if da < db then - 1 else 0)"
proof
  show "LogDist a b = BitLen (be_val (xor_bytes a b))"
    using lz_loop_eq [of a b 0] BitLen_xor_le [of "xor_bytes a b"] assms by (simp add: LogDist_def)
  show "DistCmp target a b =
      (let da = be_val (xor_bytes a target); db = be_val (xor_bytes b target)
       in if da > db then 1 else if da < db then - 1 else 0)"
    using assms
  proof (induction target a b rule: DistCmp.induct)
    case (1 t target x a y b)
    consider "y XOR t < x XOR t" | "x XOR t < y XOR t" | "x XOR t = y XOR t" by fastforce
    then show ?case
    proof cases
      case 1
      then show ?thesis using be_val_Cons_less [of "y XOR t" "x XOR t" "xor_bytes b target" "xor_bytes a target"] "1.prems" by (simp add: word_less_nat_alt Let_def)
    next
      case 2
      then show ?thesis using be_val_Cons_less [of "x XOR t" "y XOR t" "xor_bytes a target" "xor_bytes b target"] "1.prems" by (simp add: word_less_nat_alt Let_def)
    next
      case 3
      then show ?thesis using "1.IH" [OF refl refl] "1.prems" by (simp add: be_val_Cons Let_def)
    qed
  qed (auto simp: Let_def)
qed

theorem distance_metric_witness:
  "LogDist [0, 5, 1] [0, 1, 9] = BitLen (be_val (xor_bytes [0, 5, 1] [0, 1, 9])) \<and> LogDist [0, 5, 1] [0, 1, 9] = 11 \<and>
   DistCmp [0, 1, 1] [0, 5, 1] [0, 1, 9] = 1"
  using distance_metric [of "[0, 5, 1]" "[0, 1, 1]" "[0, 1, 9]"] by (simp add: xor_bytes_def be_val_def BitLen.simps)

text \<open>
  C34: what \<^verbatim>\<open>SignV4\<close> signs, \<^verbatim>\<open>New\<close> accepts: signing a record either fails because the result would
  exceed 300 bytes, or yields a record that every receiver decodes, verifies, and identifies by
  the hash of the signer's public key.
\<close>

theorem SignV4_accepted:
  assumes "sign_ok ops priv" "record_ok r" "length (pairs_enc (enr_pairs r)) < 2 ^ 60"
  shows "\<exists>res. SignV4 ops r priv = Ret res \<and>
    (case res of
       Inl err \<Rightarrow> err = errTooBig
     | Inr r' \<Rightarrow>
         (\<exists>s'. decodeRecord (stream_Reset (enr_raw r') 0) = (Inr r', s') \<and> s_r s' = []) \<and>
         enode_New (ValidSchemes ops) r' =
           Inr \<lparr>nd_r = r', nd_id = Keccak256 ops (EncodePubkey (PublicKey ops priv))\<rparr>)"
proof -
  let ?c = "CompressPubkey ops (PublicKey ops priv)"
  from SignV4_copy [OF assms] obtain r1 r2 where
    r2: "enr_Set r idKey TString (VBytes False v4Name) = Ret r1" "enr_Set r1 secp256k1Key TByteSlice (VBytes False ?c) = Ret r2"
      "v4_entries ops priv r2" "length (pairs_enc (enr_pairs r2)) < 2 ^ 61" by blast
  let ?h = "Keccak256 ops (signContent r2)"
  have "length ?h = 32" using assms(1) by (simp add: sign_ok_def)
  with assms(1) obtain sig where sig: "crypto_Sign ops ?h priv = Inr sig" "length sig = 65" "crypto_Verify ops ?c ?h (butlast sig)"
    unfolding sign_ok_def by blast
  from V4ID_Verify_ok [OF assms(1) r2(3) sig(3)] r2(1,2) sig(1,2) have
    S: "SignV4 ops r priv = Ret (case enr_encode r2 (butlast sig) of Inl err \<Rightarrow> Inl err
      | Inr raw \<Rightarrow> Inr (r2\<lparr>enr_signature := Some (butlast sig), enr_raw := raw\<rparr>))"
    by (auto simp: SignV4_def SetSig_def split: sum.splits)
  let ?e = "enr_enc r2 (butlast sig)"
  have len: "length ?e < 2 ^ 63" using sig(2) r2(4) by (intro length_enr_enc) simp_all
  show ?thesis
  proof (cases "length ?e > SizeLimit")
    case True
    with S enr_encode_eq [OF len] show ?thesis by simp
  next
    case False
    let ?r = "r2\<lparr>enr_signature := Some (butlast sig), enr_raw := ?e\<rparr>"
    have "\<exists>s'. decodeRecord (stream_Reset ?e 0) = (Inr ?r, s') \<and> s_r s' = []"
      using decodeRecord_ok [of r2 "butlast sig" "[]"] r2(3) False len by (simp add: v4_entries_def)
    moreover have "enode_New (ValidSchemes ops) ?r = Inr \<lparr>nd_r = ?r, nd_id = Keccak256 ops (EncodePubkey (PublicKey ops priv))\<rparr>"
      using sig(3) signContent_cong [of ?r r2] r2(3) by (intro enode_New_ok [OF assms(1)]) (simp_all add: v4_entries_def record_ok_def)
    ultimately show ?thesis using S enr_encode_eq [OF len] False by simp
  qed
qed

theorem SignV4_accepted_witness:
  "let ops = \<lparr>Keccak256 = \<lambda>b. replicate 32 (of_nat (length b)), crypto_Sign = \<lambda>h priv. Inr (replicate 65 (of_nat priv)),
              Ecrecover = \<lambda>h sig. Inl [], PublicKey = \<lambda>priv. \<lparr>pk_X = priv, pk_Y = 0\<rparr>,
              crypto_Verify = \<lambda>pub h sig. sig = replicate 64 (hd pub),
              CompressPubkey = \<lambda>pub. replicate 33 (of_nat (pk_X pub)),
              DecompressPubkey = \<lambda>b. Inr \<lparr>pk_X = unat (hd b), pk_Y = 0\<rparr>\<rparr>
   in \<exists>res. SignV4 ops emptyRecord (7 :: nat) = Ret res \<and>
     (case res of
        Inl err \<Rightarrow> err = errTooBig
      | Inr r' \<Rightarrow>
          (\<exists>s'. decodeRecord (stream_Reset (enr_raw r') 0) = (Inr r', s') \<and> s_r s' = []) \<and>
          enode_New (ValidSchemes ops) r' =
            Inr \<lparr>nd_r = r', nd_id = Keccak256 ops (EncodePubkey (PublicKey ops 7))\<rparr>)"
  unfolding Let_def
proof (rule SignV4_accepted)
  show "sign_ok \<lparr>Keccak256 = \<lambda>b. replicate 32 (of_nat (length b)), crypto_Sign = \<lambda>h priv. Inr (replicate 65 (of_nat priv)),
      Ecrecover = \<lambda>h sig. Inl [], PublicKey = \<lambda>priv. \<lparr>pk_X = priv, pk_Y = 0\<rparr>,
      crypto_Verify = \<lambda>pub h sig. sig = replicate 64 (hd pub),
      CompressPubkey = \<lambda>pub. replicate 33 (of_nat (pk_X pub)),
      DecompressPubkey = \<lambda>b. Inr \<lparr>pk_X = unat (hd b), pk_Y = 0\<rparr>\<rparr> (7 :: nat)"
    by (simp add: sign_ok_def butlast_conv_take)
qed (simp_all add: emptyRecord_def record_ok_def)

end
