(* ===== verification/Node_Cache.thy ===== *)
theory Node_Cache
  imports Go_Prelude
begin

text \<open>
  The caches of the node manager: the bounded set of known hashes
  (\<^verbatim>\<open>node_manager/common.go\<close>) and the pool and history of crawled nodes
  (\<^verbatim>\<open>node_manager/crawl.go\<close>, the loop body of \<^verbatim>\<open>HistoryLoop\<close> in
  \<^verbatim>\<open>node_manager/node-manager.go\<close>).

  Two packages outside the repository hold the data: \<^verbatim>\<open>golang-set\<close> and
  \<^verbatim>\<open>concurrent-map\<close>. Their operations are arguments (\<open>mapset_ops\<close>,
  \<open>cmap_ops\<close>) and what their documentation promises are the predicates
  \<open>mapset_ok\<close> and \<open>cmap_ok\<close>.
\<close>

subsection \<open>golang-set\<close>

record ('s, 'h) mapset_ops =
  ms_new :: 's
  ms_card :: "'s \<Rightarrow> nat"
  ms_pop :: "'s \<Rightarrow> 's"
  ms_add :: "'s \<Rightarrow> 'h \<Rightarrow> 's"
  ms_contains :: "'s \<Rightarrow> 'h \<Rightarrow> bool"

definition ms_elems :: "('s, 'h) mapset_ops \<Rightarrow> 's \<Rightarrow> 'h set" where
  "ms_elems ops s = {x. ms_contains ops s x}"

text \<open>
  \<^verbatim>\<open>Cardinality\<close> counts the elements, \<^verbatim>\<open>Add\<close> adds one,
  \<^verbatim>\<open>Pop\<close> removes an arbitrary one.
\<close>

definition mapset_ok :: "('s, 'h) mapset_ops \<Rightarrow> bool" where
  "mapset_ok ops \<longleftrightarrow>
     ms_elems ops (ms_new ops) = {} \<and>
     (\<forall>s. finite (ms_elems ops s) \<and> ms_card ops s = card (ms_elems ops s)) \<and>
     (\<forall>s x. ms_elems ops (ms_add ops s x) = insert x (ms_elems ops s)) \<and>
     (\<forall>s. ms_elems ops s \<noteq> {} \<longrightarrow>
        (\<exists>x\<in>ms_elems ops s. ms_elems ops (ms_pop ops s) = ms_elems ops s - {x}))"

text \<open>The instance the examples evaluate: a list, with the last distinct element popped.\<close>

definition list_mapset :: "('h list, 'h) mapset_ops" where
  "list_mapset =
     \<lparr>ms_new = [], ms_card = (\<lambda>s. length (remdups s)),
      ms_pop = (\<lambda>s. case s of [] \<Rightarrow> [] | x # _ \<Rightarrow> filter (\<lambda>y. y \<noteq> x) s),
      ms_add = (\<lambda>s x. x # s), ms_contains = (\<lambda>s x. x \<in> set s)\<rparr>"

lemma list_mapset_ok: "mapset_ok list_mapset"
  by (auto simp: mapset_ok_def list_mapset_def ms_elems_def length_remdups_card_conv neq_Nil_conv)

subsection \<open>The cache of known hashes\<close>

definition go_max :: "int \<Rightarrow> int \<Rightarrow> int" where
  "go_max a b = (if a > b then a else b)"

record 's knownCache =
  kc_hashes :: 's
  kc_max :: int

definition newKnownCache :: "('s, 'h) mapset_ops \<Rightarrow> int \<Rightarrow> 's knownCache" where
  "newKnownCache ops m = \<lparr>kc_hashes = ms_new ops, kc_max = m\<rparr>"

text \<open>The eviction loop of \<^verbatim>\<open>Add\<close>; \<open>None\<close> if it does not end.\<close>

partial_function (option) kc_evict :: "('s, 'h) mapset_ops \<Rightarrow> int \<Rightarrow> 's \<Rightarrow> 's option" where
  "kc_evict ops limit s =
     (if int (ms_card ops s) > limit then kc_evict ops limit (ms_pop ops s) else Some s)"

definition kc_Add :: "('s, 'h) mapset_ops \<Rightarrow> 's knownCache \<Rightarrow> 'h list \<Rightarrow> 's knownCache option" where
  "kc_Add ops k hashes =
     map_option (\<lambda>s. k\<lparr>kc_hashes := foldl (ms_add ops) s hashes\<rparr>)
       (kc_evict ops (go_max 0 (kc_max k - int (length hashes))) (kc_hashes k))"

definition kc_Contains :: "('s, 'h) mapset_ops \<Rightarrow> 's knownCache \<Rightarrow> 'h \<Rightarrow> bool" where
  "kc_Contains ops k h = ms_contains ops (kc_hashes k) h"

definition kc_Cardinality :: "('s, 'h) mapset_ops \<Rightarrow> 's knownCache \<Rightarrow> nat" where
  "kc_Cardinality ops k = ms_card ops (kc_hashes k)"

lemma mapset_okD:
  assumes "mapset_ok ops"
  shows "ms_elems ops (ms_new ops) = {}" "finite (ms_elems ops s)" "ms_card ops s = card (ms_elems ops s)"
    "ms_elems ops (ms_add ops s x) = insert x (ms_elems ops s)"
    "ms_elems ops s \<noteq> {} \<Longrightarrow> \<exists>x\<in>ms_elems ops s. ms_elems ops (ms_pop ops s) = ms_elems ops s - {x}"
  using assms by (simp_all add: mapset_ok_def)

lemma ms_elems_foldl_add:
  assumes "mapset_ok ops"
  shows "ms_elems ops (foldl (ms_add ops) s hs) = ms_elems ops s \<union> set hs"
  by (induction hs arbitrary: s) (auto simp: mapset_okD(4) [OF assms])

lemma kc_evict_spec:
  assumes ok: "mapset_ok ops" and limit: "0 \<le> limit"
  shows "\<exists>s'. kc_evict ops limit s = Some s' \<and> ms_elems ops s' \<subseteq> ms_elems ops s \<and>
              int (card (ms_elems ops s')) = min limit (int (card (ms_elems ops s)))"
proof (induction "card (ms_elems ops s)" arbitrary: s rule: less_induct)
  case less
  note okD = mapset_okD [OF ok]
  show ?case
  proof (cases "int (ms_card ops s) > limit")
    case True
    then have "card (ms_elems ops s) > 0" using limit by (simp add: okD(3))
    then have "ms_elems ops s \<noteq> {}" by auto
    then obtain x where x: "x \<in> ms_elems ops s" "ms_elems ops (ms_pop ops s) = ms_elems ops s - {x}"
      using okD(5) by blast
    then have c: "card (ms_elems ops s) = Suc (card (ms_elems ops (ms_pop ops s)))"
      using card.remove [OF okD(2) x(1)] by simp
    then have "card (ms_elems ops (ms_pop ops s)) < card (ms_elems ops s)" by simp
    from less [OF this] obtain s' where s': "kc_evict ops limit (ms_pop ops s) = Some s'"
      "ms_elems ops s' \<subseteq> ms_elems ops (ms_pop ops s)"
      "int (card (ms_elems ops s')) = min limit (int (card (ms_elems ops (ms_pop ops s))))"
      by blast
    have "kc_evict ops limit s = Some s'"
      using True s'(1) by (subst kc_evict.simps) simp
    moreover have "min limit (int (card (ms_elems ops (ms_pop ops s)))) = min limit (int (card (ms_elems ops s)))"
      using True c by (simp add: okD(3))
    ultimately show ?thesis using s'(2,3) x by auto
  next
    case False
    then have "kc_evict ops limit s = Some s" by (subst kc_evict.simps) simp
    with False show ?thesis by (auto simp: okD(3))
  qed
qed

lemma kc_Add_spec:
  assumes ok: "mapset_ok ops"
  shows "\<exists>k'. kc_Add ops k hs = Some k' \<and> kc_max k' = kc_max k \<and>
           set hs \<subseteq> ms_elems ops (kc_hashes k') \<and>
           ms_elems ops (kc_hashes k') \<subseteq> ms_elems ops (kc_hashes k) \<union> set hs \<and>
           int (kc_Cardinality ops k') \<le> max (kc_max k) (int (length hs))"
proof -
  let ?l = "go_max 0 (kc_max k - int (length hs))"
  have "0 \<le> ?l" by (simp add: go_max_def)
  from kc_evict_spec [OF ok this, of "kc_hashes k"] obtain s where s:
    "kc_evict ops ?l (kc_hashes k) = Some s" "ms_elems ops s \<subseteq> ms_elems ops (kc_hashes k)"
    "int (card (ms_elems ops s)) \<le> ?l" by auto
  let ?k = "k\<lparr>kc_hashes := foldl (ms_add ops) s hs\<rparr>"
  have "card (ms_elems ops s \<union> set hs) \<le> card (ms_elems ops s) + length hs"
    by (metis add_le_cancel_left card_Un_le card_length le_trans)
  then have "int (kc_Cardinality ops ?k) \<le> max (kc_max k) (int (length hs))"
    using s(3) by (simp add: kc_Cardinality_def mapset_okD(3) [OF ok] ms_elems_foldl_add [OF ok]
        go_max_def split: if_splits)
  with s show ?thesis
    by (auto simp: kc_Add_def ms_elems_foldl_add [OF ok])
qed

subsection \<open>concurrent-map\<close>

text \<open>The Go values the manager stores in its maps, with their dynamic types.\<close>

record nodeItem =
  BootIP :: string
  BootPort :: int
  BootNodeID :: string
  AddTime :: int

record serverPeer =
  sp_Name :: string
  StreamChan :: nat

datatype iface = NodeItemV nodeItem | Int64V int | ServerPeerV serverPeer | CoinBaseInfoV nat

record 'm cmap_ops =
  cm_new :: 'm
  cm_has :: "'m \<Rightarrow> string \<Rightarrow> bool"
  cm_get :: "'m \<Rightarrow> string \<Rightarrow> iface option"
  cm_set :: "'m \<Rightarrow> string \<Rightarrow> iface \<Rightarrow> 'm"
  cm_remove :: "'m \<Rightarrow> string \<Rightarrow> 'm"
  cm_count :: "'m \<Rightarrow> nat"
  cm_iter :: "seed \<Rightarrow> 'm \<Rightarrow> (string \<times> iface) list"

text \<open>
  \<^verbatim>\<open>IterBuffered\<close> delivers every entry once, in an order the package does not fix.
\<close>

definition cmap_ok :: "'m cmap_ops \<Rightarrow> bool" where
  "cmap_ok ops \<longleftrightarrow>
     (\<forall>k. cm_get ops (cm_new ops) k = None) \<and>
     (\<forall>m k. cm_has ops m k \<longleftrightarrow> cm_get ops m k \<noteq> None) \<and>
     (\<forall>m k v k'. cm_get ops (cm_set ops m k v) k' = (if k' = k then Some v else cm_get ops m k')) \<and>
     (\<forall>m k k'. cm_get ops (cm_remove ops m k) k' = (if k' = k then None else cm_get ops m k')) \<and>
     (\<forall>m sd. distinct (map fst (cm_iter ops sd m)) \<and> cm_count ops m = length (cm_iter ops sd m)) \<and>
     (\<forall>m sd k v. (k, v) \<in> set (cm_iter ops sd m) \<longleftrightarrow> cm_get ops m k = Some v)"

definition alist_cmap :: "(string \<times> iface) list cmap_ops" where
  "alist_cmap =
     \<lparr>cm_new = [], cm_has = (\<lambda>m k. map_of m k \<noteq> None), cm_get = map_of,
      cm_set = (\<lambda>m k v. (k, v) # m), cm_remove = (\<lambda>m k. filter (\<lambda>e. fst e \<noteq> k) m),
      cm_count = (\<lambda>m. length (AList.clearjunk m)), cm_iter = (\<lambda>sd m. go_order sd (AList.clearjunk m))\<rparr>"

lemma alist_cmap_ok: "cmap_ok alist_cmap"
proof -
  have d: "distinct (map fst (go_order sd (AList.clearjunk m)))" for sd and m :: "(string \<times> iface) list"
    by (metis distinct_clearjunk mset_eq_imp_distinct_iff mset_go_order mset_map)
  have r: "map_of (filter (\<lambda>e. fst e \<noteq> k) m) k' = (if k' = k then None else map_of m k')"
    for k k' and m :: "(string \<times> iface) list"
    by (induction m) auto
  show ?thesis
    by (auto simp: cmap_ok_def alist_cmap_def d r map_of_clearjunk
        simp flip: map_of_eq_Some_iff [OF distinct_clearjunk])
qed

lemma cmap_okD:
  assumes "cmap_ok ops"
  shows "cm_get ops (cm_new ops) k = None"
    "cm_has ops m k \<longleftrightarrow> cm_get ops m k \<noteq> None"
    "cm_get ops (cm_set ops m k v) k' = (if k' = k then Some v else cm_get ops m k')"
    "cm_get ops (cm_remove ops m k) k' = (if k' = k then None else cm_get ops m k')"
    "cm_count ops m = length (cm_iter ops sd m)"
    "(k, v) \<in> set (cm_iter ops sd m) \<longleftrightarrow> cm_get ops m k = Some v"
    "distinct (map fst (cm_iter ops sd m))"
  using assms unfolding cmap_ok_def by blast+

subsection \<open>The pool and the history of crawled nodes\<close>

record 'm enodeCache =
  enodePool :: 'm
  enodeHistory :: 'm

definition enodeKey :: "string \<Rightarrow> int \<Rightarrow> string" where
  "enodeKey ipAddress port = ipAddress @ CHR '':'' # fmt_int port"

text \<open>The loop \<^verbatim>\<open>for item := range pool.IterBuffered()\<close> up to the target index.\<close>

fun iter_find :: "nat \<Rightarrow> nat \<Rightarrow> 'a list \<Rightarrow> 'a option" where
  "iter_find targetIndex index [] = None"
| "iter_find targetIndex index (x # xs) =
     (if index = targetIndex then Some x else iter_find targetIndex (Suc index) xs)"

text \<open>
  \<open>r\<close> is what \<^verbatim>\<open>math/rand\<close> delivers; \<^verbatim>\<open>rand.Intn(n)\<close> is
  \<open>r mod n\<close>. The error return is \<open>None\<close>; a value of another dynamic type makes the
  type assertion panic.
\<close>

definition getEnodeFromCacheForDail ::
  "'m cmap_ops \<Rightarrow> nat \<Rightarrow> seed \<Rightarrow> int \<Rightarrow> 'm enodeCache \<Rightarrow> (nodeItem option \<times> 'm enodeCache) go" where
  "getEnodeFromCacheForDail ops r sd now c =
     (let poolLen = cm_count ops (enodePool c)
      in if poolLen > 0 then
           (let targetIndex = r mod poolLen
            in case iter_find targetIndex 0 (cm_iter ops sd (enodePool c)) of
                 Some (key, NodeItemV enodeItem) \<Rightarrow>
                   Ret (Some enodeItem,
                        c\<lparr>enodePool := cm_remove ops (enodePool c) key,
                          enodeHistory := cm_set ops (enodeHistory c) key (Int64V now)\<rparr>)
               | Some (key, _) \<Rightarrow> Panicked
               | None \<Rightarrow> Ret (None, c))
         else Ret (None, c))"

definition getRandEnodeFromCache ::
  "'m cmap_ops \<Rightarrow> nat \<Rightarrow> seed \<Rightarrow> 'm enodeCache \<Rightarrow> nodeItem option go" where
  "getRandEnodeFromCache ops r sd c =
     (let poolLen = cm_count ops (enodePool c)
      in if poolLen > 0 then
           (let targetIndex = r mod poolLen
            in case iter_find targetIndex 0 (cm_iter ops sd (enodePool c)) of
                 Some (key, NodeItemV enodeItem) \<Rightarrow> Ret (Some enodeItem)
               | Some (key, _) \<Rightarrow> Panicked
               | None \<Rightarrow> Ret None)
         else Ret None)"

definition addEnodeToCache ::
  "'m cmap_ops \<Rightarrow> string \<Rightarrow> int \<Rightarrow> string \<Rightarrow> int \<Rightarrow> 'm enodeCache \<Rightarrow> 'm enodeCache" where
  "addEnodeToCache ops ipAddress port enode now c =
     (let key = enodeKey ipAddress port
      in if cm_has ops (enodeHistory c) key then c
         else if cm_has ops (enodePool c) key then c
         else c\<lparr>enodePool := cm_set ops (enodePool c) key
                  (NodeItemV \<lparr>BootIP = ipAddress, BootPort = port, BootNodeID = enode, AddTime = now\<rparr>)\<rparr>)"

definition existEnodeIpItem :: "'m cmap_ops \<Rightarrow> string \<Rightarrow> int \<Rightarrow> 'm enodeCache \<Rightarrow> bool" where
  "existEnodeIpItem ops ipAddress port c = cm_has ops (enodePool c) (enodeKey ipAddress port)"

text \<open>One pass of \<^verbatim>\<open>HistoryLoop\<close>: entries older than an hour are removed.\<close>

fun historyPass :: "'m cmap_ops \<Rightarrow> int \<Rightarrow> (string \<times> iface) list \<Rightarrow> 'm \<Rightarrow> 'm go" where
  "historyPass ops now [] h = Ret h"
| "historyPass ops now ((key, Int64V itemTime) # items) h =
     historyPass ops now items (if now - itemTime > 60 * 60 * 1 then cm_remove ops h key else h)"
| "historyPass ops now ((key, _) # items) h = Panicked"

definition HistoryLoop_body :: "'m cmap_ops \<Rightarrow> seed \<Rightarrow> int \<Rightarrow> 'm enodeCache \<Rightarrow> 'm enodeCache go" where
  "HistoryLoop_body ops sd now c =
     go_bind (historyPass ops now (cm_iter ops sd (enodeHistory c)) (enodeHistory c))
       (\<lambda>h. Ret (c\<lparr>enodeHistory := h\<rparr>))"

subsection \<open>Lemmas on the cache\<close>

lemma enodeKey_inj: "enodeKey ip port = enodeKey ip' port' \<longleftrightarrow> ip = ip' \<and> port = port'"
proof
  assume "enodeKey ip port = enodeKey ip' port'"
  then have "ip = ip' \<and> fmt_int port = fmt_int port'"
    unfolding enodeKey_def by (rule split_last_sep) (simp_all add: fmt_int_no_colon)
  then show "ip = ip' \<and> port = port'" by (simp add: fmt_int_inj)
qed simp

lemma iter_find_nth: "iter_find t i xs = (if i \<le> t \<and> t < i + length xs then Some (xs ! (t - i)) else None)"
proof (induction xs arbitrary: i)
  case (Cons x xs)
  show ?case
  proof (cases "i = t")
    case False
    then have "t - i = Suc (t - Suc i)" if "i \<le> t" using that by simp
    with False show ?thesis by (auto simp: Cons.IH)
  qed simp
qed simp

definition pool_inv :: "'m cmap_ops \<Rightarrow> 'm \<Rightarrow> bool" where
  "pool_inv ops p \<longleftrightarrow>
     (\<forall>k v. cm_get ops p k = Some v \<longrightarrow> (\<exists>it. v = NodeItemV it \<and> k = enodeKey (BootIP it) (BootPort it)))"

definition history_inv :: "'m cmap_ops \<Rightarrow> 'm \<Rightarrow> bool" where
  "history_inv ops h \<longleftrightarrow> (\<forall>k v. cm_get ops h k = Some v \<longrightarrow> (\<exists>t. v = Int64V t))"

definition cache_inv :: "'m cmap_ops \<Rightarrow> 'm enodeCache \<Rightarrow> bool" where
  "cache_inv ops c \<longleftrightarrow>
     pool_inv ops (enodePool c) \<and> history_inv ops (enodeHistory c) \<and>
     (\<forall>k. cm_get ops (enodePool c) k = None \<or> cm_get ops (enodeHistory c) k = None)"

lemma iter_find_pool:
  assumes ok: "cmap_ok ops" and n: "cm_count ops p > 0"
  shows "\<exists>key v. iter_find (r mod cm_count ops p) 0 (cm_iter ops sd p) = Some (key, v) \<and>
           cm_get ops p key = Some v"
proof -
  let ?xs = "cm_iter ops sd p" and ?i = "r mod cm_count ops p"
  have i: "?i < length ?xs" using n cmap_okD(5) [OF ok, of p sd] by simp
  obtain key v where kv: "?xs ! ?i = (key, v)" by fastforce
  then have "(key, v) \<in> set ?xs" using i nth_mem by metis
  then have "cm_get ops p key = Some v" using cmap_okD(6) [OF ok] by blast
  with i kv show ?thesis by (simp add: iter_find_nth)
qed

lemma count_pos_iff:
  assumes "cmap_ok ops"
  shows "cm_count ops p > 0 \<longleftrightarrow> (\<exists>k v. cm_get ops p k = Some v)"
proof -
  have "cm_count ops p > 0 \<longleftrightarrow> cm_iter ops [] p \<noteq> []"
    using cmap_okD(5) [OF assms, of p "[]"] by simp
  also have "\<dots> \<longleftrightarrow> (\<exists>k v. (k, v) \<in> set (cm_iter ops [] p))"
    by (cases "cm_iter ops [] p") auto
  finally show ?thesis using cmap_okD(6) [OF assms] by blast
qed

lemma getEnodeFromCacheForDail_spec:
  assumes ok: "cmap_ok ops" and inv: "cache_inv ops c"
  shows "(\<forall>k. cm_get ops (enodePool c) k = None) \<and> getEnodeFromCacheForDail ops r sd now c = Ret (None, c) \<or>
     (\<exists>it c'. getEnodeFromCacheForDail ops r sd now c = Ret (Some it, c') \<and>
        cm_get ops (enodePool c) (enodeKey (BootIP it) (BootPort it)) = Some (NodeItemV it) \<and>
        c' = c\<lparr>enodePool := cm_remove ops (enodePool c) (enodeKey (BootIP it) (BootPort it)),
              enodeHistory := cm_set ops (enodeHistory c) (enodeKey (BootIP it) (BootPort it)) (Int64V now)\<rparr>)"
proof (cases "cm_count ops (enodePool c) > 0")
  case True
  from iter_find_pool [OF ok True, of r sd] obtain key v where f:
    "iter_find (r mod cm_count ops (enodePool c)) 0 (cm_iter ops sd (enodePool c)) = Some (key, v)"
    "cm_get ops (enodePool c) key = Some v" by blast
  with inv obtain it where "v = NodeItemV it" "key = enodeKey (BootIP it) (BootPort it)"
    by (auto simp: cache_inv_def pool_inv_def)
  with f True show ?thesis by (auto simp: getEnodeFromCacheForDail_def Let_def)
next
  case False
  with count_pos_iff [OF ok] show ?thesis
    by (auto simp: getEnodeFromCacheForDail_def)
qed

lemma pool_inv_upd:
  assumes "cmap_ok ops" "pool_inv ops p"
  shows "pool_inv ops (cm_remove ops p k)"
    "pool_inv ops (cm_set ops p (enodeKey (BootIP it) (BootPort it)) (NodeItemV it))"
  using assms(2) by (auto simp: pool_inv_def cmap_okD [OF assms(1)] split: if_splits)

lemma history_inv_upd:
  assumes "cmap_ok ops" "history_inv ops h"
  shows "history_inv ops (cm_remove ops h k)" "history_inv ops (cm_set ops h k (Int64V t))"
  using assms(2) by (auto simp: history_inv_def cmap_okD [OF assms(1)] split: if_splits)

lemma addEnodeToCache_inv:
  assumes "cmap_ok ops" "cache_inv ops c"
  shows "cache_inv ops (addEnodeToCache ops ip port enode now c)"
proof -
  let ?it = "\<lparr>BootIP = ip, BootPort = port, BootNodeID = enode, AddTime = now\<rparr>"
  show ?thesis
    using assms(2) pool_inv_upd(2) [OF assms(1), of "enodePool c" ?it]
    by (auto simp: addEnodeToCache_def Let_def cache_inv_def cmap_okD [OF assms(1)])
qed

lemma getEnodeFromCacheForDail_inv:
  assumes "cmap_ok ops" "cache_inv ops c" "getEnodeFromCacheForDail ops r sd now c = Ret (x, c')"
  shows "cache_inv ops c'"
  using getEnodeFromCacheForDail_spec [OF assms(1,2), of r sd now] assms(2,3)
  by (auto simp: cache_inv_def pool_inv_upd [OF assms(1)] history_inv_upd [OF assms(1)] cmap_okD [OF assms(1)])
    (metis option.distinct(1))

lemma historyPass_spec:
  assumes ok: "cmap_ok ops" and "\<And>k v. (k, v) \<in> set items \<Longrightarrow> \<exists>t. v = Int64V t"
  shows "\<exists>h'. historyPass ops now items h = Ret h' \<and>
      (\<forall>k. cm_get ops h' k =
         (if \<exists>t. (k, Int64V t) \<in> set items \<and> now - t > 3600 then None else cm_get ops h k))"
  using assms(2)
proof (induction items arbitrary: h)
  case (Cons e items)
  obtain key t where e: "e = (key, Int64V t)" using Cons.prems by (cases e) auto
  let ?h = "if now - t > 3600 then cm_remove ops h key else h"
  from Cons.IH [of ?h] Cons.prems obtain h' where
    "historyPass ops now items ?h = Ret h'"
    "\<And>k. cm_get ops h' k =
       (if \<exists>t. (k, Int64V t) \<in> set items \<and> now - t > 3600 then None else cm_get ops ?h k)"
    by auto
  then show ?case by (auto simp: e cmap_okD(4) [OF ok])
qed simp

lemma HistoryLoop_body_spec:
  assumes ok: "cmap_ok ops" and inv: "cache_inv ops c"
  shows "\<exists>c'. HistoryLoop_body ops sd now c = Ret c' \<and> cache_inv ops c' \<and> enodePool c' = enodePool c \<and>
     (\<forall>k t. cm_get ops (enodeHistory c') k = Some (Int64V t) \<longleftrightarrow>
              cm_get ops (enodeHistory c) k = Some (Int64V t) \<and> now - t \<le> 3600)"
proof -
  let ?h = "enodeHistory c"
  have typed: "\<exists>t. v = Int64V t" if "cm_get ops ?h k = Some v" for k v
    using inv that by (simp add: cache_inv_def history_inv_def)
  from historyPass_spec [OF ok, of "cm_iter ops sd ?h" now ?h] typed obtain h' where
    h': "historyPass ops now (cm_iter ops sd ?h) ?h = Ret h'"
    and get: "\<And>k. cm_get ops h' k =
       (if \<exists>t. cm_get ops ?h k = Some (Int64V t) \<and> now - t > 3600 then None else cm_get ops ?h k)"
    by (auto simp: cmap_okD(6) [OF ok])
  have "cache_inv ops (c\<lparr>enodeHistory := h'\<rparr>)"
    using inv by (auto simp: cache_inv_def history_inv_def get split: if_splits)
  with h' show ?thesis by (auto simp: HistoryLoop_body_def get split: if_splits)
qed

subsection \<open>Runs of the cache\<close>

text \<open>
  The calls that change the caches, in the order they are made: a crawler adds a node, the
  manager takes a node to dial, the history pass runs.
\<close>

datatype cacheCall =
    CallAdd string int string int
  | CallDail nat seed int
  | CallHistory seed int

fun cache_call :: "'m cmap_ops \<Rightarrow> cacheCall \<Rightarrow> 'm enodeCache \<Rightarrow> (string option \<times> 'm enodeCache) go" where
  "cache_call ops (CallAdd ip port enode now) c = Ret (None, addEnodeToCache ops ip port enode now c)"
| "cache_call ops (CallDail r sd now) c =
     go_bind (getEnodeFromCacheForDail ops r sd now c)
       (\<lambda>(x, c'). Ret (map_option (\<lambda>it. enodeKey (BootIP it) (BootPort it)) x, c'))"
| "cache_call ops (CallHistory sd now) c =
     go_bind (HistoryLoop_body ops sd now c) (\<lambda>c'. Ret (None, c'))"

text \<open>The keys handed out for dialing during a run, in order, and the final caches.\<close>

fun cache_run :: "'m cmap_ops \<Rightarrow> cacheCall list \<Rightarrow> 'm enodeCache \<Rightarrow> (string option list \<times> 'm enodeCache) go" where
  "cache_run ops [] c = Ret ([], c)"
| "cache_run ops (x # xs) c =
     go_bind (cache_call ops x c)
       (\<lambda>(k, c'). go_bind (cache_run ops xs c') (\<lambda>(ks, c''). Ret (k # ks, c'')))"

definition emptyCache :: "'m cmap_ops \<Rightarrow> 'm enodeCache" where
  "emptyCache ops = \<lparr>enodePool = cm_new ops, enodeHistory = cm_new ops\<rparr>"

lemma emptyCache_inv: "cmap_ok ops \<Longrightarrow> cache_inv ops (emptyCache ops)"
  by (simp add: emptyCache_def cache_inv_def pool_inv_def history_inv_def cmap_okD)

lemma cache_call_inv:
  assumes ok: "cmap_ok ops" and inv: "cache_inv ops c"
  shows "\<exists>k c'. cache_call ops x c = Ret (k, c') \<and> cache_inv ops c'"
proof (cases x)
  case (CallAdd ip port enode now)
  then show ?thesis using addEnodeToCache_inv [OF ok inv] by simp
next
  case (CallDail r sd now)
  then show ?thesis
    using getEnodeFromCacheForDail_spec [OF ok inv, of r sd now]
      getEnodeFromCacheForDail_inv [OF ok inv, of r sd now] inv by fastforce
next
  case (CallHistory sd now)
  then show ?thesis using HistoryLoop_body_spec [OF ok inv, of sd now] by auto
qed

text \<open>A key in the history stays there, with its time, until a pass more than an hour later.\<close>

definition call_keeps :: "int \<Rightarrow> cacheCall \<Rightarrow> bool" where
  "call_keeps t x = (case x of CallHistory sd now \<Rightarrow> now - t \<le> 3600 | _ \<Rightarrow> True)"

lemma cache_call_keeps:
  assumes ok: "cmap_ok ops" and inv: "cache_inv ops c" and call: "cache_call ops x c = Ret (k, c')"
    and hist: "cm_get ops (enodeHistory c) key = Some (Int64V t)" and keeps: "call_keeps t x"
  shows "cm_get ops (enodeHistory c') key = Some (Int64V t) \<and> k \<noteq> Some key"
proof (cases x)
  case (CallAdd ip port enode now)
  then show ?thesis using call hist by (auto simp: addEnodeToCache_def Let_def)
next
  case (CallDail r sd now)
  have "cm_get ops (enodePool c) key = None"
    using inv hist by (auto simp: cache_inv_def dest!: spec [of _ key])
  then show ?thesis
    using CallDail call hist getEnodeFromCacheForDail_spec [OF ok inv, of r sd now]
    by (auto simp: cmap_okD(3) [OF ok])
next
  case (CallHistory sd now)
  then show ?thesis
    using call hist keeps HistoryLoop_body_spec [OF ok inv, of sd now] by (auto simp: call_keeps_def)
qed

lemma cache_run_keeps:
  assumes ok: "cmap_ok ops"
  shows "cache_inv ops c \<Longrightarrow> cm_get ops (enodeHistory c) key = Some (Int64V t) \<Longrightarrow>
    list_all (call_keeps t) xs \<Longrightarrow> cache_run ops xs c = Ret (ks, c') \<Longrightarrow> Some key \<notin> set ks"
proof (induction xs arbitrary: c ks)
  case (Cons x xs)
  from Cons.prems(4) obtain k c1 ks' where step:
    "cache_call ops x c = Ret (k, c1)" "cache_run ops xs c1 = Ret (ks', c')" "ks = k # ks'"
    by (auto simp: go_bind_eq_Ret)
  have "cache_inv ops c1" using cache_call_inv [OF ok Cons.prems(1), of x] step(1) by simp
  moreover have "cm_get ops (enodeHistory c1) key = Some (Int64V t)" "k \<noteq> Some key"
    using cache_call_keeps [OF ok Cons.prems(1) step(1) Cons.prems(2)] Cons.prems(3) by auto
  ultimately show ?case using Cons.IH step(2,3) Cons.prems(3) by auto
qed simp

lemma cache_run_total:
  assumes ok: "cmap_ok ops"
  shows "cache_inv ops c \<Longrightarrow> \<exists>ks c'. cache_run ops xs c = Ret (ks, c') \<and> cache_inv ops c' \<and> length ks = length xs"
proof (induction xs arbitrary: c)
  case (Cons x xs)
  from cache_call_inv [OF ok Cons.prems, of x] obtain k c1 where
    "cache_call ops x c = Ret (k, c1)" "cache_inv ops c1" by blast
  with Cons.IH [of c1] show ?case by auto
qed simp

lemma cache_dail_history:
  assumes "cmap_ok ops" "cache_inv ops c" "cache_call ops (CallDail r sd now) c = Ret (Some key, c')"
  shows "cm_get ops (enodeHistory c') key = Some (Int64V now)"
  using getEnodeFromCacheForDail_spec [OF assms(1,2), of r sd now] assms(3)
  by (auto simp: cmap_okD(3) [OF assms(1)])

lemma cache_run_append:
  "cache_run ops (xs @ ys) c =
     go_bind (cache_run ops xs c)
       (\<lambda>(ks, c'). go_bind (cache_run ops ys c') (\<lambda>(ls, c''). Ret (ks @ ls, c'')))"
proof (induction xs arbitrary: c)
  case Nil
  then show ?case by (cases "cache_run ops ys c") auto
next
  case (Cons x xs)
  show ?case
  proof (cases "cache_call ops x c")
    case (Ret p)
    then show ?thesis
      by (auto simp: Cons.IH go_bind_assoc split_def)
  qed simp_all
qed



subsection \<open>The cache without a lock around \<^verbatim>\<open>addEnodeToCache\<close>\<close>

text \<open>
  The crawlers call \<^verbatim>\<open>addEnodeToCache\<close> from their own goroutines and it takes no lock,
  so its three map operations interleave with the two of a dial. Each is one atomic step here;
  run without interference they are the functions above.
\<close>

record 'm raceState =
  rs_cache :: "'m enodeCache"
  rs_add_pc :: nat
  rs_dail_pc :: nat

definition add_step :: "'m cmap_ops \<Rightarrow> nodeItem \<Rightarrow> 'm raceState \<Rightarrow> 'm raceState" where
  "add_step ops it s =
     (let c = rs_cache s; key = enodeKey (BootIP it) (BootPort it)
      in if rs_add_pc s = 0 then s\<lparr>rs_add_pc := if cm_has ops (enodeHistory c) key then 3 else 1\<rparr>
         else if rs_add_pc s = 1 then s\<lparr>rs_add_pc := if cm_has ops (enodePool c) key then 3 else 2\<rparr>
         else if rs_add_pc s = 2 then
           s\<lparr>rs_cache := c\<lparr>enodePool := cm_set ops (enodePool c) key (NodeItemV it)\<rparr>, rs_add_pc := 3\<rparr>
         else s)"

definition dail_step :: "'m cmap_ops \<Rightarrow> string \<Rightarrow> int \<Rightarrow> 'm raceState \<Rightarrow> 'm raceState" where
  "dail_step ops key now s =
     (let c = rs_cache s
      in if rs_dail_pc s = 0 then
           s\<lparr>rs_cache := c\<lparr>enodePool := cm_remove ops (enodePool c) key\<rparr>, rs_dail_pc := 1\<rparr>
         else if rs_dail_pc s = 1 then
           s\<lparr>rs_cache := c\<lparr>enodeHistory := cm_set ops (enodeHistory c) key (Int64V now)\<rparr>, rs_dail_pc := 2\<rparr>
         else s)"

text \<open>A schedule says at each point whether the crawler (\<open>True\<close>) or the manager moves.\<close>

fun race_run :: "'m cmap_ops \<Rightarrow> nodeItem \<Rightarrow> int \<Rightarrow> bool list \<Rightarrow> 'm raceState \<Rightarrow> 'm raceState" where
  "race_run ops it now [] s = s"
| "race_run ops it now (b # bs) s =
     race_run ops it now bs
       (if b then add_step ops it s else dail_step ops (enodeKey (BootIP it) (BootPort it)) now s)"

lemma add_steps_atomic:
  "rs_cache (race_run ops it now [True, True, True] \<lparr>rs_cache = c, rs_add_pc = 0, rs_dail_pc = d\<rparr>) =
     addEnodeToCache ops (BootIP it) (BootPort it) (BootNodeID it) (AddTime it) c"
  by (cases it) (simp add: add_step_def addEnodeToCache_def Let_def)



subsection \<open>The printed duration of a connection\<close>

text \<open>
  \<^verbatim>\<open>GetDurationFormatBySecond\<close>: the product with \<^verbatim>\<open>time.Second\<close> is a signed
  64-bit number of nanoseconds and wraps; hours, minutes and seconds are truncated from it.
\<close>

definition duration_of_seconds :: "int \<Rightarrow> int" where
  "duration_of_seconds sec = sint (word_of_int (sec * 1000000000) :: u64)"

definition go_quot :: "int \<Rightarrow> int \<Rightarrow> int" where
  "go_quot a b = sgn a * sgn b * (\<bar>a\<bar> div \<bar>b\<bar>)"

definition go_rem :: "int \<Rightarrow> int \<Rightarrow> int" where
  "go_rem a b = a - b * go_quot a b"

definition duration_parts :: "int \<Rightarrow> int \<times> int \<times> int" where
  "duration_parts sec =
     (let d = duration_of_seconds sec
      in (go_quot d 3600000000000, go_rem (go_quot d 60000000000) 60, go_rem (go_quot d 1000000000) 60))"

definition GetDurationFormatBySecond :: "int \<Rightarrow> string" where
  "GetDurationFormatBySecond sec =
     (if sec \<le> 60 then ''1Min''
      else let (h, m, s) = duration_parts sec
           in (if h > 0 then fmt_int h @ ''Hour'' else []) @
              (if m > 0 then fmt_int m @ ''Minute'' else []) @
              (if s > 0 then fmt_int s @ ''Second'' else []))"

lemma duration_of_seconds_exact:
  assumes "0 \<le> sec" "sec \<le> 9223372036"
  shows "duration_of_seconds sec = sec * 1000000000"
  unfolding duration_of_seconds_def
  by (rule sint_word_of_int_in_range) (use assms in simp_all)

lemma duration_parts_exact:
  assumes "0 \<le> sec" "sec \<le> 9223372036"
  shows "duration_parts sec = (sec div 3600, sec div 60 mod 60, sec mod 60)"
proof -
  have q: "go_quot (sec * 1000000000) (k * 1000000000) = sec div k" if "0 < k" for k
    using that assms(1) by (auto simp: go_quot_def sgn_if abs_mult)
  have r: "go_rem a 60 = a mod 60" if "0 \<le> a" for a
    using that by (auto simp: go_rem_def go_quot_def sgn_if minus_div_mult_eq_mod [symmetric])
  show ?thesis
    using q [of 3600] q [of 60] q [of 1] assms
    by (simp add: duration_parts_def duration_of_seconds_exact Let_def r)
qed

end
