(* ===== verification/Node_Manager.thy ===== *)
theory Node_Manager
  imports Node_Cache
begin

text \<open>
  The node manager of \<^verbatim>\<open>node_manager/node-manager.go\<close>: the callbacks for received transactions
  and blocks, the loop that grades peers and dials new ones, the crawl loop, and the handlers of
  the manager's RPC service.

  Pointers are addresses: the maps hold the address of a \<^verbatim>\<open>CoinBaseInfo\<close> or of a channel, and the
  state maps addresses to contents. Logging is left out. A transaction or block is given by what
  the callbacks read of it: its hash and its encoding (or the error the encoder returned).
\<close>

record managerSetting =
  set_BootIP :: string
  set_BootPort :: int
  MaxCount :: int
  MaxDailCount :: int
  CrawlCount :: int
  PendingEnodeCount :: int
  PrivateKey :: string
  NetworkID :: u64
  GenesisHash :: string
  HeadNumber :: u64
  HeadHash :: string
  Td :: int

record coinBaseInfo =
  LastBlock :: int
  PeerIdList :: "string list"

record streamRes =
  StreamType :: int
  Msg :: bytes

record ('m, 's) manager =
  serverPeers :: 'm
  coinBaseList :: 'm
  knowBlock :: "'s knownCache"
  knowTx :: "'s knownCache"
  lastRecvBlockTime :: int
  lastRecvBlockNum :: u64
  chans :: "nat \<Rightarrow> streamRes list"
  infos :: "nat \<Rightarrow> coinBaseInfo"
  nextInfo :: nat

definition initManager :: "'m cmap_ops \<Rightarrow> ('s, bytes) mapset_ops \<Rightarrow> ('m, 's) manager" where
  "initManager cops mops =
     \<lparr>serverPeers = cm_new cops, coinBaseList = cm_new cops,
      knowBlock = newKnownCache mops 12345, knowTx = newKnownCache mops 1024,
      lastRecvBlockTime = 0, lastRecvBlockNum = 0,
      chans = (\<lambda>_. []), infos = (\<lambda>_. \<lparr>LastBlock = 0, PeerIdList = []\<rparr>), nextInfo = 0\<rparr>"

subsection \<open>Received transactions and blocks\<close>

text \<open>The loop over the connected clients; a client's channel has a buffer of 1024.\<close>

fun broadcast :: "(string \<times> iface) list \<Rightarrow> streamRes \<Rightarrow> (nat \<Rightarrow> streamRes list) \<Rightarrow> (nat \<Rightarrow> streamRes list) go" where
  "broadcast [] m cs = Ret cs"
| "broadcast ((key, ServerPeerV p) # items) m cs =
     go_bind (chan_send 1024 (cs (StreamChan p)) m) (\<lambda>buf. broadcast items m (cs(StreamChan p := buf)))"
| "broadcast ((key, _) # items) m cs = Panicked"

record transaction =
  tx_Hash :: bytes
  tx_MarshalBinary :: "string + bytes"

definition TransactionProcess ::
  "'m cmap_ops \<Rightarrow> ('s, bytes) mapset_ops \<Rightarrow> seed \<Rightarrow> transaction \<Rightarrow> ('m, 's) manager \<Rightarrow> ('m, 's) manager go" where
  "TransactionProcess cops mops sd tx s =
     (if \<not> kc_Contains mops (knowTx s) (tx_Hash tx) then
        (case kc_Add mops (knowTx s) [tx_Hash tx] of
           None \<Rightarrow> Blocked
         | Some k \<Rightarrow>
             let s = s\<lparr>knowTx := k\<rparr>
             in case tx_MarshalBinary tx of
                  Inl err \<Rightarrow> Ret s
                | Inr msg \<Rightarrow>
                    go_bind (broadcast (cm_iter cops sd (serverPeers s)) \<lparr>StreamType = 2, Msg = msg\<rparr> (chans s))
                      (\<lambda>cs. Ret (s\<lparr>chans := cs\<rparr>)))
      else Ret s)"

record block =
  blk_Number :: int
  blk_Coinbase :: string
  blk_Hash :: bytes
  blk_EncodeRLP :: "string + bytes"

text \<open>\<^verbatim>\<open>strings.ToLower\<close> on the ASCII characters of an address.\<close>

definition lower_char :: "char \<Rightarrow> char" where
  "lower_char c = (if 65 \<le> (of_char c :: nat) \<and> (of_char c :: nat) \<le> 90 then char_of ((of_char c :: nat) + 32) else c)"

definition ToLower :: "string \<Rightarrow> string" where
  "ToLower s = map lower_char s"

definition big_Int64 :: "int \<Rightarrow> int" where
  "big_Int64 z = sint (word_of_int z :: 64 word)"

definition updateCoinBase :: "'m cmap_ops \<Rightarrow> block \<Rightarrow> string \<Rightarrow> ('m, 's) manager \<Rightarrow> ('m, 's) manager go" where
  "updateCoinBase cops block peerID s =
     (let coinBase = ToLower (blk_Coinbase block); num = big_Int64 (blk_Number block)
      in case cm_get cops (coinBaseList s) coinBase of
           Some (CoinBaseInfoV a) \<Rightarrow>
             Ret (let info = infos s a
                  in if num > LastBlock info then
                       s\<lparr>infos := (infos s)(a := \<lparr>LastBlock = num, PeerIdList = [peerID]\<rparr>)\<rparr>
                     else if length (PeerIdList info) < 60 then
                       s\<lparr>infos := (infos s)(a := info\<lparr>PeerIdList := PeerIdList info @ [peerID]\<rparr>)\<rparr>
                     else s)
         | Some _ \<Rightarrow> Panicked
         | None \<Rightarrow>
             let a = nextInfo s
             in Ret (s\<lparr>infos := (infos s)(a := \<lparr>LastBlock = num, PeerIdList = [peerID]\<rparr>), nextInfo := Suc a,
                       coinBaseList := cm_set cops (coinBaseList s) coinBase (CoinBaseInfoV a)\<rparr>))"

definition BlockProcess ::
  "'m cmap_ops \<Rightarrow> ('s, bytes) mapset_ops \<Rightarrow> seed \<Rightarrow> int \<Rightarrow> block \<Rightarrow> string \<Rightarrow> ('m, 's) manager \<Rightarrow> ('m, 's) manager go" where
  "BlockProcess cops mops sd now block peerID s =
     go_bind (updateCoinBase cops block peerID s) (\<lambda>s.
       if \<not> kc_Contains mops (knowBlock s) (blk_Hash block) then
         (case kc_Add mops (knowBlock s) [blk_Hash block] of
            None \<Rightarrow> Blocked
          | Some k \<Rightarrow>
              let s = s\<lparr>knowBlock := k, lastRecvBlockTime := now, lastRecvBlockNum := word_of_int (blk_Number block)\<rparr>
              in case blk_EncodeRLP block of
                   Inl err \<Rightarrow> Ret s
                 | Inr msg \<Rightarrow>
                     go_bind (broadcast (cm_iter cops sd (serverPeers s)) \<lparr>StreamType = 1, Msg = msg\<rparr> (chans s))
                       (\<lambda>cs. Ret (s\<lparr>chans := cs\<rparr>)))
       else Ret s)"

subsection \<open>Grading peers and dialling\<close>

record ethPeer =
  ep_ID :: string
  PeerStartTime :: int
  LastBlockNumber :: u64
  TotalRecvBlock :: u64
  TotalRecvTx :: u64
  RemoteIP :: string
  RemotePort :: int

definition bKickOut :: "u64 \<Rightarrow> int \<Rightarrow> ethPeer \<Rightarrow> bool" where
  "bKickOut lastNum nowTime peer =
     (if nowTime - PeerStartTime peer \<ge> 27 then
        (if LastBlockNumber peer = 0 \<and> TotalRecvTx peer = 0 then True
         else if lastNum > LastBlockNumber peer \<and> lastNum - LastBlockNumber peer > 128 then
           TotalRecvTx peer \<le> 10
         else False)
      else False)"

text \<open>
  The loop over the peers; \<open>clock index\<close> is the time it reads in a round. The result are the
  peers it disconnects.
\<close>

fun kickLoop :: "u64 \<Rightarrow> (nat \<Rightarrow> int) \<Rightarrow> nat \<Rightarrow> ethPeer list \<Rightarrow> string list" where
  "kickLoop lastNum clock index [] = []"
| "kickLoop lastNum clock index (peer # ps) =
     (if bKickOut lastNum (clock index) peer then ep_ID peer # kickLoop lastNum clock (Suc index) ps
      else kickLoop lastNum clock (Suc index) ps)"

text \<open>\<^verbatim>\<open>strings.ReplaceAll(s, "0x", "")\<close>.\<close>

fun remove0x :: "string \<Rightarrow> string" where
  "remove0x (c # d # cs) = (if c = CHR ''0'' \<and> d = CHR ''x'' then remove0x cs else c # remove0x (d # cs))"
| "remove0x cs = cs"

definition enodeLine :: "nodeItem \<Rightarrow> string" where
  "enodeLine it =
     remove0x (''enode://'' @ BootNodeID it @ ''@'' @ BootIP it @ '':'' @ fmt_int (BootPort it))"

text \<open>One round of \<^verbatim>\<open>ManagerLoop\<close>: whom it disconnects, whom it dials, and the caches after it.\<close>

definition ManagerLoop_body ::
  "'m cmap_ops \<Rightarrow> (string \<Rightarrow> 'node option) \<Rightarrow> managerSetting \<Rightarrow> nat \<Rightarrow> seed \<Rightarrow> (nat \<Rightarrow> int) \<Rightarrow> int \<Rightarrow>
   (string, ethPeer) gomap \<Rightarrow> seed \<Rightarrow> int \<Rightarrow> u64 \<Rightarrow> 'm enodeCache \<Rightarrow>
   (string list \<times> 'node option \<times> 'm enodeCache) go" where
  "ManagerLoop_body cops parse setting r sd clock now allPeers psd dialing lastNum c =
     (let kicked = kickLoop lastNum clock 1 (map snd (gomap_range psd allPeers))
      in if int (gomap_len allPeers) < MaxCount setting then
           (if dialing \<le> MaxDailCount setting then
              go_bind (getEnodeFromCacheForDail cops r sd now c) (\<lambda>(item, c).
                case item of
                  None \<Rightarrow> Ret (kicked, None, c)
                | Some it \<Rightarrow> Ret (kicked, parse (enodeLine it), c))
            else Ret (kicked, None, c))
         else Ret (kicked, None, c))"

subsection \<open>The crawl loop\<close>

datatype crawlAct = Exit | Run string int | Idle

text \<open>\<^verbatim>\<open>rand.Intn(n)\<close> panics for \<open>n \<le> 0\<close>.\<close>

definition rand_Intn :: "nat \<Rightarrow> nat \<Rightarrow> nat go" where
  "rand_Intn r n = (if n = 0 then Panicked else Ret (r mod n))"

definition crawlLoop_body ::
  "'m cmap_ops \<Rightarrow> managerSetting \<Rightarrow> bool \<Rightarrow> nat \<Rightarrow> seed \<Rightarrow> (string, ethPeer) gomap \<Rightarrow> seed \<Rightarrow> nat \<Rightarrow> 'm enodeCache \<Rightarrow>
   crawlAct go" where
  "crawlLoop_body cops setting cancelFlag r sd allPeers psd r2 c =
     (if cancelFlag then Ret Exit
      else if int (cm_count cops (enodePool c)) < PendingEnodeCount setting then
        go_bind (getRandEnodeFromCache cops r sd c) (\<lambda>item.
          case item of
            Some it \<Rightarrow> Ret (Run (BootIP it) (BootPort it))
          | None \<Rightarrow>
              go_bind (rand_Intn r2 (gomap_len allPeers)) (\<lambda>targetIndex.
                case iter_find targetIndex 0 (gomap_range psd allPeers) of
                  Some (_, peer) \<Rightarrow> Ret (Run (RemoteIP peer) (RemotePort peer))
                | None \<Rightarrow> Ret Idle))
      else Ret Idle)"

definition exitWatcher :: "bool \<Rightarrow> bool" where
  "exitWatcher cancelFlag = True"

subsection \<open>Sending transactions for a client\<close>

text \<open>\<^verbatim>\<open>UnmarshalBinary\<close> of all transactions of a request; the first error ends the request with status 1.\<close>

fun unmarshalTxs :: "(bytes \<Rightarrow> string + 'tx) \<Rightarrow> bytes list \<Rightarrow> string + 'tx list" where
  "unmarshalTxs um [] = Inr []"
| "unmarshalTxs um (h # hs) =
     (case um h of
        Inl err \<Rightarrow> Inl err
      | Inr tx \<Rightarrow> (case unmarshalTxs um hs of Inl err \<Rightarrow> Inl err | Inr txs \<Rightarrow> Inr (tx # txs)))"

text \<open>
  The goroutines of \<^verbatim>\<open>HandSendTx\<close> read the loop variable \<^verbatim>\<open>peer\<close> when they run. The goroutine
  of round \<open>i\<close> runs after \<open>delays ! i\<close> further rounds of the loop, and then finds the peer of that
  round, or of the last one.
\<close>

fun capturedPeers :: "nat list \<Rightarrow> 'p list \<Rightarrow> 'p list" where
  "capturedPeers delays [] = []"
| "capturedPeers delays (p # ps) =
     (p # ps) ! min (case delays of [] \<Rightarrow> 0 | d # _ \<Rightarrow> d) (length ps) # capturedPeers (tl delays) ps"

definition HandSendTx ::
  "(bytes \<Rightarrow> string + 'tx) \<Rightarrow> bytes list \<Rightarrow> (string, ethPeer) gomap \<Rightarrow> seed \<Rightarrow> nat list \<Rightarrow> nat \<times> (string \<times> 'tx list) list" where
  "HandSendTx um txHex allPeers psd delays =
     (case unmarshalTxs um txHex of
        Inl err \<Rightarrow> (1, [])
      | Inr txs \<Rightarrow>
          (0, if length txs > 0 then
                map (\<lambda>p. (ep_ID p, txs)) (capturedPeers delays (map snd (gomap_range psd allPeers)))
              else []))"

fun topLoop :: "int \<Rightarrow> int \<Rightarrow> (string, ethPeer) gomap \<Rightarrow> string list \<Rightarrow> string list" where
  "topLoop index limit allPeers [] = []"
| "topLoop index limit allPeers (peerId # ids) =
     (if index < limit then
        (case gomap_get allPeers peerId of
           Some sendPeer \<Rightarrow> ep_ID sendPeer # topLoop (index + 1) limit allPeers ids
         | None \<Rightarrow> topLoop (index + 1) limit allPeers ids)
      else [])"

fun findCoinBase :: "string \<Rightarrow> (string \<times> iface) list \<Rightarrow> nat option go" where
  "findCoinBase name [] = Ret None"
| "findCoinBase name ((key, CoinBaseInfoV a) # items) = (if key = name then Ret (Some a) else findCoinBase name items)"
| "findCoinBase name ((key, _) # items) = Panicked"

definition HandSendTxToCoinBase ::
  "'m cmap_ops \<Rightarrow> (bytes \<Rightarrow> string + 'tx) \<Rightarrow> bytes list \<Rightarrow> string \<Rightarrow> int \<Rightarrow> (string, ethPeer) gomap \<Rightarrow> seed \<Rightarrow>
   ('m, 's) manager \<Rightarrow> (nat \<times> (string \<times> 'tx list) list) go" where
  "HandSendTxToCoinBase cops um txHex coinBaseName limit allPeers sd s =
     (case unmarshalTxs um txHex of
        Inl err \<Rightarrow> Ret (1, [])
      | Inr txs \<Rightarrow>
          if length txs > 0 then
            go_bind (findCoinBase coinBaseName (cm_iter cops sd (coinBaseList s))) (\<lambda>a.
              case a of
                None \<Rightarrow> Ret (0, [])
              | Some a \<Rightarrow> Ret (0, map (\<lambda>i. (i, txs)) (topLoop 0 limit allPeers (PeerIdList (infos s a)))))
          else Ret (0, []))"

subsection \<open>The stream handler\<close>

text \<open>
  \<^verbatim>\<open>HandStartStream\<close> runs once per request, all requests at the same time. Of a handler the state
  keeps where it is, its send channel (the messages in the buffer), the deliveries its goroutines
  are busy with, and how many of them wait to send on the unbuffered \<^verbatim>\<open>closeSteamChan\<close>. The check
  of \<^verbatim>\<open>serverPeer.Has\<close> and the \<^verbatim>\<open>Set\<close> after it are two steps.
\<close>

datatype streamPc = Fresh | Checked | Serving | Returned

record 'm streamSys =
  sys_peers :: 'm
  sys_pc :: "nat \<Rightarrow> streamPc"
  sys_buf :: "nat \<Rightarrow> streamRes list"
  sys_deliver :: "nat \<Rightarrow> streamRes list"
  sys_closing :: "nat \<Rightarrow> nat"

inductive stream_step :: "'m cmap_ops \<Rightarrow> (nat \<Rightarrow> string) \<Rightarrow> 'm streamSys \<Rightarrow> 'm streamSys \<Rightarrow> bool"
  for cops :: "'m cmap_ops" and name :: "nat \<Rightarrow> string" where
  Refuse: "stream_step cops name s (s\<lparr>sys_pc := (sys_pc s)(h := Returned)\<rparr>)"
    if "sys_pc s h = Fresh" "cm_has cops (sys_peers s) (name h)"
| Check: "stream_step cops name s (s\<lparr>sys_pc := (sys_pc s)(h := Checked)\<rparr>)"
    if "sys_pc s h = Fresh" "\<not> cm_has cops (sys_peers s) (name h)"
| Register: "stream_step cops name s
      (s\<lparr>sys_pc := (sys_pc s)(h := Serving),
         sys_peers := cm_set cops (sys_peers s) (name h) (ServerPeerV \<lparr>sp_Name = name h, StreamChan = h\<rparr>)\<rparr>)"
    if "sys_pc s h = Checked"
| Publish: "stream_step cops name s (s\<lparr>sys_buf := cs\<rparr>)"
    if "broadcast (cm_iter cops sd (sys_peers s)) m (sys_buf s) = Ret cs"
| Receive: "stream_step cops name s
      (s\<lparr>sys_buf := (sys_buf s)(h := ms), sys_deliver := (sys_deliver s)(h := m # sys_deliver s h)\<rparr>)"
    if "sys_pc s h = Serving" "sys_buf s h = m # ms"
| Delivered: "stream_step cops name s (s\<lparr>sys_deliver := (sys_deliver s)(h := remove1 m (sys_deliver s h))\<rparr>)"
    if "m \<in> set (sys_deliver s h)"
| SendFailed: "stream_step cops name s
      (s\<lparr>sys_deliver := (sys_deliver s)(h := remove1 m (sys_deliver s h)), sys_closing := (sys_closing s)(h := Suc (sys_closing s h))\<rparr>)"
    if "m \<in> set (sys_deliver s h)"
| Close: "stream_step cops name s
      (s\<lparr>sys_pc := (sys_pc s)(h := Returned), sys_closing := (sys_closing s)(h := n),
         sys_peers := cm_remove cops (sys_peers s) (name h)\<rparr>)"
    if "sys_pc s h = Serving" "sys_closing s h = Suc n"

definition stream_init :: "'m cmap_ops \<Rightarrow> 'm streamSys" where
  "stream_init cops =
     \<lparr>sys_peers = cm_new cops, sys_pc = (\<lambda>_. Fresh), sys_buf = (\<lambda>_. []), sys_deliver = (\<lambda>_. []), sys_closing = (\<lambda>_. 0)\<rparr>"

subsection \<open>The tracker of block producers\<close>

text \<open>What the map says about a block producer, and one received block on it.\<close>

definition cb_abs :: "'m cmap_ops \<Rightarrow> ('m, 's) manager \<Rightarrow> string \<Rightarrow> coinBaseInfo option" where
  "cb_abs cops s c = (case cm_get cops (coinBaseList s) c of Some (CoinBaseInfoV a) \<Rightarrow> Some (infos s a) | _ \<Rightarrow> None)"

definition cb_inv :: "'m cmap_ops \<Rightarrow> ('m, 's) manager \<Rightarrow> bool" where
  "cb_inv cops s \<longleftrightarrow>
     (\<forall>k v. cm_get cops (coinBaseList s) k = Some v \<longrightarrow> (\<exists>a < nextInfo s. v = CoinBaseInfoV a)) \<and>
     (\<forall>k k' v. cm_get cops (coinBaseList s) k = Some v \<longrightarrow> cm_get cops (coinBaseList s) k' = Some v \<longrightarrow> k = k')"

lemma cb_invI:
  "(\<And>k v. cm_get cops (coinBaseList s) k = Some v \<Longrightarrow> \<exists>a < nextInfo s. v = CoinBaseInfoV a) \<Longrightarrow>
   (\<And>k k' v. cm_get cops (coinBaseList s) k = Some v \<Longrightarrow> cm_get cops (coinBaseList s) k' = Some v \<Longrightarrow> k = k') \<Longrightarrow>
   cb_inv cops s"
  unfolding cb_inv_def by blast

lemma cb_invD:
  assumes "cb_inv cops s"
  shows "cm_get cops (coinBaseList s) k = Some v \<Longrightarrow> \<exists>a < nextInfo s. v = CoinBaseInfoV a"
    "cm_get cops (coinBaseList s) k = Some v \<Longrightarrow> cm_get cops (coinBaseList s) k' = Some v \<Longrightarrow> k = k'"
  using assms unfolding cb_inv_def by blast+

definition track :: "coinBaseInfo option \<Rightarrow> int \<times> string \<Rightarrow> coinBaseInfo option" where
  "track i x =
     Some (case i of
       None \<Rightarrow> \<lparr>LastBlock = fst x, PeerIdList = [snd x]\<rparr>
     | Some info \<Rightarrow>
         if fst x > LastBlock info then \<lparr>LastBlock = fst x, PeerIdList = [snd x]\<rparr>
         else if length (PeerIdList info) < 60 then info\<lparr>PeerIdList := PeerIdList info @ [snd x]\<rparr>
         else info)"

lemma updateCoinBase_refines:
  assumes ok: "cmap_ok cops" and inv: "cb_inv cops s"
  shows "\<exists>s'. updateCoinBase cops b p s = Ret s' \<and> cb_inv cops s' \<and>
    cb_abs cops s' = (cb_abs cops s)(ToLower (blk_Coinbase b) := track (cb_abs cops s (ToLower (blk_Coinbase b))) (big_Int64 (blk_Number b), p))"
proof (cases "cm_get cops (coinBaseList s) (ToLower (blk_Coinbase b))")
  case None
  let ?c = "ToLower (blk_Coinbase b)" and ?a = "nextInfo s"
  have fresh: "cm_get cops (coinBaseList s) k \<noteq> Some (CoinBaseInfoV ?a)" for k
    using cb_invD(1) [OF inv, of k "CoinBaseInfoV ?a"] by auto
  have old: "cm_get cops (coinBaseList s) k = Some (CoinBaseInfoV a) \<Longrightarrow> a \<noteq> ?a" for k a
    using fresh by blast
  obtain s' where s': "updateCoinBase cops b p s = Ret s'"
    "s' = s\<lparr>infos := (infos s)(?a := \<lparr>LastBlock = big_Int64 (blk_Number b), PeerIdList = [p]\<rparr>), nextInfo := Suc ?a,
       coinBaseList := cm_set cops (coinBaseList s) ?c (CoinBaseInfoV ?a)\<rparr>"
    using None by (simp add: updateCoinBase_def Let_def)
  have g: "cm_get cops (coinBaseList s') k = (if k = ?c then Some (CoinBaseInfoV ?a) else cm_get cops (coinBaseList s) k)" for k
    by (simp add: s'(2) cmap_okD(3) [OF ok])
  have n: "nextInfo s' = Suc ?a" by (simp add: s'(2))
  have "cb_inv cops s'"
  proof (rule cb_invI)
    fix k v
    assume v: "cm_get cops (coinBaseList s') k = Some v"
    show "\<exists>a < nextInfo s'. v = CoinBaseInfoV a"
    proof (cases "k = ?c")
      case True
      with v g have "v = CoinBaseInfoV ?a" by simp
      with n show ?thesis by auto
    next
      case False
      with v g have "cm_get cops (coinBaseList s) k = Some v" by simp
      from cb_invD(1) [OF inv this] n show ?thesis using less_SucI by metis
    qed
  next
    fix k k' v
    assume v: "cm_get cops (coinBaseList s') k = Some v" "cm_get cops (coinBaseList s') k' = Some v"
    show "k = k'"
    proof (cases "k = ?c \<or> k' = ?c")
      case True
      with v g fresh show ?thesis by (metis option.inject)
    next
      case False
      with v g cb_invD(2) [OF inv, of k v k'] show ?thesis by simp
    qed
  qed
  moreover have "cb_abs cops s' = (cb_abs cops s)(?c := track (cb_abs cops s ?c) (big_Int64 (blk_Number b), p))"
    using None old by (auto simp: s'(2) cb_abs_def track_def cmap_okD(3) [OF ok] fun_eq_iff split: option.splits iface.splits)
  ultimately show ?thesis using s'(1) by blast
next
  case (Some v)
  let ?c = "ToLower (blk_Coinbase b)" and ?n = "big_Int64 (blk_Number b)"
  from cb_invD(1) [OF inv Some] obtain a where v: "v = CoinBaseInfoV a" by blast
  have other: "k = ?c" if "cm_get cops (coinBaseList s) k = Some (CoinBaseInfoV a)" for k
    using cb_invD(2) [OF inv that] Some v by simp
  define i where "i = the (track (Some (infos s a)) (?n, p))"
  obtain s' where s': "updateCoinBase cops b p s = Ret s'" and st: "s' = s\<lparr>infos := (infos s)(a := i)\<rparr>"
    using Some v by (auto simp: updateCoinBase_def Let_def i_def track_def)
  have "cb_inv cops s'" using inv by (simp add: st cb_inv_def)
  moreover have "cb_abs cops s' = (cb_abs cops s)(?c := track (cb_abs cops s ?c) (?n, p))"
  proof
    fix k
    have "track (Some (infos s a)) (?n, p) = Some i" by (simp add: i_def track_def)
    then have c: "track (cb_abs cops s ?c) (?n, p) = Some i" using Some v by (simp add: cb_abs_def)
    show "cb_abs cops s' k = ((cb_abs cops s)(?c := track (cb_abs cops s ?c) (?n, p))) k"
    proof (cases "k = ?c")
      case True
      with Some v c show ?thesis by (simp add: st cb_abs_def)
    next
      case False
      with other [of k] have "cm_get cops (coinBaseList s) k \<noteq> Some (CoinBaseInfoV a)" by blast
      with False show ?thesis by (auto simp: st cb_abs_def split: option.split iface.split)
    qed
  qed
  ultimately show ?thesis using s' by blast
qed

text \<open>After the broadcast only the channels differ.\<close>

lemma BlockProcess_coinBase:
  assumes "BlockProcess cops mops sd now b p s = Ret s'"
  shows "\<exists>t. updateCoinBase cops b p s = Ret t \<and> coinBaseList s' = coinBaseList t \<and> infos s' = infos t \<and> nextInfo s' = nextInfo t"
proof -
  from assms obtain t where t: "updateCoinBase cops b p s = Ret t" and r:
    "(if \<not> kc_Contains mops (knowBlock t) (blk_Hash b) then
         (case kc_Add mops (knowBlock t) [blk_Hash b] of
            None \<Rightarrow> Blocked
          | Some k \<Rightarrow>
              let s = t\<lparr>knowBlock := k, lastRecvBlockTime := now, lastRecvBlockNum := word_of_int (blk_Number b)\<rparr>
              in case blk_EncodeRLP b of
                   Inl err \<Rightarrow> Ret s
                 | Inr msg \<Rightarrow>
                     go_bind (broadcast (cm_iter cops sd (serverPeers s)) \<lparr>StreamType = 1, Msg = msg\<rparr> (chans s))
                       (\<lambda>cs. Ret (s\<lparr>chans := cs\<rparr>)))
       else Ret t) = Ret s'"
    unfolding BlockProcess_def go_bind_eq_Ret by blast
  have "coinBaseList s' = coinBaseList t \<and> infos s' = infos t \<and> nextInfo s' = nextInfo t"
  proof (cases "kc_Contains mops (knowBlock t) (blk_Hash b)")
    case False
    with r obtain k where "kc_Add mops (knowBlock t) [blk_Hash b] = Some k"
      by (cases "kc_Add mops (knowBlock t) [blk_Hash b]") simp_all
    with r False show ?thesis
      by (cases "blk_EncodeRLP b") (auto simp: Let_def go_bind_eq_Ret)
  qed (use r in simp)
  with t show ?thesis by blast
qed

lemma cb_abs_cong:
  "coinBaseList s' = coinBaseList t \<Longrightarrow> infos s' = infos t \<Longrightarrow> cb_abs cops s' = cb_abs cops t"
  by (rule ext) (simp add: cb_abs_def split: option.split iface.split)

record recvBlock =
  rb_seed :: seed
  rb_now :: int
  rb_block :: block
  rb_peer :: string

fun block_run :: "'m cmap_ops \<Rightarrow> ('s, bytes) mapset_ops \<Rightarrow> recvBlock list \<Rightarrow> ('m, 's) manager \<Rightarrow> ('m, 's) manager go" where
  "block_run cops mops [] s = Ret s"
| "block_run cops mops (b # bs) s =
     go_bind (BlockProcess cops mops (rb_seed b) (rb_now b) (rb_block b) (rb_peer b) s) (block_run cops mops bs)"

definition deliveries :: "string \<Rightarrow> recvBlock list \<Rightarrow> (int \<times> string) list" where
  "deliveries c bs =
     map (\<lambda>b. (big_Int64 (blk_Number (rb_block b)), rb_peer b)) (filter (\<lambda>b. ToLower (blk_Coinbase (rb_block b)) = c) bs)"

lemma block_run_track:
  assumes ok: "cmap_ok cops" and "cb_inv cops s" "block_run cops mops bs s = Ret s'"
  shows "cb_inv cops s' \<and> cb_abs cops s' c = foldl track (cb_abs cops s c) (deliveries c bs)"
  using assms(2,3)
proof (induction bs arbitrary: s)
  case (Cons b bs)
  let ?c = "ToLower (blk_Coinbase (rb_block b))" and ?x = "(big_Int64 (blk_Number (rb_block b)), rb_peer b)"
  from Cons.prems(2) obtain u where u: "BlockProcess cops mops (rb_seed b) (rb_now b) (rb_block b) (rb_peer b) s = Ret u"
    "block_run cops mops bs u = Ret s'" by (auto simp: go_bind_eq_Ret)
  from BlockProcess_coinBase [OF u(1)] obtain t where t: "updateCoinBase cops (rb_block b) (rb_peer b) s = Ret t"
    "coinBaseList u = coinBaseList t" "infos u = infos t" "nextInfo u = nextInfo t" by blast
  with updateCoinBase_refines [OF ok Cons.prems(1), of "rb_block b" "rb_peer b"] have "cb_inv cops t"
    and a: "cb_abs cops t = (cb_abs cops s)(?c := track (cb_abs cops s ?c) ?x)" by auto
  then have "cb_inv cops u" using t by (simp add: cb_inv_def)
  from Cons.IH [OF this u(2)] cb_abs_cong [OF t(2,3), of cops] a show ?case
    by (cases "?c = c") (simp_all add: deliveries_def)
qed (simp add: deliveries_def)

text \<open>The tracker in closed form: the highest block, and who delivered since it was first seen.\<close>

definition tracked :: "(int \<times> string) list \<Rightarrow> coinBaseInfo" where
  "tracked xs =
     (let m = Max (fst ` set xs)
      in \<lparr>LastBlock = m, PeerIdList = take 60 (map snd (dropWhile (\<lambda>x. fst x < m) xs))\<rparr>)"

lemma track_tracked:
  assumes "xs \<noteq> []"
  shows "track (Some (tracked xs)) x = Some (tracked (xs @ [x]))"
proof -
  let ?m = "Max (fst ` set xs)"
  have fin: "finite (fst ` set xs)" "fst ` set xs \<noteq> {}" using assms by auto
  have m: "Max (fst ` set (xs @ [x])) = max (fst x) ?m" using fin by (simp add: Max_insert)
  have ex: "\<exists>y \<in> set xs. \<not> fst y < ?m" using Max_in [OF fin] by force
  show ?thesis
  proof (cases "fst x > ?m")
    case True
    have "dropWhile (\<lambda>y. fst y < fst x) xs = []"
      unfolding dropWhile_eq_Nil_conv using True Max_ge [OF fin(1)] by fastforce
    then have "dropWhile (\<lambda>y. fst y < fst x) (xs @ [x]) = [x]"
      by (subst dropWhile_append2) (auto simp: dropWhile_eq_Nil_conv)
    with True m show ?thesis by (simp add: track_def tracked_def Let_def)
  next
    case False
    let ?d = "map snd (dropWhile (\<lambda>y. fst y < ?m) xs)"
    have d: "dropWhile (\<lambda>y. fst y < ?m) (xs @ [x]) = dropWhile (\<lambda>y. fst y < ?m) xs @ [x]"
      using ex by (auto intro: dropWhile_append1)
    have "take 60 (?d @ [snd x]) = (if length (take 60 ?d) < 60 then take 60 ?d @ [snd x] else take 60 ?d)" by simp
    with False m d show ?thesis by (simp add: track_def tracked_def Let_def max_def)
  qed
qed

lemma foldl_track: "foldl track None xs = (if xs = [] then None else Some (tracked xs))"
proof (induction xs rule: rev_induct)
  case (snoc x xs)
  show ?case
  proof (cases "xs = []")
    case True
    then show ?thesis by (simp add: track_def tracked_def)
  next
    case False
    with snoc track_tracked [OF False, of x] show ?thesis by simp
  qed
qed simp

subsection \<open>Broadcasting\<close>

text \<open>Every client of the list gets the message once, the others nothing.\<close>

lemma broadcast_spec:
  assumes "broadcast items m cs = Ret cs'" "distinct (map fst items)"
    "\<forall>(k, v) \<in> set items. \<exists>p. v = ServerPeerV p" "inj_on (\<lambda>(k, v). case v of ServerPeerV p \<Rightarrow> StreamChan p | _ \<Rightarrow> 0) (set items)"
  shows "cs' a = (if \<exists>k p. (k, ServerPeerV p) \<in> set items \<and> StreamChan p = a then cs a @ [m] else cs a)"
  using assms
proof (induction items m cs rule: broadcast.induct)
  case (2 key p items m cs)
  let ?ch = "\<lambda>(k, v). case v of ServerPeerV p \<Rightarrow> StreamChan p | _ \<Rightarrow> 0"
  from 2(2) have b: "broadcast items m (cs(StreamChan p := cs (StreamChan p) @ [m])) = Ret cs'"
    by (auto simp: go_bind_eq_Ret chan_send_def split: if_splits)
  have send: "chan_send 1024 (cs (StreamChan p)) m = Ret (cs (StreamChan p) @ [m])"
    using 2(2) by (auto simp: go_bind_eq_Ret chan_send_def split: if_splits)
  have inj: "inj_on ?ch (set items)" by (rule inj_on_subset [OF 2(5)]) auto
  have new: "StreamChan q \<noteq> StreamChan p" if "(k, ServerPeerV q) \<in> set items" for k q
  proof
    assume "StreamChan q = StreamChan p"
    then have "?ch (k, ServerPeerV q) = ?ch (key, ServerPeerV p)" by simp
    from inj_onD [OF 2(5) this] that have "(k, ServerPeerV q) = (key, ServerPeerV p)" by simp
    with 2(3) that show False by force
  qed
  have "cs' a = (if \<exists>k q. (k, ServerPeerV q) \<in> set items \<and> StreamChan q = a
      then (cs(StreamChan p := cs (StreamChan p) @ [m])) a @ [m] else (cs(StreamChan p := cs (StreamChan p) @ [m])) a)"
    using 2(1) [OF send b _ _ inj] 2(3,4) by simp
  with new show ?case by (cases "a = StreamChan p") auto
qed auto

definition clients_ok :: "'m cmap_ops \<Rightarrow> 'm \<Rightarrow> bool" where
  "clients_ok cops m \<longleftrightarrow>
     (\<forall>k v. cm_get cops m k = Some v \<longrightarrow> (\<exists>p. v = ServerPeerV p)) \<and>
     (\<forall>k p k' p'. cm_get cops m k = Some (ServerPeerV p) \<longrightarrow> cm_get cops m k' = Some (ServerPeerV p') \<longrightarrow>
        StreamChan p = StreamChan p' \<longrightarrow> k = k')"

definition client_chan :: "'m cmap_ops \<Rightarrow> 'm \<Rightarrow> nat \<Rightarrow> bool" where
  "client_chan cops m a \<longleftrightarrow> (\<exists>k p. cm_get cops m k = Some (ServerPeerV p) \<and> StreamChan p = a)"

lemma broadcast_clients:
  assumes ok: "cmap_ok cops" and cl: "clients_ok cops m" and b: "broadcast (cm_iter cops sd m) x cs = Ret cs'"
  shows "cs' a = (if client_chan cops m a then cs a @ [x] else cs a)"
proof -
  let ?it = "cm_iter cops sd m"
  note it = cmap_okD(6) [OF ok, of _ _ sd m]
  have peers: "\<forall>(k, v) \<in> set ?it. \<exists>p. v = ServerPeerV p"
    using cl unfolding clients_ok_def by (auto simp: it)
  have "inj_on (\<lambda>(k, v). case v of ServerPeerV p \<Rightarrow> StreamChan p | _ \<Rightarrow> 0) (set ?it)"
  proof (rule inj_onI, clarify)
    fix k v k' v'
    assume a: "(k, v) \<in> set ?it" "(k', v') \<in> set ?it"
      and e: "(case v of ServerPeerV p \<Rightarrow> StreamChan p | _ \<Rightarrow> 0) = (case v' of ServerPeerV p \<Rightarrow> StreamChan p | _ \<Rightarrow> 0)"
    from peers a obtain p p' where p: "v = ServerPeerV p" "v' = ServerPeerV p'" by blast
    with a e cl have "k = k'" unfolding clients_ok_def it by auto
    with a it show "k = k' \<and> v = v'" by auto
  qed
  from broadcast_spec [OF b cmap_okD(7) [OF ok] peers this, of a] show ?thesis
    by (simp add: client_chan_def it)
qed

subsection \<open>The registry of streams\<close>

text \<open>With one request per name, the registry holds exactly the serving handlers.\<close>

definition registry_ok :: "'m cmap_ops \<Rightarrow> (nat \<Rightarrow> string) \<Rightarrow> 'm streamSys \<Rightarrow> bool" where
  "registry_ok cops name s \<longleftrightarrow>
     (\<forall>n v. cm_get cops (sys_peers s) n = Some v \<longleftrightarrow>
        (\<exists>h. name h = n \<and> sys_pc s h = Serving \<and> v = ServerPeerV \<lparr>sp_Name = n, StreamChan = h\<rparr>))"

lemma registry_get:
  assumes "registry_ok cops name s" "inj name"
  shows "cm_get cops (sys_peers s) (name h) =
    (if sys_pc s h = Serving then Some (ServerPeerV \<lparr>sp_Name = name h, StreamChan = h\<rparr>) else None)"
proof (cases "sys_pc s h = Serving")
  case True
  with assms(1) show ?thesis by (auto simp: registry_ok_def)
next
  case False
  have "cm_get cops (sys_peers s) (name h) \<noteq> Some v" for v
    using assms False unfolding registry_ok_def by (auto dest: injD)
  with False show ?thesis by auto
qed

lemma registry_okI:
  assumes "\<And>h. cm_get cops (sys_peers s) (name h) =
      (if sys_pc s h = Serving then Some (ServerPeerV \<lparr>sp_Name = name h, StreamChan = h\<rparr>) else None)"
    "\<And>n. n \<notin> range name \<Longrightarrow> cm_get cops (sys_peers s) n = None" "inj name"
  shows "registry_ok cops name s"
  unfolding registry_ok_def
proof (intro allI)
  fix n v
  show "cm_get cops (sys_peers s) n = Some v \<longleftrightarrow>
      (\<exists>h. name h = n \<and> sys_pc s h = Serving \<and> v = ServerPeerV \<lparr>sp_Name = n, StreamChan = h\<rparr>)"
  proof (cases "n \<in> range name")
    case True
    then obtain h where n: "n = name h" by blast
    have "(\<exists>h'. name h' = n \<and> sys_pc s h' = Serving \<and> v = ServerPeerV \<lparr>sp_Name = n, StreamChan = h'\<rparr>) \<longleftrightarrow>
        sys_pc s h = Serving \<and> v = ServerPeerV \<lparr>sp_Name = n, StreamChan = h\<rparr>"
      using assms(3) n by (auto dest: injD)
    with assms(1) [of h] n show ?thesis by auto
  next
    case False
    with assms(2) [OF False] show ?thesis by auto
  qed
qed

lemma registry_None: "registry_ok cops name s \<Longrightarrow> n \<notin> range name \<Longrightarrow> cm_get cops (sys_peers s) n = None"
  unfolding registry_ok_def by (metis not_Some_eq rangeI)

lemma registry_step:
  assumes ok: "cmap_ok cops" and inj: "inj name" and "stream_step cops name s s'" "registry_ok cops name s"
  shows "registry_ok cops name s'"
  using assms(3)
proof cases
  case (Refuse h)
  then show ?thesis
    by (intro registry_okI inj) (auto simp: registry_get [OF assms(4) inj] registry_None [OF assms(4)])
next
  case (Check h)
  then show ?thesis
    by (intro registry_okI inj) (auto simp: registry_get [OF assms(4) inj] registry_None [OF assms(4)])
next
  case (Register h)
  then show ?thesis
    by (intro registry_okI inj)
      (auto simp: cmap_okD(3) [OF ok] registry_get [OF assms(4) inj] registry_None [OF assms(4)] dest: injD [OF inj])
next
  case (Close h n)
  then show ?thesis
    by (intro registry_okI inj)
      (auto simp: cmap_okD(4) [OF ok] registry_get [OF assms(4) inj] registry_None [OF assms(4)] dest: injD [OF inj])
qed (use assms(4) in \<open>auto simp: registry_ok_def\<close>)

lemma registry_reachable:
  assumes "cmap_ok cops" "inj name" "(stream_step cops name)\<^sup>*\<^sup>* (stream_init cops) s"
  shows "registry_ok cops name s"
  using assms(3)
proof (induction rule: rtranclp_induct)
  case base
  show ?case by (auto simp: registry_ok_def stream_init_def cmap_okD(1) [OF assms(1)])
next
  case (step y z)
  then show ?case using registry_step [OF assms(1,2)] by blast
qed

lemma registry_clients:
  assumes "registry_ok cops name s" "inj name"
  shows "clients_ok cops (sys_peers s)" "client_chan cops (sys_peers s) h \<longleftrightarrow> sys_pc s h = Serving"
proof -
  show "clients_ok cops (sys_peers s)" using assms unfolding clients_ok_def registry_ok_def by auto
  have "client_chan cops (sys_peers s) h \<longleftrightarrow> (\<exists>k. name h = k \<and> sys_pc s h = Serving)"
    using assms(1) unfolding client_chan_def registry_ok_def by force
  then show "client_chan cops (sys_peers s) h \<longleftrightarrow> sys_pc s h = Serving" by simp
qed

subsection \<open>Progress\<close>

text \<open>The selectors of the sample maps and sets.\<close>

lemma list_mapset_sel:
  "ms_new list_mapset = []" "ms_card list_mapset s = length (remdups s)" "ms_add list_mapset s x = x # s"
  "ms_contains list_mapset s x \<longleftrightarrow> x \<in> set s"
  by (simp_all add: list_mapset_def)

lemma alist_cmap_sel:
  "cm_new alist_cmap = []" "cm_has alist_cmap m k \<longleftrightarrow> map_of m k \<noteq> None" "cm_get alist_cmap m k = map_of m k"
  "cm_set alist_cmap m k v = (k, v) # m" "cm_remove alist_cmap m k = filter (\<lambda>e. fst e \<noteq> k) m"
  "cm_count alist_cmap m = length (AList.clearjunk m)" "cm_iter alist_cmap sd m = go_order sd (AList.clearjunk m)"
  by (simp_all add: alist_cmap_def)

lemma broadcast_returns:
  assumes "\<forall>(k, v) \<in> set items. \<exists>p. v = ServerPeerV p \<and> length (cs (StreamChan p)) + length items \<le> 1024"
  shows "\<exists>cs'. broadcast items m cs = Ret cs'"
  using assms
proof (induction items m cs rule: broadcast.induct)
  case (2 key p items m cs)
  then have "length (cs (StreamChan p)) < 1024" by simp
  then have send: "chan_send 1024 (cs (StreamChan p)) m = Ret (cs (StreamChan p) @ [m])" by (simp add: chan_send_def)
  from 2(2) have "\<forall>(k, v) \<in> set items. \<exists>q. v = ServerPeerV q \<and>
      length ((cs(StreamChan p := cs (StreamChan p) @ [m])) (StreamChan q)) + length items \<le> 1024" by fastforce
  from 2(1) [OF send this] send show ?case by (simp add: fun_upd_def)
qed auto

lemma BlockProcess_returns:
  assumes "cmap_ok cops" "mapset_ok mops" "cb_inv cops s" "serverPeers s = cm_new cops"
  shows "\<exists>s'. BlockProcess cops mops sd now b p s = Ret s' \<and> cb_inv cops s' \<and> serverPeers s' = cm_new cops"
proof -
  from updateCoinBase_refines [OF assms(1,3)] obtain t where t: "updateCoinBase cops b p s = Ret t" "cb_inv cops t" by blast
  have sp: "serverPeers t = cm_new cops"
    using t(1) assms(4) by (auto simp: updateCoinBase_def Let_def split: option.splits iface.splits if_splits)
  have it: "cm_iter cops sd (cm_new cops) = []"
    using cmap_okD(1,6) [OF assms(1)] by (metis list.set_intros(1) neq_Nil_conv option.distinct(1) surj_pair)
  from kc_Add_spec [OF assms(2)] obtain k where "kc_Add mops (knowBlock t) [blk_Hash b] = Some k" by blast
  with t sp it have "\<exists>s'. BlockProcess cops mops sd now b p s = Ret s' \<and> serverPeers s' = cm_new cops"
    by (auto simp: BlockProcess_def Let_def split: sum.split)
  then obtain s' where s': "BlockProcess cops mops sd now b p s = Ret s'" "serverPeers s' = cm_new cops" by blast
  from BlockProcess_coinBase [OF s'(1)] t have "cb_inv cops s'" by (auto simp: cb_inv_def)
  with s' show ?thesis by blast
qed

lemma block_run_returns:
  assumes "cmap_ok cops" "mapset_ok mops" "cb_inv cops s" "serverPeers s = cm_new cops"
  shows "\<exists>s'. block_run cops mops bs s = Ret s'"
  using assms(3,4)
proof (induction bs arbitrary: s)
  case (Cons b bs)
  from BlockProcess_returns [OF assms(1,2) Cons.prems, of "rb_seed b" "rb_now b" "rb_block b" "rb_peer b"] Cons.IH
  show ?case by fastforce
qed simp

lemma cb_inv_init: "cmap_ok cops \<Longrightarrow> cb_inv cops (initManager cops mops)"
  by (simp add: cb_inv_def initManager_def cmap_okD(1))

subsection \<open>Properties\<close>

text \<open>
  C24: the tracker of block producers. After any sequence of received blocks, \<^verbatim>\<open>BlockProcess\<close> knows
  for a coinbase the highest block number received for it, and as peers those that delivered a
  block of that coinbase from the moment the highest one was first seen, in order of arrival, at
  most sixty. The first of them is the peer that was first with the highest block.
\<close>

theorem coinbase_tracker:
  assumes "cmap_ok cops" "coinBaseList s = cm_new cops" "block_run cops mops bs s = Ret s'" "deliveries c bs \<noteq> []"
  shows "\<exists>a. cm_get cops (coinBaseList s') c = Some (CoinBaseInfoV a) \<and> infos s' a = tracked (deliveries c bs)"
proof -
  have "cb_inv cops s" "cb_abs cops s c = None"
    using assms(2) by (auto simp: cb_inv_def cb_abs_def cmap_okD(1) [OF assms(1)])
  with block_run_track [OF assms(1) _ assms(3), of c] assms(4) have "cb_abs cops s' c = Some (tracked (deliveries c bs))"
    by (simp add: foldl_track)
  then show ?thesis by (auto simp: cb_abs_def split: option.splits iface.splits)
qed

definition sampleBlock :: "int \<Rightarrow> string \<Rightarrow> bytes \<Rightarrow> string \<Rightarrow> recvBlock" where
  "sampleBlock n c h p = \<lparr>rb_seed = [], rb_now = 5, rb_block = \<lparr>blk_Number = n, blk_Coinbase = c, blk_Hash = h, blk_EncodeRLP = Inr [1]\<rparr>, rb_peer = p\<rparr>"

theorem coinbase_tracker_witness:
  "\<exists>s a. block_run alist_cmap list_mapset
       [sampleBlock 7 ''0xA'' [1] ''p'', sampleBlock 9 ''0xA'' [2] ''q'', sampleBlock 8 ''0xA'' [3] ''r'']
       (initManager alist_cmap list_mapset) = Ret s \<and>
     cm_get alist_cmap (coinBaseList s) ''0xa'' = Some (CoinBaseInfoV a) \<and>
     infos s a = \<lparr>LastBlock = 9, PeerIdList = [''q'', ''r'']\<rparr>"
proof -
  let ?bs = "[sampleBlock 7 ''0xA'' [1] ''p'', sampleBlock 9 ''0xA'' [2] ''q'', sampleBlock 8 ''0xA'' [3] ''r'']"
  have d: "deliveries ''0xa'' ?bs = [(7, ''p''), (9, ''q''), (8, ''r'')]" by code_simp
  have c: "coinBaseList (initManager alist_cmap list_mapset) = cm_new alist_cmap" by (simp add: initManager_def)
  have "serverPeers (initManager alist_cmap list_mapset) = cm_new alist_cmap" by (simp add: initManager_def)
  from block_run_returns [OF alist_cmap_ok list_mapset_ok cb_inv_init [OF alist_cmap_ok] this] obtain s where
    s: "block_run alist_cmap list_mapset ?bs (initManager alist_cmap list_mapset) = Ret s" by blast
  from coinbase_tracker [OF alist_cmap_ok c s, of "''0xa''"] d obtain a where
    "cm_get alist_cmap (coinBaseList s) ''0xa'' = Some (CoinBaseInfoV a)" "infos s a = tracked [(7, ''p''), (9, ''q''), (8, ''r'')]"
    by auto
  with s show ?thesis by (auto simp: tracked_def)
qed



text \<open>The rule for disconnecting a peer, in numbers.\<close>

definition idle_or_behind :: "u64 \<Rightarrow> int \<Rightarrow> ethPeer \<Rightarrow> bool" where
  "idle_or_behind lastNum now p \<longleftrightarrow>
     PeerStartTime p + 27 \<le> now \<and>
     (LastBlockNumber p = 0 \<and> TotalRecvTx p = 0 \<or>
      unat (LastBlockNumber p) + 128 < unat lastNum \<and> unat (TotalRecvTx p) \<le> 10)"

lemma bKickOut_iff: "bKickOut lastNum now p \<longleftrightarrow> idle_or_behind lastNum now p"
proof (cases "LastBlockNumber p < lastNum")
  case True
  then have "unat (lastNum - LastBlockNumber p) = unat lastNum - unat (LastBlockNumber p)"
    by (simp add: unat_sub order_less_imp_le)
  with True show ?thesis
    by (auto simp: bKickOut_def idle_or_behind_def word_less_nat_alt word_le_nat_alt)
qed (auto simp: bKickOut_def idle_or_behind_def word_less_nat_alt)

lemma set_kickLoop: "set (kickLoop lastNum (\<lambda>_. now) i ps) = ep_ID ` {p \<in> set ps. bKickOut lastNum now p}"
  by (induction ps arbitrary: i) auto


definition samplePeer :: "string \<Rightarrow> int \<Rightarrow> u64 \<Rightarrow> u64 \<Rightarrow> ethPeer" where
  "samplePeer i t b n = \<lparr>ep_ID = i, PeerStartTime = t, LastBlockNumber = b, TotalRecvBlock = 0, TotalRecvTx = n, RemoteIP = ''1.2.3.4'', RemotePort = 30311\<rparr>"

definition sampleSetting :: managerSetting where
  "sampleSetting = \<lparr>set_BootIP = '''', set_BootPort = 0, MaxCount = 2, MaxDailCount = 1, CrawlCount = 1, PendingEnodeCount = 10,
     PrivateKey = '''', NetworkID = 56, GenesisHash = '''', HeadNumber = 0, HeadHash = '''', Td = 0\<rparr>"




subsection \<open>Sending transactions\<close>

lemma capturedPeers_0: "capturedPeers [] ps = ps"
  by (induction ps) auto

lemma capturedPeers_late:
  "length ps \<le> k \<Longrightarrow> capturedPeers (replicate (length ps) k) ps = replicate (length ps) (last ps)"
proof (induction ps)
  case (Cons p ps)
  have "(p # ps) ! length ps = last (p # ps)" by (simp add: last_conv_nth)
  with Cons show ?case by (cases ps) (simp_all add: min_def)
qed simp

text \<open>
  C30: \<^verbatim>\<open>HandSendTx\<close> is meant to send the transactions to every connected peer. Its goroutines read
  the loop variable when they run: if they run at once, every peer gets the transactions once; if
  they run after the loop, one peer gets them as often as there are peers and the others get
  nothing.
\<close>

theorem send_tx_captures_loop_variable:
  assumes "unmarshalTxs um txHex = Inr txs" "txs \<noteq> []"
  shows "HandSendTx um txHex allPeers psd [] = (0, map (\<lambda>p. (ep_ID p, txs)) (map snd (gomap_range psd allPeers))) \<and>
    HandSendTx um txHex allPeers psd (replicate (gomap_len allPeers) (gomap_len allPeers)) =
      (0, replicate (gomap_len allPeers) (ep_ID (last (map snd (gomap_range psd allPeers))), txs))"
proof -
  have n: "length (map snd (gomap_range psd allPeers)) = gomap_len allPeers" by (simp add: gomap_range_def gomap_len_def)
  from capturedPeers_late [of "map snd (gomap_range psd allPeers)" "gomap_len allPeers"] n assms show ?thesis
    by (simp add: HandSendTx_def capturedPeers_0)
qed

theorem send_tx_captures_loop_variable_witness:
  "HandSendTx (\<lambda>b. Inr b) [[1]] [(''a'', samplePeer ''a'' 0 0 0), (''b'', samplePeer ''b'' 0 0 0)] [] [2, 2] =
     (0, [(''b'', [[1]]), (''b'', [[1]])])"
proof -
  have "unmarshalTxs (\<lambda>b. Inr b :: string + bytes) [[1]] = Inr [[1]]" by simp
  from send_tx_captures_loop_variable [OF this, of "[(''a'', samplePeer ''a'' 0 0 0), (''b'', samplePeer ''b'' 0 0 0)]" "[]"]
  show ?thesis by (simp add: gomap_len_def gomap_range_def samplePeer_def eval_nat_numeral)
qed

lemma topLoop_eq:
  "topLoop i limit ps ids =
   map (\<lambda>d. ep_ID (the (gomap_get ps d))) (filter (\<lambda>d. gomap_has ps d) (take (nat (limit - i)) ids))"
proof (induction ids arbitrary: i)
  case (Cons d ids)
  show ?case
  proof (cases "i < limit")
    case True
    then have "nat (limit - i) = Suc (nat (limit - (i + 1)))" by simp
    with True Cons.IH [of "i + 1"] show ?thesis by (auto simp: gomap_has_def split: option.splits)
  qed simp
qed simp

lemma findCoinBase_spec:
  assumes "\<forall>(k, v) \<in> set items. \<exists>a. v = CoinBaseInfoV a" "distinct (map fst items)"
  shows "findCoinBase name items =
    Ret (case map_of items name of Some (CoinBaseInfoV a) \<Rightarrow> Some a | _ \<Rightarrow> None)"
  using assms
proof (induction name items rule: findCoinBase.induct)
  case (2 name key a items)
  then show ?case by auto
qed auto



subsection \<open>Streams\<close>


lemma stream_steps_init:
  "stream_step cops name (stream_init cops) (stream_init cops \<lparr>sys_pc := (\<lambda>_. Fresh)(h := Checked)\<rparr>)"
  if "cmap_ok cops" for cops name h
  using that stream_step.Check [of "stream_init cops" h cops name] by (simp add: stream_init_def cmap_okD)




end
