(* ===== verification/Crawler.thy ===== *)
theory Crawler
  imports Enode Node_Manager
begin

text \<open>
  One crawl of a remote node (\<^verbatim>\<open>node_manager/crawl.go\<close>): the packets it sends, the handlers of the
  packets it receives, and \<^verbatim>\<open>run\<close> together with \<^verbatim>\<open>readLoop\<close> as two threads that share the
  connection and two buffered channels.

  Addresses are given parsed (the result of \<^verbatim>\<open>net.ParseIP\<close>); \<open>now\<close> is \<^verbatim>\<open>time.Now()\<close> in
  nanoseconds, \<open>wr\<close> says whether a write to the connection succeeds. The last thing a handler does
  may be a send on a channel, which can block; a handler returns the channel it sends on.
\<close>

subsection \<open>State\<close>

record ('k, 'm) crawlEnv =
  env_key :: "'k key_ops"
  env_privateKey :: 'k
  env_cmap :: "'m cmap_ops"

record 'm crawler =
  toAddr :: IP
  toPort :: int
  waitRemotePongCh :: "int list"
  waitRemotePingCh :: "int list"
  pingStartTime :: int
  bHaveEnr :: bool
  conn_sent :: "bytes list"
  enodes :: "'m enodeCache"

datatype crawlError = encodeErr v4Error | writeErr

datatype chanName = PongCh | PingCh

definition conn_Write :: "bool \<Rightarrow> bytes \<Rightarrow> 'm crawler \<Rightarrow> 'm crawler" where
  "conn_Write wr b c = (if wr then c\<lparr>conn_sent := conn_sent c @ [b]\<rparr> else c)"

subsection \<open>Packets\<close>

definition expirationTime :: "int \<Rightarrow> u64" where
  "expirationTime now = word_of_int ((now + 20 * 1000000000) div 1000000000)"

definition nowMilliseconds :: "int \<Rightarrow> u64" where
  "nowMilliseconds ns = (if ns < 0 then 0 else word_of_int (ns div 1000 div 1000))"

definition makePing :: "int \<Rightarrow> IP \<times> int \<Rightarrow> IP \<times> int \<Rightarrow> packet" where
  "makePing now fromAddr dest =
     Ping 4 (NewEndpoint (fst fromAddr) (snd fromAddr) 0) (NewEndpoint (fst dest) (snd dest) 0) (expirationTime now) 0 []"

definition makePong :: "int \<Rightarrow> IP \<times> int \<Rightarrow> u16 \<Rightarrow> bytes \<Rightarrow> u64 \<Rightarrow> packet" where
  "makePong now fromAddr port token sq =
     Pong (NewEndpoint (fst fromAddr) (snd fromAddr) port) token (expirationTime now) sq []"

text \<open>The 64 bytes \<open>rnd\<close> are what \<^verbatim>\<open>rand.Read\<close> delivers.\<close>

definition makeRandFindNode :: "int \<Rightarrow> bytes \<Rightarrow> packet" where
  "makeRandFindNode now rnd = Findnode rnd (expirationTime now) []"

definition sendPing :: "('k, 'm) crawlEnv \<Rightarrow> int \<Rightarrow> bool \<Rightarrow> 'm crawler \<Rightarrow> crawlError option \<times> 'm crawler" where
  "sendPing env now wr c =
     (case v4_Encode (crypto_ops.truncate (env_key env)) (env_privateKey env)
             (makePing now ([127, 0, 0, 1], 30311) (toAddr c, toPort c)) of
        Inl err \<Rightarrow> (Some (encodeErr err), c)
      | Inr (pingPacket, _) \<Rightarrow>
          if \<not> wr then (Some writeErr, c)
          else (None, (conn_Write wr pingPacket c)\<lparr>pingStartTime := now div 1000000\<rparr>))"

definition sendFindNode :: "('k, 'm) crawlEnv \<Rightarrow> int \<Rightarrow> bytes \<Rightarrow> bool \<Rightarrow> 'm crawler \<Rightarrow> crawlError option \<times> 'm crawler" where
  "sendFindNode env now rnd wr c =
     (case v4_Encode (crypto_ops.truncate (env_key env)) (env_privateKey env) (makeRandFindNode now rnd) of
        Inl err \<Rightarrow> (Some (encodeErr err), c)
      | Inr (findEnodePacket, _) \<Rightarrow> (if wr then None else Some writeErr, conn_Write wr findEnodePacket c))"

definition sendRequestENR :: "('k, 'm) crawlEnv \<Rightarrow> int \<Rightarrow> bool \<Rightarrow> 'm crawler \<Rightarrow> crawlError option \<times> 'm crawler" where
  "sendRequestENR env now wr c =
     (case v4_Encode (crypto_ops.truncate (env_key env)) (env_privateKey env) (ENRRequest (expirationTime now) []) of
        Inl err \<Rightarrow> (Some (encodeErr err), c)
      | Inr (enrPacket, _) \<Rightarrow> (if wr then None else Some writeErr, conn_Write wr enrPacket c))"

subsection \<open>Handlers\<close>

definition handlePing ::
  "('k, 'm) crawlEnv \<Rightarrow> int \<Rightarrow> bool \<Rightarrow> IP \<times> int \<Rightarrow> endpoint \<Rightarrow> bytes \<Rightarrow> 'm crawler \<Rightarrow> 'm crawler \<times> chanName option" where
  "handlePing env now wr from pingFrom mac c =
     (case v4_Encode (crypto_ops.truncate (env_key env)) (env_privateKey env)
             (makePong now from (ep_TCP pingFrom) mac (nowMilliseconds now)) of
        Inl err \<Rightarrow> (c, None)
      | Inr (pongPacket, _) \<Rightarrow> (conn_Write wr pongPacket c, Some PingCh))"

definition handlePong :: "'m crawler \<Rightarrow> 'm crawler \<times> chanName option" where
  "handlePong c = (c, Some PongCh)"

definition hexutil_Encode :: "bytes \<Rightarrow> string" where
  "hexutil_Encode b = ''0x'' @ hex_bytes b"

fun handleNeighbors_loop :: "'m cmap_ops \<Rightarrow> int \<Rightarrow> wireNode list \<Rightarrow> 'm enodeCache \<Rightarrow> 'm enodeCache" where
  "handleNeighbors_loop cops now [] ec = ec"
| "handleNeighbors_loop cops now (rn # rns) ec =
     (let existEnode = existEnodeIpItem cops (IP_String (wn_IP rn)) (uint (wn_TCP rn)) ec;
          enodeString = hexutil_Encode (wn_ID rn);
          ec = (if \<not> existEnode
                then addEnodeToCache cops (IP_String (wn_IP rn)) (uint (wn_TCP rn)) enodeString (now div 1000000000) ec
                else ec)
      in handleNeighbors_loop cops now rns ec)"

definition handleNeighbors :: "('k, 'm) crawlEnv \<Rightarrow> int \<Rightarrow> wireNode list \<Rightarrow> 'm crawler \<Rightarrow> 'm crawler" where
  "handleNeighbors env now ns c = c\<lparr>enodes := handleNeighbors_loop (env_cmap env) now ns (enodes c)\<rparr>"

definition handleENRResponse :: "('k, 'm) crawlEnv \<Rightarrow> enrRecord \<Rightarrow> 'm crawler \<Rightarrow> 'm crawler" where
  "handleENRResponse env r c =
     (case enode_New (ValidSchemes (env_key env)) r of Inl err \<Rightarrow> c | Inr _ \<Rightarrow> c\<lparr>bHaveEnr := True\<rparr>)"

definition handlePacket ::
  "('k, 'm) crawlEnv \<Rightarrow> int \<Rightarrow> bool \<Rightarrow> IP \<times> int \<Rightarrow> bytes \<Rightarrow> 'm crawler \<Rightarrow> 'm crawler \<times> chanName option" where
  "handlePacket env now wr from buf c =
     (case v4_Decode (crypto_ops.truncate (env_key env)) buf of
        (Inl err, fromKey, hash) \<Rightarrow> (c, None)
      | (Inr rawpacket, fromKey, hash) \<Rightarrow>
          (case rawpacket of
             Ping v f t e q r \<Rightarrow> handlePing env now wr from f hash c
           | Pong t k e q r \<Rightarrow> handlePong c
           | Neighbors ns e r \<Rightarrow> (handleNeighbors env now ns c, None)
           | ENRResponse k rec r \<Rightarrow> (handleENRResponse env rec c, None)
           | _ \<Rightarrow> (c, None)))"

text \<open>\<^verbatim>\<open>waitRemotePing\<close>: the type assertion on the decoded packet panics if it is not a ping.\<close>

definition waitRemotePing ::
  "('k, 'm) crawlEnv \<Rightarrow> int \<Rightarrow> bool \<Rightarrow> IP \<times> int \<Rightarrow> bytes \<Rightarrow> 'm crawler \<Rightarrow> (crawlError option \<times> 'm crawler) go" where
  "waitRemotePing env now wr remoteAddr receiveBuf c =
     (case v4_Decode (crypto_ops.truncate (env_key env)) receiveBuf of
        (Inl err, fromKey, hash) \<Rightarrow> Ret (Some (encodeErr err), c)
      | (Inr (Ping v f t e q r), fromKey, hash) \<Rightarrow>
          (case v4_Encode (crypto_ops.truncate (env_key env)) (env_privateKey env)
                  (makePong now remoteAddr (ep_TCP f) hash (nowMilliseconds now)) of
             Inl err \<Rightarrow> Ret (Some (encodeErr err), c)
           | Inr (pongPacket, _) \<Rightarrow> Ret (if wr then None else Some writeErr, conn_Write wr pongPacket c))
      | (Inr _, fromKey, hash) \<Rightarrow> Panicked)"

subsection \<open>The two threads\<close>

datatype mainPc = WaitPong | WaitPing | Query | Sleeping | WaitGroup | Returned

datatype readerPc = Reading | Sending chanName | Stopped

text \<open>\<open>handled\<close> records, for the statements below, the sends the handlers came to, in order.\<close>

record 'm crawl =
  cw :: "'m crawler"
  main :: mainPc
  reader :: readerPc
  conn_open :: bool
  handled :: "chanName list"

definition maxPacketSize :: nat where
  "maxPacketSize = 1280"

definition startCrawl :: "('k, 'm) crawlEnv \<Rightarrow> int \<Rightarrow> bool \<Rightarrow> IP \<Rightarrow> int \<Rightarrow> 'm enodeCache \<Rightarrow> 'm crawl" where
  "startCrawl env now wr toIp port ec =
     (let c = \<lparr>toAddr = toIp, toPort = port, waitRemotePongCh = [], waitRemotePingCh = [], pingStartTime = 0,
               bHaveEnr = False, conn_sent = [], enodes = ec\<rparr>
      in \<lparr>cw = snd (sendPing env now wr c), main = WaitPong, reader = Reading, conn_open = True, handled = []\<rparr>)"

definition crawl_chan :: "chanName \<Rightarrow> 'm crawl \<Rightarrow> int list" where
  "crawl_chan ch s = (case ch of PongCh \<Rightarrow> waitRemotePongCh (cw s) | PingCh \<Rightarrow> waitRemotePingCh (cw s))"

definition set_chan :: "chanName \<Rightarrow> int list \<Rightarrow> 'm crawl \<Rightarrow> 'm crawl" where
  "set_chan ch buf s =
     (case ch of
        PongCh \<Rightarrow> s\<lparr>cw := (cw s)\<lparr>waitRemotePongCh := buf\<rparr>\<rparr>
      | PingCh \<Rightarrow> s\<lparr>cw := (cw s)\<lparr>waitRemotePingCh := buf\<rparr>\<rparr>)"

text \<open>
  Steps of the program itself: a select either receives or times out, a read on the closed
  connection ends the loop, \<^verbatim>\<open>wg.Wait\<close> waits for the loop to end.
\<close>

inductive own_step :: "('k, 'm) crawlEnv \<Rightarrow> 'm crawl \<Rightarrow> 'm crawl \<Rightarrow> bool" for env where
  SendCh: "own_step env s ((set_chan ch buf s)\<lparr>reader := Reading\<rparr>)"
    if "reader s = Sending ch" "chan_send 10 (crawl_chan ch s) 1 = Ret buf"
| ReadClosed: "own_step env s (s\<lparr>reader := Stopped\<rparr>)" if "reader s = Reading" "\<not> conn_open s"
| PongArrived: "own_step env s ((set_chan PongCh xs s)\<lparr>main := WaitPing\<rparr>)"
    if "main s = WaitPong" "crawl_chan PongCh s = x # xs"
| PongTimeout: "own_step env s (s\<lparr>conn_open := False, main := WaitGroup\<rparr>)" if "main s = WaitPong"
| PingArrived: "own_step env s ((set_chan PingCh xs s)\<lparr>main := Query\<rparr>)"
    if "main s = WaitPing" "crawl_chan PingCh s = x # xs"
| PingTimeout: "own_step env s (s\<lparr>main := Query\<rparr>)" if "main s = WaitPing"
| SendQueries: "own_step env s (s\<lparr>cw := snd (sendRequestENR env now' wr' (snd (sendFindNode env now rnd wr (cw s)))), main := Sleeping\<rparr>)"
    if "main s = Query" "length rnd = 64"
| Close: "own_step env s (s\<lparr>conn_open := False, main := WaitGroup\<rparr>)" if "main s = Sleeping"
| Return: "own_step env s (s\<lparr>main := Returned\<rparr>)" if "main s = WaitGroup" "reader s = Stopped"

text \<open>Steps of the network, which need the open connection.\<close>

inductive net_step :: "('k, 'm) crawlEnv \<Rightarrow> 'm crawl \<Rightarrow> 'm crawl \<Rightarrow> bool" for env where
  Datagram: "net_step env s (s\<lparr>cw := c, reader := (case sg of None \<Rightarrow> Reading | Some ch \<Rightarrow> Sending ch),
      handled := handled s @ (case sg of None \<Rightarrow> [] | Some ch \<Rightarrow> [ch])\<rparr>)"
    if "reader s = Reading" "conn_open s" "0 < length buf" "length buf \<le> maxPacketSize"
      "handlePacket env now wr from buf (cw s) = (c, sg)"
| Temporary: "net_step env s s" if "reader s = Reading" "conn_open s"
| ReadError: "net_step env s (s\<lparr>reader := Stopped\<rparr>)" if "reader s = Reading" "conn_open s"

definition crawl_step :: "('k, 'm) crawlEnv \<Rightarrow> 'm crawl \<Rightarrow> 'm crawl \<Rightarrow> bool" where
  "crawl_step env s t \<longleftrightarrow> own_step env s t \<or> net_step env s t"

inductive_simps own_step_stuck: "own_step env s t"

subsection \<open>Termination\<close>

fun main_rank :: "mainPc \<Rightarrow> nat" where
  "main_rank WaitPong = 5"
| "main_rank WaitPing = 4"
| "main_rank Query = 3"
| "main_rank Sleeping = 2"
| "main_rank WaitGroup = 1"
| "main_rank Returned = 0"

fun reader_rank :: "readerPc \<Rightarrow> nat" where
  "reader_rank (Sending ch) = 2"
| "reader_rank Reading = 1"
| "reader_rank Stopped = 0"

definition crawl_rank :: "'m crawl \<Rightarrow> nat" where
  "crawl_rank s = main_rank (main s) + reader_rank (reader s)"

lemma set_chan_sel [simp]:
  "main (set_chan ch buf s) = main s" "reader (set_chan ch buf s) = reader s" "conn_open (set_chan ch buf s) = conn_open s"
  "handled (set_chan ch buf s) = handled s"
  "crawl_chan ch' (set_chan ch buf s) = (if ch' = ch then buf else crawl_chan ch' s)"
  by (cases ch; cases ch'; simp add: set_chan_def crawl_chan_def)+

lemma crawl_chan_upd [simp]:
  "crawl_chan ch (s\<lparr>main := m\<rparr>) = crawl_chan ch s" "crawl_chan ch (s\<lparr>reader := r\<rparr>) = crawl_chan ch s"
  "crawl_chan ch (s\<lparr>conn_open := b\<rparr>) = crawl_chan ch s"
  by (cases ch; simp add: crawl_chan_def)+

lemma own_step_rank: "own_step env s t \<Longrightarrow> crawl_rank t < crawl_rank s"
  by (induction rule: own_step.induct) (simp_all add: crawl_rank_def)

lemma own_steps_bound: "(own_step env ^^ n) s t \<Longrightarrow> n + crawl_rank t \<le> crawl_rank s"
proof (induction n arbitrary: t)
  case (Suc n)
  then obtain u where "(own_step env ^^ n) s u" "own_step env u t" by auto
  with Suc.IH [of u] own_step_rank [of env u t] show ?case by simp
qed simp

lemma crawl_rank_le: "crawl_rank s \<le> 7"
  by (cases "main s"; cases "reader s") (simp_all add: crawl_rank_def)

subsection \<open>The channels\<close>

text \<open>
  What is in a channel, or about to be sent, was handled before; and once \<^verbatim>\<open>run\<close> waits for the
  loop, the connection is closed.
\<close>

definition crawl_inv :: "'m crawl \<Rightarrow> bool" where
  "crawl_inv s \<longleftrightarrow>
     (\<forall>ch. length (crawl_chan ch s) + (if reader s = Sending ch then 1 else 0) \<le> count_list (handled s) ch) \<and>
     (main s \<in> {WaitGroup, Returned} \<longrightarrow> \<not> conn_open s)"

lemma conn_Write_chans [simp]:
  "waitRemotePongCh (conn_Write wr b c) = waitRemotePongCh c" "waitRemotePingCh (conn_Write wr b c) = waitRemotePingCh c"
  by (simp_all add: conn_Write_def)

lemma send_chans [simp]:
  "waitRemotePongCh (snd (sendPing env now wr c)) = waitRemotePongCh c"
  "waitRemotePingCh (snd (sendPing env now wr c)) = waitRemotePingCh c"
  "waitRemotePongCh (snd (sendFindNode env now rnd wr c)) = waitRemotePongCh c"
  "waitRemotePingCh (snd (sendFindNode env now rnd wr c)) = waitRemotePingCh c"
  "waitRemotePongCh (snd (sendRequestENR env now wr c)) = waitRemotePongCh c"
  "waitRemotePingCh (snd (sendRequestENR env now wr c)) = waitRemotePingCh c"
  by (simp_all add: sendPing_def sendFindNode_def sendRequestENR_def split: sum.splits prod.splits)

lemma handlePacket_chans:
  assumes "handlePacket env now wr from buf c = (c', sg)"
  shows "waitRemotePongCh c' = waitRemotePongCh c" "waitRemotePingCh c' = waitRemotePingCh c"
  using assms
  by (auto simp: handlePacket_def handlePing_def handlePong_def handleNeighbors_def handleENRResponse_def
      split: prod.splits sum.splits packet.splits)

lemma own_step_inv: "own_step env s t \<Longrightarrow> crawl_inv s \<Longrightarrow> crawl_inv t \<and> handled t = handled s"
proof (induction rule: own_step.induct)
  case (SendCh s ch buf)
  then have "length buf = Suc (length (crawl_chan ch s))" by (auto simp: chan_send_def split: if_splits)
  with SendCh show ?case by (auto simp: crawl_inv_def split: if_splits)
next
  case (PongArrived s x xs)
  then have "Suc (length xs) = length (crawl_chan PongCh s)" by simp
  with PongArrived(1,3) show ?case by (auto simp: crawl_inv_def split: if_splits intro: Suc_leD)
next
  case (PingArrived s x xs)
  then have "Suc (length xs) = length (crawl_chan PingCh s)" by simp
  with PingArrived(1,3) show ?case by (auto simp: crawl_inv_def split: if_splits intro: Suc_leD)
next
  case (SendQueries s rnd now' wr' now wr)
  then show ?case by (simp add: crawl_inv_def crawl_chan_def cong: chanName.case_cong)
qed (simp_all add: crawl_inv_def)

lemma net_step_inv: "net_step env s t \<Longrightarrow> crawl_inv s \<Longrightarrow> crawl_inv t"
proof (induction rule: net_step.induct)
  case (Datagram s buf now wr "from" c sg)
  have "crawl_chan ch (s\<lparr>cw := c, reader := r, handled := h\<rparr>) = crawl_chan ch s" for ch r h
    using handlePacket_chans [OF Datagram(5)] by (cases ch) (simp_all add: crawl_chan_def)
  with Datagram(1,2,6) show ?case by (auto simp: crawl_inv_def split: option.splits)
qed (simp_all add: crawl_inv_def)

lemma crawl_inv_start: "crawl_inv (startCrawl env now wr toIp port ec)"
  by (simp add: crawl_inv_def startCrawl_def Let_def crawl_chan_def split: chanName.splits)

lemma crawl_reachable_inv: "(crawl_step env)\<^sup>*\<^sup>* (startCrawl env now wr toIp port ec) s \<Longrightarrow> crawl_inv s"
  by (induction rule: rtranclp_induct) (auto simp: crawl_step_def intro: crawl_inv_start own_step_inv [THEN conjunct1] net_step_inv)

lemma own_steps_inv: "(own_step env)\<^sup>*\<^sup>* s t \<Longrightarrow> crawl_inv s \<Longrightarrow> crawl_inv t \<and> handled t = handled s"
  by (induction rule: rtranclp_induct) (auto dest: own_step_inv)

text \<open>With at most ten of each signal no send blocks, and only a finished crawl has no step of its own.\<close>

lemma crawl_progress:
  assumes "crawl_inv s" "\<forall>ch. count_list (handled s) ch \<le> 10" "main s \<noteq> Returned"
  shows "\<exists>t. own_step env s t"
proof (cases "main s")
  case WaitGroup
  with assms(1) have closed: "\<not> conn_open s" by (simp add: crawl_inv_def)
  show ?thesis
  proof (cases "reader s")
    case (Sending ch)
    with assms(1) have "Suc (length (crawl_chan ch s)) \<le> count_list (handled s) ch"
      by (auto simp: crawl_inv_def split: if_splits)
    with assms(2) have "length (crawl_chan ch s) < 10" by (metis Suc_le_lessD le_trans)
    then show ?thesis using own_step.SendCh [OF Sending, of _ env] by (auto simp: chan_send_def)
  qed (use WaitGroup closed in \<open>auto intro: own_step.intros\<close>)
next
  case Query
  then show ?thesis using own_step.SendQueries [of s "replicate 64 0" env 0 True 0 True] by auto
qed (use assms(3) in \<open>auto intro: own_step.intros\<close>)

subsection \<open>Properties\<close>


text \<open>The instances of the examples.\<close>

definition toyKeys :: "nat key_ops" where
  "toyKeys = \<lparr>Keccak256 = \<lambda>b. replicate 32 (of_nat (length b)), crypto_Sign = \<lambda>h priv. Inr (replicate 65 (of_nat priv)),
     Ecrecover = \<lambda>h sig. Inr (replicate 65 (sig ! 0)), PublicKey = \<lambda>priv. \<lparr>pk_X = priv, pk_Y = 0\<rparr>,
     crypto_Verify = \<lambda>pub h sig. sig = replicate 64 (hd pub),
     CompressPubkey = \<lambda>pub. replicate 33 (of_nat (pk_X pub)),
     DecompressPubkey = \<lambda>b. Inr \<lparr>pk_X = unat (hd b), pk_Y = 0\<rparr>\<rparr>"

definition toyEnv :: "(nat, (string \<times> iface) list) crawlEnv" where
  "toyEnv = \<lparr>env_key = toyKeys, env_privateKey = 7, env_cmap = alist_cmap\<rparr>"

lemma toyKeys_ok: "crypto_ok (crypto_ops.truncate toyKeys) priv (replicate 64 (of_nat priv))"
  by (auto simp: crypto_ok_def toyKeys_def crypto_ops.truncate_def eval_nat_numeral)

lemma toy_Decode:
  "v4_Decode (crypto_ops.truncate (env_key toyEnv)) (replicate 32 (of_nat (66 + length b)) @ replicate 65 5 @ k # b) =
   (decodePacket k b, replicate 64 5, replicate 32 (of_nat (66 + length b)))"
proof -
  have r: "replicate 65 x = x # replicate 64 x" for x :: byte by (simp add: eval_nat_numeral)
  show ?thesis
    by (rule v4_Decode_layout [where fmt = 5])
      (simp_all add: toyEnv_def toyKeys_def crypto_ops.truncate_def macSize_def sigSize_def r)
qed


subsubsection \<open>A crawl that blocks\<close>

definition pong_datagram :: "('k, 'm) crawlEnv \<Rightarrow> bytes \<Rightarrow> bool" where
  "pong_datagram env d \<longleftrightarrow> d \<noteq> [] \<and> length d \<le> maxPacketSize \<and>
     (\<exists>t k e q r key hash. v4_Decode (crypto_ops.truncate (env_key env)) d = (Inr (Pong t k e q r), key, hash))"

lemma pong_received:
  assumes "pong_datagram env d" "reader s = Reading" "conn_open s"
  shows "crawl_step env s (s\<lparr>reader := Sending PongCh, handled := handled s @ [PongCh]\<rparr>)"
proof -
  from assms(1) have "handlePacket env 0 True ([], 0) d (cw s) = (cw s, Some PongCh)"
    by (auto simp: pong_datagram_def handlePacket_def handlePong_def)
  with net_step.Datagram [OF assms(2,3), of d env 0 True "([], 0)"] assms(1) show ?thesis
    by (simp add: crawl_step_def pong_datagram_def)
qed

lemma pong_stored:
  assumes "pong_datagram env d" "reader s = Reading" "conn_open s" "length (crawl_chan PongCh s) < 10"
  shows "\<exists>s'. (crawl_step env)\<^sup>*\<^sup>* s s' \<and> main s' = main s \<and> reader s' = Reading \<and> conn_open s' \<and>
    crawl_chan PongCh s' = crawl_chan PongCh s @ [1]"
proof -
  let ?t = "s\<lparr>reader := Sending PongCh, handled := handled s @ [PongCh]\<rparr>"
  let ?u = "(set_chan PongCh (crawl_chan PongCh s @ [1]) ?t)\<lparr>reader := Reading\<rparr>"
  have "crawl_chan PongCh ?t = crawl_chan PongCh s" by (simp add: crawl_chan_def)
  then have "crawl_step env ?t ?u"
    using own_step.SendCh [of ?t PongCh "crawl_chan PongCh s @ [1]" env] assms(4) by (simp add: crawl_step_def chan_send_def)
  with pong_received [OF assms(1-3)] have "(crawl_step env)\<^sup>*\<^sup>* s ?u" by (meson r_into_rtranclp rtranclp_trans)
  then show ?thesis using assms(3) by (intro exI [of _ ?u]) simp
qed

lemma pongs_stored:
  assumes "pong_datagram env d"
  shows "reader s = Reading \<Longrightarrow> conn_open s \<Longrightarrow> length (crawl_chan PongCh s) + n \<le> 10 \<Longrightarrow>
    \<exists>s'. (crawl_step env)\<^sup>*\<^sup>* s s' \<and> main s' = main s \<and> reader s' = Reading \<and> conn_open s' \<and>
      crawl_chan PongCh s' = crawl_chan PongCh s @ replicate n 1"
proof (induction n arbitrary: s)
  case (Suc n)
  then obtain t where t: "(crawl_step env)\<^sup>*\<^sup>* s t" "main t = main s" "reader t = Reading" "conn_open t"
    "crawl_chan PongCh t = crawl_chan PongCh s @ [1]"
    using pong_stored [OF assms Suc.prems(1,2)] by auto
  with Suc.IH [of t] Suc.prems(3) obtain s' where "(crawl_step env)\<^sup>*\<^sup>* t s'" "main s' = main s" "reader s' = Reading"
    "conn_open s'" "crawl_chan PongCh s' = crawl_chan PongCh s @ 1 # replicate n 1" by auto
  with rtranclp_trans [OF t(1)] show ?case by auto
qed auto

text \<open>A full channel of pongs, one more in the handler, and \<^verbatim>\<open>run\<close> past the point where it reads them.\<close>

definition blocked :: "'m crawl \<Rightarrow> bool" where
  "blocked s \<longleftrightarrow> main s = WaitGroup \<and> reader s = Sending PongCh \<and> length (crawl_chan PongCh s) = 10"

lemma blocked_stuck: "blocked s \<Longrightarrow> \<not> crawl_step env s u"
  by (auto simp: blocked_def crawl_step_def chan_send_def elim!: own_step.cases net_step.cases)

lemma own_crawl: "own_step env s t \<Longrightarrow> (crawl_step env)\<^sup>*\<^sup>* s t"
  by (simp add: crawl_step_def r_into_rtranclp)

lemma full_blocks:
  assumes "main s = WaitPing" "reader s = Sending PongCh" "length (crawl_chan PongCh s) = 10"
  shows "\<exists>t. (crawl_step env)\<^sup>*\<^sup>* s t \<and> blocked t"
proof -
  let ?a = "s\<lparr>main := Query\<rparr>"
  let ?b = "?a\<lparr>cw := snd (sendRequestENR env 0 True (snd (sendFindNode env 0 (replicate 64 0) True (cw ?a)))), main := Sleeping\<rparr>"
  let ?c = "?b\<lparr>conn_open := False, main := WaitGroup\<rparr>"
  have "own_step env s ?a" using assms(1) by (rule own_step.PingTimeout)
  moreover have "own_step env ?a ?b" by (rule own_step.SendQueries) simp_all
  moreover have "own_step env ?b ?c" by (rule own_step.Close) simp
  ultimately have "(crawl_step env)\<^sup>*\<^sup>* s ?c" by (meson own_crawl rtranclp_trans)
  moreover have "blocked ?c" using assms(2,3) by (simp add: blocked_def crawl_chan_def)
  ultimately show ?thesis by blast
qed

text \<open>
  C36: without that bound a crawl need not end. A remote node that keeps sending pongs fills the
  channel of ten that nobody reads any more; \<^verbatim>\<open>readLoop\<close> blocks in \<^verbatim>\<open>handlePong\<close>, closing the
  connection does not wake it, and \<^verbatim>\<open>run\<close> waits for it for ever: a state is reached in which
  \<^verbatim>\<open>run\<close> has not returned and nothing can happen any more.
\<close>

theorem crawl_can_block:
  assumes "pong_datagram env d"
  shows "\<exists>s. (crawl_step env)\<^sup>*\<^sup>* (startCrawl env now wr toIp port ec) s \<and> main s \<noteq> Returned \<and>
    \<not> (\<exists>u. crawl_step env s u)"
proof -
  let ?s = "startCrawl env now wr toIp port ec"
  have "reader ?s = Reading" "conn_open ?s" "main ?s = WaitPong" "crawl_chan PongCh ?s = []"
    by (simp_all add: startCrawl_def Let_def crawl_chan_def)
  with pong_stored [OF assms, of ?s] obtain a where
    a: "(crawl_step env)\<^sup>*\<^sup>* ?s a" "main a = WaitPong" "reader a = Reading" "conn_open a" "crawl_chan PongCh a = [1]" by auto
  let ?b = "(set_chan PongCh [] a)\<lparr>main := WaitPing\<rparr>"
  have b: "own_step env a ?b" using a(2,5) by (rule own_step.PongArrived)
  from pongs_stored [OF assms, of ?b 10] a(3,4) obtain c where
    c: "(crawl_step env)\<^sup>*\<^sup>* ?b c" "main c = WaitPing" "reader c = Reading" "conn_open c" "length (crawl_chan PongCh c) = 10" by auto
  let ?d = "c\<lparr>reader := Sending PongCh, handled := handled c @ [PongCh]\<rparr>"
  have "crawl_chan PongCh ?d = crawl_chan PongCh c" by (simp add: crawl_chan_def)
  with full_blocks [of ?d env] c(2,5) obtain e where e: "(crawl_step env)\<^sup>*\<^sup>* ?d e" "blocked e" by auto
  have "(crawl_step env)\<^sup>*\<^sup>* ?s e"
    using a(1) own_crawl [OF b] c(1) pong_received [OF assms c(3,4)] e(1) by (meson r_into_rtranclp rtranclp_trans)
  with e(2) blocked_stuck [of e env] show ?thesis by (intro exI [of _ e]) (auto simp: blocked_def)
qed

theorem crawl_can_block_witness:
  "\<exists>s. (crawl_step toyEnv)\<^sup>*\<^sup>* (startCrawl toyEnv 0 True [10, 0, 0, 1] 30311 (emptyCache alist_cmap)) s \<and> main s \<noteq> Returned \<and>
    \<not> (\<exists>u. crawl_step toyEnv s u)"
proof (rule crawl_can_block)
  let ?b = "[0xC7, 0xC3, 0x80, 0x80, 0x80, 0x80, 0x80, 0x80] :: bytes"
  let ?d = "replicate 32 74 @ replicate 65 5 @ 2 # ?b"
  have "decodePacket 2 ?b = Inr (Pong \<lparr>ep_IP = [], ep_UDP = 0, ep_TCP = 0\<rparr> [] 0 0 [])" by code_simp
  then have "v4_Decode (crypto_ops.truncate (env_key toyEnv)) ?d =
    (Inr (Pong \<lparr>ep_IP = [], ep_UDP = 0, ep_TCP = 0\<rparr> [] 0 0 []), replicate 64 5, replicate 32 74)"
    using toy_Decode [of ?b 2] by simp
  then show "pong_datagram toyEnv ?d" by (simp add: pong_datagram_def maxPacketSize_def)
qed

subsubsection \<open>Answering a ping\<close>

lemma length_NewEndpoint: "length (ep_IP (NewEndpoint ip port tcp)) \<le> 16"
  by (auto simp: NewEndpoint_def To4_def To16_def v4InV6_def Let_def split: option.splits if_splits)

lemma endpoint_size:
  assumes "length (ep_IP e) \<le> 16"
  shows "length (renc noTags endpointT (endpointV e)) \<le> 26"
proof -
  let ?p = "rlp_string (ep_IP e) @ rlp_string (uint_bytes (unat (ucast (ep_UDP e) :: u64))) @
    rlp_string (uint_bytes (unat (ucast (ep_TCP e) :: u64)))"
  have "renc noTags endpointT (endpointV e) = rlp_list ?p"
    by (simp add: endpointT_def endpointV_def fieldCount_def firstOptionalField_def noTags_def)
  moreover have "length ?p \<le> 23"
    using length_rlp_string_short [of "ep_IP e"] assms length_uint16 [of "ep_UDP e"] length_uint16 [of "ep_TCP e"] by simp
  ultimately show ?thesis using length_rlp_head_le3 [of "length ?p" 192] by (simp add: rlp_list_def)
qed

lemma pong_body: "packet_body (Pong t k e q []) =
    rlp_list (renc noTags endpointT (endpointV t) @ rlp_string k @ rlp_string (uint_bytes (unat e)) @
      (if q = 0 then [] else rlp_string (uint_bytes (unat q))))"
  by (simp add: packet_body_def pongT_def restField_def restV_def fieldCount_def firstOptionalField_def optionalTag_def tailTag_def
      noTags_def eval_nat_numeral)

lemma length_u64_string: "length (rlp_string (uint_bytes (unat (n :: u64)))) \<le> 9"
  using length_rlp_string_short [of "uint_bytes (unat n)"] length_uint_bytes [of n] by linarith

lemma pong_size:
  assumes "length (ep_IP t) \<le> 16" "length k = 32"
  shows "length (packet_body (Pong t k e q [])) \<le> 80"
proof -
  let ?p = "renc noTags endpointT (endpointV t) @ rlp_string k @ rlp_string (uint_bytes (unat e)) @
      (if q = 0 then [] else rlp_string (uint_bytes (unat q)))"
  have "length ?p \<le> 77"
    using endpoint_size [OF assms(1)] length_rlp_string_short [of k] assms(2) length_u64_string [of e] length_u64_string [of q] by simp
  then show ?thesis using length_rlp_head_le3 [of "length ?p" 192] unfolding pong_body rlp_list_def by simp
qed

lemma v4_Decode_hash: "v4_Decode ops d = (Inr p, key, hash) \<Longrightarrow> length hash = 32"
  by (auto simp: v4_Decode_def Let_def headSize_def macSize_def split: if_splits sum.splits)

text \<open>
  C37: a ping is answered: the crawler writes one datagram, which decodes to a pong from the
  crawler's key that echoes the hash of the ping, names the address the ping came from with the
  TCP port the ping gave, and fits a packet.
\<close>

theorem ping_answered:
  assumes "crypto_ok (crypto_ops.truncate (env_key env)) (env_privateKey env) pub"
    and "v4_Decode (crypto_ops.truncate (env_key env)) d = (Inr (Ping v f t e q r), key, hash)"
  shows "\<exists>answer mac. handlePacket env now True from d c = (c\<lparr>conn_sent := conn_sent c @ [answer]\<rparr>, Some PingCh) \<and>
    v4_Decode (crypto_ops.truncate (env_key env)) answer =
      (Inr (Pong (NewEndpoint (fst from) (snd from) (ep_TCP f)) hash (expirationTime now) (nowMilliseconds now) []), pub, mac) \<and>
    length answer \<le> maxPacketSize"
proof -
  let ?ops = "crypto_ops.truncate (env_key env)"
  let ?p = "makePong now from (ep_TCP f) hash (nowMilliseconds now)"
  have ok: "packet_ok ?p" by (simp add: makePong_def rest_ok_def)
  have len: "length (packet_body ?p) \<le> 80"
    unfolding makePong_def by (rule pong_size) (use length_NewEndpoint v4_Decode_hash [OF assms(2)] in auto)
  then have "length (packet_body ?p) < 2 ^ 63" by simp
  from v4_Encode_layout [OF assms(1) ok this] obtain sig fmt where
    e: "length sig = sigSize" "Ecrecover ?ops (Keccak256 ?ops (packet_Kind ?p # packet_body ?p)) sig = Inr (fmt # pub)"
    "v4_Encode ?ops (env_privateKey env) ?p =
      (let tl = sig @ packet_Kind ?p # packet_body ?p; hash = Keccak256 ?ops tl in Inr (hash @ tl, hash))" by blast
  let ?h = "Keccak256 ?ops (sig @ packet_Kind ?p # packet_body ?p)"
  let ?a = "?h @ sig @ packet_Kind ?p # packet_body ?p"
  have h: "length ?h = macSize" "length pub = 64" using assms(1) by (simp_all add: crypto_ok_def macSize_def)
  have "handlePacket env now True from d c = (c\<lparr>conn_sent := conn_sent c @ [?a]\<rparr>, Some PingCh)"
    using assms(2) e(3) by (simp add: handlePacket_def handlePing_def Let_def conn_Write_def)
  moreover have "v4_Decode ?ops ?a = (Inr ?p, pub, ?h)"
    using v4_Decode_layout [OF h(1) e(1) refl e(2) h(2)] decodePacket_ok [OF ok, of "[]"] len by simp
  moreover have "length ?a \<le> maxPacketSize" using h(1) e(1) len by (simp add: macSize_def sigSize_def maxPacketSize_def)
  ultimately show ?thesis unfolding makePong_def by blast
qed

theorem ping_answered_witness:
  "let d = replicate 32 79 @ replicate 65 5 @ 1 # [0xCC, 4, 0xC3, 0x80, 0x80, 0x80, 0xC5, 0x80, 0x80, 0x82, 0x76, 0x5F, 9];
       c = cw (startCrawl toyEnv 0 True [10, 0, 0, 1] 30311 (emptyCache alist_cmap))
   in \<exists>answer mac. handlePacket toyEnv 0 True ([10, 0, 0, 1], 30311) d c = (c\<lparr>conn_sent := conn_sent c @ [answer]\<rparr>, Some PingCh) \<and>
    v4_Decode (crypto_ops.truncate (env_key toyEnv)) answer =
      (Inr (Pong (NewEndpoint [10, 0, 0, 1] 30311 0) (replicate 32 79) (expirationTime 0) (nowMilliseconds 0) []), replicate 64 7, mac) \<and>
    length answer \<le> maxPacketSize"
proof -
  let ?b = "[0xCC, 4, 0xC3, 0x80, 0x80, 0x80, 0xC5, 0x80, 0x80, 0x82, 0x76, 0x5F, 9] :: bytes"
  let ?c = "cw (startCrawl toyEnv 0 True [10, 0, 0, 1] 30311 (emptyCache alist_cmap))"
  let ?p = "Ping 4 \<lparr>ep_IP = [], ep_UDP = 0, ep_TCP = 0\<rparr> \<lparr>ep_IP = [], ep_UDP = 0, ep_TCP = 30303\<rparr> 9 0 []"
  have "decodePacket 1 ?b = Inr ?p" by code_simp
  then have "v4_Decode (crypto_ops.truncate (env_key toyEnv)) (replicate 32 79 @ replicate 65 5 @ 1 # ?b) =
    (Inr ?p, replicate 64 5, replicate 32 79)" using toy_Decode [of ?b 1] by simp
  moreover have "crypto_ok (crypto_ops.truncate (env_key toyEnv)) (env_privateKey toyEnv) (replicate 64 7)"
    using toyKeys_ok [of 7] by (simp add: toyEnv_def)
  ultimately show ?thesis
    using ping_answered [of toyEnv "replicate 64 7" "replicate 32 79 @ replicate 65 5 @ 1 # ?b" 4 "\<lparr>ep_IP = [], ep_UDP = 0, ep_TCP = 0\<rparr>"
        "\<lparr>ep_IP = [], ep_UDP = 0, ep_TCP = 30303\<rparr>" 9 0 "[]" "replicate 64 5" "replicate 32 79" 0 "([10, 0, 0, 1], 30311)" ?c]
    unfolding Let_def fst_conv snd_conv endpoint.select_convs by blast
qed

subsubsection \<open>Learning neighbours\<close>

definition nodeKey :: "wireNode \<Rightarrow> string" where
  "nodeKey n = enodeKey (IP_String (wn_IP n)) (uint (wn_TCP n))"

definition neighborItem :: "int \<Rightarrow> wireNode \<Rightarrow> nodeItem" where
  "neighborItem now n =
     \<lparr>BootIP = IP_String (wn_IP n), BootPort = uint (wn_TCP n), BootNodeID = hexutil_Encode (wn_ID n), AddTime = now div 1000000000\<rparr>"

lemma handleNeighbors_step:
  assumes "cmap_ok cops"
  shows "handleNeighbors_loop cops now (n # ns) ec =
    handleNeighbors_loop cops now ns
      (if cm_get cops (enodePool ec) (nodeKey n) = None \<and> cm_get cops (enodeHistory ec) (nodeKey n) = None
       then ec\<lparr>enodePool := cm_set cops (enodePool ec) (nodeKey n) (NodeItemV (neighborItem now n))\<rparr> else ec)"
  by (simp add: existEnodeIpItem_def addEnodeToCache_def Let_def nodeKey_def neighborItem_def cmap_okD [OF assms])

declare handleNeighbors_loop.simps(2) [simp del]

lemma handleNeighbors_spec:
  assumes "cmap_ok cops"
  shows "enodeHistory (handleNeighbors_loop cops now ns ec) = enodeHistory ec \<and>
    cm_get cops (enodePool (handleNeighbors_loop cops now ns ec)) k =
      (if cm_get cops (enodePool ec) k = None \<and> cm_get cops (enodeHistory ec) k = None
       then map_option (\<lambda>n. NodeItemV (neighborItem now n)) (find (\<lambda>n. nodeKey n = k) ns)
       else cm_get cops (enodePool ec) k)"
  by (induction ns arbitrary: ec) (auto simp: handleNeighbors_step [OF assms] cmap_okD [OF assms])

lemma handleNeighbors_inv:
  assumes "cmap_ok cops" "cache_inv cops ec"
  shows "cache_inv cops (handleNeighbors_loop cops now ns ec)"
  using assms(2)
proof (induction ns arbitrary: ec)
  case (Cons n ns)
  with addEnodeToCache_inv [OF assms(1)] show ?case by (simp add: handleNeighbors_loop.simps Let_def)
qed simp

text \<open>
  C38: a reply to a find-node query is learned exactly: every node it names that was neither
  waiting nor dialled before waits for a dial afterwards, under the first entry of the packet with
  its address; nothing else changes in the two caches, and their invariant is kept.
\<close>

theorem neighbors_learned:
  assumes "cmap_ok (env_cmap env)" "cache_inv (env_cmap env) (enodes c)"
    and "v4_Decode (crypto_ops.truncate (env_key env)) d = (Inr (Neighbors ns e r), key, hash)"
    and "handlePacket env now wr from d c = (c', sg)"
  shows "sg = None \<and> cache_inv (env_cmap env) (enodes c') \<and> enodeHistory (enodes c') = enodeHistory (enodes c) \<and>
    (\<forall>k. cm_get (env_cmap env) (enodePool (enodes c')) k =
      (if cm_get (env_cmap env) (enodePool (enodes c)) k = None \<and> cm_get (env_cmap env) (enodeHistory (enodes c)) k = None
       then map_option (\<lambda>n. NodeItemV (neighborItem now n)) (find (\<lambda>n. nodeKey n = k) ns)
       else cm_get (env_cmap env) (enodePool (enodes c)) k))"
proof -
  have "sg = None" "c' = handleNeighbors env now ns c" using assms(3,4) by (simp_all add: handlePacket_def)
  with handleNeighbors_spec [OF assms(1), of now ns "enodes c"] handleNeighbors_inv [OF assms(1,2)]
  show ?thesis by (simp add: handleNeighbors_def)
qed

theorem neighbors_learned_witness:
  "let n = \<lparr>wn_IP = [10, 0, 0, 2], wn_UDP = 30303, wn_TCP = 30303, wn_ID = replicate 64 9\<rparr>;
       body = packet_body (Neighbors [n] 9 []);
       d = replicate 32 (of_nat (66 + length body)) @ replicate 65 5 @ 4 # body;
       c = cw (startCrawl toyEnv 0 True [10, 0, 0, 1] 30311 (emptyCache alist_cmap));
       c' = fst (handlePacket toyEnv 0 True ([10, 0, 0, 1], 30311) d c)
   in cm_get alist_cmap (enodePool (enodes c')) (nodeKey n) = Some (NodeItemV (neighborItem 0 n)) \<and>
      enodeHistory (enodes c') = []"
proof -
  let ?n = "\<lparr>wn_IP = [10, 0, 0, 2], wn_UDP = 30303, wn_TCP = 30303, wn_ID = replicate 64 9\<rparr>"
  let ?p = "Neighbors [?n] 9 []"
  let ?d = "replicate 32 (of_nat (66 + length (packet_body ?p))) @ replicate 65 5 @ 4 # packet_body ?p"
  let ?c = "cw (startCrawl toyEnv 0 True [10, 0, 0, 1] 30311 (emptyCache alist_cmap))"
  have ok: "packet_ok ?p" by (simp add: rest_ok_def)
  have "length (packet_body ?p) \<le> 1107" by (rule neighbors_size) (simp_all add: node_fits_def MaxNeighbors_def)
  then have "decodePacket 4 (packet_body ?p) = Inr ?p" using decodePacket_ok [OF ok, of "[]"] by simp
  then have d: "v4_Decode (crypto_ops.truncate (env_key toyEnv)) ?d =
      (Inr ?p, replicate 64 5, replicate 32 (of_nat (66 + length (packet_body ?p))))"
    by (simp only: toy_Decode)
  have e: "enodes ?c = emptyCache alist_cmap"
    by (simp add: startCrawl_def sendPing_def conn_Write_def Let_def split: sum.split)
  have ok: "cmap_ok (env_cmap toyEnv)" "cache_inv (env_cmap toyEnv) (enodes ?c)"
    unfolding e by (simp_all add: toyEnv_def alist_cmap_ok emptyCache_inv)
  obtain c' sg where h: "handlePacket toyEnv 0 True ([10, 0, 0, 1], 30311) ?d ?c = (c', sg)" by fastforce
  from neighbors_learned [OF ok d h] e h show ?thesis
    by (simp add: Let_def toyEnv_def emptyCache_def alist_cmap_sel)
qed

end
