(* ===== verification/Go_Heap.thy ===== *)
theory Go_Heap
  imports Go_Prelude
begin

text \<open>
  The routines of Go's \<^verbatim>\<open>container/heap\<close> on a slice, with the client's
  \<^verbatim>\<open>Less\<close> as an argument: \<^verbatim>\<open>up\<close>, \<^verbatim>\<open>down\<close>,
  \<^verbatim>\<open>Init\<close>, \<^verbatim>\<open>Push\<close>, \<^verbatim>\<open>Pop\<close> and
  \<^verbatim>\<open>Remove\<close>. The sources use them for the expiry heap of the dialer
  (\<^verbatim>\<open>p2p/util.go\<close>) and for the nonce and price heaps of the transaction pool
  (\<^verbatim>\<open>core/tx_list.go\<close>); all these clients append in \<^verbatim>\<open>Push\<close> and cut
  the last element off in \<^verbatim>\<open>Pop\<close>, which is built in here.

  The locale \<open>heap_less\<close> is the contract of \<^verbatim>\<open>Less\<close>: a strict weak order.
  In it the routines keep the heap shape and the elements, and the root is a least element.
\<close>

definition parent :: "nat \<Rightarrow> nat" where
  "parent j = (j - 1) div 2"

function heap_up :: "('a \<Rightarrow> 'a \<Rightarrow> bool) \<Rightarrow> 'a list \<Rightarrow> nat \<Rightarrow> 'a list" where
  "heap_up lt xs j =
     (let i = parent j
      in if i = j \<or> \<not> lt (xs ! j) (xs ! i) then xs else heap_up lt (go_swap xs i j) i)"
  by pat_completeness auto
termination
  by (relation "measure (\<lambda>(lt, xs, j). j)") (auto simp: parent_def)

definition least_child :: "('a \<Rightarrow> 'a \<Rightarrow> bool) \<Rightarrow> 'a list \<Rightarrow> nat \<Rightarrow> nat \<Rightarrow> nat" where
  "least_child lt xs i n =
     (let j1 = 2 * i + 1; j2 = j1 + 1
      in if j2 < n \<and> lt (xs ! j2) (xs ! j1) then j2 else j1)"

function heap_down :: "('a \<Rightarrow> 'a \<Rightarrow> bool) \<Rightarrow> 'a list \<Rightarrow> nat \<Rightarrow> nat \<Rightarrow> 'a list \<times> nat" where
  "heap_down lt xs i n =
     (if 2 * i + 1 \<ge> n then (xs, i)
      else let j = least_child lt xs i n
           in if \<not> lt (xs ! j) (xs ! i) then (xs, i) else heap_down lt (go_swap xs i j) j n)"
  by pat_completeness auto
termination
  by (relation "measure (\<lambda>(lt, xs, i, n). n - i)") (auto simp: least_child_def Let_def)

declare heap_up.simps [simp del] heap_down.simps [simp del]

fun heap_init_from :: "('a \<Rightarrow> 'a \<Rightarrow> bool) \<Rightarrow> 'a list \<Rightarrow> nat \<Rightarrow> 'a list" where
  "heap_init_from lt xs 0 = xs"
| "heap_init_from lt xs (Suc i) =
     heap_init_from lt (fst (heap_down lt xs i (length xs))) i"

definition heap_init :: "('a \<Rightarrow> 'a \<Rightarrow> bool) \<Rightarrow> 'a list \<Rightarrow> 'a list" where
  "heap_init lt xs = heap_init_from lt xs (length xs div 2)"

definition heap_push :: "('a \<Rightarrow> 'a \<Rightarrow> bool) \<Rightarrow> 'a \<Rightarrow> 'a list \<Rightarrow> 'a list" where
  "heap_push lt x xs = heap_up lt (xs @ [x]) (length xs)"

text \<open>\<^verbatim>\<open>heap.Pop\<close> of an empty slice panics with an index out of range: \<open>None\<close>.\<close>

definition heap_pop :: "('a \<Rightarrow> 'a \<Rightarrow> bool) \<Rightarrow> 'a list \<Rightarrow> ('a \<times> 'a list) option" where
  "heap_pop lt xs =
     (if xs = [] then None
      else let n = length xs - 1;
               ys = fst (heap_down lt (go_swap xs 0 n) 0 n)
           in Some (last ys, butlast ys))"

definition heap_remove :: "('a \<Rightarrow> 'a \<Rightarrow> bool) \<Rightarrow> 'a list \<Rightarrow> nat \<Rightarrow> ('a \<times> 'a list) option" where
  "heap_remove lt xs i =
     (if i \<ge> length xs then None
      else let n = length xs - 1;
               ys = (if n = i then xs
                     else let (zs, k) = heap_down lt (go_swap xs i n) i n
                          in if k > i then zs else heap_up lt zs i)
           in Some (last ys, butlast ys))"

subsection \<open>Length and elements, for every \<open>lt\<close>\<close>

lemma parent_less: "0 < j \<Longrightarrow> parent j < j"
  by (simp add: parent_def)

lemma parent_le: "parent j \<le> j"
  by (simp add: parent_def)

lemma parent_0 [simp]: "parent 0 = 0"
  by (simp add: parent_def)

lemma least_child_cases:
  "2 * i + 1 < n \<Longrightarrow> least_child lt xs i n < n \<and> i < least_child lt xs i n \<and>
     parent (least_child lt xs i n) = i"
  by (auto simp: least_child_def parent_def Let_def)

lemma mset_heap_up: "j < length xs \<Longrightarrow> mset (heap_up lt xs j) = mset xs"
proof (induction lt xs j rule: heap_up.induct)
  case (1 lt xs j)
  show ?case
  proof (cases "parent j = j \<or> \<not> lt (xs ! j) (xs ! parent j)")
    case True
    then show ?thesis by (auto simp: heap_up.simps [of lt xs j] Let_def)
  next
    case False
    moreover have "parent j < length xs" using 1(2) parent_le [of j] by simp
    ultimately show ?thesis using 1 by (simp add: heap_up.simps [of lt xs j] Let_def)
  qed
qed

lemma mset_heap_down:
  "n \<le> length xs \<Longrightarrow> i < length xs \<Longrightarrow> mset (fst (heap_down lt xs i n)) = mset xs"
proof (induction lt xs i n rule: heap_down.induct)
  case (1 lt xs i n)
  let ?j = "least_child lt xs i n"
  show ?case
  proof (cases "2 * i + 1 < n \<and> lt (xs ! ?j) (xs ! i)")
    case True
    then have "?j < length xs" using least_child_cases [of i n lt xs] 1(2) by linarith
    with True 1 show ?thesis
      by (simp add: heap_down.simps [of lt xs i n] Let_def)
  next
    case False
    then show ?thesis by (auto simp: heap_down.simps [of lt xs i n] Let_def not_less)
  qed
qed

lemma length_heap_up [simp]: "length (heap_up lt xs j) = length xs"
proof (induction lt xs j rule: heap_up.induct)
  case (1 lt xs j)
  then show ?case by (cases "parent j = j \<or> \<not> lt (xs ! j) (xs ! parent j)")
      (auto simp: heap_up.simps [of lt xs j] Let_def)
qed

lemma length_heap_down [simp]: "length (fst (heap_down lt xs i n)) = length xs"
proof (induction lt xs i n rule: heap_down.induct)
  case (1 lt xs i n)
  then show ?case
    by (cases "2 * i + 1 < n \<and> lt (xs ! least_child lt xs i n) (xs ! i)")
      (auto simp: heap_down.simps [of lt xs i n] Let_def not_less)
qed

lemma heap_down_beyond: "n \<le> k \<Longrightarrow> k < length xs \<Longrightarrow> i < n \<Longrightarrow> fst (heap_down lt xs i n) ! k = xs ! k"
proof (induction lt xs i n rule: heap_down.induct)
  case (1 lt xs i n)
  let ?j = "least_child lt xs i n"
  show ?case
  proof (cases "2 * i + 1 < n \<and> lt (xs ! ?j) (xs ! i)")
    case True
    then have j: "?j < n" using least_child_cases [of i n lt xs] by simp
    then have "go_swap xs i ?j ! k = xs ! k"
      using 1(2-4) by (simp add: go_swap_def)
    with True j 1 show ?thesis
      by (simp add: heap_down.simps [of lt xs i n] Let_def)
  next
    case False
    then show ?thesis by (auto simp: heap_down.simps [of lt xs i n] Let_def not_less)
  qed
qed

lemma heap_down_index_ge: "i \<le> snd (heap_down lt xs i n)"
proof (induction lt xs i n rule: heap_down.induct)
  case (1 lt xs i n)
  let ?j = "least_child lt xs i n"
  show ?case
  proof (cases "2 * i + 1 < n \<and> lt (xs ! ?j) (xs ! i)")
    case True
    then have "i < ?j" using least_child_cases [of i n lt xs] by simp
    moreover have "?j \<le> snd (heap_down lt (go_swap xs i ?j) ?j n)" using True 1 by simp
    ultimately show ?thesis using True
      by (simp add: heap_down.simps [of lt xs i n] Let_def)
  next
    case False
    then show ?thesis by (auto simp: heap_down.simps [of lt xs i n] Let_def not_less)
  qed
qed

lemma heap_down_unmoved:
  assumes "snd (heap_down lt xs i n) = i"
  shows "fst (heap_down lt xs i n) = xs \<and>
         (2 * i + 1 < n \<longrightarrow> \<not> lt (xs ! least_child lt xs i n) (xs ! i))"
proof (cases "2 * i + 1 < n \<and> lt (xs ! least_child lt xs i n) (xs ! i)")
  case True
  then have "i < least_child lt xs i n" using least_child_cases [of i n lt xs] by simp
  then have "i < snd (heap_down lt xs i n)"
    using True heap_down_index_ge [of "least_child lt xs i n" lt "go_swap xs i (least_child lt xs i n)" n]
    by (simp add: heap_down.simps [of lt xs i n] Let_def)
  with assms show ?thesis by simp
next
  case False
  then show ?thesis by (auto simp: heap_down.simps [of lt xs i n] Let_def not_less)
qed

lemma length_heap_init_from [simp]: "length (heap_init_from lt xs k) = length xs"
  by (induction lt xs k rule: heap_init_from.induct) simp_all

lemma mset_heap_init_from: "k \<le> length xs \<Longrightarrow> mset (heap_init_from lt xs k) = mset xs"
  by (induction lt xs k rule: heap_init_from.induct) (simp_all add: mset_heap_down)

lemma mset_heap_init [simp]: "mset (heap_init lt xs) = mset xs"
  by (simp add: heap_init_def mset_heap_init_from)

lemma set_heap_init [simp]: "set (heap_init lt xs) = set xs"
  by (metis mset_heap_init set_mset_mset)

lemma mset_heap_push [simp]: "mset (heap_push lt x xs) = add_mset x (mset xs)"
  by (simp add: heap_push_def mset_heap_up)

subsection \<open>The heap order\<close>

definition heap_from :: "('a \<Rightarrow> 'a \<Rightarrow> bool) \<Rightarrow> 'a list \<Rightarrow> nat \<Rightarrow> nat \<Rightarrow> bool" where
  "heap_from lt xs k n \<longleftrightarrow>
     (\<forall>j. 0 < j \<and> j < n \<and> k \<le> parent j \<longrightarrow> \<not> lt (xs ! j) (xs ! parent j))"

definition is_heap :: "('a \<Rightarrow> 'a \<Rightarrow> bool) \<Rightarrow> 'a list \<Rightarrow> bool" where
  "is_heap lt xs = heap_from lt xs 0 (length xs)"

definition down_inv :: "('a \<Rightarrow> 'a \<Rightarrow> bool) \<Rightarrow> 'a list \<Rightarrow> nat \<Rightarrow> nat \<Rightarrow> nat \<Rightarrow> bool" where
  "down_inv lt xs k i n \<longleftrightarrow>
     (\<forall>j. 0 < j \<and> j < n \<and> k \<le> parent j \<and> parent j \<noteq> i \<longrightarrow> \<not> lt (xs ! j) (xs ! parent j)) \<and>
     (0 < i \<and> k \<le> parent i \<longrightarrow>
       (\<forall>c. 0 < c \<and> c < n \<and> parent c = i \<longrightarrow> \<not> lt (xs ! c) (xs ! parent i)))"

definition up_inv :: "('a \<Rightarrow> 'a \<Rightarrow> bool) \<Rightarrow> 'a list \<Rightarrow> nat \<Rightarrow> nat \<Rightarrow> bool" where
  "up_inv lt xs i n \<longleftrightarrow>
     (\<forall>j. 0 < j \<and> j < n \<and> j \<noteq> i \<longrightarrow> \<not> lt (xs ! j) (xs ! parent j)) \<and>
     (0 < i \<longrightarrow> (\<forall>c. 0 < c \<and> c < n \<and> parent c = i \<longrightarrow> \<not> lt (xs ! c) (xs ! parent i)))"

lemma heap_fromD:
  "heap_from lt xs k n \<Longrightarrow> 0 < j \<Longrightarrow> j < n \<Longrightarrow> k \<le> parent j \<Longrightarrow> \<not> lt (xs ! j) (xs ! parent j)"
  by (simp add: heap_from_def)

lemma heap_from_cong:
  assumes "\<And>j. j < n \<Longrightarrow> xs ! j = ys ! j"
  shows "heap_from lt xs k n = heap_from lt ys k n"
proof -
  have "parent j < n" if "j < n" for j
    using that parent_le [of j] by linarith
  then show ?thesis by (auto simp: heap_from_def assms)
qed

lemma is_heap_Nil [simp]: "is_heap lt []"
  by (simp add: is_heap_def heap_from_def)

lemma child_cases:
  "parent c = i \<Longrightarrow> 0 < c \<Longrightarrow> c = 2 * i + 1 \<or> c = 2 * i + 2"
  unfolding parent_def by presburger

locale heap_less =
  fixes lt :: "'a \<Rightarrow> 'a \<Rightarrow> bool"
  assumes lt_asym: "lt x y \<Longrightarrow> \<not> lt y x"
    and not_lt_trans: "\<not> lt y x \<Longrightarrow> \<not> lt z y \<Longrightarrow> \<not> lt z x"
begin

lemma lt_irrefl: "\<not> lt x x"
  using lt_asym by blast

lemma least_child_least:
  assumes "parent c = i" "0 < c" "c < n"
  shows "\<not> lt (xs ! c) (xs ! least_child lt xs i n)"
proof -
  note asym = lt_asym [of "xs ! (2 * i + 2)" "xs ! (2 * i + 1)"]
  from child_cases [OF assms(1,2)] show ?thesis
    using assms(3) asym by (elim disjE) (simp_all add: least_child_def Let_def lt_irrefl)
qed

lemma down_inv_stop:
  assumes inv: "down_inv lt xs k i n"
    and stop: "2 * i + 1 < n \<Longrightarrow> \<not> lt (xs ! least_child lt xs i n) (xs ! i)"
  shows "heap_from lt xs k n"
  unfolding heap_from_def
proof (intro allI impI, elim conjE)
  fix j assume j: "0 < j" "j < n" "k \<le> parent j"
  show "\<not> lt (xs ! j) (xs ! parent j)"
  proof (cases "parent j = i")
    case True
    then have "2 * i + 1 < n" using child_cases [OF True j(1)] j(2) by linarith
    from stop [OF this] least_child_least [OF True j(1,2)] True show ?thesis
      using not_lt_trans by blast
  next
    case False
    then show ?thesis using inv j by (simp add: down_inv_def)
  qed
qed

lemma down_inv_step:
  assumes inv: "down_inv lt xs k i n" and k: "k \<le> i" and n: "n \<le> length xs"
    and i: "2 * i + 1 < n" and lt: "lt (xs ! least_child lt xs i n) (xs ! i)"
  shows "down_inv lt (go_swap xs i (least_child lt xs i n)) k (least_child lt xs i n) n"
proof -
  define c where "c = least_child lt xs i n"
  define ys where "ys = go_swap xs i c"
  have c: "c < n" "i < c" "parent c = i"
    using least_child_cases [OF i, of lt xs] by (simp_all add: c_def)
  have ys: "ys ! m = (if m = c then xs ! i else if m = i then xs ! c else xs ! m)" if "m < n" for m
    unfolding ys_def using that c n by (intro nth_go_swap) auto
  have par: "parent m < n" if "m < n" for m using that parent_le [of m] by linarith
  have inv1: "\<not> lt (xs ! m) (xs ! parent m)" if "0 < m" "m < n" "k \<le> parent m" "parent m \<noteq> i" for m
    using inv that by (simp add: down_inv_def)
  have inv2: "\<not> lt (xs ! m) (xs ! parent i)" if "0 < i" "k \<le> parent i" "0 < m" "m < n" "parent m = i" for m
    using inv that by (simp add: down_inv_def)
  show ?thesis unfolding down_inv_def c_def [symmetric] ys_def [symmetric]
  proof (intro conjI impI allI; elim conjE)
    fix j assume j: "0 < j" "j < n" "k \<le> parent j" "parent j \<noteq> c"
    show "\<not> lt (ys ! j) (ys ! parent j)"
    proof (cases "parent j = i")
      case True
      then have "j \<noteq> i" using j(1) parent_less [of j] by auto
      then show ?thesis
        using True j(2) c(1,2) ys [of j] ys [of i] lt_asym [OF lt [folded c_def]]
          least_child_least [OF True j(1,2), of xs, folded c_def] by (cases "j = c") simp_all
    next
      case False
      then have "\<not> lt (xs ! j) (xs ! parent j)" using inv1 j by simp
      moreover have "\<not> lt (xs ! c) (xs ! parent i)" if "j = i"
        using inv2 [of c] j c that by simp
      moreover have "j \<noteq> c" using False c by blast
      ultimately show ?thesis
        using False j(2,4) ys [of j] ys [OF par [of j]] by (cases "j = i") simp_all
    qed
  next
    fix m assume m: "0 < c" "k \<le> parent c" "0 < m" "m < n" "parent m = c"
    then have "parent m \<noteq> i" and "m \<noteq> i" and "m \<noteq> c"
      using c parent_less [of m] by auto
    moreover have "\<not> lt (xs ! m) (xs ! parent m)"
      using inv1 [of m] m c k \<open>parent m \<noteq> i\<close> by simp
    ultimately show "\<not> lt (ys ! m) (ys ! parent c)"
      using m c ys [of m] ys [of i] by simp
  qed
qed

lemma heap_down_heap:
  "down_inv lt xs k i n \<Longrightarrow> k \<le> i \<Longrightarrow> n \<le> length xs \<Longrightarrow> heap_from lt (fst (heap_down lt xs i n)) k n"
proof (induction "n - i" arbitrary: xs i rule: less_induct)
  case less
  define c where "c = least_child lt xs i n"
  show ?case
  proof (cases "2 * i + 1 < n \<and> lt (xs ! c) (xs ! i)")
    case True
    then have c: "c < n" "i < c" using least_child_cases [of i n lt xs] by (simp_all add: c_def)
    then have "heap_from lt (fst (heap_down lt (go_swap xs i c) c n)) k n"
      using less(1) [of c "go_swap xs i c"] down_inv_step [OF less(2-4), folded c_def] True less(3,4)
      by simp
    with True show ?thesis
      by (simp add: heap_down.simps [of lt xs i n] Let_def c_def)
  next
    case False
    then have "heap_from lt xs k n"
      using down_inv_stop [OF less(2)] by (auto simp: c_def)
    with False show ?thesis
      by (auto simp: heap_down.simps [of lt xs i n] Let_def not_less c_def)
  qed
qed

lemma heap_init_from_heap:
  "heap_from lt xs k (length xs) \<Longrightarrow> heap_from lt (heap_init_from lt xs k) 0 (length xs)"
proof (induction k arbitrary: xs)
  case (Suc k)
  have "down_inv lt xs k k (length xs)"
    using Suc.prems parent_less [of k] by (auto simp: down_inv_def heap_from_def)
  then have "heap_from lt (fst (heap_down lt xs k (length xs))) k (length xs)"
    by (rule heap_down_heap) simp_all
  with Suc.IH [of "fst (heap_down lt xs k (length xs))"] show ?case by simp
qed simp

lemma heap_init_heap [simp]: "is_heap lt (heap_init lt xs)"
proof -
  have "heap_from lt xs (length xs div 2) (length xs)"
    unfolding heap_from_def parent_def by auto
  then show ?thesis
    using heap_init_from_heap by (simp add: is_heap_def heap_init_def)
qed

lemma up_inv_step:
  assumes inv: "up_inv lt xs j n" and j: "0 < j" "j < n" and n: "n \<le> length xs"
    and lt: "lt (xs ! j) (xs ! parent j)"
  shows "up_inv lt (go_swap xs (parent j) j) (parent j) n"
proof -
  define i where "i = parent j"
  define ys where "ys = go_swap xs i j"
  have i: "i < j" using parent_less [OF j(1)] by (simp add: i_def)
  have ys: "ys ! m = (if m = j then xs ! i else if m = i then xs ! j else xs ! m)" if "m < n" for m
    unfolding ys_def using that i j n by (intro nth_go_swap) auto
  have ord: "\<not> lt (xs ! m) (xs ! parent m)" if "0 < m" "m < n" "m \<noteq> j" for m
    using inv that by (simp add: up_inv_def)
  have par: "parent m < n" if "m < n" for m using that parent_le [of m] by linarith
  have below: "\<not> lt (xs ! m) (xs ! i)" if "0 < m" "m < n" "parent m = j" for m
    using inv that j(1) by (simp add: up_inv_def i_def)
  show ?thesis unfolding up_inv_def i_def [symmetric] ys_def [symmetric]
  proof (intro conjI impI allI; elim conjE)
    fix m assume m: "0 < m" "m < n" "m \<noteq> i"
    consider "m = j" | "m \<noteq> j" "parent m = j" | "m \<noteq> j" "parent m = i" | "m \<noteq> j" "parent m \<noteq> j" "parent m \<noteq> i"
      by blast
    then show "\<not> lt (ys ! m) (ys ! parent m)"
    proof cases
      case 1
      then show ?thesis using ys [of m] ys [of i] i j lt_asym [OF lt] by (simp add: i_def [symmetric])
    next
      case 2
      then show ?thesis using ys [of m] ys [of j] j m below [of m] by simp
    next
      case 3
      moreover have "\<not> lt (xs ! m) (xs ! j)"
        using not_lt_trans [OF lt_asym [OF lt] ord [of m, unfolded 3(2) i_def]] 3 m by (simp add: i_def)
      ultimately show ?thesis using ys [of m] ys [of i] i j m by simp
    next
      case 4
      then show ?thesis using ys [of m] ys [OF par [of m]] m ord [of m] by simp
    qed
  next
    fix m assume m: "0 < i" "0 < m" "m < n" "parent m = i"
    have pi: "parent i < i" using parent_less [OF m(1)] .
    then have yp: "ys ! parent i = xs ! parent i" using ys [of "parent i"] i j by simp
    have oi: "\<not> lt (xs ! i) (xs ! parent i)" using ord [of i] m i j by simp
    have "m \<noteq> i" using m parent_less [of m] by auto
    show "\<not> lt (ys ! m) (ys ! parent i)"
    proof (cases "m = j")
      case True
      then show ?thesis using ys [of m] m oi yp by simp
    next
      case False
      then have "\<not> lt (xs ! m) (xs ! i)" using ord [of m] m by simp
      then have "\<not> lt (xs ! m) (xs ! parent i)" using oi not_lt_trans by blast
      then show ?thesis
        using False \<open>m \<noteq> i\<close> ys [of m] m yp by simp
    qed
  qed
qed

lemma heap_up_heap:
  "up_inv lt xs j n \<Longrightarrow> j < n \<Longrightarrow> n \<le> length xs \<Longrightarrow>
   heap_from lt (heap_up lt xs j) 0 n \<and> (\<forall>m. n \<le> m \<and> m < length xs \<longrightarrow> heap_up lt xs j ! m = xs ! m)"
proof (induction j arbitrary: xs rule: less_induct)
  case (less j)
  show ?case
  proof (cases "parent j = j \<or> \<not> lt (xs ! j) (xs ! parent j)")
    case True
    have "heap_from lt xs 0 n"
      unfolding heap_from_def
    proof (intro allI impI, elim conjE)
      fix m assume m: "0 < m" "m < n"
      then show "\<not> lt (xs ! m) (xs ! parent m)"
        using True less(2) parent_less [of j] by (cases "m = j") (auto simp: up_inv_def)
    qed
    with True show ?thesis by (auto simp: heap_up.simps [of lt xs j] Let_def)
  next
    case False
    then have j: "0 < j" using parent_0 by (cases j) auto
    then have pj: "parent j < j" by (rule parent_less)
    let ?ys = "go_swap xs (parent j) j"
    have "up_inv lt ?ys (parent j) n"
      using up_inv_step [OF less(2) j less(3,4)] False by simp
    then have IH: "heap_from lt (heap_up lt ?ys (parent j)) 0 n \<and>
        (\<forall>m. n \<le> m \<and> m < length xs \<longrightarrow> heap_up lt ?ys (parent j) ! m = ?ys ! m)"
      using less(1) [of "parent j" ?ys] pj less(3,4) by simp
    have "?ys ! m = xs ! m" if "n \<le> m" for m
      using that pj less(3) by (simp add: go_swap_def)
    with IH False show ?thesis by (simp add: heap_up.simps [of lt xs j] Let_def)
  qed
qed

lemma heap_push_heap [simp]:
  assumes "is_heap lt xs"
  shows "is_heap lt (heap_push lt x xs)"
proof -
  let ?ys = "xs @ [x]"
  have "up_inv lt ?ys (length xs) (length ?ys)"
    unfolding up_inv_def
  proof (intro conjI impI allI; elim conjE)
    fix m assume m: "0 < m" "m < length ?ys" "m \<noteq> length xs"
    then have "parent m < length xs" using parent_le [of m] by simp
    then show "\<not> lt (?ys ! m) (?ys ! parent m)"
      using m assms by (simp add: is_heap_def heap_from_def nth_append)
  next
    fix c assume "0 < c" "c < length ?ys" "parent c = length xs"
    then show "\<not> lt (?ys ! c) (?ys ! parent (length xs))"
      using parent_less [of c] by simp
  qed
  from heap_up_heap [OF this] show ?thesis by (simp add: is_heap_def heap_push_def)
qed

lemma heap_root_least:
  assumes "is_heap lt xs" "j < length xs"
  shows "\<not> lt (xs ! j) (xs ! 0)"
  using assms(2)
proof (induction j rule: less_induct)
  case (less j)
  show ?case
  proof (cases "j = 0")
    case True
    then show ?thesis by (simp add: lt_irrefl)
  next
    case False
    then have "parent j < j" by (simp add: parent_less)
    then have "\<not> lt (xs ! parent j) (xs ! 0)" using less by simp
    moreover have "\<not> lt (xs ! j) (xs ! parent j)"
      using assms(1) False less(2) by (simp add: is_heap_def heap_from_def)
    ultimately show ?thesis using not_lt_trans by blast
  qed
qed

lemma heap_hd_least:
  assumes "is_heap lt xs" "x \<in> set xs"
  shows "\<not> lt x (hd xs)"
proof -
  obtain j where "j < length xs" "xs ! j = x" using assms(2) by (auto simp: in_set_conv_nth)
  moreover from this have "xs \<noteq> []" by auto
  ultimately show ?thesis using heap_root_least [OF assms(1), of j] by (simp add: hd_conv_nth)
qed

lemma heap_pop_spec:
  assumes "is_heap lt xs" "xs \<noteq> []"
  shows "\<exists>ys. heap_pop lt xs = Some (hd xs, ys) \<and> is_heap lt ys \<and> mset xs = add_mset (hd xs) (mset ys)"
proof -
  define n where "n = length xs - 1"
  define zs where "zs = go_swap xs 0 n"
  define ws where "ws = fst (heap_down lt zs 0 n)"
  have n: "length xs = Suc n" using assms(2) by (cases xs) (simp_all add: n_def)
  have lw: "length ws = Suc n" by (simp add: ws_def zs_def n)
  have zs: "zs ! j = xs ! j" if "0 < j" "j < n" for j
    using that n by (simp add: zs_def go_swap_def)
  have "down_inv lt zs 0 0 n"
    unfolding down_inv_def
  proof (intro conjI impI allI; elim conjE)
    fix j assume j: "0 < j" "j < n" "parent j \<noteq> 0"
    then have "parent j < n" using parent_le [of j] by linarith
    then show "\<not> lt (zs ! j) (zs ! parent j)"
      using assms(1) j zs [of j] zs [of "parent j"] n by (simp add: is_heap_def heap_from_def)
  qed simp
  then have hw: "heap_from lt ws 0 n"
    unfolding ws_def by (rule heap_down_heap) (simp_all add: zs_def n)
  have last: "last ws = hd xs"
  proof -
    have "ws \<noteq> []" using lw by auto
    then have "last ws = ws ! n" using lw by (simp add: last_conv_nth)
    also have "ws ! n = zs ! n"
    proof (cases "n = 0")
      case True
      then show ?thesis by (simp add: ws_def heap_down.simps [of lt zs 0])
    next
      case False
      then show ?thesis unfolding ws_def by (intro heap_down_beyond) (simp_all add: zs_def n)
    qed
    also have "zs ! n = hd xs" using n assms(2) by (simp add: zs_def go_swap_def hd_conv_nth nth_list_update)
    finally show ?thesis .
  qed
  have "heap_from lt (butlast ws) 0 n"
    using hw heap_from_cong [of n "butlast ws" ws] lw by (simp add: nth_butlast)
  then have hb: "is_heap lt (butlast ws)" by (simp add: is_heap_def lw)
  have "mset ws = mset xs"
    unfolding ws_def zs_def using n by (subst mset_heap_down) simp_all
  moreover have "ws = butlast ws @ [last ws]" using lw by (intro append_butlast_last_id [symmetric]) auto
  ultimately have "mset xs = add_mset (hd xs) (mset (butlast ws))"
    using last mset_append [of "butlast ws" "[last ws]"] by simp
  moreover have "heap_pop lt xs = Some (hd xs, butlast ws)"
    using assms(2) last unfolding ws_def zs_def n_def by (simp add: heap_pop_def Let_def)
  ultimately show ?thesis using hb by blast
qed

lemma heap_swap_out:
  assumes heap: "is_heap lt xs" and n: "length xs = Suc n" and i: "i < n"
  defines "ys \<equiv> go_swap xs i n"
  shows "0 < j \<Longrightarrow> j < n \<Longrightarrow> j \<noteq> i \<Longrightarrow> parent j \<noteq> i \<Longrightarrow> \<not> lt (ys ! j) (ys ! parent j)"
    and "0 < i \<Longrightarrow> 0 < c \<Longrightarrow> c < n \<Longrightarrow> parent c = i \<Longrightarrow> \<not> lt (ys ! c) (ys ! parent i)"
proof -
  have ys: "ys ! m = xs ! m" if "m < n" "m \<noteq> i" for m
    using that n by (simp add: ys_def go_swap_def)
  have ord: "\<not> lt (xs ! m) (xs ! parent m)" if "0 < m" "m < n" for m
    using heap that n by (simp add: is_heap_def heap_from_def)
  show "\<not> lt (ys ! j) (ys ! parent j)" if "0 < j" "j < n" "j \<noteq> i" "parent j \<noteq> i"
    using that ys [of j] ys [of "parent j"] ord [of j] parent_le [of j] by simp
  show "\<not> lt (ys ! c) (ys ! parent i)" if "0 < i" "0 < c" "c < n" "parent c = i"
    using that ys [of c] ys [of "parent i"] not_lt_trans [OF ord [of i] ord [of c, unfolded that(4)]] i
      parent_less [of c] parent_less [of i] by simp
qed

lemma heap_remove_prefix:
  assumes heap: "is_heap lt xs" and n: "length xs = Suc n" and i: "i < n"
    and down: "heap_down lt (go_swap xs i n) i n = (zs, k)"
  shows "heap_from lt (if k > i then zs else heap_up lt zs i) 0 n \<and>
         (if k > i then zs else heap_up lt zs i) ! n = xs ! i \<and>
         mset (if k > i then zs else heap_up lt zs i) = mset xs"
proof -
  define ys where "ys = go_swap xs i n"
  note out = heap_swap_out [OF heap n i, folded ys_def]
  have ly: "length ys = Suc n" by (simp add: ys_def n)
  have zs: "zs = fst (heap_down lt ys i n)" "k = snd (heap_down lt ys i n)"
    using down by (simp_all add: ys_def)
  have lz: "length zs = Suc n" by (simp add: zs ly)
  have mz: "mset zs = mset xs"
    unfolding zs ys_def using n i by (subst mset_heap_down) simp_all
  have zn: "zs ! n = xs ! i"
    using heap_down_beyond [of n n ys i lt] ly i n by (simp add: zs ys_def go_swap_def)
  show ?thesis
  proof (cases "0 < i \<and> lt (ys ! i) (ys ! parent i)")
    case True
    have stay: "\<not> lt (ys ! c) (ys ! i)" if "0 < c" "c < n" "parent c = i" for c
      using not_lt_trans [OF lt_asym [of "ys ! i" "ys ! parent i"] out(2)] True that by simp
    have "\<not> (2 * i + 1 < n \<and> lt (ys ! least_child lt ys i n) (ys ! i))"
      using stay [of "least_child lt ys i n"] least_child_cases [of i n lt ys] by auto
    then have k: "k = i" "zs = ys"
      by (auto simp: zs heap_down.simps [of lt ys i n] Let_def not_less)
    have "up_inv lt ys i n"
      unfolding up_inv_def
    proof (intro conjI impI allI; elim conjE)
      fix j assume j: "0 < j" "j < n" "j \<noteq> i"
      then show "\<not> lt (ys ! j) (ys ! parent j)"
        using stay [of j] out(1) [of j] by (cases "parent j = i") simp_all
    next
      fix c assume "0 < i" "0 < c" "c < n" "parent c = i"
      then show "\<not> lt (ys ! c) (ys ! parent i)" by (rule out(2))
    qed
    from heap_up_heap [OF this i] ly have "heap_from lt (heap_up lt ys i) 0 n"
      "heap_up lt ys i ! n = ys ! n" by simp_all
    then show ?thesis using k mz zn i by (simp add: mset_heap_up ly)
  next
    case False
    have "down_inv lt ys 0 i n"
      unfolding down_inv_def
    proof (intro conjI impI allI; elim conjE)
      fix j assume j: "0 < j" "j < n" "parent j \<noteq> i"
      then show "\<not> lt (ys ! j) (ys ! parent j)"
        using out(1) [of j] False by (cases "j = i") simp_all
    qed (rule out(2))
    then have hz: "heap_from lt zs 0 n"
      unfolding zs by (rule heap_down_heap) (simp_all add: ly)
    have "heap_up lt zs i = zs" if "\<not> k > i"
    proof -
      have "k = i" using that heap_down_index_ge [of i lt ys n] by (simp add: zs)
      then have "zs = ys" using heap_down_unmoved [of lt ys i n] by (simp add: zs)
      then show ?thesis
        using False parent_0 by (cases i) (auto simp: heap_up.simps [of lt ys] Let_def)
    qed
    then show ?thesis using hz mz zn by simp
  qed
qed

lemma heap_remove_spec:
  assumes "is_heap lt xs" "i < length xs"
  shows "\<exists>ys. heap_remove lt xs i = Some (xs ! i, ys) \<and> is_heap lt ys \<and> mset xs = add_mset (xs ! i) (mset ys)"
proof -
  define n where "n = length xs - 1"
  have n: "length xs = Suc n" using assms(2) by (simp add: n_def)
  have split: "\<exists>ys. Some (last ws, butlast ws) = Some (xs ! i, ys) \<and> is_heap lt ys \<and> mset xs = add_mset (xs ! i) (mset ys)"
    if "heap_from lt ws 0 n" "ws ! n = xs ! i" "mset ws = mset xs" for ws
  proof -
    have lw: "length ws = Suc n" using that(3) n by (metis size_mset)
    then have ne: "ws \<noteq> []" by auto
    then have "last ws = xs ! i" using that(2) lw by (simp add: last_conv_nth)
    moreover have "is_heap lt (butlast ws)"
      using that(1) heap_from_cong [of n "butlast ws" ws] lw by (simp add: is_heap_def nth_butlast)
    moreover have "mset xs = add_mset (last ws) (mset (butlast ws))"
      using that(3) mset_append [of "butlast ws" "[last ws]"] ne by simp
    ultimately show ?thesis by auto
  qed
  show ?thesis
  proof (cases "i = n")
    case True
    have "heap_from lt xs 0 n" using assms(1) n by (simp add: is_heap_def heap_from_def)
    moreover have "heap_remove lt xs i = Some (last xs, butlast xs)"
      using True n by (simp add: heap_remove_def)
    ultimately show ?thesis using split [of xs] True by simp
  next
    case False
    then have i: "i < n" using assms(2) n by simp
    obtain zs k where down: "heap_down lt (go_swap xs i n) i n = (zs, k)" by fastforce
    let ?ws = "if k > i then zs else heap_up lt zs i"
    have "heap_remove lt xs i = Some (last ?ws, butlast ?ws)"
      using False n down assms(2) by (simp add: heap_remove_def Let_def)
    moreover note heap_remove_prefix [OF assms(1) n i down]
    ultimately show ?thesis using split [of ?ws] by (simp only: simp_thms)
  qed
qed

end

lemma heap_pop_None_iff: "heap_pop lt xs = None \<longleftrightarrow> xs = []"
  by (simp add: heap_pop_def Let_def)

end
