(* ===== verification/Exp_Heap.thy ===== *)
theory Exp_Heap
  imports Go_Heap
begin

text \<open>
  \<^verbatim>\<open>p2p/util.go\<close>: the heap of strings with expiry times that the dial scheduler uses
  as its dial history and the server as its inbound throttle. Times are
  \<^verbatim>\<open>mclock.AbsTime\<close>, nanoseconds as a signed integer.

  The locale \<open>expiry_history\<close> is the contract both clients rely on, over the multiset of
  live entries; the throttling lemma is proved once in it and the heap is its instance.
\<close>

record 'i expItem =
  item :: 'i
  exp :: int

type_synonym 'i expHeap = "'i expItem list"

definition exp_Less :: "'i expItem \<Rightarrow> 'i expItem \<Rightarrow> bool" where
  "exp_Less a b = (exp a < exp b)"

text \<open>\<^verbatim>\<open>(*h)[0]\<close> of an empty heap panics: \<open>None\<close>.\<close>

definition nextExpiry :: "'i expHeap \<Rightarrow> int option" where
  "nextExpiry h = (case h of [] \<Rightarrow> None | e # _ \<Rightarrow> Some (exp e))"

definition exp_add :: "'i \<Rightarrow> int \<Rightarrow> 'i expHeap \<Rightarrow> 'i expHeap" where
  "exp_add x t h = heap_push exp_Less \<lparr>item = x, exp = t\<rparr> h"

fun exp_contains :: "'i expHeap \<Rightarrow> 'i \<Rightarrow> bool" where
  "exp_contains [] x = False"
| "exp_contains (v # vs) x = (if item v = x then True else exp_contains vs x)"

text \<open>
  The callback runs between two pops and may read the heap as it then is, so it takes the
  remaining heap and a state of its own.
\<close>

lemma heap_pop_length: "heap_pop lt xs = Some (x, ys) \<Longrightarrow> length ys < length xs"
  by (auto simp: heap_pop_def Let_def split: if_splits)

function exp_expire :: "int \<Rightarrow> ('i \<Rightarrow> 'i expHeap \<Rightarrow> 's \<Rightarrow> 's) \<Rightarrow> 'i expHeap \<Rightarrow> 's \<Rightarrow> 'i expHeap \<times> 's" where
  "exp_expire now onExp h s =
     (case nextExpiry h of
        None \<Rightarrow> (h, s)
      | Some t \<Rightarrow>
          if t < now then
            (case heap_pop exp_Less h of
               None \<Rightarrow> (h, s)
             | Some (it, h') \<Rightarrow> exp_expire now onExp h' (onExp (item it) h' s))
          else (h, s))"
  by pat_completeness auto
termination
  by (relation "measure (\<lambda>(now, onExp, h, s). length h)") (auto dest: heap_pop_length)

declare exp_expire.simps [simp del]

subsection \<open>Abstract specification\<close>

text \<open>The entries as a multiset of pairs of an item and its expiry time.\<close>

definition exp_abs :: "'i expHeap \<Rightarrow> ('i \<times> int) multiset" where
  "exp_abs h = image_mset (\<lambda>e. (item e, exp e)) (mset h)"

definition exp_inv :: "'i expHeap \<Rightarrow> bool" where
  "exp_inv h = is_heap exp_Less h"

interpretation exp_order: heap_less exp_Less
  by unfold_locales (auto simp: exp_Less_def)

lemma exp_contains_iff: "exp_contains h x \<longleftrightarrow> (\<exists>t. (x, t) \<in># exp_abs h)"
  by (induction h) (auto simp: exp_abs_def)

lemma exp_abs_add: "exp_abs (exp_add x t h) = add_mset (x, t) (exp_abs h)"
  by (simp add: exp_abs_def exp_add_def)

lemma exp_inv_add: "exp_inv h \<Longrightarrow> exp_inv (exp_add x t h)"
  by (simp add: exp_inv_def exp_add_def)

lemma nextExpiry_least:
  assumes "exp_inv h" "(x, u) \<in># exp_abs h"
  shows "\<exists>t. nextExpiry h = Some t \<and> t \<le> u"
proof -
  from assms(2) obtain e where e: "e \<in> set h" "exp e = u"
    by (auto simp: exp_abs_def)
  then have "\<not> exp_Less e (hd h)"
    using assms(1) exp_order.heap_hd_least by (auto simp: exp_inv_def)
  with e show ?thesis
    by (cases h) (auto simp: nextExpiry_def exp_Less_def)
qed

lemma exp_expire_spec:
  assumes "exp_inv h"
  shows "exp_inv (fst (exp_expire now f h s)) \<and>
         exp_abs (fst (exp_expire now f h s)) = filter_mset (\<lambda>(x, t). \<not> t < now) (exp_abs h)"
  using assms
proof (induction now f h s rule: exp_expire.induct)
  case (1 now f h s)
  show ?case
  proof (cases "\<exists>t. nextExpiry h = Some t \<and> t < now")
    case True
    then obtain t where t: "nextExpiry h = Some t" "t < now" by blast
    then have ne: "h \<noteq> []" by (auto simp: nextExpiry_def)
    obtain h' where h': "heap_pop exp_Less h = Some (hd h, h')" "is_heap exp_Less h'"
        "mset h = add_mset (hd h) (mset h')"
      using exp_order.heap_pop_spec [of h] 1(2) ne by (auto simp: exp_inv_def)
    have "exp (hd h) = t" using t(1) ne by (cases h) (auto simp: nextExpiry_def)
    then have "filter_mset (\<lambda>(x, t). \<not> t < now) (exp_abs h) = filter_mset (\<lambda>(x, t). \<not> t < now) (exp_abs h')"
      using h'(3) t(2) by (simp add: exp_abs_def)
    moreover have "exp_expire now f h s = exp_expire now f h' (f (item (hd h)) h' s)"
      using t h'(1) by (simp add: exp_expire.simps [of now f h s])
    ultimately show ?thesis
      using 1(1) [OF t h'(1) refl] h'(2) by (simp add: exp_inv_def)
  next
    case False
    then have "exp_expire now f h s = (h, s)"
      by (auto simp: exp_expire.simps [of now f h s] split: option.splits)
    moreover have "\<not> u < now" if "(x, u) \<in># exp_abs h" for x u
      using nextExpiry_least [OF 1(2) that] False by force
    then have "filter_mset (\<lambda>(x, t). \<not> t < now) (exp_abs h) = exp_abs h"
      by (auto simp: filter_mset_eq_conv)
    ultimately show ?thesis using 1(2) by simp
  qed
qed

subsection \<open>The contract of a throttling history\<close>

locale expiry_history =
  fixes hist_abs :: "'h \<Rightarrow> ('i \<times> int) multiset"
    and hist_inv :: "'h \<Rightarrow> bool"
    and hist_add :: "'i \<Rightarrow> int \<Rightarrow> 'h \<Rightarrow> 'h"
    and hist_contains :: "'h \<Rightarrow> 'i \<Rightarrow> bool"
    and hist_expire :: "int \<Rightarrow> 'h \<Rightarrow> 'h"
  assumes abs_add: "hist_abs (hist_add x t h) = add_mset (x, t) (hist_abs h)"
    and inv_add: "hist_inv h \<Longrightarrow> hist_inv (hist_add x t h)"
    and contains_iff: "hist_contains h x \<longleftrightarrow> (\<exists>t. (x, t) \<in># hist_abs h)"
    and abs_expire: "hist_inv h \<Longrightarrow> hist_abs (hist_expire now h) = filter_mset (\<lambda>(x, t). \<not> t < now) (hist_abs h)"
    and inv_expire: "hist_inv h \<Longrightarrow> hist_inv (hist_expire now h)"
begin

text \<open>A run of the history: entries are added and expiry is called, in any order.\<close>

fun hist_run :: "'h \<Rightarrow> ('i \<times> int + int) list \<Rightarrow> 'h" where
  "hist_run h [] = h"
| "hist_run h (Inl (x, t) # es) = hist_run (hist_add x t h) es"
| "hist_run h (Inr now # es) = hist_run (hist_expire now h) es"

lemma hist_run_inv: "hist_inv h \<Longrightarrow> hist_inv (hist_run h es)"
  by (induction h es rule: hist_run.induct) (auto simp: inv_add inv_expire)

lemma hist_run_keeps:
  "hist_inv h \<Longrightarrow> (x, t) \<in># hist_abs h \<Longrightarrow> (\<And>now. Inr now \<in> set es \<Longrightarrow> now \<le> t) \<Longrightarrow>
   (x, t) \<in># hist_abs (hist_run h es)"
  by (induction h es rule: hist_run.induct) (auto simp: inv_add inv_expire abs_add abs_expire not_less)

lemma throttled:
  assumes "hist_inv h" "\<And>now. Inr now \<in> set es \<Longrightarrow> now \<le> t"
  shows "hist_contains (hist_run (hist_add x t h) es) x"
  using hist_run_keeps [of "hist_add x t h" x t es] assms inv_add abs_add contains_iff by fastforce

lemma forgotten:
  assumes "hist_inv h" "\<And>t. (x, t) \<in># hist_abs h \<Longrightarrow> t < now"
  shows "\<not> hist_contains (hist_expire now h) x"
  using assms by (auto simp: contains_iff abs_expire)

end

interpretation exp_history:
  expiry_history exp_abs exp_inv exp_add exp_contains "\<lambda>now h. fst (exp_expire now (\<lambda>_ _ s. s) h ())"
  by unfold_locales
    (simp_all add: exp_abs_add exp_inv_add exp_contains_iff exp_expire_spec)

text \<open>What the callback of \<open>exp_expire\<close> does never changes which entries remain.\<close>

lemma exp_expire_heap: "fst (exp_expire now f h s) = fst (exp_expire now (\<lambda>_ _ s. s) h ())"
proof (induction now f h s rule: exp_expire.induct)
  case (1 now f h s)
  show ?case
    by (subst exp_expire.simps, subst (2) exp_expire.simps)
      (auto simp: 1 split: option.splits)
qed

end
