(* ===== verification/Dialer.thy ===== *)
theory Dialer
  imports Exp_Heap Netutil
begin

text \<open>
  The dial scheduler (\<^verbatim>\<open>p2p/dial.go\<close>): dynamic and static dials, the pool of static tasks, the
  dial history with its timer, and the main loop. Tasks are shared between the static map, the pool
  and the goroutines that run them, and are addresses into a store.

  The three mutexes that guard the maps are part of the state; locking a mutex the goroutine already
  holds blocks for ever. The clock is a field that only moves forward.
\<close>

subsection \<open>State\<close>

datatype dialErr = errSelf | errNoPort | errAlreadyDialing | errAlreadyConnected | errNetRestrict | errRecentlyDialed

record dialNode =
  dn_ID :: bytes
  dn_IP :: "IP option"
  dn_TCP :: int

type_synonym connFlag = "32 word"

definition dynDialedConn :: connFlag where "dynDialedConn = 1"
definition staticDialedConn :: connFlag where "staticDialedConn = 2"

definition conn_is :: "connFlag \<Rightarrow> connFlag \<Rightarrow> bool" where
  "conn_is flags f = (flags AND f \<noteq> 0)"

record dialTask =
  staticPoolIndex :: int
  t_flags :: connFlag
  dest :: dialNode
  lastResolved :: int
  resolveDelay :: int
  dataId :: int

definition newDialTask :: "dialNode \<Rightarrow> connFlag \<Rightarrow> int \<Rightarrow> dialTask" where
  "newDialTask n flags data =
     \<lparr>staticPoolIndex = - 1, t_flags = flags, dest = n, lastResolved = 0, resolveDelay = 0, dataId = data\<rparr>"

datatype lockName = peersRDLock | dialingRDLock | historyRDLock

text \<open>A timer is set, or has fired and sent into the channel.\<close>

datatype timer = Pending int | Fired

datatype loopPc = AtTop | AtSelect bool

record dialScheduler =
  self :: bytes
  maxDialPeers :: int
  maxActiveDials :: int
  netRestrict :: "Netlist option"
  dialing :: "(bytes, nat) gomap"
  dpeers :: "(bytes, unit) gomap"
  dialPeers :: int
  static :: "(bytes, nat) gomap"
  staticPool :: "nat list"
  history :: "bytes expHeap"
  historyTimer :: "timer option"
  historyTimerTime :: int
  historyExp :: "unit list"
  lastStatsLog :: int
  doneSinceLastLog :: int
  locks :: "lockName \<Rightarrow> bool"
  tasks :: "nat \<Rightarrow> dialTask"
  nextTask :: nat
  running :: "nat list"
  submitted :: "(bytes \<times> int) list"
  clock :: int
  pc :: loopPc

text \<open>
  \<open>running\<close> are the goroutines of dial tasks that have not been received from \<^verbatim>\<open>doneCh\<close> yet;
  \<open>submitted\<close> is the trace of all dials that were started, the latest first.
\<close>

definition second :: int where "second = 1000000000"
definition dialHistoryExpiration :: int where "dialHistoryExpiration = 35 * second"
definition dialStatsLogInterval :: int where "dialStatsLogInterval = 10 * second"
definition initialResolveDelay :: int where "initialResolveDelay = 60 * second"
definition maxResolveDelay :: int where "maxResolveDelay = 3600 * second"
definition defaultMaxPendingPeers :: int where "defaultMaxPendingPeers = 200"

definition newDialScheduler :: "bytes \<Rightarrow> int \<Rightarrow> int \<Rightarrow> Netlist option \<Rightarrow> int \<Rightarrow> dialScheduler" where
  "newDialScheduler me maxPeers maxActive restrict now =
     \<lparr>self = me, maxDialPeers = maxPeers, maxActiveDials = (if maxActive = 0 then defaultMaxPendingPeers else maxActive),
      netRestrict = restrict, dialing = [], dpeers = [], dialPeers = 0, static = [], staticPool = [], history = [],
      historyTimer = None, historyTimerTime = 0, historyExp = [], lastStatsLog = now, doneSinceLastLog = 0,
      locks = (\<lambda>_. False), tasks = (\<lambda>_. newDialTask \<lparr>dn_ID = [], dn_IP = None, dn_TCP = 0\<rparr> 0 0), nextTask = 0,
      running = [], submitted = [], clock = now, pc = AtTop\<rparr>"

definition lock :: "lockName \<Rightarrow> dialScheduler \<Rightarrow> dialScheduler go" where
  "lock l d = (if locks d l then Blocked else Ret (d\<lparr>locks := (locks d)(l := True)\<rparr>))"

definition unlock :: "lockName \<Rightarrow> dialScheduler \<Rightarrow> dialScheduler" where
  "unlock l d = d\<lparr>locks := (locks d)(l := False)\<rparr>"

definition task_id :: "dialScheduler \<Rightarrow> nat \<Rightarrow> bytes" where
  "task_id d t = dn_ID (dest (tasks d t))"

definition set_poolIndex :: "nat \<Rightarrow> int \<Rightarrow> dialScheduler \<Rightarrow> dialScheduler" where
  "set_poolIndex t i d = d\<lparr>tasks := (tasks d)(t := (tasks d t)\<lparr>staticPoolIndex := i\<rparr>)\<rparr>"

subsection \<open>Checks and the static pool\<close>

definition dial_error :: "dialNode \<Rightarrow> dialScheduler \<Rightarrow> dialErr option" where
  "dial_error n d =
     (if dn_ID n = self d then Some errSelf
      else if dn_IP n \<noteq> None \<and> dn_TCP n = 0 then Some errNoPort
      else if gomap_has (dialing d) (dn_ID n) then Some errAlreadyDialing
      else if gomap_has (dpeers d) (dn_ID n) then Some errAlreadyConnected
      else if netRestrict d \<noteq> None \<and> \<not> Netlist_Contains (netRestrict d) (case dn_IP n of None \<Rightarrow> [] | Some ip \<Rightarrow> ip)
        then Some errNetRestrict
      else if exp_contains (history d) (dn_ID n) then Some errRecentlyDialed
      else None)"

definition checkDial :: "dialNode \<Rightarrow> dialScheduler \<Rightarrow> (dialErr option \<times> dialScheduler) go" where
  "checkDial n d =
     go_bind (lock peersRDLock d) (\<lambda>d. go_bind (lock dialingRDLock d) (\<lambda>d. go_bind (lock historyRDLock d) (\<lambda>d.
       Ret (dial_error n d, unlock peersRDLock (unlock dialingRDLock (unlock historyRDLock d))))))"

definition freeDialSlots :: "dialScheduler \<Rightarrow> (int \<times> dialScheduler) go" where
  "freeDialSlots d =
     go_bind (lock dialingRDLock d) (\<lambda>d.
       let slots = (maxDialPeers d - dialPeers d) * 2;
           slots = (if slots > maxActiveDials d then maxActiveDials d else slots)
       in Ret (slots - int (gomap_len (dialing d)), unlock dialingRDLock d))"

definition addToStaticPool :: "nat \<Rightarrow> dialScheduler \<Rightarrow> dialScheduler go" where
  "addToStaticPool t d =
     (if staticPoolIndex (tasks d t) \<ge> 0 then Panicked
      else
        let d = d\<lparr>staticPool := staticPool d @ [t]\<rparr>
        in Ret (set_poolIndex t (int (length (staticPool d)) - 1) d))"

text \<open>The last element of the pool moves to the free place.\<close>

definition removeFromStaticPool :: "int \<Rightarrow> dialScheduler \<Rightarrow> dialScheduler go" where
  "removeFromStaticPool idx d =
     (if idx < 0 \<or> int (length (staticPool d)) \<le> idx then Panicked
      else
        let i = nat idx; task = staticPool d ! i; e = length (staticPool d) - 1;
            moved = staticPool d ! e;
            d = set_poolIndex moved idx d;
            d = d\<lparr>staticPool := take e ((staticPool d)[i := moved])\<rparr>
        in Ret (set_poolIndex task (- 1) d))"

definition updateStaticPool :: "bytes \<Rightarrow> dialScheduler \<Rightarrow> dialScheduler go" where
  "updateStaticPool nid d =
     (case gomap_get (static d) nid of
        None \<Rightarrow> Ret d
      | Some t \<Rightarrow>
          if staticPoolIndex (tasks d t) < 0 then
            go_bind (checkDial (dest (tasks d t)) d) (\<lambda>(err, d).
              if err = None then addToStaticPool t d else Ret d)
          else Ret d)"

text \<open>\<^verbatim>\<open>startDial\<close> submits the task to the goroutine pool.\<close>

definition startDial :: "nat \<Rightarrow> dialScheduler \<Rightarrow> dialScheduler go" where
  "startDial t d =
     go_bind (lock dialingRDLock d) (\<lambda>d. go_bind (lock historyRDLock d) (\<lambda>d.
       let d = d\<lparr>history := exp_add (task_id d t) (clock d + dialHistoryExpiration) (history d),
                 dialing := gomap_set (task_id d t) t (dialing d),
                 running := t # running d,
                 submitted := (task_id d t, clock d) # submitted d\<rparr>
       in Ret (unlock dialingRDLock (unlock historyRDLock d))))"

text \<open>The loop of \<^verbatim>\<open>startStaticDials\<close>: at most \<open>n\<close> rounds, each with a value of the random source.\<close>

fun startStaticDials :: "nat \<Rightarrow> (nat \<Rightarrow> nat) \<Rightarrow> dialScheduler \<Rightarrow> (nat \<times> dialScheduler) go" where
  "startStaticDials 0 rnd d = Ret (0, d)"
| "startStaticDials (Suc n) rnd d =
     (if staticPool d = [] then Ret (0, d)
      else
        let idx = rnd n mod length (staticPool d); task = staticPool d ! idx
        in go_bind (startDial task d) (\<lambda>d. go_bind (removeFromStaticPool (int idx) d) (\<lambda>d.
             go_bind (startStaticDials n rnd d) (\<lambda>(started, d). Ret (Suc started, d)))))"

subsection \<open>The history and its timer\<close>

definition stopHistoryTimer :: "dialScheduler \<Rightarrow> dialScheduler go" where
  "stopHistoryTimer d =
     (case historyTimer d of
        Some Fired \<Rightarrow> (case historyExp d of [] \<Rightarrow> Blocked | _ # xs \<Rightarrow> Ret (d\<lparr>historyExp := xs\<rparr>))
      | _ \<Rightarrow> Ret d)"

definition rearmHistoryTimer :: "dialScheduler \<Rightarrow> dialScheduler go" where
  "rearmHistoryTimer d =
     go_bind (lock historyRDLock d) (\<lambda>d.
       case nextExpiry (history d) of
         None \<Rightarrow> Ret (unlock historyRDLock d)
       | Some e \<Rightarrow>
           if historyTimerTime d = e then Ret (unlock historyRDLock d)
           else go_bind (stopHistoryTimer d) (\<lambda>d.
             Ret (unlock historyRDLock (d\<lparr>historyTimerTime := e, historyTimer := Some (Pending e)\<rparr>))))"

text \<open>The callback runs with the mutex of the history held.\<close>

definition expireHistory :: "dialScheduler \<Rightarrow> dialScheduler go" where
  "expireHistory d =
     go_bind (lock historyRDLock d) (\<lambda>d.
       if historyTimer d = None then Panicked
       else
         let d = d\<lparr>historyTimer := None, historyTimerTime := 0\<rparr>
         in case exp_expire (clock d) (\<lambda>hkey h s. go_bind s (\<lambda>d. updateStaticPool hkey (d\<lparr>history := h\<rparr>))) (history d) (Ret d) of
              (h, s) \<Rightarrow> go_bind s (\<lambda>d. Ret (unlock historyRDLock (d\<lparr>history := h\<rparr>))))"

definition logStats :: "dialScheduler \<Rightarrow> dialScheduler go" where
  "logStats d =
     go_bind (lock peersRDLock d) (\<lambda>d.
       Ret (unlock peersRDLock
         (if lastStatsLog d + dialStatsLogInterval > clock d then d
          else d\<lparr>doneSinceLastLog := 0, lastStatsLog := clock d\<rparr>)))"

subsection \<open>Dial tasks\<close>

definition needResolve :: "dialTask \<Rightarrow> bool" where
  "needResolve t = (t_flags t AND staticDialedConn \<noteq> 0 \<and> dn_IP (dest t) = None)"

text \<open>
  \<^verbatim>\<open>dialTask.resolve\<close>, with the answer of the resolver: \<open>None\<close> when there is no resolver. The
  result says whether the node was found.
\<close>

definition task_resolve :: "int \<Rightarrow> dialNode option option \<Rightarrow> dialTask \<Rightarrow> bool \<times> dialTask" where
  "task_resolve now resolver t =
     (case resolver of
        None \<Rightarrow> (False, t)
      | Some answer \<Rightarrow>
          let t = (if resolveDelay t = 0 then t\<lparr>resolveDelay := initialResolveDelay\<rparr> else t)
          in if lastResolved t > 0 \<and> now - lastResolved t < resolveDelay t then (False, t)
             else
               let t = t\<lparr>lastResolved := now\<rparr>
               in case answer of
                    None \<Rightarrow>
                      let delay = resolveDelay t * 2
                      in (False, t\<lparr>resolveDelay := (if delay > maxResolveDelay then maxResolveDelay else delay)\<rparr>)
                  | Some resolved \<Rightarrow> (True, t\<lparr>resolveDelay := initialResolveDelay, dest := resolved\<rparr>))"

subsection \<open>The main loop\<close>

text \<open>
  One iteration is two steps: launching static dials and arming the timer, then one case of the
  select. \<open>AtSelect True\<close> is the select with \<^verbatim>\<open>nodesCh\<close> open.
\<close>

definition loop_top :: "(nat \<Rightarrow> nat) \<Rightarrow> dialScheduler \<Rightarrow> dialScheduler go" where
  "loop_top rnd d =
     go_bind (freeDialSlots d) (\<lambda>(slots, d).
       go_bind (startStaticDials (nat slots) rnd d) (\<lambda>(started, d).
         go_bind (rearmHistoryTimer d) (\<lambda>d. go_bind (logStats d) (\<lambda>d.
           Ret (d\<lparr>pc := AtSelect (slots - int started > 0)\<rparr>)))))"

definition alloc :: "dialTask \<Rightarrow> dialScheduler \<Rightarrow> nat \<times> dialScheduler" where
  "alloc t d = (nextTask d, d\<lparr>tasks := (tasks d)(nextTask d := t), nextTask := Suc (nextTask d)\<rparr>)"

definition on_node :: "dialNode \<Rightarrow> dialScheduler \<Rightarrow> dialScheduler go" where
  "on_node n d =
     go_bind (checkDial n d) (\<lambda>(err, d).
       if err \<noteq> None then Ret d
       else (case alloc (newDialTask n dynDialedConn 0) d of (t, d) \<Rightarrow> startDial t d))"

definition on_done :: "nat \<Rightarrow> dialScheduler \<Rightarrow> dialScheduler go" where
  "on_done t d =
     go_bind (lock dialingRDLock d) (\<lambda>d.
       let nid = task_id d t; d = unlock dialingRDLock (d\<lparr>dialing := gomap_del nid (dialing d)\<rparr>)
       in go_bind (updateStaticPool nid d) (\<lambda>d. Ret (d\<lparr>doneSinceLastLog := doneSinceLastLog d + 1\<rparr>)))"

definition on_addPeer :: "connFlag \<Rightarrow> bytes \<Rightarrow> dialScheduler \<Rightarrow> dialScheduler go" where
  "on_addPeer flags nid d =
     (let d = (if conn_is flags dynDialedConn \<or> conn_is flags staticDialedConn then d\<lparr>dialPeers := dialPeers d + 1\<rparr> else d)
      in go_bind (lock peersRDLock d) (\<lambda>d.
           let d = unlock peersRDLock (d\<lparr>dpeers := gomap_set nid () (dpeers d)\<rparr>)
           in case gomap_get (static d) nid of
                Some t \<Rightarrow>
                  if staticPoolIndex (tasks d t) \<ge> 0 then removeFromStaticPool (staticPoolIndex (tasks d t)) d else Ret d
              | None \<Rightarrow> Ret d))"

definition on_remPeer :: "connFlag \<Rightarrow> bytes \<Rightarrow> dialScheduler \<Rightarrow> dialScheduler go" where
  "on_remPeer flags nid d =
     (let d = (if conn_is flags dynDialedConn \<or> conn_is flags staticDialedConn then d\<lparr>dialPeers := dialPeers d - 1\<rparr> else d)
      in go_bind (lock peersRDLock d) (\<lambda>d.
           updateStaticPool nid (unlock peersRDLock (d\<lparr>dpeers := gomap_del nid (dpeers d)\<rparr>))))"

definition on_addStatic :: "dialNode \<Rightarrow> dialScheduler \<Rightarrow> dialScheduler go" where
  "on_addStatic n d =
     (if gomap_has (static d) (dn_ID n) then Ret d
      else
        (case alloc (newDialTask n staticDialedConn 0) d of
           (t, d) \<Rightarrow>
             go_bind (checkDial n (d\<lparr>static := gomap_set (dn_ID n) t (static d)\<rparr>)) (\<lambda>(err, d).
               if err = None then addToStaticPool t d else Ret d)))"

definition on_remStatic :: "dialNode \<Rightarrow> dialScheduler \<Rightarrow> dialScheduler go" where
  "on_remStatic n d =
     (case gomap_get (static d) (dn_ID n) of
        None \<Rightarrow> Ret d
      | Some t \<Rightarrow>
          let d = d\<lparr>static := gomap_del (dn_ID n) (static d)\<rparr>
          in if staticPoolIndex (tasks d t) \<ge> 0 then removeFromStaticPool (staticPoolIndex (tasks d t)) d else Ret d)"

datatype dialEvent =
    Top "nat \<Rightarrow> nat"
  | NodeIn dialNode
  | Done nat
  | AddPeer connFlag bytes
  | RemPeer connFlag bytes
  | AddStatic dialNode
  | RemStatic dialNode
  | HistoryExp
  | TimerFires
  | Resolve nat "dialNode option option"
  | Tick int

text \<open>
  What can happen next, and what it does: \<open>None\<close> if the event is not possible. The resolver answers
  for the identity it is asked for.
\<close>

definition at_select :: "dialScheduler \<Rightarrow> bool" where
  "at_select d = (pc d \<noteq> AtTop)"

definition enabled :: "dialEvent \<Rightarrow> dialScheduler \<Rightarrow> bool" where
  "enabled ev d =
     (case ev of
        Top rnd \<Rightarrow> pc d = AtTop
      | NodeIn n \<Rightarrow> pc d = AtSelect True
      | Done t \<Rightarrow> at_select d \<and> t \<in> set (running d)
      | AddPeer flags nid \<Rightarrow> at_select d
      | RemPeer flags nid \<Rightarrow> at_select d
      | AddStatic n \<Rightarrow> at_select d
      | RemStatic n \<Rightarrow> at_select d
      | HistoryExp \<Rightarrow> at_select d \<and> historyExp d \<noteq> []
      | TimerFires \<Rightarrow> (case historyTimer d of Some (Pending t) \<Rightarrow> t \<le> clock d | _ \<Rightarrow> False)
      | Resolve t r \<Rightarrow> t \<in> set (running d) \<and> needResolve (tasks d t) \<and> (case r of Some (Some n) \<Rightarrow> dn_ID n = task_id d t | _ \<Rightarrow> True)
      | Tick s \<Rightarrow> s \<ge> 0)"

definition handle :: "dialEvent \<Rightarrow> dialScheduler \<Rightarrow> dialScheduler go" where
  "handle ev d =
     (case ev of
        Top rnd \<Rightarrow> loop_top rnd d
      | NodeIn n \<Rightarrow> on_node n (d\<lparr>pc := AtTop\<rparr>)
      | Done t \<Rightarrow> on_done t (d\<lparr>pc := AtTop, running := remove1 t (running d)\<rparr>)
      | AddPeer flags nid \<Rightarrow> on_addPeer flags nid (d\<lparr>pc := AtTop\<rparr>)
      | RemPeer flags nid \<Rightarrow> on_remPeer flags nid (d\<lparr>pc := AtTop\<rparr>)
      | AddStatic n \<Rightarrow> on_addStatic n (d\<lparr>pc := AtTop\<rparr>)
      | RemStatic n \<Rightarrow> on_remStatic n (d\<lparr>pc := AtTop\<rparr>)
      | HistoryExp \<Rightarrow> expireHistory (d\<lparr>pc := AtTop, historyExp := tl (historyExp d)\<rparr>)
      | TimerFires \<Rightarrow> Ret (d\<lparr>historyTimer := Some Fired, historyExp := historyExp d @ [()]\<rparr>)
      | Resolve t r \<Rightarrow> Ret (d\<lparr>tasks := (tasks d)(t := snd (task_resolve (clock d) r (tasks d t)))\<rparr>)
      | Tick s \<Rightarrow> Ret (d\<lparr>clock := clock d + s\<rparr>))"

fun dial_run :: "dialEvent list \<Rightarrow> dialScheduler \<Rightarrow> dialScheduler go option" where
  "dial_run [] d = Some (Ret d)"
| "dial_run (ev # evs) d =
     (if \<not> enabled ev d then None
      else case handle ev d of
             Ret d \<Rightarrow> dial_run evs d
           | Blocked \<Rightarrow> (if evs = [] then Some Blocked else None)
           | Panicked \<Rightarrow> (if evs = [] then Some Panicked else None))"

text \<open>
  The end of the loop: the timer is stopped and every task in \<^verbatim>\<open>dialing\<close> is awaited. Which of the
  goroutines are received does not matter for what is left waiting.
\<close>

definition loop_exit :: "dialScheduler \<Rightarrow> dialScheduler go" where
  "loop_exit d =
     go_bind (stopHistoryTimer d) (\<lambda>d. go_bind (lock dialingRDLock d) (\<lambda>d.
       if length (running d) < gomap_len (dialing d) then Blocked
       else Ret (unlock dialingRDLock (d\<lparr>running := drop (gomap_len (dialing d)) (running d)\<rparr>))))"

subsection \<open>Dials started by the node manager\<close>

text \<open>\<^verbatim>\<open>Server.StartDialEnode\<close> and \<^verbatim>\<open>Server.DialingCount\<close> (\<^verbatim>\<open>p2p/server.go\<close>) run on other goroutines.\<close>

definition StartDialEnode :: "dialNode \<Rightarrow> int \<Rightarrow> dialScheduler \<Rightarrow> dialScheduler go" where
  "StartDialEnode n data d =
     go_bind (checkDial n d) (\<lambda>(checkErr, d).
       if checkErr = None then (case alloc (newDialTask n staticDialedConn data) d of (t, d) \<Rightarrow> startDial t d)
       else Ret d)"

definition DialingCount :: "dialScheduler \<Rightarrow> (nat \<times> dialScheduler) go" where
  "DialingCount d = go_bind (lock dialingRDLock d) (\<lambda>d. Ret (gomap_len (dialing d), unlock dialingRDLock d))"

subsection \<open>Locks\<close>

definition unlocked :: "dialScheduler \<Rightarrow> bool" where
  "unlocked d \<longleftrightarrow> locks d = (\<lambda>_. False)"

lemma locks_id [simp]: "unlocked d \<Longrightarrow> d\<lparr>locks := (\<lambda>_. False)\<rparr> = d"
  by (simp add: unlocked_def)

lemma dial_error_locks [simp]: "dial_error n (d\<lparr>locks := l\<rparr>) = dial_error n d"
  by (simp add: dial_error_def)

lemma checkDial_unlocked: "unlocked d \<Longrightarrow> checkDial n d = Ret (dial_error n d, d)"
  by (simp add: checkDial_def lock_def unlock_def unlocked_def fun_upd_def)

lemma checkDial_blocked: "locks d historyRDLock \<Longrightarrow> checkDial n d = Blocked"
  by (auto simp: checkDial_def lock_def)

lemma task_id_locks [simp]: "task_id (d\<lparr>locks := l\<rparr>) t = task_id d t"
  by (simp add: task_id_def)

definition launch :: "nat \<Rightarrow> dialScheduler \<Rightarrow> dialScheduler" where
  "launch t d = d\<lparr>history := exp_add (task_id d t) (clock d + dialHistoryExpiration) (history d),
     dialing := gomap_set (task_id d t) t (dialing d), running := t # running d, submitted := (task_id d t, clock d) # submitted d\<rparr>"

lemma startDial_unlocked: "unlocked d \<Longrightarrow> startDial t d = Ret (launch t d)"
  by (simp add: startDial_def lock_def unlock_def unlocked_def fun_upd_def launch_def Let_def)

lemma freeDialSlots_unlocked:
  "unlocked d \<Longrightarrow> freeDialSlots d = Ret (min ((maxDialPeers d - dialPeers d) * 2) (maxActiveDials d) - int (gomap_len (dialing d)), d)"
  by (simp add: freeDialSlots_def lock_def unlock_def unlocked_def fun_upd_def Let_def min_def)

lemma updateStaticPool_unlocked:
  "unlocked d \<Longrightarrow> updateStaticPool nid d =
     (case gomap_get (static d) nid of
        None \<Rightarrow> Ret d
      | Some t \<Rightarrow> if staticPoolIndex (tasks d t) < 0 \<and> dial_error (dest (tasks d t)) d = None then addToStaticPool t d else Ret d)"
  by (auto simp: updateStaticPool_def checkDial_unlocked split: option.splits)

lemma updateStaticPool_locked:
  "locks d historyRDLock \<Longrightarrow> updateStaticPool nid d =
     (case gomap_get (static d) nid of
        None \<Rightarrow> Ret d
      | Some t \<Rightarrow> if staticPoolIndex (tasks d t) < 0 then Blocked else Ret d)"
  by (auto simp: updateStaticPool_def checkDial_blocked split: option.splits)

subsection \<open>The static pool\<close>

definition pool_idx :: "dialScheduler \<Rightarrow> bool" where
  "pool_idx d \<longleftrightarrow> distinct (staticPool d) \<and>
     (\<forall>i < length (staticPool d). staticPoolIndex (tasks d (staticPool d ! i)) = int i) \<and>
     (\<forall>t. t \<notin> set (staticPool d) \<longrightarrow> staticPoolIndex (tasks d t) < 0)"

lemma pool_idx_iff: "pool_idx d \<Longrightarrow> staticPoolIndex (tasks d t) < 0 \<longleftrightarrow> t \<notin> set (staticPool d)"
  by (force simp: pool_idx_def in_set_conv_nth)

text \<open>What the operations on the pool leave alone.\<close>

definition same_but_pool :: "dialScheduler \<Rightarrow> dialScheduler \<Rightarrow> bool" where
  "same_but_pool d d' \<longleftrightarrow>
     d' = d\<lparr>staticPool := staticPool d', tasks := tasks d'\<rparr> \<and> (\<forall>t. (tasks d' t)\<lparr>staticPoolIndex := 0\<rparr> = (tasks d t)\<lparr>staticPoolIndex := 0\<rparr>)"

lemma same_but_pool_refl [simp]: "same_but_pool d d"
  by (simp add: same_but_pool_def)

lemma same_but_pool_dest: "same_but_pool d d' \<Longrightarrow> dest (tasks d' t) = dest (tasks d t)"
  unfolding same_but_pool_def by (metis dialTask.select_convs(3) dialTask.update_convs(1) dialTask.surjective)

lemma addToStaticPool_ok:
  assumes "pool_idx d" "t \<notin> set (staticPool d)"
  obtains d' where "addToStaticPool t d = Ret d'" "pool_idx d'" "same_but_pool d d'" "staticPool d' = staticPool d @ [t]"
proof -
  let ?d = "set_poolIndex t (int (length (staticPool d))) (d\<lparr>staticPool := staticPool d @ [t]\<rparr>)"
  have "addToStaticPool t d = Ret ?d"
    using pool_idx_iff [OF assms(1), of t] assms(2) by (simp add: addToStaticPool_def Let_def)
  moreover have "pool_idx ?d"
    using assms by (auto simp: pool_idx_def set_poolIndex_def nth_append less_Suc_eq)
  moreover have "same_but_pool d ?d" by (simp add: same_but_pool_def set_poolIndex_def)
  ultimately show thesis using that [of ?d] by (simp add: set_poolIndex_def)
qed

lemma removeFromStaticPool_ok:
  assumes "pool_idx d" "i < length (staticPool d)"
  obtains d' where "removeFromStaticPool (int i) d = Ret d'" "pool_idx d'" "same_but_pool d d'"
    "set (staticPool d') = set (staticPool d) - {staticPool d ! i}"
proof -
  let ?p = "staticPool d"
  let ?e = "length ?p - 1"
  let ?q = "take ?e (?p[i := ?p ! ?e])"
  let ?d = "set_poolIndex (?p ! i) (- 1) ((set_poolIndex (?p ! ?e) (int i) d)\<lparr>staticPool := ?q\<rparr>)"
  have p: "distinct ?p" "\<And>i. i < length ?p \<Longrightarrow> staticPoolIndex (tasks d (?p ! i)) = int i"
    "\<And>t. t \<notin> set ?p \<Longrightarrow> staticPoolIndex (tasks d t) < 0" using assms(1) by (auto simp: pool_idx_def)
  have e: "?e < length ?p" using assms(2) by simp
  have q: "?q ! j = (if j = i then ?p ! ?e else ?p ! j)" if "j < ?e" for j using that assms(2) by (simp add: nth_list_update)
  have dq: "distinct ?q"
    unfolding distinct_conv_nth using q p(1) e assms(2) by (auto simp: nth_eq_iff_index_eq)
  have sq: "set ?q = set ?p - {?p ! i}"
  proof (intro set_eqI iffI)
    fix x assume "x \<in> set ?q"
    then obtain j where "j < ?e" "x = ?q ! j" by (auto simp: in_set_conv_nth)
    with q [of j] p(1) e assms(2) show "x \<in> set ?p - {?p ! i}" by (auto simp: nth_eq_iff_index_eq)
  next
    fix x assume "x \<in> set ?p - {?p ! i}"
    then obtain j where j: "j < length ?p" "x = ?p ! j" "j \<noteq> i" by (auto simp: in_set_conv_nth)
    show "x \<in> set ?q"
    proof (cases "j = ?e")
      case True
      with j assms(2) have "i < ?e" by simp
      with q [of i] j True show ?thesis by (metis length_list_update length_take min.absorb4 e nth_mem)
    next
      case False
      with j have "j < ?e" by simp
      with q [of j] j show ?thesis by (metis length_list_update length_take min.absorb4 e nth_mem)
    qed
  qed
  have "removeFromStaticPool (int i) d = Ret ?d"
    using assms(2) by (simp add: removeFromStaticPool_def Let_def set_poolIndex_def)
  moreover have "pool_idx ?d"
    unfolding pool_idx_def
  proof (intro conjI allI impI)
    show "distinct (staticPool ?d)" using dq by (simp add: set_poolIndex_def)
    fix j assume "j < length (staticPool ?d)"
    then have j: "j < ?e" by (simp add: set_poolIndex_def)
    then have "?q ! j \<noteq> ?p ! i" using sq nth_mem [of j ?q] by auto
    moreover have "?p ! j \<noteq> ?p ! ?e" using j p(1) e by (simp add: nth_eq_iff_index_eq)
    ultimately show "staticPoolIndex (tasks ?d (staticPool ?d ! j)) = int j"
      using q [OF j] p(2) [of j] j by (auto simp: set_poolIndex_def)
  next
    fix t assume "t \<notin> set (staticPool ?d)"
    then have "t \<notin> set ?p \<or> t = ?p ! i" using sq by (auto simp: set_poolIndex_def)
    then show "staticPoolIndex (tasks ?d t) < 0"
      using p(3) [of t] e nth_mem [of ?e ?p] by (auto simp: set_poolIndex_def)
  qed
  moreover have "same_but_pool d ?d" by (simp add: same_but_pool_def set_poolIndex_def)
  moreover have "set (staticPool ?d) = set ?p - {?p ! i}" using sq by (simp add: set_poolIndex_def)
  ultimately show thesis by (rule that)
qed

subsection \<open>The invariant\<close>

definition static_inv :: "dialScheduler \<Rightarrow> bool" where
  "static_inv d \<longleftrightarrow> pool_idx d \<and>
     (\<forall>nid t. gomap_get (static d) nid = Some t \<longrightarrow> t < nextTask d \<and> nid = task_id d t) \<and>
     (\<forall>t \<in> set (staticPool d). gomap_get (static d) (task_id d t) = Some t \<and> dial_error (dest (tasks d t)) d = None)"

definition run_inv :: "dialScheduler \<Rightarrow> bool" where
  "run_inv d \<longleftrightarrow> gomap_ok (dialing d) \<and> distinct (running d) \<and> (\<forall>t \<in> set (running d). t < nextTask d) \<and>
     (\<forall>nid t. gomap_get (dialing d) nid = Some t \<longleftrightarrow> t \<in> set (running d) \<and> task_id d t = nid)"

definition hist_inv :: "dialScheduler \<Rightarrow> bool" where
  "hist_inv d \<longleftrightarrow> exp_inv (history d) \<and>
     (\<forall>(nid, t) \<in> set (submitted d). (nid, t + dialHistoryExpiration) \<in># exp_abs (history d) \<or> t + dialHistoryExpiration < clock d) \<and>
     sorted_wrt (\<lambda>(a, s) (b, t). a = b \<longrightarrow> t + dialHistoryExpiration < s) (submitted d)"

definition timer_inv :: "dialScheduler \<Rightarrow> bool" where
  "timer_inv d \<longleftrightarrow> historyExp d = (if historyTimer d = Some Fired then [()] else [])"

definition slot_inv :: "dialScheduler \<Rightarrow> bool" where
  "slot_inv d \<longleftrightarrow> int (gomap_len (dialing d)) \<le> max 0 (maxActiveDials d) \<and>
     (pc d = AtSelect True \<longrightarrow> staticPool d = [] \<and> int (gomap_len (dialing d)) < maxActiveDials d)"

definition dial_inv :: "dialScheduler \<Rightarrow> bool" where
  "dial_inv d \<longleftrightarrow> unlocked d \<and> static_inv d \<and> run_inv d \<and> hist_inv d \<and> timer_inv d \<and> slot_inv d"

lemma same_but_pool_fields:
  assumes "same_but_pool d d'"
  shows "static d' = static d" "nextTask d' = nextTask d" "dialing d' = dialing d" "dpeers d' = dpeers d" "history d' = history d"
    "running d' = running d" "submitted d' = submitted d" "clock d' = clock d" "historyTimer d' = historyTimer d"
    "historyExp d' = historyExp d" "maxActiveDials d' = maxActiveDials d" "pc d' = pc d" "locks d' = locks d" "self d' = self d"
    "netRestrict d' = netRestrict d" "maxDialPeers d' = maxDialPeers d" "dialPeers d' = dialPeers d"
proof -
  have e: "d' = d\<lparr>staticPool := staticPool d', tasks := tasks d'\<rparr>" using assms by (simp add: same_but_pool_def)
  show "static d' = static d" "nextTask d' = nextTask d" "dialing d' = dialing d" "dpeers d' = dpeers d" "history d' = history d"
    "running d' = running d" "submitted d' = submitted d" "clock d' = clock d" "historyTimer d' = historyTimer d"
    "historyExp d' = historyExp d" "maxActiveDials d' = maxActiveDials d" "pc d' = pc d" "locks d' = locks d" "self d' = self d"
    "netRestrict d' = netRestrict d" "maxDialPeers d' = maxDialPeers d" "dialPeers d' = dialPeers d"
    by (subst e; simp)+
qed

lemma same_but_pool_task_id: "same_but_pool d d' \<Longrightarrow> task_id d' t = task_id d t"
  by (simp add: task_id_def same_but_pool_dest)

lemma same_but_pool_error: "same_but_pool d d' \<Longrightarrow> dial_error n d' = dial_error n d"
  by (simp add: dial_error_def same_but_pool_fields)

lemmas same_but_pool = same_but_pool_fields same_but_pool_task_id same_but_pool_error same_but_pool_dest

lemma same_but_pool_inv:
  assumes "same_but_pool d d'"
  shows "run_inv d' \<longleftrightarrow> run_inv d" "hist_inv d' \<longleftrightarrow> hist_inv d" "timer_inv d' \<longleftrightarrow> timer_inv d" "unlocked d' \<longleftrightarrow> unlocked d"
  by (simp_all add: run_inv_def hist_inv_def timer_inv_def unlocked_def same_but_pool [OF assms])

lemma same_but_pool_slot: "same_but_pool d d' \<Longrightarrow> slot_inv d \<Longrightarrow> pc d = AtTop \<Longrightarrow> slot_inv d'"
  by (simp add: slot_inv_def same_but_pool)

lemma static_inv_pool:
  "static_inv d \<Longrightarrow> t \<in> set (staticPool d) \<Longrightarrow> gomap_get (static d) (task_id d t) = Some t \<and> dial_error (dest (tasks d t)) d = None"
  unfolding static_inv_def by blast

lemma static_inv_task: "static_inv d \<Longrightarrow> gomap_get (static d) nid = Some t \<Longrightarrow> t < nextTask d \<and> nid = task_id d t"
  unfolding static_inv_def by blast

lemma static_inv_idx: "static_inv d \<Longrightarrow> pool_idx d"
  unfolding static_inv_def by blast

lemma static_add:
  assumes "static_inv d" "gomap_get (static d) (task_id d t) = Some t" "dial_error (dest (tasks d t)) d = None" "t \<notin> set (staticPool d)"
  obtains d' where "addToStaticPool t d = Ret d'" "static_inv d'" "same_but_pool d d'"
proof -
  from assms(1) have "pool_idx d" by (simp add: static_inv_def)
  from this assms(4) obtain d' where d': "addToStaticPool t d = Ret d'" "pool_idx d'" "same_but_pool d d'" "staticPool d' = staticPool d @ [t]"
    by (rule addToStaticPool_ok)
  have "\<forall>u \<in> set (staticPool d'). gomap_get (static d) (task_id d u) = Some u \<and> dial_error (dest (tasks d u)) d = None"
  proof
    fix u assume "u \<in> set (staticPool d')"
    then have "u \<in> set (staticPool d) \<or> u = t" unfolding d'(4) by auto
    with static_inv_pool [OF assms(1), of u] assms(2,3)
    show "gomap_get (static d) (task_id d u) = Some u \<and> dial_error (dest (tasks d u)) d = None" by blast
  qed
  with assms(1) d'(2) have "static_inv d'" unfolding static_inv_def same_but_pool [OF d'(3)] by blast
  with d' that show thesis by blast
qed

lemma static_remove:
  assumes "pool_idx d" "i < length (staticPool d)"
    and "\<forall>nid t. gomap_get (static d) nid = Some t \<longrightarrow> t < nextTask d \<and> nid = task_id d t"
    and "\<forall>t \<in> set (staticPool d) - {staticPool d ! i}. gomap_get (static d) (task_id d t) = Some t \<and> dial_error (dest (tasks d t)) d = None"
  obtains d' where "removeFromStaticPool (int i) d = Ret d'" "static_inv d'" "same_but_pool d d'"
proof -
  from assms(1,2) obtain d' where d': "removeFromStaticPool (int i) d = Ret d'" "pool_idx d'" "same_but_pool d d'"
    "set (staticPool d') = set (staticPool d) - {staticPool d ! i}" by (rule removeFromStaticPool_ok)
  have "static_inv d'" using assms(3,4) d'(2) unfolding static_inv_def d'(4) same_but_pool [OF d'(3)] by blast
  with d' that show thesis by blast
qed

lemma update_inv:
  assumes "dial_inv d" "pc d = AtTop"
  obtains d' where "updateStaticPool nid d = Ret d'" "dial_inv d'" "same_but_pool d d'"
proof -
  from assms have u: "unlocked d" "static_inv d" by (simp_all add: dial_inv_def)
  show thesis
  proof (cases "\<exists>t. gomap_get (static d) nid = Some t \<and> staticPoolIndex (tasks d t) < 0 \<and> dial_error (dest (tasks d t)) d = None")
    case True
    then obtain t where t: "gomap_get (static d) nid = Some t" "staticPoolIndex (tasks d t) < 0" "dial_error (dest (tasks d t)) d = None" by blast
    with u(2) have n: "task_id d t = nid" "t \<notin> set (staticPool d)" using pool_idx_iff [of d t] by (auto simp: static_inv_def)
    from u(2) t(1,3) n obtain d' where "addToStaticPool t d = Ret d'" "static_inv d'" "same_but_pool d d'"
      by (auto elim: static_add [of d t])
    moreover from this have "dial_inv d'"
      using assms same_but_pool_inv [of d d'] same_but_pool_slot [of d d'] by (simp add: dial_inv_def)
    ultimately show thesis using that t by (simp add: updateStaticPool_unlocked [OF u(1)])
  next
    case False
    then have "updateStaticPool nid d = Ret d" by (auto simp: updateStaticPool_unlocked [OF u(1)] split: option.splits)
    with assms that show thesis by simp
  qed
qed

subsection \<open>Starting dials\<close>

text \<open>\<open>core\<close> is the invariant without the bounds.\<close>

definition core_inv :: "dialScheduler \<Rightarrow> bool" where
  "core_inv d \<longleftrightarrow> unlocked d \<and> static_inv d \<and> run_inv d \<and> hist_inv d \<and> timer_inv d"

lemma dial_inv_core: "dial_inv d \<longleftrightarrow> core_inv d \<and> slot_inv d"
  by (auto simp: dial_inv_def core_inv_def)

lemma launch_fields [simp]:
  "static (launch t d) = static d" "staticPool (launch t d) = staticPool d" "tasks (launch t d) = tasks d" "nextTask (launch t d) = nextTask d"
  "dpeers (launch t d) = dpeers d" "clock (launch t d) = clock d" "locks (launch t d) = locks d" "historyTimer (launch t d) = historyTimer d"
  "historyExp (launch t d) = historyExp d" "maxActiveDials (launch t d) = maxActiveDials d" "pc (launch t d) = pc d"
  "running (launch t d) = t # running d" "task_id (launch t d) u = task_id d u" "self (launch t d) = self d"
  "netRestrict (launch t d) = netRestrict d" "dialing (launch t d) = gomap_set (task_id d t) t (dialing d)"
  "submitted (launch t d) = (task_id d t, clock d) # submitted d" "maxDialPeers (launch t d) = maxDialPeers d" "dialPeers (launch t d) = dialPeers d"
  "history (launch t d) = exp_add (task_id d t) (clock d + dialHistoryExpiration) (history d)"
  by (simp_all add: launch_def task_id_def)

lemma exp_contains_add [simp]: "exp_contains (exp_add x t h) y \<longleftrightarrow> x = y \<or> exp_contains h y"
  by (auto simp: exp_contains_iff exp_abs_add)

lemma dial_error_launch: "dn_ID n \<noteq> task_id d t \<Longrightarrow> dial_error n (launch t d) = dial_error n d"
  by (auto simp: dial_error_def gomap_has_def)

lemma dial_errorD:
  assumes "dial_error n d = None"
  shows "gomap_get (dialing d) (dn_ID n) = None" "\<not> gomap_has (dpeers d) (dn_ID n)" "\<not> exp_contains (history d) (dn_ID n)" "dn_ID n \<noteq> self d"
  using assms unfolding gomap_has_def [of "dialing d"] dial_error_def by (auto split: if_splits simp: gomap_has_def [of "dialing d"])

lemma launch_run:
  assumes "run_inv d" "t < nextTask d" "gomap_get (dialing d) (task_id d t) = None"
  shows "run_inv (launch t d)"
proof -
  have r: "\<And>nid u. gomap_get (dialing d) nid = Some u \<longleftrightarrow> u \<in> set (running d) \<and> task_id d u = nid"
    using assms(1) unfolding run_inv_def by blast
  have "t \<notin> set (running d)" using r [of "task_id d t" t] assms(3) by simp
  moreover have "task_id d u \<noteq> task_id d t" if "u \<in> set (running d)" for u using r [of "task_id d t" u] assms(3) that by auto
  ultimately show ?thesis using assms(1,2) unfolding run_inv_def by (auto simp: r)
qed

lemma launch_len: "run_inv d \<Longrightarrow> gomap_get (dialing d) (task_id d t) = None \<Longrightarrow> gomap_len (dialing (launch t d)) = Suc (gomap_len (dialing d))"
  by (simp add: gomap_len_card run_inv_def gomap_keys_get)

lemma launch_hist:
  assumes "hist_inv d" "\<not> exp_contains (history d) (task_id d t)"
  shows "hist_inv (launch t d)"
proof -
  have "s + dialHistoryExpiration < clock d" if "(task_id d t, s) \<in> set (submitted d)" for s
    using assms that by (auto simp: hist_inv_def exp_contains_iff)
  with assms(1) show ?thesis by (auto simp: hist_inv_def exp_inv_add exp_abs_add)
qed

text \<open>One static dial: launched and taken out of the pool.\<close>

lemma static_dial:
  assumes "core_inv d" "i < length (staticPool d)"
  obtains d' where "startDial (staticPool d ! i) d = Ret (launch (staticPool d ! i) d)"
    "removeFromStaticPool (int i) (launch (staticPool d ! i) d) = Ret d'" "same_but_pool (launch (staticPool d ! i) d) d'"
    "core_inv d'" "gomap_len (dialing d') = Suc (gomap_len (dialing d))"
proof -
  let ?t = "staticPool d ! i"
  let ?l = "launch ?t d"
  have I: "unlocked d" "static_inv d" "run_inv d" "hist_inv d" "timer_inv d" using assms(1) by (simp_all add: core_inv_def)
  have t: "?t \<in> set (staticPool d)" using assms(2) by simp
  note p = static_inv_pool [OF I(2) t] and e = dial_errorD [OF conjunct2 [OF static_inv_pool [OF I(2) t]], folded task_id_def]
  from static_inv_task [OF I(2) conjunct1 [OF p]] have n: "?t < nextTask d" by simp
  have idx: "pool_idx ?l" using static_inv_idx [OF I(2)] by (simp add: pool_idx_def)
  have others: "\<forall>u \<in> set (staticPool ?l) - {staticPool ?l ! i}.
      gomap_get (static ?l) (task_id ?l u) = Some u \<and> dial_error (dest (tasks ?l u)) ?l = None"
  proof
    fix u assume "u \<in> set (staticPool ?l) - {staticPool ?l ! i}"
    then have u: "u \<in> set (staticPool d)" "u \<noteq> ?t" by simp_all
    with static_inv_pool [OF I(2) u(1)] p have "task_id d u \<noteq> task_id d ?t" by (metis option.inject)
    with static_inv_pool [OF I(2) u(1)] show "gomap_get (static ?l) (task_id ?l u) = Some u \<and> dial_error (dest (tasks ?l u)) ?l = None"
      using dial_error_launch [of "dest (tasks d u)" d ?t] by (simp add: task_id_def)
  qed
  have st: "\<forall>nid t. gomap_get (static ?l) nid = Some t \<longrightarrow> t < nextTask ?l \<and> nid = task_id ?l t"
    using static_inv_task [OF I(2)] by auto
  have "i < length (staticPool ?l)" using assms(2) by simp
  from idx this st others obtain d' where
    d': "removeFromStaticPool (int i) ?l = Ret d'" "static_inv d'" "same_but_pool ?l d'" by (rule static_remove)
  have "run_inv ?l" "hist_inv ?l" "timer_inv ?l" "unlocked ?l"
    using launch_run [OF I(3) n e(1)] launch_hist [OF I(4) e(3)] I(1,5) by (simp_all add: timer_inv_def unlocked_def)
  with that [OF startDial_unlocked [OF I(1)] d'(1,3)] d'(2) same_but_pool_inv [OF d'(3)] launch_len [OF I(3) e(1)] same_but_pool(3) [OF d'(3)]
  show thesis by (simp add: core_inv_def)
qed

text \<open>A static node stays one; a node in the history stays there and is not dialled.\<close>

definition keeps :: "bytes \<Rightarrow> dialScheduler \<Rightarrow> dialScheduler \<Rightarrow> bool" where
  "keeps nid d d' \<longleftrightarrow> (gomap_has (static d) nid \<longrightarrow> gomap_has (static d') nid) \<and> (exp_contains (history d) nid \<longrightarrow>
     exp_contains (history d') nid \<and> filter (\<lambda>e. fst e = nid) (submitted d') = filter (\<lambda>e. fst e = nid) (submitted d))"

lemma keeps_trans: "keeps nid d d1 \<Longrightarrow> keeps nid d1 d2 \<Longrightarrow> keeps nid d d2"
  by (simp add: keeps_def)

lemma keeps_same: "static d' = static d \<Longrightarrow> history d' = history d \<Longrightarrow> submitted d' = submitted d \<Longrightarrow> keeps nid d d'"
  by (simp add: keeps_def)

lemma keeps_launch: "\<not> exp_contains (history d) (task_id d t) \<Longrightarrow> keeps nid d (launch t d)"
  by (auto simp: keeps_def)

lemma startStaticDials_ok:
  assumes "core_inv d"
  obtains k d' where "startStaticDials n rnd d = Ret (k, d')" "core_inv d'" "k \<le> n" "gomap_len (dialing d') = gomap_len (dialing d) + k"
    "k < n \<Longrightarrow> staticPool d' = []" "maxActiveDials d' = maxActiveDials d" "static d' = static d" "\<And>nid. keeps nid d d'"
  using assms
proof (induction n arbitrary: d thesis)
  case 0
  from 0(1) [of 0 d] 0(2) show ?case by (simp add: keeps_def)
next
  case (Suc n)
  show ?case
  proof (cases "staticPool d = []")
    case True
    with Suc.prems show ?thesis by (auto simp: keeps_def)
  next
    case False
    let ?i = "rnd n mod length (staticPool d)"
    let ?t = "staticPool d ! ?i"
    have i: "?i < length (staticPool d)" using False by simp
    from Suc.prems(2) i obtain d1 where d1: "startDial ?t d = Ret (launch ?t d)" "removeFromStaticPool (int ?i) (launch ?t d) = Ret d1"
      "same_but_pool (launch ?t d) d1" "core_inv d1" "gomap_len (dialing d1) = Suc (gomap_len (dialing d))" by (rule static_dial)
    have "\<not> exp_contains (history d) (task_id d ?t)"
      using static_inv_pool [of d ?t] dial_errorD(3) [of "dest (tasks d ?t)" d] Suc.prems(2) i by (simp add: core_inv_def task_id_def)
    then have k1: "keeps nid d d1" for nid
      using keeps_trans [OF keeps_launch [of d ?t nid] keeps_same [of d1 "launch ?t d" nid]] same_but_pool(1,5,7) [OF d1(3)] by simp
    obtain k d' where d': "startStaticDials n rnd d1 = Ret (k, d')" "core_inv d'" "k \<le> n" "gomap_len (dialing d') = gomap_len (dialing d1) + k"
      "k < n \<Longrightarrow> staticPool d' = []" "maxActiveDials d' = maxActiveDials d1" "static d' = static d1" "\<And>nid. keeps nid d1 d'"
      using Suc.IH [OF _ d1(4)] by blast
    have "startStaticDials (Suc n) rnd d = Ret (Suc k, d')"
      using False d1(1,2) d'(1) by (simp add: Let_def)
    from this d'(2) show ?thesis
      by (rule Suc.prems(1)) (use d'(3-7) d1(5) same_but_pool(1,11) [OF d1(3)] keeps_trans [OF k1 d'(8)] in auto)
  qed
qed

lemma dial_error_frame:
  "self d' = self d \<Longrightarrow> dialing d' = dialing d \<Longrightarrow> dpeers d' = dpeers d \<Longrightarrow> netRestrict d' = netRestrict d \<Longrightarrow> history d' = history d \<Longrightarrow>
   dial_error n d' = dial_error n d"
  by (simp add: dial_error_def)

lemma static_frame:
  assumes "static d' = static d" "staticPool d' = staticPool d" "tasks d' = tasks d" "nextTask d' = nextTask d"
    and "\<And>t. t \<in> set (staticPool d) \<Longrightarrow> dial_error (dest (tasks d t)) d = None \<Longrightarrow> dial_error (dest (tasks d t)) d' = None"
  shows "static_inv d \<Longrightarrow> static_inv d'"
  using assms(5) unfolding static_inv_def pool_idx_def task_id_def assms(1-4) by blast

lemma core_frame:
  assumes "core_inv d" "static d' = static d" "staticPool d' = staticPool d" "tasks d' = tasks d" "nextTask d' = nextTask d"
    "self d' = self d" "dialing d' = dialing d" "dpeers d' = dpeers d" "netRestrict d' = netRestrict d" "history d' = history d"
    "running d' = running d" "submitted d' = submitted d" "clock d \<le> clock d'" "locks d' = locks d" "timer_inv d'"
  shows "core_inv d'"
proof -
  have "static_inv d'" by (rule static_frame [of d' d]) (use assms dial_error_frame [of d' d] in \<open>simp_all add: core_inv_def\<close>)
  moreover have "hist_inv d'" using assms(1,13) unfolding core_inv_def hist_inv_def assms(10,12) by fastforce
  ultimately show ?thesis
    using assms(1,15) unfolding core_inv_def run_inv_def unlocked_def task_id_def assms(4,5,7,11,14) by blast
qed

lemma rearm_ok:
  assumes "core_inv d"
  obtains d' where "rearmHistoryTimer d = Ret d'" "core_inv d'" "d' = d\<lparr>historyTimer := historyTimer d', historyTimerTime := historyTimerTime d', historyExp := historyExp d'\<rparr>"
proof -
  have u: "locks d = (\<lambda>_. False)" and t: "timer_inv d" using assms by (simp_all add: core_inv_def unlocked_def)
  have core: "core_inv (d\<lparr>historyTimer := Some (Pending e), historyTimerTime := e, historyExp := []\<rparr>)" for e
    by (rule core_frame [OF assms]) (simp_all add: timer_inv_def)
  show thesis
  proof (cases "nextExpiry (history d) = None \<or> nextExpiry (history d) = Some (historyTimerTime d)")
    case True
    then have "rearmHistoryTimer d = Ret d"
      using u assms by (auto simp: rearmHistoryTimer_def lock_def unlock_def fun_upd_def core_inv_def split: option.splits)
    from that [OF this assms] show thesis by simp
  next
    case False
    then obtain e where e: "nextExpiry (history d) = Some e" "historyTimerTime d \<noteq> e" by auto
    let ?d = "d\<lparr>historyTimer := Some (Pending e), historyTimerTime := e, historyExp := []\<rparr>"
    have l: "(\<lambda>a. if a = historyRDLock then False else a = historyRDLock) = (\<lambda>_. False)" by auto
    have "rearmHistoryTimer d = Ret ?d"
      using e u t assms locks_id [of "d\<lparr>historyTimer := Some (Pending e), historyTimerTime := e, historyExp := []\<rparr>"]
      by (auto simp: rearmHistoryTimer_def lock_def unlock_def stopHistoryTimer_def timer_inv_def fun_upd_def unlocked_def l
          split: option.splits timer.splits)
    from this core show thesis by (rule that) simp
  qed
qed

subsection \<open>Every step\<close>

text \<open>The outcome of a handler that neither blocks nor panics; \<open>X\<close> are the nodes it may forget.\<close>

definition good_step :: "bytes set \<Rightarrow> dialScheduler \<Rightarrow> dialScheduler go \<Rightarrow> bool" where
  "good_step X d r \<longleftrightarrow> (\<exists>d'. r = Ret d' \<and> dial_inv d' \<and> (\<forall>nid. nid \<notin> X \<longrightarrow> keeps nid d d'))"

lemma good_stepI: "r = Ret d' \<Longrightarrow> dial_inv d' \<Longrightarrow> (\<And>nid. nid \<notin> X \<Longrightarrow> keeps nid d d') \<Longrightarrow> good_step X d r"
  by (auto simp: good_step_def)

lemma logStats_unlocked:
  "unlocked d \<Longrightarrow> logStats d = Ret (if lastStatsLog d + dialStatsLogInterval > clock d then d else d\<lparr>doneSinceLastLog := 0, lastStatsLog := clock d\<rparr>)"
  using locks_id [of "d\<lparr>doneSinceLastLog := 0, lastStatsLog := clock d\<rparr>"]
  by (auto simp: logStats_def lock_def unlock_def unlocked_def fun_upd_def)

lemma logStats_ok:
  assumes "unlocked d"
  shows "\<exists>l n. logStats d = Ret (d\<lparr>doneSinceLastLog := n, lastStatsLog := l\<rparr>)"
proof (cases "lastStatsLog d + dialStatsLogInterval > clock d")
  case True
  then have "logStats d = Ret (d\<lparr>doneSinceLastLog := doneSinceLastLog d, lastStatsLog := lastStatsLog d\<rparr>)"
    using logStats_unlocked [OF assms] by simp
  then show ?thesis by blast
next
  case False
  then show ?thesis using logStats_unlocked [OF assms] by auto
qed

lemma loop_top_ok:
  assumes "dial_inv d"
  shows "good_step {} d (loop_top rnd d)"
proof -
  have c: "core_inv d" and sl: "slot_inv d" using assms by (simp_all add: dial_inv_core)
  let ?m = "min ((maxDialPeers d - dialPeers d) * 2) (maxActiveDials d)"
  let ?s = "?m - int (gomap_len (dialing d))"
  obtain k d1 where d1: "startStaticDials (nat ?s) rnd d = Ret (k, d1)" "core_inv d1" "k \<le> nat ?s"
    "gomap_len (dialing d1) = gomap_len (dialing d) + k" "k < nat ?s \<Longrightarrow> staticPool d1 = []" "maxActiveDials d1 = maxActiveDials d"
    "static d1 = static d" "\<And>nid. keeps nid d d1"
    using startStaticDials_ok [OF c, of "nat ?s" rnd] by blast
  obtain d2 where d2: "rearmHistoryTimer d1 = Ret d2" "core_inv d2"
    "d2 = d1\<lparr>historyTimer := historyTimer d2, historyTimerTime := historyTimerTime d2, historyExp := historyExp d2\<rparr>"
    using rearm_ok [OF d1(2)] by blast
  obtain l n where d3: "logStats d2 = Ret (d2\<lparr>doneSinceLastLog := n, lastStatsLog := l\<rparr>)"
    using logStats_ok [of d2] d2(2) unfolding core_inv_def by blast
  let ?d = "d2\<lparr>doneSinceLastLog := n, lastStatsLog := l, pc := AtSelect (?s - int k > 0)\<rparr>"
  have fields: "dialing d2 = dialing d1" "staticPool d2 = staticPool d1" "maxActiveDials d2 = maxActiveDials d1" "history d2 = history d1"
    "submitted d2 = submitted d1" "static d2 = static d1" by (subst d2(3), simp)+
  show ?thesis
  proof (rule good_stepI)
    show "loop_top rnd d = Ret ?d"
      using c d1(1) d2(1) d3 by (simp add: loop_top_def freeDialSlots_unlocked core_inv_def)
    have "core_inv ?d" by (rule core_frame [OF d2(2)]) (use d2(2) in \<open>simp_all add: core_inv_def timer_inv_def\<close>)
    moreover have "slot_inv ?d"
      unfolding slot_inv_def using sl d1(3-6) by (auto simp: fields slot_inv_def)
    ultimately show "dial_inv ?d" by (simp add: dial_inv_core)
    show "keeps nid d ?d" for nid
      by (rule keeps_trans [OF d1(8)]) (simp add: keeps_def fields)
  qed
qed

lemma fresh_task: "static_inv d \<Longrightarrow> nextTask d \<notin> set (staticPool d)"
  using static_inv_pool static_inv_task by blast

lemma alloc_core:
  assumes "core_inv d" "staticPoolIndex t < 0"
  shows "core_inv (snd (alloc t d))"
proof -
  let ?d = "snd (alloc t d)"
  let ?n = "nextTask d"
  have d: "?d = d\<lparr>tasks := (tasks d)(?n := t), nextTask := Suc ?n\<rparr>" by (simp add: alloc_def)
  have I: "unlocked d" "static_inv d" "run_inv d" "hist_inv d" "timer_inv d" using assms(1) by (simp_all add: core_inv_def)
  note fresh = fresh_task [OF I(2)]
  have e: "dial_error m ?d = dial_error m d" for m unfolding d by (simp add: dial_error_def)
  have id: "u \<noteq> ?n \<Longrightarrow> task_id ?d u = task_id d u" for u unfolding d by (simp add: task_id_def)
  have r: "u \<in> set (running d) \<Longrightarrow> u \<noteq> ?n" for u using I(3) unfolding run_inv_def by blast
  have "pool_idx ?d" using static_inv_idx [OF I(2)] fresh assms(2) unfolding d pool_idx_def by (auto simp: in_set_conv_nth)
  moreover have "u < nextTask ?d \<and> nid = task_id ?d u" if "gomap_get (static ?d) nid = Some u" for nid u
    using static_inv_task [OF I(2), of nid u] that id [of u] unfolding d by auto
  moreover have "gomap_get (static ?d) (task_id ?d u) = Some u \<and> dial_error (dest (tasks ?d u)) ?d = None" if "u \<in> set (staticPool ?d)" for u
  proof -
    have "u \<in> set (staticPool d)" "u \<noteq> ?n" using that fresh unfolding d by auto
    with static_inv_pool [OF I(2)] id [of u] e show ?thesis unfolding d by simp
  qed
  ultimately have "static_inv ?d" unfolding static_inv_def by blast
  moreover have "run_inv ?d"
  proof -
    have "t \<in> set (running d) \<and> task_id ?d t = nid \<longleftrightarrow> t \<in> set (running d) \<and> task_id d t = nid" for t nid using r id by auto
    with I(3) show ?thesis unfolding run_inv_def d by (auto simp: less_Suc_eq)
  qed
  moreover have "hist_inv ?d" "timer_inv ?d" "unlocked ?d" using I(1,4,5) unfolding d hist_inv_def timer_inv_def unlocked_def by simp_all
  ultimately show ?thesis by (simp add: core_inv_def)
qed

lemma slot_inv_top: "slot_inv d \<Longrightarrow> pc d' = AtTop \<Longrightarrow> gomap_len (dialing d') \<le> gomap_len (dialing d) \<Longrightarrow> maxActiveDials d' = maxActiveDials d \<Longrightarrow> slot_inv d'"
  by (auto simp: slot_inv_def)

lemma on_node_ok:
  assumes "core_inv d" "staticPool d = []" "int (gomap_len (dialing d)) < maxActiveDials d" "pc d = AtTop"
  shows "good_step {} d (on_node n d)"
proof (cases "dial_error n d = None")
  case True
  let ?d = "snd (alloc (newDialTask n dynDialedConn 0) d)"
  let ?t = "nextTask d"
  have c: "core_inv ?d" using assms(1) by (rule alloc_core) (simp add: newDialTask_def)
  have f: "task_id ?d ?t = dn_ID n" "history ?d = history d" "dialing ?d = dialing d" "staticPool ?d = []" "?t < nextTask ?d"
    "maxActiveDials ?d = maxActiveDials d" "pc ?d = AtTop" "submitted ?d = submitted d" "static ?d = static d"
    using assms(2,4) by (simp_all add: alloc_def newDialTask_def task_id_def)
  note e = dial_errorD [OF True]
  have g: "gomap_get (dialing ?d) (task_id ?d ?t) = None" "\<not> exp_contains (history ?d) (task_id ?d ?t)" using e f by simp_all
  have "static_inv (launch ?t ?d)" by (rule static_frame [of _ ?d]) (use c f(4) in \<open>simp_all add: core_inv_def\<close>)
  with launch_run [OF _ f(5) g(1)] launch_hist [OF _ g(2)] c have core: "core_inv (launch ?t ?d)"
    by (simp add: core_inv_def timer_inv_def unlocked_def)
  show ?thesis
  proof (rule good_stepI)
    have "on_node n d = startDial ?t ?d" using assms(1) True by (simp add: on_node_def checkDial_unlocked core_inv_def alloc_def)
    also have "\<dots> = Ret (launch ?t ?d)" by (rule startDial_unlocked) (use c in \<open>simp add: core_inv_def\<close>)
    finally show "on_node n d = Ret (launch ?t ?d)" .
    have "slot_inv (launch ?t ?d)"
      using launch_len [OF _ g(1)] c assms(3) f by (simp add: slot_inv_def core_inv_def)
    with core show "dial_inv (launch ?t ?d)" by (simp add: dial_inv_core)
    show "keeps nid d (launch ?t ?d)" for nid
      using keeps_trans [OF keeps_same keeps_launch [OF g(2)]] f(2,8,9) by blast
  qed
next
  case False
  with assms have "on_node n d = Ret d" by (simp add: on_node_def checkDial_unlocked core_inv_def)
  then show ?thesis by (rule good_stepI) (use assms in \<open>simp_all add: dial_inv_core slot_inv_def keeps_def\<close>)
qed

text \<open>Everything the pool needs can only get better when entries leave the maps of the checks.\<close>

lemma dial_error_less:
  assumes "dial_error n d = None" "self d' = self d" "netRestrict d' = netRestrict d"
    "\<And>x. gomap_has (dialing d') x \<Longrightarrow> gomap_has (dialing d) x" "\<And>x. gomap_has (dpeers d') x \<Longrightarrow> gomap_has (dpeers d) x"
    "\<And>x. exp_contains (history d') x \<Longrightarrow> exp_contains (history d) x"
  shows "dial_error n d' = None"
  using assms by (cases "dn_IP n") (auto simp: dial_error_def split: if_splits)

lemma good_update:
  assumes "dial_inv d1" "pc d1 = AtTop" "\<And>nid. keeps nid d d1"
  shows "good_step {} d (updateStaticPool nid d1)"
proof -
  from assms(1,2) obtain d' where d': "updateStaticPool nid d1 = Ret d'" "dial_inv d'" "same_but_pool d1 d'" by (rule update_inv)
  then show ?thesis
    using assms(3) keeps_trans keeps_same same_but_pool(1,5,7) [OF d'(3)] by (intro good_stepI) blast+
qed

lemma on_done_ok:
  assumes "core_inv d" "slot_inv d" "t \<in> set (running d)" "pc d = AtTop"
  shows "good_step {} d (on_done t (d\<lparr>running := remove1 t (running d)\<rparr>))"
proof -
  let ?d = "d\<lparr>running := remove1 t (running d), dialing := gomap_del (task_id d t) (dialing d)\<rparr>"
  have I: "unlocked d" "static_inv d" "run_inv d" "hist_inv d" "timer_inv d" using assms(1) by (simp_all add: core_inv_def)
  have r: "\<And>nid u. gomap_get (dialing d) nid = Some u \<longleftrightarrow> u \<in> set (running d) \<and> task_id d u = nid" "gomap_ok (dialing d)" "distinct (running d)"
    "\<forall>u \<in> set (running d). u < nextTask d"
    using I(3) unfolding run_inv_def by blast+
  have one: "task_id d u \<noteq> task_id d t" if "u \<in> set (running d)" "u \<noteq> t" for u
    using r(1) [of "task_id d t" u] r(1) [of "task_id d t" t] that assms(3) by auto
  have id: "task_id ?d u = task_id d u" for u by (simp add: task_id_def)
  have sr: "set (remove1 t (running d)) = set (running d) - {t}" using r(3) by (rule set_remove1_eq)
  have "run_inv ?d"
    unfolding run_inv_def id using r one by (auto simp: sr split: if_splits)
  moreover have "static_inv ?d"
    by (rule static_frame [of _ d]) (use I(2) in \<open>auto intro!: dial_error_less [where d = d] simp: gomap_has_def split: if_splits\<close>)
  moreover have "hist_inv ?d" "timer_inv ?d" "unlocked ?d" using I by (simp_all add: hist_inv_def timer_inv_def unlocked_def)
  ultimately have c: "core_inv ?d" by (simp add: core_inv_def)
  have "gomap_len (dialing ?d) \<le> gomap_len (dialing d)"
    using r(2) by (simp add: gomap_len_card card_mono)
  with c assms(2,4) have "dial_inv ?d" using slot_inv_top [of d ?d] by (simp add: dial_inv_core)
  then have "good_step {} d (updateStaticPool (task_id d t) ?d)" by (rule good_update) (use assms(4) in \<open>simp_all add: keeps_def\<close>)
  then obtain d' where d': "updateStaticPool (task_id d t) ?d = Ret d'" "dial_inv d'" "\<forall>nid. keeps nid d d'" by (auto simp: good_step_def)
  have "on_done t (d\<lparr>running := remove1 t (running d)\<rparr>) = Ret (d'\<lparr>doneSinceLastLog := doneSinceLastLog d' + 1\<rparr>)"
    using I(1) d'(1) locks_id [of ?d] by (simp add: on_done_def lock_def unlock_def unlocked_def Let_def task_id_def fun_upd_def)
  moreover have "dial_inv (d'\<lparr>doneSinceLastLog := doneSinceLastLog d' + 1\<rparr>)"
    using d'(2) core_frame [of d' "d'\<lparr>doneSinceLastLog := doneSinceLastLog d' + 1\<rparr>"]
    by (simp add: dial_inv_core core_inv_def timer_inv_def slot_inv_def)
  ultimately show ?thesis by (rule good_stepI) (use d'(3) in \<open>simp add: keeps_def\<close>)
qed

lemma pool_at:
  assumes "pool_idx d" "\<not> staticPoolIndex (tasks d t) < 0"
  obtains i where "i < length (staticPool d)" "staticPool d ! i = t" "staticPoolIndex (tasks d t) = int i"
proof -
  from assms have "t \<in> set (staticPool d)" by (simp add: pool_idx_iff)
  with assms(1) that show thesis unfolding pool_idx_def in_set_conv_nth by blast
qed

text \<open>
  Taking a task out of the pool, if it is there, when the checks hold for all others.
\<close>

lemma good_remove:
  assumes "core_inv d" "slot_inv d" "pc d1 = AtTop" "maxActiveDials d1 = maxActiveDials d"
    and same: "tasks d1 = tasks d" "nextTask d1 = nextTask d" "staticPool d1 = staticPool d" "dialing d1 = dialing d" "running d1 = running d"
      "history d1 = history d" "submitted d1 = submitted d" "clock d1 = clock d" "locks d1 = locks d"
      "historyTimer d1 = historyTimer d" "historyExp d1 = historyExp d"
    and st: "\<And>nid u. gomap_get (static d1) nid = Some u \<Longrightarrow> u < nextTask d \<and> nid = task_id d u"
    and keep: "\<And>nid. nid \<notin> X \<Longrightarrow> gomap_has (static d) nid \<Longrightarrow> gomap_has (static d1) nid"
    and others: "\<And>u. u \<in> set (staticPool d) \<Longrightarrow> u \<noteq> t \<Longrightarrow> gomap_get (static d1) (task_id d u) = Some u \<and> dial_error (dest (tasks d u)) d1 = None"
  shows "good_step X d (if staticPoolIndex (tasks d1 t) \<ge> 0 then removeFromStaticPool (staticPoolIndex (tasks d1 t)) d1 else Ret d1)"
proof -
  have I: "unlocked d" "static_inv d" "run_inv d" "hist_inv d" "timer_inv d" using assms(1) by (simp_all add: core_inv_def)
  have id: "task_id d1 u = task_id d u" for u by (simp add: task_id_def same)
  have idx: "pool_idx d1" using static_inv_idx [OF I(2)] by (simp add: pool_idx_def same)
  have rest: "run_inv d1" "hist_inv d1" "timer_inv d1" "unlocked d1"
    using I unfolding run_inv_def hist_inv_def timer_inv_def unlocked_def id same by blast+
  have slot: "slot_inv d1" using assms(2,3,4) by (simp add: slot_inv_def same)
  have keep: "keeps nid d d1" if "nid \<notin> X" for nid using keep [OF that] by (simp add: keeps_def same)
  have st1: "\<forall>nid u. gomap_get (static d1) nid = Some u \<longrightarrow> u < nextTask d1 \<and> nid = task_id d1 u" using st unfolding same id by blast
  show ?thesis
  proof (cases "staticPoolIndex (tasks d1 t) \<ge> 0")
    case True
    then have "\<not> staticPoolIndex (tasks d1 t) < 0" by simp
    with idx obtain i where i: "i < length (staticPool d1)" "staticPool d1 ! i = t" "staticPoolIndex (tasks d1 t) = int i" by (rule pool_at)
    have "\<forall>u \<in> set (staticPool d1) - {staticPool d1 ! i}. gomap_get (static d1) (task_id d1 u) = Some u \<and> dial_error (dest (tasks d1 u)) d1 = None"
    proof
      fix u assume "u \<in> set (staticPool d1) - {staticPool d1 ! i}"
      then have "u \<in> set (staticPool d)" "u \<noteq> t" using i(2) same(3) by auto
      from others [OF this] show "gomap_get (static d1) (task_id d1 u) = Some u \<and> dial_error (dest (tasks d1 u)) d1 = None"
        unfolding id same(1) .
    qed
    from idx i(1) st1 this obtain d' where d': "removeFromStaticPool (int i) d1 = Ret d'" "static_inv d'" "same_but_pool d1 d'"
      by (rule static_remove)
    have "dial_inv d'"
      using rest d'(2) same_but_pool_inv [OF d'(3)] same_but_pool_slot [OF d'(3) slot assms(3)] by (simp add: dial_inv_def)
    moreover have "keeps nid d d'" if "nid \<notin> X" for nid
      by (rule keeps_trans [OF keep [OF that] keeps_same]) (simp_all add: same_but_pool(1,5,7) [OF d'(3)])
    ultimately show ?thesis using True i(3) d'(1) by (intro good_stepI [of _ d']) simp_all
  next
    case False
    then have "t \<notin> set (staticPool d)" using pool_idx_iff [OF idx, of t] by (simp add: same)
    with others have "\<forall>u \<in> set (staticPool d1). gomap_get (static d1) (task_id d1 u) = Some u \<and> dial_error (dest (tasks d1 u)) d1 = None"
      unfolding same id by metis
    with idx st1 have "static_inv d1" unfolding static_inv_def by blast
    with rest slot keep False show ?thesis by (intro good_stepI [of _ d1]) (simp_all add: dial_inv_def)
  qed
qed

lemma dial_error_peer:
  assumes "dn_ID n \<noteq> nid" "dpeers d' = gomap_set nid () (dpeers d)" "self d' = self d" "dialing d' = dialing d"
    "netRestrict d' = netRestrict d" "history d' = history d"
  shows "dial_error n d' = dial_error n d"
  using assms by (simp add: dial_error_def gomap_has_def)

lemma on_addPeer_ok:
  assumes "core_inv d" "slot_inv d" "pc d = AtTop"
  shows "good_step {} d (on_addPeer flags nid d)"
proof -
  let ?c = "if conn_is flags dynDialedConn \<or> conn_is flags staticDialedConn then dialPeers d + 1 else dialPeers d"
  let ?d = "d\<lparr>dialPeers := ?c, dpeers := gomap_set nid () (dpeers d)\<rparr>"
  have I: "unlocked d" "static_inv d" using assms(1) by (simp_all add: core_inv_def)
  let ?t = "case gomap_get (static d) nid of Some t \<Rightarrow> t | None \<Rightarrow> nextTask d"
  have none: "staticPoolIndex (tasks d (nextTask d)) < 0"
    using pool_idx_iff [OF static_inv_idx [OF I(2)]] fresh_task [OF I(2)] by blast
  have e: "on_addPeer flags nid d =
      (if staticPoolIndex (tasks ?d ?t) \<ge> 0 then removeFromStaticPool (staticPoolIndex (tasks ?d ?t)) ?d else Ret ?d)"
    using I(1) none locks_id [of ?d]
    by (auto simp: on_addPeer_def lock_def unlock_def unlocked_def Let_def fun_upd_def split: option.splits)
  have "good_step {} d (if staticPoolIndex (tasks ?d ?t) \<ge> 0 then removeFromStaticPool (staticPoolIndex (tasks ?d ?t)) ?d else Ret ?d)"
  proof (rule good_remove [OF assms(1,2)])
    fix u assume u: "u \<in> set (staticPool d)" "u \<noteq> ?t"
    note p = static_inv_pool [OF I(2) u(1)]
    have "task_id d u \<noteq> nid" using p u(2) by auto
    with p dial_error_peer [of "dest (tasks d u)" nid ?d d]
    show "gomap_get (static ?d) (task_id d u) = Some u \<and> dial_error (dest (tasks d u)) ?d = None" by (simp add: task_id_def)
  qed (use assms(3) static_inv_task [OF I(2)] in auto)
  then show ?thesis unfolding e .
qed

lemma on_remPeer_ok:
  assumes "core_inv d" "slot_inv d" "pc d = AtTop"
  shows "good_step {} d (on_remPeer flags nid d)"
proof -
  let ?c = "if conn_is flags dynDialedConn \<or> conn_is flags staticDialedConn then dialPeers d - 1 else dialPeers d"
  let ?d = "d\<lparr>dialPeers := ?c, dpeers := gomap_del nid (dpeers d)\<rparr>"
  have I: "unlocked d" "static_inv d" "run_inv d" "hist_inv d" "timer_inv d" using assms(1) by (simp_all add: core_inv_def)
  have "static_inv ?d"
    by (rule static_frame [of _ d]) (use I(2) in \<open>auto intro!: dial_error_less [where d = d] simp: gomap_has_def split: if_splits\<close>)
  with I assms(2) have "dial_inv ?d"
    by (simp add: dial_inv_def run_inv_def hist_inv_def timer_inv_def unlocked_def slot_inv_def task_id_def)
  then have "good_step {} d (updateStaticPool nid ?d)" by (rule good_update) (use assms(3) in \<open>simp_all add: keeps_def\<close>)
  moreover have "on_remPeer flags nid d = updateStaticPool nid ?d"
    using I(1) locks_id [of ?d] by (auto simp: on_remPeer_def lock_def unlock_def unlocked_def Let_def fun_upd_def)
  ultimately show ?thesis by simp
qed

lemma on_addStatic_ok:
  assumes "core_inv d" "slot_inv d" "pc d = AtTop"
  shows "good_step {} d (on_addStatic n d)"
proof (cases "gomap_has (static d) (dn_ID n)")
  case True
  then have "on_addStatic n d = Ret d" by (simp add: on_addStatic_def)
  then show ?thesis by (rule good_stepI) (use assms in \<open>simp_all add: dial_inv_core keeps_def\<close>)
next
  case False
  let ?t = "nextTask d"
  let ?k = "newDialTask n staticDialedConn 0"
  let ?a = "snd (alloc ?k d)"
  let ?d = "?a\<lparr>static := gomap_set (dn_ID n) ?t (static d)\<rparr>"
  have c: "core_inv ?a" using assms(1) by (rule alloc_core) (simp add: newDialTask_def)
  have f: "static ?a = static d" "nextTask ?a = Suc ?t" "tasks ?a ?t = ?k" "staticPool ?a = staticPool d" "pc ?a = AtTop"
    "maxActiveDials ?a = maxActiveDials d" "dialing ?a = dialing d" "history ?a = history d" "submitted ?a = submitted d"
    using assms(3) by (simp_all add: alloc_def)
  have k: "dest ?k = n" "staticPoolIndex ?k = - 1" by (simp_all add: newDialTask_def)
  have I: "static_inv ?a" "unlocked ?a" using c by (simp_all add: core_inv_def)
  have id: "task_id ?d u = task_id ?a u" for u by (simp add: task_id_def)
  have idt: "task_id ?a ?t = dn_ID n" by (simp add: task_id_def f k)
  have e: "dial_error m ?d = dial_error m ?a" for m by (simp add: dial_error_def)
  have "static_inv ?d"
    unfolding static_inv_def
  proof (intro conjI allI impI ballI)
    show "pool_idx ?d" using static_inv_idx [OF I(1)] by (simp add: pool_idx_def)
    fix nid u assume g: "gomap_get (static ?d) nid = Some u"
    show "u < nextTask ?d" "nid = task_id ?d u"
      using g static_inv_task [OF I(1), of nid u] f idt by (auto simp: id split: if_splits)
  next
    fix u assume "u \<in> set (staticPool ?d)"
    then have p: "gomap_get (static d) (task_id ?a u) = Some u \<and> dial_error (dest (tasks ?a u)) ?a = None"
      using static_inv_pool [OF I(1), of u] f(1) by simp
    with False have "task_id ?a u \<noteq> dn_ID n" by (auto simp: gomap_has_def)
    with p show "gomap_get (static ?d) (task_id ?d u) = Some u" "dial_error (dest (tasks ?d u)) ?d = None" by (simp_all add: id e)
  qed
  moreover have "run_inv ?d" "hist_inv ?d" "timer_inv ?d" "unlocked ?d" "slot_inv ?d"
    using c assms(2) f(5-7) by (simp_all add: core_inv_def run_inv_def hist_inv_def timer_inv_def unlocked_def slot_inv_def task_id_def)
  ultimately have "dial_inv ?d" by (simp add: dial_inv_def)
  then have "good_step {} d (updateStaticPool (dn_ID n) ?d)" by (rule good_update) (use f in \<open>simp_all add: keeps_def gomap_has_def\<close>)
  moreover have "on_addStatic n d = updateStaticPool (dn_ID n) ?d"
    using False I(2) f(3) k checkDial_unlocked [of ?d n] updateStaticPool_unlocked [of ?d "dn_ID n"]
    by (simp add: on_addStatic_def alloc_def unlocked_def)
  ultimately show ?thesis by simp
qed

lemma on_remStatic_ok:
  assumes "core_inv d" "slot_inv d" "pc d = AtTop"
  shows "good_step {dn_ID n} d (on_remStatic n d)"
proof (cases "gomap_get (static d) (dn_ID n)")
  case None
  then have "on_remStatic n d = Ret d" by (simp add: on_remStatic_def)
  then show ?thesis by (rule good_stepI) (use assms in \<open>simp_all add: dial_inv_core keeps_def\<close>)
next
  case (Some t)
  let ?d = "d\<lparr>static := gomap_del (dn_ID n) (static d)\<rparr>"
  have I: "static_inv d" using assms(1) by (simp add: core_inv_def)
  have "good_step {dn_ID n} d (if staticPoolIndex (tasks ?d t) \<ge> 0 then removeFromStaticPool (staticPoolIndex (tasks ?d t)) ?d else Ret ?d)"
  proof (rule good_remove [OF assms(1,2)])
    fix u assume u: "u \<in> set (staticPool d)" "u \<noteq> t"
    note p = static_inv_pool [OF I u(1)]
    then have "task_id d u \<noteq> dn_ID n" using Some u(2) by auto
    with p show "gomap_get (static ?d) (task_id d u) = Some u \<and> dial_error (dest (tasks d u)) ?d = None"
      using dial_error_frame [of ?d d] by simp
  qed (use assms(3) static_inv_task [OF I] in \<open>auto simp: gomap_has_def split: if_splits\<close>)
  then show ?thesis using Some by (simp add: on_remStatic_def Let_def)
qed

subsection \<open>The history under its lock\<close>

text \<open>A static node out of the pool: its expiry calls \<^verbatim>\<open>checkDial\<close>.\<close>

definition waiting :: "dialScheduler \<Rightarrow> bytes \<Rightarrow> bool" where
  "waiting d nid \<longleftrightarrow> (case gomap_get (static d) nid of None \<Rightarrow> False | Some t \<Rightarrow> staticPoolIndex (tasks d t) < 0)"

definition expiry_callback :: "bytes \<Rightarrow> bytes expHeap \<Rightarrow> dialScheduler go \<Rightarrow> dialScheduler go" where
  "expiry_callback hkey h s = go_bind s (\<lambda>d. updateStaticPool hkey (d\<lparr>history := h\<rparr>))"

lemma expire_blocked: "snd (exp_expire now expiry_callback h Blocked) = Blocked"
proof (induction "length h" arbitrary: h rule: less_induct)
  case less
  show ?case
    by (subst exp_expire.simps) (auto simp: expiry_callback_def split: option.splits dest!: heap_pop_length intro!: less)
qed

lemma waiting_history [simp]: "waiting (d\<lparr>history := h\<rparr>) nid = waiting d nid"
  by (simp add: waiting_def split: option.split)

lemma callback_locked:
  "locks d historyRDLock \<Longrightarrow> expiry_callback x h (Ret d) = (if waiting d x then Blocked else Ret (d\<lparr>history := h\<rparr>))"
  by (auto simp: expiry_callback_def updateStaticPool_locked waiting_def split: option.splits)

lemma expire_locked:
  assumes "exp_inv h" "locks d historyRDLock"
  shows "if \<exists>x t. (x, t) \<in># exp_abs h \<and> t < now \<and> waiting d x then snd (exp_expire now expiry_callback h (Ret d)) = Blocked
    else \<exists>h'. snd (exp_expire now expiry_callback h (Ret d)) = Ret (d\<lparr>history := h'\<rparr>)"
  using assms
proof (induction "length h" arbitrary: h d rule: less_induct)
  case less
  show ?case
  proof (cases "\<exists>t. nextExpiry h = Some t \<and> t < now")
    case True
    then obtain t where t: "nextExpiry h = Some t" "t < now" by blast
    then have ne: "h \<noteq> []" by (auto simp: nextExpiry_def)
    obtain h' where h': "heap_pop exp_Less h = Some (hd h, h')" "exp_inv h'" "mset h = add_mset (hd h) (mset h')"
      using exp_order.heap_pop_spec [of h] less.prems(1) ne by (auto simp: exp_inv_def)
    have x: "exp (hd h) = t" using t(1) ne by (cases h) (auto simp: nextExpiry_def)
    have abs: "exp_abs h = add_mset (item (hd h), t) (exp_abs h')" using h'(3) x by (simp add: exp_abs_def)
    have step: "exp_expire now expiry_callback h (Ret d) = exp_expire now expiry_callback h' (expiry_callback (item (hd h)) h' (Ret d))"
      using t h'(1) by (simp add: exp_expire.simps [of now expiry_callback h])
    show ?thesis
    proof (cases "waiting d (item (hd h))")
      case True
      then have "snd (exp_expire now expiry_callback h (Ret d)) = Blocked"
        unfolding step callback_locked [OF less.prems(2)] by (simp add: expire_blocked)
      moreover have "\<exists>x t. (x, t) \<in># exp_abs h \<and> t < now \<and> waiting d x" using True abs t(2) by auto
      ultimately show ?thesis by simp
    next
      case False
      have "length h' < length h" using heap_pop_length [OF h'(1)] .
      from less.hyps [OF this h'(2), of "d\<lparr>history := h'\<rparr>"] less.prems(2) False
      show ?thesis unfolding step callback_locked [OF less.prems(2)] abs using t(2) by (auto split: if_splits)
    qed
  next
    case False
    then have "exp_expire now expiry_callback h (Ret d) = (h, Ret d)"
      by (subst exp_expire.simps) (auto split: option.splits)
    moreover have "\<not> (\<exists>x t. (x, t) \<in># exp_abs h \<and> t < now \<and> waiting d x)"
      using nextExpiry_least [OF less.prems(1)] False by force
    moreover have "d = d\<lparr>history := history d\<rparr>" by simp
    ultimately show ?thesis by (metis snd_conv)
  qed
qed

definition blocks :: "dialScheduler \<Rightarrow> bool" where
  "blocks d \<longleftrightarrow> (\<exists>x t. (x, t) \<in># exp_abs (history d) \<and> t < clock d \<and> waiting d x)"

lemma expireHistory_eq:
  assumes "unlocked d" "exp_inv (history d)" "historyTimer d \<noteq> None"
  defines "h \<equiv> fst (exp_expire (clock d) (\<lambda>_ _ s. s) (history d) ())"
  shows "expireHistory d = (if blocks d then Blocked else Ret (d\<lparr>historyTimer := None, historyTimerTime := 0, history := h\<rparr>))"
proof -
  let ?d = "d\<lparr>locks := (locks d)(historyRDLock := True), historyTimer := None, historyTimerTime := 0\<rparr>"
  have f: "(\<lambda>hkey h s. go_bind s (\<lambda>d. updateStaticPool hkey (d\<lparr>history := h\<rparr>))) = expiry_callback"
    by (intro ext) (simp add: expiry_callback_def)
  have w: "waiting ?d x = waiting d x" for x by (simp add: waiting_def split: option.split)
  have u: "(locks d)(historyRDLock := False) = locks d" using assms(1) by (auto simp: unlocked_def)
  have e: "expireHistory d = go_bind (snd (exp_expire (clock d) expiry_callback (history d) (Ret ?d)))
      (\<lambda>d. Ret (unlock historyRDLock (d\<lparr>history := h\<rparr>)))"
    using assms(1,3) exp_expire_heap [of "clock d" expiry_callback "history d" "Ret ?d"] unfolding f [symmetric] h_def
    by (auto simp: expireHistory_def lock_def unlocked_def case_prod_beta)
  have L: "if blocks d then snd (exp_expire (clock d) expiry_callback (history d) (Ret ?d)) = Blocked
      else \<exists>h'. snd (exp_expire (clock d) expiry_callback (history d) (Ret ?d)) = Ret (?d\<lparr>history := h'\<rparr>)"
    using expire_locked [OF assms(2), of ?d "clock d"] unfolding blocks_def w by simp
  show ?thesis
  proof (cases "blocks d")
    case True
    with L show ?thesis unfolding e by simp
  next
    case False
    with L obtain h' where
      "snd (exp_expire (clock d) expiry_callback (history d) (Ret ?d)) = Ret (?d\<lparr>history := h'\<rparr>)" by auto
    with False show ?thesis unfolding e by (simp add: unlock_def u)
  qed
qed

lemma expired_history:
  fixes now
  assumes "exp_inv h"
  defines "h' \<equiv> fst (exp_expire now (\<lambda>_ _ s. s) h ())"
  shows "exp_inv h'" "exp_abs h' = filter_mset (\<lambda>(x, t). \<not> t < now) (exp_abs h)"
  using exp_expire_spec [OF assms(1), of now "\<lambda>_ _ s. s" "()"] by (simp_all add: h'_def)

lemma on_historyExp_ok:
  assumes "unlocked d" "static_inv d" "run_inv d" "hist_inv d" "slot_inv d" "pc d = AtTop" "historyTimer d \<noteq> None" "historyExp d = []" "\<not> blocks d"
  shows "\<exists>d'. expireHistory d = Ret d' \<and> dial_inv d' \<and> (\<forall>nid. waiting d nid \<longrightarrow> keeps nid d d')"
proof -
  let ?h = "fst (exp_expire (clock d) (\<lambda>_ _ s. s) (history d) ())"
  let ?d = "d\<lparr>historyTimer := None, historyTimerTime := 0, history := ?h\<rparr>"
  have i: "exp_inv (history d)" using assms(4) by (simp add: hist_inv_def)
  note h = expired_history [where now = "clock d", OF i]
  have "expireHistory d = Ret ?d" using expireHistory_eq [OF assms(1) i assms(7)] assms(9) by simp
  moreover have "static_inv ?d"
    by (rule static_frame [of _ d]) (use assms(2) h in \<open>auto intro!: dial_error_less [where d = d] simp: exp_contains_iff\<close>)
  moreover have "hist_inv ?d" using assms(4) h by (fastforce simp: hist_inv_def)
  moreover have "run_inv ?d" "timer_inv ?d" "unlocked ?d" "slot_inv ?d"
    using assms(1,3,5,6,8) by (simp_all add: run_inv_def timer_inv_def unlocked_def slot_inv_def task_id_def)
  moreover have "keeps nid d ?d" if "waiting d nid" for nid
    using assms(9) that h by (fastforce simp: keeps_def blocks_def exp_contains_iff)
  ultimately show ?thesis by (auto simp: dial_inv_def)
qed

lemma resolve_dest:
  assumes "case r of Some (Some n) \<Rightarrow> dn_ID n = dn_ID (dest t) | _ \<Rightarrow> True"
  shows "dn_ID (dest (snd (task_resolve now r t))) = dn_ID (dest t)" "staticPoolIndex (snd (task_resolve now r t)) = staticPoolIndex t"
  using assms by (auto simp: task_resolve_def Let_def split: option.splits)

lemma on_resolve_ok:
  assumes "dial_inv d" "t \<in> set (running d)" "case r of Some (Some n) \<Rightarrow> dn_ID n = task_id d t | _ \<Rightarrow> True"
  shows "dial_inv (d\<lparr>tasks := (tasks d)(t := snd (task_resolve (clock d) r (tasks d t)))\<rparr>)"
proof -
  let ?d = "d\<lparr>tasks := (tasks d)(t := snd (task_resolve (clock d) r (tasks d t)))\<rparr>"
  have I: "unlocked d" "static_inv d" "run_inv d" "hist_inv d" "timer_inv d" "slot_inv d" using assms(1) by (simp_all add: dial_inv_def)
  note r = resolve_dest [OF assms(3) [unfolded task_id_def], of "clock d"]
  have id: "task_id ?d u = task_id d u" for u using r(1) by (simp add: task_id_def)
  have "gomap_get (dialing d) (task_id d t) = Some t" using I(3) assms(2) unfolding run_inv_def by blast
  then have nt: "t \<notin> set (staticPool d)" using static_inv_pool [OF I(2), of t] dial_errorD(1) [of "dest (tasks d t)" d] by (auto simp: task_id_def)
  have e: "dial_error n ?d = dial_error n d" for n by (simp add: dial_error_def)
  have "pool_idx ?d" using static_inv_idx [OF I(2)] r(2) unfolding pool_idx_def by auto
  moreover have "gomap_get (static ?d) (task_id ?d u) = Some u \<and> dial_error (dest (tasks ?d u)) ?d = None" if "u \<in> set (staticPool ?d)" for u
    using static_inv_pool [OF I(2), of u] that nt by (auto simp: id e)
  ultimately have "static_inv ?d" using static_inv_task [OF I(2)] unfolding static_inv_def id by auto
  moreover have "run_inv ?d" using I(3) unfolding run_inv_def id by simp
  moreover have "hist_inv ?d" "timer_inv ?d" "unlocked ?d" "slot_inv ?d" using I by (simp_all add: hist_inv_def timer_inv_def unlocked_def slot_inv_def)
  ultimately show ?thesis by (simp add: dial_inv_def)
qed

subsection \<open>Runs\<close>

lemma dial_inv_pc: "dial_inv d \<Longrightarrow> core_inv (d\<lparr>pc := AtTop\<rparr>) \<and> slot_inv (d\<lparr>pc := AtTop\<rparr>)"
  using core_frame [of d "d\<lparr>pc := AtTop\<rparr>"] by (auto simp: dial_inv_core core_inv_def timer_inv_def slot_inv_def)

lemma good_step_pc: "good_step X (d\<lparr>pc := AtTop\<rparr>) r \<Longrightarrow> good_step X d r"
  by (auto simp: good_step_def keeps_def)

definition forgets :: "dialEvent \<Rightarrow> bytes set" where
  "forgets ev = (case ev of RemStatic n \<Rightarrow> {dn_ID n} | _ \<Rightarrow> {})"

lemma handle_good:
  assumes "dial_inv d" "enabled ev d" "ev \<noteq> HistoryExp"
  shows "good_step (forgets ev) d (handle ev d)"
proof -
  let ?d = "d\<lparr>pc := AtTop\<rparr>"
  have t: "core_inv ?d" "slot_inv ?d" "pc ?d = AtTop" using dial_inv_pc [OF assms(1)] by simp_all
  have simple: "good_step {} d (Ret d')" if "dial_inv d'" "history d' = history d" "submitted d' = submitted d" "static d' = static d" for d'
    by (rule good_stepI) (use that keeps_same in simp_all)
  show ?thesis
  proof (cases ev)
    case (Top rnd)
    with loop_top_ok [OF assms(1)] show ?thesis by (simp add: handle_def forgets_def)
  next
    case (NodeIn n)
    then have "staticPool d = []" "int (gomap_len (dialing d)) < maxActiveDials d"
      using assms by (simp_all add: enabled_def dial_inv_def slot_inv_def)
    with on_node_ok [OF t(1) _ _ t(3), of n] NodeIn show ?thesis
      by (intro good_step_pc [of _ d]) (simp add: handle_def forgets_def)
  next
    case (Done u)
    with on_done_ok [OF t(1,2) _ t(3), of u] assms(2) show ?thesis
      by (intro good_step_pc [of _ d]) (simp add: handle_def enabled_def forgets_def)
  next
    case (AddPeer flags nid)
    with on_addPeer_ok [OF t] show ?thesis by (intro good_step_pc [of _ d]) (simp add: handle_def forgets_def)
  next
    case (RemPeer flags nid)
    with on_remPeer_ok [OF t] show ?thesis by (intro good_step_pc [of _ d]) (simp add: handle_def forgets_def)
  next
    case (AddStatic n)
    with on_addStatic_ok [OF t] show ?thesis by (intro good_step_pc [of _ d]) (simp add: handle_def forgets_def)
  next
    case (RemStatic n)
    with on_remStatic_ok [OF t] show ?thesis by (intro good_step_pc [of _ d]) (simp add: handle_def forgets_def)
  next
    case TimerFires
    let ?f = "d\<lparr>historyTimer := Some Fired, historyExp := historyExp d @ [()]\<rparr>"
    have "core_inv ?f"
      by (rule core_frame [of d]) (use assms TimerFires in \<open>auto simp: dial_inv_core core_inv_def enabled_def timer_inv_def split: option.splits timer.splits\<close>)
    then have "dial_inv ?f" using assms(1) by (simp add: dial_inv_core slot_inv_def)
    then show ?thesis using TimerFires simple [of ?f] by (simp add: handle_def forgets_def)
  next
    case (Resolve u r)
    with assms on_resolve_ok [OF assms(1), of u r] show ?thesis
      by (auto simp: handle_def forgets_def enabled_def intro!: simple)
  next
    case (Tick s)
    have "core_inv (d\<lparr>clock := clock d + s\<rparr>)"
      by (rule core_frame [of d]) (use assms Tick in \<open>auto simp: dial_inv_core core_inv_def enabled_def timer_inv_def\<close>)
    then have "dial_inv (d\<lparr>clock := clock d + s\<rparr>)" using assms(1) by (simp add: dial_inv_core slot_inv_def)
    then show ?thesis using Tick simple by (simp add: handle_def forgets_def)
  qed (use assms(3) in simp)
qed

lemma handle_historyExp:
  assumes "dial_inv d" "enabled HistoryExp d"
  shows "if blocks d then handle HistoryExp d = Blocked
    else \<exists>d'. handle HistoryExp d = Ret d' \<and> dial_inv d' \<and> (\<forall>nid. waiting d nid \<longrightarrow> keeps nid d d')"
proof -
  let ?d = "d\<lparr>pc := AtTop, historyExp := tl (historyExp d)\<rparr>"
  have I: "unlocked d" "static_inv d" "run_inv d" "hist_inv d" "timer_inv d" "slot_inv d" using assms(1) by (simp_all add: dial_inv_def)
  have t: "historyTimer d = Some Fired" "historyExp d = [()]" using I(5) assms(2) by (auto simp: timer_inv_def enabled_def split: if_splits)
  have w: "waiting ?d x = waiting d x" for x by (simp add: waiting_def split: option.split)
  have b: "blocks ?d = blocks d" by (simp add: blocks_def w)
  have u: "unlocked ?d" "exp_inv (history ?d)" "historyTimer ?d \<noteq> None" using I(1,4) t(1) by (simp_all add: unlocked_def hist_inv_def)
  show ?thesis
  proof (cases "blocks d")
    case True
    with expireHistory_eq [OF u] b show ?thesis by (simp add: handle_def)
  next
    case False
    have s: "static_inv ?d" by (rule static_frame [of _ d]) (use I(2) dial_error_frame [of ?d d] in simp_all)
    have "\<exists>d'. expireHistory ?d = Ret d' \<and> dial_inv d' \<and> (\<forall>nid. waiting ?d nid \<longrightarrow> keeps nid ?d d')"
      by (rule on_historyExp_ok [OF u(1) s]) (use I t b False in \<open>simp_all add: run_inv_def hist_inv_def slot_inv_def task_id_def\<close>)
    with False show ?thesis by (auto simp: handle_def w keeps_def)
  qed
qed

lemma dial_inv_new: "dial_inv (newDialScheduler me maxPeers maxActive restrict now)"
  by (simp add: dial_inv_def newDialScheduler_def unlocked_def static_inv_def pool_idx_def run_inv_def hist_inv_def timer_inv_def
      slot_inv_def newDialTask_def exp_inv_def is_heap_def heap_from_def gomap_len_def)

lemma dial_run_inv: "dial_inv d \<Longrightarrow> dial_run evs d = Some r \<Longrightarrow> r \<noteq> Panicked \<and> (\<forall>d'. r = Ret d' \<longrightarrow> dial_inv d')"
proof (induction evs arbitrary: d)
  case (Cons ev evs)
  then have en: "enabled ev d" by (auto split: if_splits)
  show ?case
  proof (cases "ev = HistoryExp")
    case True
    with handle_historyExp [OF Cons.prems(1)] en Cons show ?thesis by (auto split: if_splits)
  next
    case False
    with handle_good [OF Cons.prems(1) en] Cons en show ?thesis by (auto simp: good_step_def)
  qed
qed auto

lemma running_len: "run_inv d \<Longrightarrow> length (running d) = gomap_len (dialing d) \<and> distinct (map (task_id d) (running d))"
proof -
  assume "run_inv d"
  then have r: "gomap_ok (dialing d)" "distinct (running d)"
    "\<And>nid t. gomap_get (dialing d) nid = Some t \<longleftrightarrow> t \<in> set (running d) \<and> task_id d t = nid"
    unfolding run_inv_def by blast+
  have inj: "inj_on (task_id d) (set (running d))"
  proof (rule inj_onI)
    fix t u assume "t \<in> set (running d)" "u \<in> set (running d)" "task_id d t = task_id d u"
    then show "t = u" using r(3) [of "task_id d t" t] r(3) [of "task_id d t" u] by simp
  qed
  have "gomap_keys (dialing d) = task_id d ` set (running d)"
    by (auto simp: gomap_keys_get r(3) image_iff)
  with inj r(1,2) show ?thesis by (simp add: distinct_map gomap_len_card card_image distinct_card)
qed

lemma loop_exit_ok:
  assumes "dial_inv d"
  shows "\<exists>d'. loop_exit d = Ret d' \<and> running d' = []"
proof -
  have I: "locks d = (\<lambda>_. False)" "timer_inv d" "length (running d) = gomap_len (dialing d)"
    using assms running_len by (simp_all add: dial_inv_def unlocked_def)
  then have "stopHistoryTimer d = Ret (d\<lparr>historyExp := []\<rparr>)"
    by (auto simp: stopHistoryTimer_def timer_inv_def split: option.split timer.split)
  with I show ?thesis by (auto simp: loop_exit_def lock_def unlock_def)
qed

text \<open>A static node in the history is out of the pool, and stays both.\<close>

lemma waiting_static:
  assumes "dial_inv d" "gomap_has (static d) nid" "exp_contains (history d) nid"
  shows "waiting d nid"
proof -
  from assms(2) obtain t where t: "gomap_get (static d) nid = Some t" by (auto simp: gomap_has_def)
  have I: "static_inv d" using assms(1) by (simp add: dial_inv_def)
  from static_inv_task [OF I t] have "nid = task_id d t" by simp
  then have "t \<notin> set (staticPool d)"
    using static_inv_pool [OF I, of t] dial_errorD(3) [of "dest (tasks d t)" d] assms(3) by (auto simp: task_id_def)
  with t pool_idx_iff [OF static_inv_idx [OF I], of t] show ?thesis by (simp add: waiting_def)
qed

lemma static_step:
  assumes "dial_inv d" "enabled ev d" "handle ev d = Ret d'" "nid \<notin> forgets ev" "gomap_has (static d) nid" "exp_contains (history d) nid"
  shows "dial_inv d' \<and> keeps nid d d'"
proof (cases "ev = HistoryExp")
  case True
  with handle_historyExp [OF assms(1)] assms waiting_static [OF assms(1,5,6)] show ?thesis by (auto split: if_splits)
next
  case False
  with handle_good [OF assms(1,2)] assms(3,4) show ?thesis by (auto simp: good_step_def)
qed

lemma static_run:
  "dial_inv d \<Longrightarrow> gomap_has (static d) nid \<Longrightarrow> exp_contains (history d) nid \<Longrightarrow> dial_run evs d = Some (Ret d') \<Longrightarrow>
   (\<And>n. RemStatic n \<in> set evs \<Longrightarrow> dn_ID n \<noteq> nid) \<Longrightarrow> dial_inv d' \<and> gomap_has (static d') nid \<and> keeps nid d d'"
proof (induction evs arbitrary: d)
  case (Cons ev evs)
  then obtain d1 where d1: "enabled ev d" "handle ev d = Ret d1" "dial_run evs d1 = Some (Ret d')"
    by (auto split: if_splits go.splits)
  have "nid \<notin> forgets ev" using Cons.prems(5) by (cases ev) (auto simp: forgets_def)
  from static_step [OF Cons.prems(1) d1(1,2) this Cons.prems(2,3)]
  have s: "dial_inv d1" "keeps nid d d1" by simp_all
  then have "gomap_has (static d1) nid" "exp_contains (history d1) nid" using Cons.prems(2,3) by (simp_all add: keeps_def)
  from Cons.IH [OF s(1) this d1(3)] Cons.prems(5) s(2) show ?case using keeps_trans by auto
qed (simp add: keeps_def)

subsection \<open>Dials from outside of the loop\<close>

text \<open>
  \<^verbatim>\<open>StartDialEnode\<close> leaves a node it dials in the static pool, from which the loop dials it again,
  although it is in the dial history by then.
\<close>

lemma StartDialEnode_pool:
  assumes "dial_inv d" "t \<in> set (staticPool d)"
  shows "\<exists>d'. StartDialEnode (dest (tasks d t)) data d = Ret d' \<and> t \<in> set (staticPool d') \<and>
    gomap_has (dialing d') (task_id d t) \<and> exp_contains (history d') (task_id d t)"
proof -
  let ?k = "newDialTask (dest (tasks d t)) staticDialedConn data"
  let ?d = "snd (alloc ?k d)"
  have c: "core_inv d" and e: "dial_error (dest (tasks d t)) d = None"
    using assms static_inv_pool [of d t] by (simp_all add: dial_inv_core core_inv_def)
  have "core_inv ?d" using c by (rule alloc_core) (simp add: newDialTask_def)
  then have u: "unlocked d" "unlocked ?d" using c by (simp_all add: core_inv_def)
  have "StartDialEnode (dest (tasks d t)) data d = startDial (nextTask d) ?d"
    using u(1) e by (simp add: StartDialEnode_def checkDial_unlocked alloc_def)
  also have "\<dots> = Ret (launch (nextTask d) ?d)" using u(2) by (rule startDial_unlocked)
  finally show ?thesis
    using assms(2) by (auto simp: alloc_def task_id_def newDialTask_def gomap_has_def launch_def)
qed

subsection \<open>Properties\<close>


definition sampleNode :: dialNode where
  "sampleNode = \<lparr>dn_ID = [1], dn_IP = Some [127, 0, 0, 1], dn_TCP = 30303\<rparr>"

definition sampleScheduler :: dialScheduler where
  "sampleScheduler = newDialScheduler [9] 10 0 None 1"




end
