(* ===== verification/Trie_Encoding.thy ===== *)
theory Trie_Encoding
  imports Rlp_Base
begin

text \<open>
  The three encodings of trie keys (\<^verbatim>\<open>trie/encoding.go\<close>): key bytes, nibbles with an optional
  terminator 16, and the compact form used on disk.
\<close>

subsection \<open>The conversions\<close>

definition hasTerm :: "bytes \<Rightarrow> bool" where
  "hasTerm s = (length s > 0 \<and> s ! (length s - 1) = 16)"

text \<open>\<^verbatim>\<open>decodeNibbles\<close>: the bytes made of pairs of nibbles; on an odd number the index runs out of range.\<close>

fun decodeNibbles :: "bytes \<Rightarrow> bytes" where
  "decodeNibbles (a # b # ns) = (push_bit 4 a OR b) # decodeNibbles ns"
| "decodeNibbles _ = []"

definition hexToCompact :: "bytes \<Rightarrow> bytes" where
  "hexToCompact hex =
     (let terminator = (if hasTerm hex then 1 else 0 :: byte);
          hex = (if hasTerm hex then butlast hex else hex);
          buf0 = push_bit 5 terminator
      in if odd (length hex) then (buf0 OR push_bit 4 1 OR hex ! 0) # decodeNibbles (drop 1 hex)
         else buf0 # decodeNibbles hex)"

text \<open>
  \<^verbatim>\<open>hexToCompactInPlace\<close> writes the compact form over its input, reading ahead of where it writes;
  the loop state is the buffer with the two indices.
\<close>

function inPlace_loop :: "nat \<Rightarrow> nat \<Rightarrow> nat \<Rightarrow> bytes \<Rightarrow> bytes" where
  "inPlace_loop hexLen bi ni hex =
     (if ni < hexLen then inPlace_loop hexLen (bi + 1) (ni + 2) (hex[bi := push_bit 4 (hex ! ni) OR hex ! (ni + 1)])
      else hex)"
  by auto
termination by (relation "measure (\<lambda>(l, bi, ni, h). l - ni)") auto

declare inPlace_loop.simps [simp del]

definition hexToCompactInPlace :: "bytes \<Rightarrow> nat \<times> bytes" where
  "hexToCompactInPlace hex =
     (let hexLen = length hex;
          term = (hexLen > 0 \<and> hex ! (hexLen - 1) = 16);
          firstByte = (if term then push_bit 5 1 else 0 :: byte);
          hexLen = (if term then hexLen - 1 else hexLen);
          binLen = hexLen div 2 + 1;
          firstByte = (if odd hexLen then firstByte OR push_bit 4 1 OR hex ! 0 else firstByte);
          ni = (if odd hexLen then 1 else 0);
          hex = inPlace_loop hexLen 1 ni hex
      in (binLen, hex[0 := firstByte]))"

fun nibbles_of :: "bytes \<Rightarrow> bytes" where
  "nibbles_of [] = []"
| "nibbles_of (b # bs) = (b div 16) # (b mod 16) # nibbles_of bs"

definition keybytesToHex :: "bytes \<Rightarrow> bytes" where
  "keybytesToHex str = nibbles_of str @ [16]"

definition compactToHex :: "bytes \<Rightarrow> bytes" where
  "compactToHex compact =
     (if length compact = 0 then compact
      else
        let base = keybytesToHex compact;
            base = (if base ! 0 < 2 then butlast base else base);
            chop = 2 - unat (base ! 0 AND 1)
        in drop chop base)"

definition hexToKeybytes :: "bytes \<Rightarrow> bytes go" where
  "hexToKeybytes hex =
     (let hex = (if hasTerm hex then butlast hex else hex)
      in if odd (length hex) then Panicked else Ret (decodeNibbles hex))"

fun prefixLen :: "bytes \<Rightarrow> bytes \<Rightarrow> nat" where
  "prefixLen (x # a) (y # b) = (if x \<noteq> y then 0 else Suc (prefixLen a b))"
| "prefixLen _ _ = 0"

subsection \<open>Nibbles\<close>

definition is_nibbles :: "bytes \<Rightarrow> bool" where
  "is_nibbles ns \<longleftrightarrow> (\<forall>n \<in> set ns. n < 16)"

lemma is_nibbles_simps [simp]:
  "is_nibbles []" "is_nibbles (n # ns) \<longleftrightarrow> n < 16 \<and> is_nibbles ns" "is_nibbles (a @ b) \<longleftrightarrow> is_nibbles a \<and> is_nibbles b"
  by (auto simp: is_nibbles_def)

lemma nibble_bit: "a < 16 \<Longrightarrow> bit a n \<Longrightarrow> n < 4" for a :: byte
proof -
  assume a: "a < 16" and n: "bit a n"
  have "unat a < 2 ^ 4" using a by (simp add: word_less_nat_alt)
  then have "take_bit 4 (unat a) = unat a" by (simp add: take_bit_nat_eq_self)
  then have "bit (take_bit 4 (unat a)) n" using n by (simp add: bit_unsigned_iff possible_bit_word)
  then show "n < 4" by (simp add: bit_take_bit_iff)
qed

lemma div_mod_16: "b div 16 = drop_bit 4 b" "b mod 16 = take_bit 4 b" for b :: byte
  by (simp_all add: drop_bit_eq_div take_bit_eq_mod)

lemma nibble_pair:
  assumes "a < 16" "b < (16 :: byte)"
  shows "(push_bit 4 a OR b) div 16 = a" "(push_bit 4 a OR b) mod 16 = b"
proof -
  show "(push_bit 4 a OR b) div 16 = a"
    unfolding div_mod_16 using nibble_bit [OF assms(1)] nibble_bit [OF assms(2)]
    by (intro bit_eqI) (fastforce simp: bit_simps)
  show "(push_bit 4 a OR b) mod 16 = b"
    unfolding div_mod_16 using nibble_bit [OF assms(2)]
    by (intro bit_eqI) (fastforce simp: bit_simps)
qed

lemma byte_pair: "push_bit 4 (b div 16) OR (b mod 16) = (b :: byte)"
  unfolding div_mod_16 by (intro bit_eqI) (auto simp: bit_simps)

lemma nibble_less: "b div 16 < 16" "b mod 16 < (16 :: byte)"
  by (simp_all add: word_less_nat_alt unat_div unat_mod less_mult_imp_div_less)

lemma nibbles_of_nibbles: "is_nibbles (nibbles_of b)"
  by (induction b) (simp_all add: nibble_less)

lemma length_nibbles_of [simp]: "length (nibbles_of b) = 2 * length b"
  by (induction b) simp_all

lemma decodeNibbles_nibbles_of [simp]: "decodeNibbles (nibbles_of b) = b"
  by (induction b) (simp_all add: byte_pair)

lemma nibbles_of_decodeNibbles: "is_nibbles ns \<Longrightarrow> even (length ns) \<Longrightarrow> nibbles_of (decodeNibbles ns) = ns"
  by (induction ns rule: decodeNibbles.induct) (auto simp: nibble_pair)

text \<open>A hex key: nibbles, perhaps with the terminator.\<close>

definition hex_key :: "bytes \<Rightarrow> bool" where
  "hex_key h \<longleftrightarrow> (\<exists>ns. is_nibbles ns \<and> (h = ns \<or> h = ns @ [16]))"

lemma hasTerm_append [simp]: "hasTerm (ns @ [16])"
  by (simp add: hasTerm_def)

lemma hasTerm_nibbles: "is_nibbles ns \<Longrightarrow> \<not> hasTerm ns"
  by (cases ns rule: rev_cases) (auto simp: hasTerm_def)

lemma hexToCompact_odd:
  assumes "is_nibbles (n # ns)" "even (length ns)"
  shows "hexToCompact (n # ns) = (0x10 OR n) # decodeNibbles ns" "hexToCompact (n # ns @ [16]) = (0x20 OR 0x10 OR n) # decodeNibbles ns"
  using assms hasTerm_nibbles [OF assms(1)] hasTerm_append [of "n # ns"]
  by (simp_all add: hexToCompact_def Let_def butlast_append push_bit_eq_mult)

lemma hexToCompact_even:
  assumes "is_nibbles ns" "even (length ns)"
  shows "hexToCompact ns = 0 # decodeNibbles ns" "hexToCompact (ns @ [16]) = 0x20 # decodeNibbles ns"
  using assms hasTerm_nibbles [OF assms(1)]
  by (simp_all add: hexToCompact_def Let_def push_bit_eq_mult)

lemma flag_nibbles:
  assumes "n < (16 :: byte)"
  shows "(0x10 OR n) div 16 = 1" "(0x10 OR n) mod 16 = n" "(0x20 OR 0x10 OR n) div 16 = 3" "(0x20 OR 0x10 OR n) mod 16 = n"
proof -
  have "(0x10 :: byte) = push_bit 4 1" by (simp add: push_bit_eq_mult)
  moreover have "0x20 OR 0x10 = (push_bit 4 3 :: byte)" by (simp add: push_bit_eq_mult)
  then have "0x20 OR 0x10 OR n = push_bit 4 3 OR n" by (simp only: or.assoc [symmetric])
  ultimately show "(0x10 OR n) div 16 = 1" "(0x10 OR n) mod 16 = n" "(0x20 OR 0x10 OR n) div 16 = 3" "(0x20 OR 0x10 OR n) mod 16 = n"
    using nibble_pair [of 1 n] nibble_pair [of 3 n] assms by simp_all
qed

lemma compactToHex_hexToCompact:
  assumes "hex_key h"
  shows "compactToHex (hexToCompact h) = h"
proof -
  from assms obtain ns where ns: "is_nibbles ns" "h = ns \<or> h = ns @ [16]" by (auto simp: hex_key_def)
  show ?thesis
  proof (cases "even (length ns)")
    case True
    with ns hexToCompact_even [OF ns(1)] nibbles_of_decodeNibbles [OF ns(1)] show ?thesis
      by (auto simp: compactToHex_def keybytesToHex_def Let_def butlast_append)
  next
    case False
    then obtain m ms where m: "ns = m # ms" "even (length ms)" by (cases ns) auto
    with ns hexToCompact_odd [of m ms] nibbles_of_decodeNibbles [of ms] flag_nibbles [of m] show ?thesis
      by (auto simp: compactToHex_def keybytesToHex_def Let_def butlast_append)
  qed
qed

lemma hexToKeybytes_keybytesToHex: "hexToKeybytes (keybytesToHex k) = Ret k"
  by (simp add: hexToKeybytes_def keybytesToHex_def Let_def)

lemma keybytesToHex_inj: "keybytesToHex a = keybytesToHex b \<longleftrightarrow> a = b"
  by (metis hexToKeybytes_keybytesToHex go.inject(1))

text \<open>The loop reads the pair at \<open>ni\<close> before anything is written there: it writes at most one place behind.\<close>

lemma inPlace_loop_spec:
  "bi \<le> Suc ni \<Longrightarrow> ni + 2 * m = hexLen \<Longrightarrow> hexLen \<le> length hex \<Longrightarrow> 0 < bi \<Longrightarrow> bi \<le> length hex \<Longrightarrow>
   length (inPlace_loop hexLen bi ni hex) = length hex \<and>
   take (bi + m) (inPlace_loop hexLen bi ni hex) = take bi hex @ decodeNibbles (take (2 * m) (drop ni hex))"
proof (induction m arbitrary: bi ni hex)
  case 0
  then show ?case by (simp add: inPlace_loop.simps)
next
  case (Suc m)
  let ?x = "push_bit 4 (hex ! ni) OR hex ! (ni + 1)"
  let ?h = "hex[bi := ?x]"
  have step: "inPlace_loop hexLen bi ni hex = inPlace_loop hexLen (bi + 1) (ni + 2) ?h"
    using Suc.prems(2) by (subst inPlace_loop.simps) simp
  have d: "drop ni hex = hex ! ni # hex ! (ni + 1) # drop (ni + 2) hex"
    using Suc.prems(2,3) by (simp add: Cons_nth_drop_Suc)
  have d': "drop (ni + 2) ?h = drop (ni + 2) hex" using Suc.prems(1) by (simp add: drop_update_cancel)
  have t: "take (bi + 1) ?h = take bi hex @ [?x]"
    using Suc.prems(1-3) by (simp add: take_Suc_conv_app_nth)
  have p: "decodeNibbles (take (2 * Suc m) (drop ni hex)) = ?x # decodeNibbles (take (2 * m) (drop (ni + 2) hex))"
    unfolding d by simp
  have "length (inPlace_loop hexLen (bi + 1) (ni + 2) ?h) = length ?h \<and>
    take (bi + 1 + m) (inPlace_loop hexLen (bi + 1) (ni + 2) ?h) = take (bi + 1) ?h @ decodeNibbles (take (2 * m) (drop (ni + 2) ?h))"
    by (rule Suc.IH) (use Suc.prems in simp_all)
  then show ?case unfolding step p t d' by simp
qed

lemma take_update_0: "0 < n \<Longrightarrow> 0 < length xs \<Longrightarrow> take n (xs[0 := x]) = x # drop 1 (take n xs)"
  by (cases xs; cases n) simp_all

lemma parity_split: "(if odd n then 1 else 0) + 2 * (n div 2) = (n :: nat)"
  by presburger

lemma hexToCompactInPlace_eq:
  assumes "h \<noteq> []"
  shows "(case hexToCompactInPlace h of (n, buf) \<Rightarrow> n \<le> length buf \<and> length buf = length h \<and> take n buf = hexToCompact h)"
proof -
  let ?n = "if hasTerm h then length h - 1 else length h"
  let ?m = "?n div 2"
  let ?ni = "if odd ?n then 1 else 0"
  let ?f = "if hasTerm h then push_bit 5 1 else 0 :: byte"
  let ?g = "if odd ?n then ?f OR push_bit 4 1 OR h ! 0 else ?f"
  let ?b = "inPlace_loop ?n 1 ?ni h"
  have I: "hexToCompactInPlace h = (?m + 1, ?b[0 := ?g])"
    by (simp add: hexToCompactInPlace_def hasTerm_def Let_def)
  have hex: "(if hasTerm h then butlast h else h) = take ?n h" by (simp add: butlast_conv_take)
  have first: "odd ?n \<Longrightarrow> take ?n h ! 0 = h ! 0" by (rule nth_take) (rule odd_pos)
  have C: "hexToCompact h = ?g # decodeNibbles (take (2 * ?m) (drop ?ni h))"
    unfolding hexToCompact_def Let_def hex using assms first by (auto simp: drop_take)
  have L: "length ?b = length h \<and> take (1 + ?m) ?b = take 1 h @ decodeNibbles (take (2 * ?m) (drop ?ni h))"
  proof (rule inPlace_loop_spec)
    show "?ni + 2 * ?m = ?n" by (rule parity_split)
  qed (use assms in \<open>auto simp: Suc_leI\<close>)
  moreover have "?m + 1 \<le> length h" using assms by (cases h) auto
  moreover have "take (?m + 1) (?b[0 := ?g]) = ?g # drop 1 (take (1 + ?m) ?b)"
    using L assms take_update_0 [of "?m + 1" ?b ?g] by simp
  ultimately show ?thesis unfolding I C using assms by (cases h) simp_all
qed

lemma prefixLen_le: "prefixLen a b \<le> length a" "prefixLen a b \<le> length b"
  by (induction a b rule: prefixLen.induct) auto

lemma prefixLen_take: "take (prefixLen a b) a = take (prefixLen a b) b"
  by (induction a b rule: prefixLen.induct) auto

lemma prefixLen_diff: "prefixLen a b < length a \<Longrightarrow> prefixLen a b < length b \<Longrightarrow> a ! prefixLen a b \<noteq> b ! prefixLen a b"
  by (induction a b rule: prefixLen.induct) auto

lemma prefixLen_full: "prefixLen a b = length b \<longleftrightarrow> take (length b) a = b"
  by (induction a b rule: prefixLen.induct) auto

subsection \<open>Properties\<close>

text \<open>
  C39: the encodings of a trie key lose nothing: compact and hex form, and key bytes and hex form,
  translate into each other and back; and the version that overwrites its argument leaves in the
  front of the buffer exactly what the copying one returns.
\<close>

theorem trie_key_encodings:
  assumes "hex_key h" "h \<noteq> []"
  shows "compactToHex (hexToCompact h) = h \<and> hexToKeybytes (keybytesToHex k) = Ret k \<and>
    (case hexToCompactInPlace h of (n, buf) \<Rightarrow> n \<le> length buf \<and> length buf = length h \<and> take n buf = hexToCompact h)"
  using compactToHex_hexToCompact [OF assms(1)] hexToKeybytes_keybytesToHex hexToCompactInPlace_eq [OF assms(2)] by simp

theorem trie_key_encodings_witness:
  "hexToCompact [1, 2, 3, 4, 5, 16] = [0x31, 0x23, 0x45] \<and> compactToHex [0x31, 0x23, 0x45] = [1, 2, 3, 4, 5, 16] \<and>
   hexToCompactInPlace [1, 2, 3, 4, 5, 16] = (3, [0x31, 0x23, 0x45, 4, 5, 16]) \<and> hexToKeybytes (keybytesToHex [0xAB]) = Ret [0xAB]"
proof -
  have "hex_key [1, 2, 3, 4, 5, 16]" unfolding hex_key_def by (rule exI [of _ "[1, 2, 3, 4, 5]"]) simp
  moreover have "hexToCompact [1, 2, 3, 4, 5, 16] = [0x31, 0x23, 0x45]" "hexToCompactInPlace [1, 2, 3, 4, 5, 16] = (3, [0x31, 0x23, 0x45, 4, 5, 16])"
    by code_simp+
  ultimately show ?thesis using trie_key_encodings [of "[1, 2, 3, 4, 5, 16]" "[0xAB]"] by simp
qed

end
