(* ===== verification/Trie.thy ===== *)
theory Trie
  imports Trie_Encoding
begin

text \<open>
  The Merkle Patricia trie in memory (\<^verbatim>\<open>trie/trie.go\<close>, node types of \<^verbatim>\<open>trie/node.go\<close>): lookup,
  insertion and deletion, with nodes that are not loaded yet given by their hash.

  The node database is an argument, its lookup of a node by hash (\<^verbatim>\<open>Database.node\<close>). The recursions
  follow hashes through the database and so need not end; they are partial functions, and that they
  return is proved for the tries that represent a map (\<open>trie_map\<close>).
\<close>

subsection \<open>Nodes\<close>

record nodeFlag =
  fl_hash :: "bytes option"
  fl_dirty :: bool

datatype node =
    NilNode
  | FullNode "node list" nodeFlag
  | ShortNode bytes node nodeFlag
  | HashNode bytes
  | ValueNode bytes

type_synonym nodeDb = "bytes \<Rightarrow> node option"

datatype trieError = MissingNodeError bytes bytes | triePanic

type_synonym 'a tr = "(trieError + 'a) option"

definition newFlag :: nodeFlag where
  "newFlag = \<lparr>fl_hash = None, fl_dirty = True\<rparr>"

definition BytesToHash :: "bytes \<Rightarrow> bytes" where
  "BytesToHash b = replicate (32 - length b) 0 @ drop (length b - 32) b"

definition resolveHash :: "nodeDb \<Rightarrow> bytes \<Rightarrow> bytes \<Rightarrow> trieError + node" where
  "resolveHash db n prefix =
     (case db (BytesToHash n) of
        Some node \<Rightarrow> Inr node
      | None \<Rightarrow> Inl (MissingNodeError (BytesToHash n) prefix))"

definition resolve :: "nodeDb \<Rightarrow> node \<Rightarrow> bytes \<Rightarrow> trieError + node" where
  "resolve db n prefix = (case n of HashNode h \<Rightarrow> resolveHash db h prefix | _ \<Rightarrow> Inr n)"

text \<open>\<^verbatim>\<open>Children\<close> is an array of 17; another index panics.\<close>

definition child_ok :: "node list \<Rightarrow> bytes \<Rightarrow> nat \<Rightarrow> bool" where
  "child_ok cs key pos \<longleftrightarrow> pos < length key \<and> unat (key ! pos) < length cs"

subsection \<open>Lookup\<close>

partial_function (option) tryGet :: "nodeDb \<Rightarrow> node \<Rightarrow> bytes \<Rightarrow> nat \<Rightarrow> (bytes option \<times> node \<times> bool) tr" where
  "tryGet db origNode key pos =
     (case origNode of
        NilNode \<Rightarrow> Some (Inr (None, NilNode, False))
      | ValueNode n \<Rightarrow> Some (Inr (Some n, ValueNode n, False))
      | ShortNode k v f \<Rightarrow>
          if length key - pos < length k \<or> k \<noteq> take (length k) (drop pos key) then Some (Inr (None, ShortNode k v f, False))
          else Option.bind (tryGet db v key (pos + length k)) (\<lambda>r. case r of
                 Inl err \<Rightarrow> Some (Inl err)
               | Inr (val, newnode, didResolve) \<Rightarrow>
                   Some (Inr (val, (if didResolve then ShortNode k newnode f else ShortNode k v f), didResolve)))
      | FullNode cs f \<Rightarrow>
          if \<not> child_ok cs key pos then Some (Inl triePanic)
          else Option.bind (tryGet db (cs ! unat (key ! pos)) key (pos + 1)) (\<lambda>r. case r of
                 Inl err \<Rightarrow> Some (Inl err)
               | Inr (val, newnode, didResolve) \<Rightarrow>
                   Some (Inr (val, (if didResolve then FullNode (cs[unat (key ! pos) := newnode]) f else FullNode cs f), didResolve)))
      | HashNode n \<Rightarrow>
          (case resolveHash db n (take pos key) of
             Inl err \<Rightarrow> Some (Inl err)
           | Inr child \<Rightarrow> Option.bind (tryGet db child key pos) (\<lambda>r. case r of
                 Inl err \<Rightarrow> Some (Inl err)
               | Inr (val, newnode, _) \<Rightarrow> Some (Inr (val, newnode, True)))))"

subsection \<open>Insertion\<close>

partial_function (option) insert_node :: "nodeDb \<Rightarrow> node \<Rightarrow> bytes \<Rightarrow> bytes \<Rightarrow> node \<Rightarrow> (bool \<times> node) tr" where
  "insert_node db n prefix key val =
     (if length key = 0 then
        (case n of
           ValueNode v \<Rightarrow> (case val of ValueNode w \<Rightarrow> Some (Inr (v \<noteq> w, val)) | _ \<Rightarrow> Some (Inl triePanic))
         | _ \<Rightarrow> Some (Inr (True, val)))
      else case n of
        ShortNode k v f \<Rightarrow>
          let matchlen = prefixLen key k
          in if matchlen = length k then
               Option.bind (insert_node db v (prefix @ take matchlen key) (drop matchlen key) val) (\<lambda>r. case r of
                 Inl err \<Rightarrow> Some (Inl err)
               | Inr (dirty, nn) \<Rightarrow>
                   if \<not> dirty then Some (Inr (False, n)) else Some (Inr (True, ShortNode k nn newFlag)))
             else if \<not> child_ok (replicate 17 NilNode) k matchlen \<or> \<not> child_ok (replicate 17 NilNode) key matchlen
             then Some (Inl triePanic)
             else
               Option.bind (insert_node db NilNode (prefix @ take (matchlen + 1) k) (drop (matchlen + 1) k) v) (\<lambda>r. case r of
                 Inl err \<Rightarrow> Some (Inl err)
               | Inr (_, c1) \<Rightarrow>
                   Option.bind (insert_node db NilNode (prefix @ take (matchlen + 1) key) (drop (matchlen + 1) key) val) (\<lambda>r. case r of
                     Inl err \<Rightarrow> Some (Inl err)
                   | Inr (_, c2) \<Rightarrow>
                       let branch = FullNode ((replicate 17 NilNode)[unat (k ! matchlen) := c1, unat (key ! matchlen) := c2]) newFlag
                       in if matchlen = 0 then Some (Inr (True, branch))
                          else Some (Inr (True, ShortNode (take matchlen key) branch newFlag))))
      | FullNode cs f \<Rightarrow>
          if \<not> child_ok cs key 0 then Some (Inl triePanic)
          else Option.bind (insert_node db (cs ! unat (key ! 0)) (prefix @ [key ! 0]) (drop 1 key) val) (\<lambda>r. case r of
                 Inl err \<Rightarrow> Some (Inl err)
               | Inr (dirty, nn) \<Rightarrow>
                   if \<not> dirty then Some (Inr (False, n))
                   else Some (Inr (True, FullNode (cs[unat (key ! 0) := nn]) newFlag)))
      | NilNode \<Rightarrow> Some (Inr (True, ShortNode key val newFlag))
      | HashNode h \<Rightarrow>
          (case resolveHash db h prefix of
             Inl err \<Rightarrow> Some (Inl err)
           | Inr rn \<Rightarrow> Option.bind (insert_node db rn prefix key val) (\<lambda>r. case r of
                 Inl err \<Rightarrow> Some (Inl err)
               | Inr (dirty, nn) \<Rightarrow> if \<not> dirty then Some (Inr (False, rn)) else Some (Inr (True, nn))))
      | ValueNode v \<Rightarrow> Some (Inl triePanic))"

subsection \<open>Deletion\<close>

text \<open>The loop over the children: the index of the only one left, -1 if there is none, -2 if there are more.\<close>

fun reduce_pos :: "nat \<Rightarrow> int \<Rightarrow> node list \<Rightarrow> int" where
  "reduce_pos i pos [] = pos"
| "reduce_pos i pos (cld # cs) =
     (if cld \<noteq> NilNode then (if pos = - 1 then reduce_pos (i + 1) (int i) cs else - 2) else reduce_pos (i + 1) pos cs)"

definition delete_reduce :: "nodeDb \<Rightarrow> bytes \<Rightarrow> node list \<Rightarrow> trieError + bool \<times> node" where
  "delete_reduce db prefix cs =
     (let pos = reduce_pos 0 (- 1) cs
      in if pos \<ge> 0 then
           let p = nat pos
           in if p \<noteq> 16 then
                (case resolve db (cs ! p) prefix of
                   Inl err \<Rightarrow> Inl err
                 | Inr (ShortNode k v f) \<Rightarrow> Inr (True, ShortNode (word_of_nat p # k) v newFlag)
                 | Inr _ \<Rightarrow> Inr (True, ShortNode [word_of_nat p] (cs ! p) newFlag))
              else Inr (True, ShortNode [word_of_nat p] (cs ! p) newFlag)
         else Inr (True, FullNode cs newFlag))"

partial_function (option) delete_node :: "nodeDb \<Rightarrow> node \<Rightarrow> bytes \<Rightarrow> bytes \<Rightarrow> (bool \<times> node) tr" where
  "delete_node db n prefix key =
     (case n of
        ShortNode k v f \<Rightarrow>
          let matchlen = prefixLen key k
          in if matchlen < length k then Some (Inr (False, n))
             else if matchlen = length key then Some (Inr (True, NilNode))
             else Option.bind (delete_node db v (prefix @ take (length k) key) (drop (length k) key)) (\<lambda>r. case r of
                    Inl err \<Rightarrow> Some (Inl err)
                  | Inr (dirty, child) \<Rightarrow>
                      if \<not> dirty then Some (Inr (False, n))
                      else (case child of
                              ShortNode k' v' f' \<Rightarrow> Some (Inr (True, ShortNode (k @ k') v' newFlag))
                            | _ \<Rightarrow> Some (Inr (True, ShortNode k child newFlag))))
      | FullNode cs f \<Rightarrow>
          if \<not> child_ok cs key 0 then Some (Inl triePanic)
          else Option.bind (delete_node db (cs ! unat (key ! 0)) (prefix @ [key ! 0]) (drop 1 key)) (\<lambda>r. case r of
                 Inl err \<Rightarrow> Some (Inl err)
               | Inr (dirty, nn) \<Rightarrow>
                   if \<not> dirty then Some (Inr (False, n))
                   else let cs' = cs[unat (key ! 0) := nn]
                        in if nn \<noteq> NilNode then Some (Inr (True, FullNode cs' newFlag))
                           else Some (delete_reduce db prefix cs'))
      | ValueNode v \<Rightarrow> Some (Inr (True, NilNode))
      | NilNode \<Rightarrow> Some (Inr (False, NilNode))
      | HashNode h \<Rightarrow>
          (case resolveHash db h prefix of
             Inl err \<Rightarrow> Some (Inl err)
           | Inr rn \<Rightarrow> Option.bind (delete_node db rn prefix key) (\<lambda>r. case r of
                 Inl err \<Rightarrow> Some (Inl err)
               | Inr (dirty, nn) \<Rightarrow> if \<not> dirty then Some (Inr (False, rn)) else Some (Inr (True, nn)))))"

subsection \<open>The trie\<close>

record trie =
  tr_root :: node
  unhashed :: int

text \<open>\<^verbatim>\<open>New\<close>: an empty trie for the zero hash or the hash of the empty trie, else the root is loaded.\<close>

definition emptyRoot :: bytes where
  "emptyRoot =
     [0x56, 0xe8, 0x1f, 0x17, 0x1b, 0xcc, 0x55, 0xa6, 0xff, 0x83, 0x45, 0xe6, 0x92, 0xc0, 0xf8, 0x6e,
      0x5b, 0x48, 0xe0, 0x1b, 0x99, 0x6c, 0xad, 0xc0, 0x01, 0x62, 0x2f, 0xb5, 0xe3, 0x63, 0xb4, 0x21]"

definition trie_New :: "bytes \<Rightarrow> nodeDb \<Rightarrow> trieError + trie" where
  "trie_New root db =
     (if root \<noteq> replicate 32 0 \<and> root \<noteq> emptyRoot then
        (case resolveHash db root [] of
           Inl err \<Rightarrow> Inl err
         | Inr rootnode \<Rightarrow> Inr \<lparr>tr_root = rootnode, unhashed = 0\<rparr>)
      else Inr \<lparr>tr_root = NilNode, unhashed = 0\<rparr>)"

definition TryGet :: "nodeDb \<Rightarrow> trie \<Rightarrow> bytes \<Rightarrow> (bytes option \<times> trie) tr" where
  "TryGet db t key =
     Option.bind (tryGet db (tr_root t) (keybytesToHex key) 0) (\<lambda>r. case r of
       Inl err \<Rightarrow> Some (Inl err)
     | Inr (val, newroot, didResolve) \<Rightarrow> Some (Inr (val, if didResolve then t\<lparr>tr_root := newroot\<rparr> else t)))"

text \<open>An update that fails leaves the root; only the counter has changed.\<close>

definition TryUpdate :: "nodeDb \<Rightarrow> trie \<Rightarrow> bytes \<Rightarrow> bytes \<Rightarrow> (trieError option \<times> trie) option" where
  "TryUpdate db t key val =
     (let t = t\<lparr>unhashed := unhashed t + 1\<rparr>; k = keybytesToHex key
      in Option.bind (if length val \<noteq> 0 then insert_node db (tr_root t) [] k (ValueNode val) else delete_node db (tr_root t) [] k)
           (\<lambda>r. case r of
              Inl err \<Rightarrow> Some (Some err, t)
            | Inr (_, n) \<Rightarrow> Some (None, t\<lparr>tr_root := n\<rparr>)))"

definition TryDelete :: "nodeDb \<Rightarrow> trie \<Rightarrow> bytes \<Rightarrow> (trieError option \<times> trie) option" where
  "TryDelete db t key =
     (let t = t\<lparr>unhashed := unhashed t + 1\<rparr>; k = keybytesToHex key
      in Option.bind (delete_node db (tr_root t) [] k)
           (\<lambda>r. case r of
              Inl err \<Rightarrow> Some (Some err, t)
            | Inr (_, n) \<Rightarrow> Some (None, t\<lparr>tr_root := n\<rparr>)))"

definition trie_Reset :: "trie \<Rightarrow> trie" where
  "trie_Reset t = t\<lparr>tr_root := NilNode, unhashed := 0\<rparr>"

end
