(* ===== verification/Trie_Map.thy ===== *)
theory Trie_Map
  imports Trie
begin

text \<open>
  What a trie in memory means: tries without hash nodes as maps from hex keys to values, the
  canonical form every operation keeps, and reference versions of insertion and deletion on them.
\<close>

subsection \<open>Keys and canonical tries\<close>

fun valid_key :: "bytes \<Rightarrow> bool" where
  "valid_key [] = False"
| "valid_key (x # k) = (x = 16 \<and> k = [] \<or> x < 16 \<and> valid_key k)"

function look :: "node \<Rightarrow> bytes \<Rightarrow> bytes option" where
  "look (ValueNode v) k = (if k = [] then Some v else None)"
| "look (ShortNode p c f) k = (if take (length p) k = p then look c (drop (length p) k) else None)"
| "look (FullNode cs f) [] = None"
| "look (FullNode cs f) (x # k) = (if unat x < length cs then look (cs ! unat x) k else None)"
| "look NilNode k = None"
| "look (HashNode h) k = None"
  by pat_completeness auto
termination
  by (relation "measure (\<lambda>(t, k). size t)") (auto simp: less_Suc_eq_le intro!: size_list_estimation' [OF nth_mem])

text \<open>
  The canonical form: a short node leads to a value by a key with terminator or to a full node by
  nibbles; a full node has at least two children; no value is empty.
\<close>

inductive wfn :: "node \<Rightarrow> bool" where
  Leaf: "wfn (ShortNode k (ValueNode v) newFlag)" if "valid_key k" "v \<noteq> []"
| Ext: "wfn (ShortNode k (FullNode cs newFlag) newFlag)" if "k \<noteq> []" "is_nibbles k" "wfn (FullNode cs newFlag)"
| Branch: "wfn (FullNode cs newFlag)"
    if "length cs = 17" "\<forall>i < 16. cs ! i = NilNode \<or> wfn (cs ! i)"
      "cs ! 16 = NilNode \<or> (\<exists>v. v \<noteq> [] \<and> cs ! 16 = ValueNode v)"
      "i < 17" "j < 17" "i \<noteq> j" "cs ! i \<noteq> NilNode" "cs ! j \<noteq> NilNode"

inductive_cases wfn_FullE: "wfn (FullNode cs f)"
inductive_simps wfn_simps [simp]: "wfn NilNode" "wfn (ValueNode v)" "wfn (HashNode h)"

lemma wfn_ShortE:
  assumes "wfn (ShortNode k c f)"
  obtains (leaf) v where "f = newFlag" "c = ValueNode v" "valid_key k" "v \<noteq> []"
  | (ext) cs where "f = newFlag" "c = FullNode cs newFlag" "k \<noteq> []" "is_nibbles k" "wfn c"
  using assms by (cases rule: wfn.cases) auto

text \<open>The node that belongs at a place where \<open>k\<close> is left of the key.\<close>

definition fits :: "node \<Rightarrow> bytes \<Rightarrow> bool" where
  "fits t k \<longleftrightarrow>
     (if k = [] then t = NilNode \<or> (\<exists>v. v \<noteq> [] \<and> t = ValueNode v) else valid_key k \<and> (t = NilNode \<or> wfn t))"

lemma unat_nibble: "x < 16 \<longleftrightarrow> unat x < 16" for x :: byte
  by (simp add: word_less_nat_alt)

lemma valid_key_index: "valid_key (x # k) \<Longrightarrow> unat x < 17"
  by (auto simp: unat_nibble)

lemma valid_key_append: "is_nibbles a \<Longrightarrow> valid_key (a @ b) \<longleftrightarrow> valid_key b"
  by (induction a) auto

lemma valid_key_prefix: "valid_key (a @ b) \<Longrightarrow> b \<noteq> [] \<Longrightarrow> is_nibbles a \<and> valid_key b"
  by (induction a) auto

lemma valid_key_last: "valid_key k \<longleftrightarrow> (\<exists>ns. k = ns @ [16] \<and> is_nibbles ns)"
proof
  assume "valid_key k"
  then show "\<exists>ns. k = ns @ [16] \<and> is_nibbles ns"
  proof (induction k rule: valid_key.induct)
    case (2 x k)
    then show ?case by (auto intro: exI [of _ "[]"])
  qed simp
qed (auto simp: valid_key_append)

lemma fits_child:
  assumes "wfn (FullNode cs f)" "valid_key (x # k)"
  shows "unat x < length cs" "fits (cs ! unat x) k"
proof -
  from assms(1) have cs: "length cs = 17" "\<forall>i < 16. cs ! i = NilNode \<or> wfn (cs ! i)"
    "cs ! 16 = NilNode \<or> (\<exists>v. v \<noteq> [] \<and> cs ! 16 = ValueNode v)" by (auto elim: wfn_FullE)
  show "unat x < length cs" using valid_key_index [OF assms(2)] cs(1) by simp
  show "fits (cs ! unat x) k" using assms(2) cs by (auto simp: fits_def unat_nibble)
qed

lemma fits_short:
  assumes "wfn (ShortNode p c f)" "valid_key (p @ k)"
  shows "fits c k"
  using assms(1)
proof (cases rule: wfn_ShortE)
  case (leaf v)
  from leaf(3) obtain ns where ns: "p = ns @ [16]" "is_nibbles ns" by (auto simp: valid_key_last)
  then have "valid_key (16 # k)" using assms(2) valid_key_append by simp
  with leaf show ?thesis by (simp add: fits_def)
next
  case (ext cs)
  with assms(2) valid_key_append [of p k] show ?thesis by (auto simp: fits_def)
qed

subsection \<open>Insertion and deletion for reference\<close>

definition attach :: "bytes \<Rightarrow> node \<Rightarrow> node" where
  "attach k c = (if k = [] then c else ShortNode k c newFlag)"

definition fork :: "bytes \<Rightarrow> bytes \<Rightarrow> node \<Rightarrow> bytes \<Rightarrow> node" where
  "fork p k c v =
     (let m = prefixLen k p
      in attach (take m k)
           (FullNode ((replicate 17 NilNode)
              [unat (p ! m) := attach (drop (m + 1) p) c, unat (k ! m) := attach (drop (m + 1) k) (ValueNode v)]) newFlag))"

function ins :: "node \<Rightarrow> bytes \<Rightarrow> bytes \<Rightarrow> node" where
  "ins t [] v = ValueNode v"
| "ins NilNode (x # k) v = ShortNode (x # k) (ValueNode v) newFlag"
| "ins (ShortNode p c f) (x # k) v =
     (if take (length p) (x # k) = p then ShortNode p (ins c (drop (length p) (x # k)) v) newFlag else fork p (x # k) c v)"
| "ins (FullNode cs f) (x # k) v =
     FullNode (if unat x < length cs then cs[unat x := ins (cs ! unat x) k v] else cs) newFlag"
| "ins (ValueNode w) (x # k) v = ValueNode w"
| "ins (HashNode h) (x # k) v = HashNode h"
  by pat_completeness auto
termination
  by (relation "measure (\<lambda>(t, k, v). size t)") (auto simp: less_Suc_eq_le intro!: size_list_estimation' [OF nth_mem])

definition del_reduce :: "node list \<Rightarrow> node" where
  "del_reduce cs =
     (let pos = reduce_pos 0 (- 1) cs
      in if pos \<ge> 0 then
           (case cs ! nat pos of
              ShortNode k v f \<Rightarrow> ShortNode (word_of_nat (nat pos) # k) v newFlag
            | _ \<Rightarrow> ShortNode [word_of_nat (nat pos)] (cs ! nat pos) newFlag)
         else FullNode cs newFlag)"

function del :: "node \<Rightarrow> bytes \<Rightarrow> node" where
  "del NilNode k = NilNode"
| "del (ValueNode v) k = NilNode"
| "del (ShortNode p c f) k =
     (if take (length p) k \<noteq> p then ShortNode p c f
      else if k = p then NilNode
      else case del c (drop (length p) k) of
             ShortNode k' c' f' \<Rightarrow> ShortNode (p @ k') c' newFlag
           | c' \<Rightarrow> ShortNode p c' newFlag)"
| "del (FullNode cs f) [] = FullNode cs f"
| "del (FullNode cs f) (x # k) =
     (if unat x < length cs then
        let c = del (cs ! unat x) k; cs' = cs[unat x := c]
        in if c \<noteq> NilNode then FullNode cs' newFlag else del_reduce cs'
      else FullNode cs f)"
| "del (HashNode h) k = HashNode h"
  by pat_completeness auto
termination
  by (relation "measure (\<lambda>(t, k). size t)") (auto simp: less_Suc_eq_le intro!: size_list_estimation' [OF nth_mem])

subsection \<open>Insertion\<close>

lemma look_attach: "look (attach p c) k = (if take (length p) k = p then look c (drop (length p) k) else None)"
  by (simp add: attach_def)

lemma take_eq_iff_append: "take (length p) k = p \<longleftrightarrow> (\<exists>r. k = p @ r)"
  by (metis append_eq_conv_conj append_take_drop_id)

text \<open>Two keys where neither extends the other branch at one nibble.\<close>

lemma prefixLen_fork:
  assumes "take (length p) k \<noteq> p" "take (length k) p \<noteq> k"
  obtains q a k' b p' where "k = q @ a # k'" "p = q @ b # p'" "a \<noteq> b" "prefixLen k p = length q"
proof -
  let ?m = "prefixLen k p"
  have m: "?m < length k" "?m < length p"
    using assms prefixLen_full [of k p] prefixLen_le [of k p] prefixLen_take [of k p]
    by (metis le_neq_implies_less take_all order.refl)+
  have "k = take ?m k @ k ! ?m # drop (Suc ?m) k" using m(1) by (rule id_take_nth_drop)
  moreover have "p = take ?m k @ p ! ?m # drop (Suc ?m) p"
    using id_take_nth_drop [OF m(2)] prefixLen_take [of k p] by simp
  ultimately show thesis using that prefixLen_diff [OF m] m(1) by (metis length_take less_imp_le_nat min.absorb2)
qed

lemma fork_eq:
  assumes "k = q @ a # k'" "p = q @ b # p'" "prefixLen k p = length q"
  shows "fork p k c v =
    attach q (FullNode ((replicate 17 NilNode)[unat b := attach p' c, unat a := attach k' (ValueNode v)]) newFlag)"
  using assms by (simp add: fork_def Let_def)

text \<open>A valid key is no proper prefix of the key of a short node.\<close>

lemma short_no_prefix:
  assumes "wfn (ShortNode p c f)" "valid_key k" "take (length p) k \<noteq> p"
  shows "take (length k) p \<noteq> k"
proof
  assume k: "take (length k) p = k"
  then obtain r where r: "p = k @ r" by (metis append_take_drop_id)
  with assms(3) have "r \<noteq> []" by auto
  have "is_nibbles k"
    using assms(1)
  proof (cases rule: wfn_ShortE)
    case (leaf v)
    with valid_key_prefix [of k r] r \<open>r \<noteq> []\<close> show ?thesis by simp
  qed (use r in simp)
  with assms(2) show False by (auto simp: valid_key_last)
qed

lemma fork_cases:
  assumes "wfn (ShortNode p c f)" "valid_key k" "take (length p) k \<noteq> p"
  obtains q a k' b p' where "k = q @ a # k'" "p = q @ b # p'" "a \<noteq> b" "unat a < 17" "unat b < 17" "is_nibbles q"
    "valid_key (a # k')"
    "fork p k c v =
      attach q (FullNode ((replicate 17 NilNode)[unat b := attach p' c, unat a := attach k' (ValueNode v)]) newFlag)"
proof -
  from prefixLen_fork [OF assms(3) short_no_prefix [OF assms]] obtain q a k' b p' where
    e: "k = q @ a # k'" "p = q @ b # p'" "a \<noteq> b" "prefixLen k p = length q" by blast
  with assms(2) valid_key_prefix [of q "a # k'"] have v: "is_nibbles q" "valid_key (a # k')" by auto
  have "unat b < 17"
    using assms(1)
  proof (cases rule: wfn_ShortE)
    case (leaf v)
    with e(2) valid_key_prefix [of q "b # p'"] show ?thesis using valid_key_index by blast
  next
    case (ext cs)
    with e(2) show ?thesis by (simp add: unat_nibble)
  qed
  with e v valid_key_index [OF v(2)] fork_eq [OF e(1,2,4)] that show thesis by blast
qed

lemma ins_not_Nil: "fits t k \<Longrightarrow> ins t k v \<noteq> NilNode"
  by (cases "(t, k, v)" rule: ins.cases) (auto simp: fits_def fork_def Let_def attach_def)

lemma look_Nil_key: "wfn t \<Longrightarrow> look t [] = None"
  by (cases rule: wfn.cases) (auto simp: valid_key_last)

lemma look_ins:
  assumes "fits t k" "v \<noteq> []"
  shows "look (ins t k v) k' = ((look t)(k \<mapsto> v)) k'"
  using assms
proof (induction t k v arbitrary: k' rule: ins.induct)
  case (1 t v)
  then show ?case by (auto simp: fits_def)
next
  case (2 x k v)
  then show ?case by (auto simp: take_eq_iff_append)
next
  case (3 p c f x k v)
  then have w: "wfn (ShortNode p c f)" "valid_key (x # k)" by (auto simp: fits_def)
  show ?case
  proof (cases "take (length p) (x # k) = p")
    case True
    then obtain r where r: "x # k = p @ r" by (auto simp: take_eq_iff_append)
    then have d: "drop (length p) (x # k) = r" by simp
    then have i: "ins (ShortNode p c f) (x # k) v = ShortNode p (ins c r v) newFlag" using True by simp
    from fits_short [OF w(1)] w(2) r have "fits c r" by simp
    with "3.IH" [OF True, of "drop (length p) k'"] "3.prems"(2) d
    have c: "look (ins c r v) (drop (length p) k') = (if drop (length p) k' = r then Some v else look c (drop (length p) k'))"
      by simp
    show ?thesis
    proof (cases "take (length p) k' = p")
      case True
      then have "k' = x # k \<longleftrightarrow> drop (length p) k' = r" unfolding r by (metis append_eq_conv_conj)
      with True c show ?thesis unfolding i by simp
    next
      case False
      then have "k' \<noteq> x # k" unfolding r by auto
      with False show ?thesis unfolding i by simp
    qed
  next
    case False
    obtain q a ka b pb where
      e: "x # k = q @ a # ka" "p = q @ b # pb" "a \<noteq> b" "unat a < 17" "unat b < 17" "is_nibbles q" "valid_key (a # ka)"
      "fork p (x # k) c v =
        attach q (FullNode ((replicate 17 NilNode)[unat b := attach pb c, unat a := attach ka (ValueNode v)]) newFlag)"
      by (rule fork_cases [OF w False])
    let ?cs = "(replicate 17 NilNode)[unat b := attach pb c, unat a := attach ka (ValueNode v)]"
    have ab: "unat a \<noteq> unat b" using e(3) by (simp add: word_unat_eq_iff)
    show ?thesis
    proof (cases "take (length q) k' = q")
      case True
      then obtain r where r: "k' = q @ r" by (auto simp: take_eq_iff_append)
      have "look (FullNode ?cs newFlag) r = (if r = a # ka then Some v else look (ShortNode (b # pb) c f) r)"
      proof (cases r)
        case (Cons y r')
        consider "y = a" | "y = b" "y \<noteq> a" | "y \<noteq> a" "y \<noteq> b" by blast
        then show ?thesis
          by cases (use Cons ab e(3,4,5) in \<open>auto simp: look_attach nth_list_update word_unat_eq_iff take_eq_iff_append\<close>)
      qed simp
      moreover have "look (ins (ShortNode p c f) (x # k) v) k' = look (FullNode ?cs newFlag) r"
        using False by (simp add: e(8) look_attach r)
      moreover have "k' = x # k \<longleftrightarrow> r = a # ka" "look (ShortNode p c f) k' = look (ShortNode (b # pb) c f) r"
        unfolding e(1,2) r by simp_all
      ultimately show ?thesis by simp
    next
      case q: False
      then have "k' \<noteq> x # k" unfolding e(1) by auto
      moreover have "take (length p) k' \<noteq> p" using q unfolding take_eq_iff_append e(2) by auto
      ultimately show ?thesis using False q by (simp add: e(8) look_attach)
    qed
  qed
next
  case (4 cs f x k v)
  then have w: "wfn (FullNode cs f)" "valid_key (x # k)" by (auto simp: fits_def)
  note c = fits_child [OF w]
  with "4.IH" [OF c] "4.prems"(2) show ?case
    by (cases k') (auto simp: nth_list_update word_unat_eq_iff)
qed (auto simp: fits_def)

lemma branch_update:
  assumes "wfn (FullNode cs f)" "x < 17" "c \<noteq> NilNode" "x < 16 \<longrightarrow> wfn c" "x = 16 \<longrightarrow> (\<exists>v. v \<noteq> [] \<and> c = ValueNode v)"
  shows "wfn (FullNode (cs[x := c]) newFlag)"
proof -
  from assms(1) obtain i j where cs: "length cs = 17" "\<forall>i < 16. cs ! i = NilNode \<or> wfn (cs ! i)"
    "cs ! 16 = NilNode \<or> (\<exists>v. v \<noteq> [] \<and> cs ! 16 = ValueNode v)"
    "i < 17" "j < 17" "i \<noteq> j" "cs ! i \<noteq> NilNode" "cs ! j \<noteq> NilNode" by (auto elim: wfn_FullE)
  show ?thesis
  proof (rule wfn.Branch [where i = i and j = j])
    show "\<forall>i < 16. cs[x := c] ! i = NilNode \<or> wfn (cs[x := c] ! i)" using cs(1,2) assms(2,4) by (simp add: nth_list_update)
    show "cs[x := c] ! 16 = NilNode \<or> (\<exists>v. v \<noteq> [] \<and> cs[x := c] ! 16 = ValueNode v)"
      using cs(1,3) assms(2,5) by (simp add: nth_list_update)
  qed (use cs assms(2,3) in \<open>simp_all add: nth_list_update\<close>)
qed

lemma fits_child_update:
  assumes "wfn (FullNode cs f)" "valid_key (x # k)" "fits c k" "c \<noteq> NilNode"
  shows "wfn (FullNode (cs[unat x := c]) newFlag)"
proof (rule branch_update [OF assms(1) valid_key_index [OF assms(2)] assms(4)])
  show "unat x < 16 \<longrightarrow> wfn c" using assms(2-4) by (auto simp: fits_def unat_nibble split: if_splits)
  show "unat x = 16 \<longrightarrow> (\<exists>v. v \<noteq> [] \<and> c = ValueNode v)" using assms(2-4) by (auto simp: fits_def unat_nibble split: if_splits)
qed

lemma attach_short:
  assumes "wfn (ShortNode (q @ b # p) c f)"
  shows "attach p c \<noteq> NilNode" "unat b < 16 \<longrightarrow> wfn (attach p c)" "unat b = 16 \<longrightarrow> (\<exists>v. v \<noteq> [] \<and> attach p c = ValueNode v)"
    "unat b < 17" "is_nibbles q"
proof -
  from assms have "attach p c \<noteq> NilNode \<and> (unat b < 16 \<longrightarrow> wfn (attach p c)) \<and>
    (unat b = 16 \<longrightarrow> (\<exists>v. v \<noteq> [] \<and> attach p c = ValueNode v)) \<and> unat b < 17 \<and> is_nibbles q"
  proof (cases rule: wfn_ShortE)
    case (leaf v)
    then have "is_nibbles q" "valid_key (b # p)" using valid_key_prefix [of q "b # p"] by simp_all
    with leaf show ?thesis by (auto simp: attach_def unat_nibble intro: wfn.Leaf)
  next
    case (ext cs)
    then show ?thesis by (auto simp: attach_def unat_nibble intro: wfn.Ext)
  qed
  then show "attach p c \<noteq> NilNode" "unat b < 16 \<longrightarrow> wfn (attach p c)" "unat b = 16 \<longrightarrow> (\<exists>v. v \<noteq> [] \<and> attach p c = ValueNode v)"
    "unat b < 17" "is_nibbles q" by blast+
qed

lemma fork_wfn:
  assumes "wfn (ShortNode p c f)" "valid_key k" "take (length p) k \<noteq> p" "v \<noteq> []"
  shows "wfn (fork p k c v)"
proof -
  obtain q a ka b pb where
    e: "k = q @ a # ka" "p = q @ b # pb" "a \<noteq> b" "unat a < 17" "unat b < 17" "is_nibbles q" "valid_key (a # ka)"
    "fork p k c v =
      attach q (FullNode ((replicate 17 NilNode)[unat b := attach pb c, unat a := attach ka (ValueNode v)]) newFlag)"
    by (rule fork_cases [OF assms(1-3)])
  let ?cs = "(replicate 17 NilNode)[unat b := attach pb c, unat a := attach ka (ValueNode v)]"
  have ab: "unat a \<noteq> unat b" using e(3) by (simp add: word_unat_eq_iff)
  note B = attach_short [OF assms(1) [unfolded e(2)]]
  note A = attach_short [OF wfn.Leaf [OF assms(2) [unfolded e(1)] assms(4)]]
  have "wfn (FullNode ?cs newFlag)"
  proof (rule wfn.Branch [where i = "unat a" and j = "unat b"])
    show "\<forall>i < 16. ?cs ! i = NilNode \<or> wfn (?cs ! i)" using A(2) B(2) e(4,5) by (auto simp: nth_list_update)
    show "?cs ! 16 = NilNode \<or> (\<exists>v. v \<noteq> [] \<and> ?cs ! 16 = ValueNode v)" using A(3) B(3) e(4,5) by (auto simp: nth_list_update)
  qed (use ab e(4,5) A(1) B(1) in simp_all)
  with e(6,8) show ?thesis by (auto simp: attach_def intro: wfn.Ext)
qed

lemma fits_ins:
  assumes "fits t k" "v \<noteq> []"
  shows "fits (ins t k v) k"
  using assms
proof (induction t k v rule: ins.induct)
  case (3 p c f x k v)
  then have w: "wfn (ShortNode p c f)" "valid_key (x # k)" by (auto simp: fits_def)
  show ?case
  proof (cases "take (length p) (x # k) = p")
    case True
    then obtain r where r: "x # k = p @ r" by (auto simp: take_eq_iff_append)
    then have d: "drop (length p) (x # k) = r" by simp
    have fc: "fits c r" using fits_short [OF w(1)] w(2) r by simp
    with "3.IH" [OF True] "3.prems"(2) d have fi: "fits (ins c r v) r" by simp
    have "wfn (ShortNode p (ins c r v) newFlag)"
      using w(1)
    proof (cases rule: wfn_ShortE)
      case (leaf u)
      with fc have "r = []" by (auto simp: fits_def split: if_splits)
      with leaf "3.prems"(2) show ?thesis by (auto intro: wfn.Leaf)
    next
      case (ext cs)
      with fc obtain y r' where y: "r = y # r'" by (cases r) (auto simp: fits_def)
      with fi ext have "wfn (ins c r v)" by (auto simp: fits_def)
      with y ext show ?thesis by (auto intro: wfn.Ext)
    qed
    with True d w(2) show ?thesis by (simp add: fits_def)
  next
    case False
    with fork_wfn [OF w False "3.prems"(2)] w(2) show ?thesis by (simp add: fits_def)
  qed
next
  case (4 cs f x k v)
  then have w: "wfn (FullNode cs f)" "valid_key (x # k)" by (auto simp: fits_def)
  note c = fits_child [OF w]
  from fits_child_update [OF w "4.IH" [OF c(1) c(2) "4.prems"(2)] ins_not_Nil [OF c(2)]] c(1) w(2)
  show ?case by (simp add: fits_def)
qed (auto simp: fits_def intro: wfn.Leaf)

subsection \<open>Deletion\<close>

lemma reduce_pos_rest: "0 \<le> pos \<Longrightarrow> reduce_pos i pos cs = (if \<exists>c \<in> set cs. c \<noteq> NilNode then - 2 else pos)"
  by (induction cs arbitrary: i) auto

lemma reduce_pos_one:
  "j < length cs \<Longrightarrow> cs ! j \<noteq> NilNode \<Longrightarrow> \<forall>l < length cs. l \<noteq> j \<longrightarrow> cs ! l = NilNode \<Longrightarrow> reduce_pos i (- 1) cs = int (i + j)"
proof (induction cs arbitrary: i j)
  case (Cons c cs)
  show ?case
  proof (cases j)
    case 0
    have "\<forall>c \<in> set cs. c = NilNode" using Cons.prems(3) 0 by (force simp: in_set_conv_nth)
    with 0 Cons.prems(2) show ?thesis by (simp add: reduce_pos_rest)
  next
    case (Suc l)
    have "c = NilNode" using Cons.prems(3) Suc by force
    moreover have "reduce_pos (i + 1) (- 1) cs = int (i + 1 + l)"
    proof (rule Cons.IH)
      show "\<forall>m < length cs. m \<noteq> l \<longrightarrow> cs ! m = NilNode" using Cons.prems(3) Suc by fastforce
    qed (use Cons.prems Suc in simp_all)
    ultimately show ?thesis using Suc by simp
  qed
qed simp

lemma reduce_pos_two:
  "j < l \<Longrightarrow> l < length cs \<Longrightarrow> cs ! j \<noteq> NilNode \<Longrightarrow> cs ! l \<noteq> NilNode \<Longrightarrow> reduce_pos i (- 1) cs = - 2"
proof (induction cs arbitrary: i j l)
  case (Cons c cs)
  obtain l' where l: "l = Suc l'" using Cons.prems(1) by (cases l) auto
  show ?case
  proof (cases "c = NilNode")
    case True
    then obtain j' where j: "j = Suc j'" using Cons.prems(3) by (cases j) auto
    with Cons.IH [of j' l' "i + 1"] Cons.prems l True show ?thesis by simp
  next
    case False
    have "\<exists>c \<in> set cs. c \<noteq> NilNode" using Cons.prems(2,4) l by (auto intro!: bexI [of _ "cs ! l'"])
    with False show ?thesis by (simp add: reduce_pos_rest)
  qed
qed simp

text \<open>The children of a full node after one of them has gone.\<close>

definition almost_branch :: "node list \<Rightarrow> bool" where
  "almost_branch cs \<longleftrightarrow> length cs = 17 \<and> (\<forall>i < 16. cs ! i = NilNode \<or> wfn (cs ! i)) \<and>
     (cs ! 16 = NilNode \<or> (\<exists>v. v \<noteq> [] \<and> cs ! 16 = ValueNode v)) \<and> (\<exists>i < 17. cs ! i \<noteq> NilNode)"

lemma look_full_one:
  assumes "length cs = 17" "j < 17" "\<forall>l < 17. l \<noteq> j \<longrightarrow> cs ! l = NilNode"
  shows "look (FullNode cs f) k = look (ShortNode [word_of_nat j] (cs ! j) f') k"
proof (cases k)
  case (Cons x r)
  have "unat (word_of_nat j :: byte) = j" using assms(2) by (simp add: unat_of_nat)
  then have "x = word_of_nat j \<longleftrightarrow> unat x = j" by (auto simp: word_unat_eq_iff)
  with Cons assms show ?thesis by auto
qed simp

lemma look_merge: "look (ShortNode (p @ q) c f) k = look (ShortNode p (ShortNode q c f') f'') k"
proof (cases "take (length p) k = p")
  case True
  then obtain r where "k = p @ r" by (auto simp: take_eq_iff_append)
  then show ?thesis by simp
next
  case False
  then have "take (length (p @ q)) k \<noteq> p @ q" unfolding take_eq_iff_append by auto
  with False show ?thesis by simp
qed

lemma del_reduce_spec:
  assumes "almost_branch cs"
  shows "wfn (del_reduce cs)" "look (del_reduce cs) k = look (FullNode cs f) k"
proof -
  from assms obtain j where cs: "length cs = 17" "\<forall>i < 16. cs ! i = NilNode \<or> wfn (cs ! i)"
    "cs ! 16 = NilNode \<or> (\<exists>v. v \<noteq> [] \<and> cs ! 16 = ValueNode v)" "j < 17" "cs ! j \<noteq> NilNode"
    by (auto simp: almost_branch_def)
  have "wfn (del_reduce cs) \<and> look (del_reduce cs) k = look (FullNode cs f) k"
  proof (cases "\<exists>l < 17. l \<noteq> j \<and> cs ! l \<noteq> NilNode")
    case True
    then obtain l where l: "l < 17" "l \<noteq> j" "cs ! l \<noteq> NilNode" by blast
    then have "reduce_pos 0 (- 1) cs = - 2"
      using reduce_pos_two [of "min j l" "max j l" cs 0] cs by (auto simp: min_def max_def split: if_splits)
    then have "del_reduce cs = FullNode cs newFlag" by (simp add: del_reduce_def)
    moreover have "wfn (FullNode cs newFlag)" using cs l by (intro wfn.Branch [where i = j and j = l]) auto
    moreover have "look (FullNode cs newFlag) k = look (FullNode cs f) k" by (cases k) simp_all
    ultimately show ?thesis by simp
  next
    case False
    let ?x = "word_of_nat j :: byte"
    have one: "\<forall>l < 17. l \<noteq> j \<longrightarrow> cs ! l = NilNode" using False by blast
    then have p: "reduce_pos 0 (- 1) cs = int j" using reduce_pos_one [of j cs 0] cs by simp
    have x: "unat ?x = j" using cs(4) by (simp add: unat_of_nat)
    show ?thesis
    proof (cases "j = 16")
      case True
      with cs obtain v where v: "cs ! 16 = ValueNode v" "v \<noteq> []" by auto
      with p True have "del_reduce cs = ShortNode [16] (cs ! 16) newFlag" by (simp add: del_reduce_def)
      with v True look_full_one [OF cs(1,4) one, of f k newFlag] show ?thesis by (simp add: wfn.Leaf)
    next
      case False
      with cs(4) have j16: "?x < 16" using x by (simp add: unat_nibble)
      have "j < 16" using cs(4) False by simp
      with cs(2,5) have "wfn (cs ! j)" by blast
      then show ?thesis
      proof (cases rule: wfn.cases)
        case (Leaf q v)
        with p have "del_reduce cs = ShortNode (?x # q) (ValueNode v) newFlag" by (simp add: del_reduce_def)
        moreover have "wfn (ShortNode (?x # q) (ValueNode v) newFlag)" using Leaf j16 by (intro wfn.Leaf) simp_all
        ultimately show ?thesis
          using look_full_one [OF cs(1,4) one, of f k newFlag] look_merge [of "[?x]" q "ValueNode v" newFlag k newFlag newFlag] Leaf(1) by simp
      next
        case (Ext q ds)
        with p have "del_reduce cs = ShortNode (?x # q) (FullNode ds newFlag) newFlag" by (simp add: del_reduce_def)
        moreover have "wfn (ShortNode (?x # q) (FullNode ds newFlag) newFlag)" using Ext j16 by (intro wfn.Ext) simp_all
        ultimately show ?thesis
          using look_full_one [OF cs(1,4) one, of f k newFlag] look_merge [of "[?x]" q "FullNode ds newFlag" newFlag k newFlag newFlag] Ext(1) by simp
      next
        case (Branch ds)
        with p have "del_reduce cs = ShortNode [?x] (FullNode ds newFlag) newFlag" by (simp add: del_reduce_def)
        moreover have "wfn (ShortNode [?x] (FullNode ds newFlag) newFlag)" using \<open>wfn (cs ! j)\<close> Branch(1) j16 by (intro wfn.Ext) simp_all
        ultimately show ?thesis using look_full_one [OF cs(1,4) one, of f k newFlag] Branch(1) by simp
      qed
    qed
  qed
  then show "wfn (del_reduce cs)" "look (del_reduce cs) k = look (FullNode cs f) k" by blast+
qed

lemma del_full_not_Nil: "del (FullNode cs f) k \<noteq> NilNode"
  by (cases k) (auto simp: Let_def del_reduce_def split: node.split)

lemma merge_short:
  assumes "p \<noteq> []" "is_nibbles p" "wfn t"
  shows "wfn (case t of ShortNode k' c' f' \<Rightarrow> ShortNode (p @ k') c' newFlag | c' \<Rightarrow> ShortNode p c' newFlag)"
    "look (case t of ShortNode k' c' f' \<Rightarrow> ShortNode (p @ k') c' newFlag | c' \<Rightarrow> ShortNode p c' newFlag) k = look (ShortNode p t f) k"
proof -
  from assms(3) have "wfn (case t of ShortNode k' c' f' \<Rightarrow> ShortNode (p @ k') c' newFlag | c' \<Rightarrow> ShortNode p c' newFlag) \<and>
    look (case t of ShortNode k' c' f' \<Rightarrow> ShortNode (p @ k') c' newFlag | c' \<Rightarrow> ShortNode p c' newFlag) k = look (ShortNode p t f) k"
  proof (cases rule: wfn.cases)
    case (Leaf q v)
    with assms(1,2) look_merge [of p q "ValueNode v" newFlag k newFlag f] show ?thesis
      by (auto simp: valid_key_append intro: wfn.Leaf)
  next
    case (Ext q cs)
    with assms(1,2) look_merge [of p q "FullNode cs newFlag" newFlag k newFlag f] show ?thesis by (auto intro: wfn.Ext)
  next
    case (Branch cs)
    with assms show ?thesis by (auto intro: wfn.Ext)
  qed
  then show "wfn (case t of ShortNode k' c' f' \<Rightarrow> ShortNode (p @ k') c' newFlag | c' \<Rightarrow> ShortNode p c' newFlag)"
    "look (case t of ShortNode k' c' f' \<Rightarrow> ShortNode (p @ k') c' newFlag | c' \<Rightarrow> ShortNode p c' newFlag) k = look (ShortNode p t f) k"
    by blast+
qed

lemma branch_delete:
  assumes "wfn (FullNode cs f)" "x < 17"
  shows "almost_branch (cs[x := NilNode])"
proof -
  from assms(1) obtain i j where cs: "length cs = 17" "\<forall>i < 16. cs ! i = NilNode \<or> wfn (cs ! i)"
    "cs ! 16 = NilNode \<or> (\<exists>v. v \<noteq> [] \<and> cs ! 16 = ValueNode v)"
    "i < 17" "j < 17" "i \<noteq> j" "cs ! i \<noteq> NilNode" "cs ! j \<noteq> NilNode" by (auto elim: wfn_FullE)
  have "\<exists>i < 17. cs[x := NilNode] ! i \<noteq> NilNode"
    using cs assms(2) by (cases "x = i") (auto simp: nth_list_update)
  with cs assms(2) show ?thesis by (auto simp: almost_branch_def nth_list_update)
qed

lemma short_leaf_or_ext:
  assumes "wfn (ShortNode p c f)" "valid_key (p @ r)"
  shows "if r = [] then \<exists>v. c = ValueNode v
    else p \<noteq> [] \<and> is_nibbles p \<and> valid_key r \<and> (\<exists>cs. c = FullNode cs newFlag) \<and> wfn c"
  using assms(1)
proof (cases rule: wfn_ShortE)
  case (leaf v)
  have "r = []"
  proof (rule ccontr)
    assume "r \<noteq> []"
    with valid_key_prefix [OF assms(2)] leaf(3) show False by (auto simp: valid_key_last)
  qed
  with leaf show ?thesis by simp
next
  case (ext cs)
  then show ?thesis using assms(2) valid_key_append [of p r] by auto
qed

lemma del_spec:
  assumes "fits t k"
  shows "fits (del t k) k \<and> look (del t k) k' = ((look t)(k := None)) k'"
  using assms
proof (induction t k arbitrary: k' rule: del.induct)
  case (3 p c f k)
  show ?case
  proof (cases "take (length p) k = p")
    case True
    then obtain r where r: "k = p @ r" by (auto simp: take_eq_iff_append)
    have w: "wfn (ShortNode p c f)" "valid_key (p @ r)" using "3.prems" r by (auto simp: fits_def split: if_splits)
    note S = short_leaf_or_ext [OF w]
    show ?thesis
    proof (cases "r = []")
      case True
      with S obtain v where "c = ValueNode v" by auto
      with True r w(2) show ?thesis by (auto simp: fits_def take_eq_iff_append)
    next
      case False
      with S obtain cs where c: "p \<noteq> []" "is_nibbles p" "valid_key r" "c = FullNode cs newFlag" "wfn c" by auto
      have d: "take (length p) k = p" "k \<noteq> p" "drop (length p) k = r" using r False by auto
      have IH: "fits (del c r) r \<and> look (del c r) k'' = ((look c)(r := None)) k''" for k''
        using "3.IH" [of k''] d c(3,5) by (auto simp: fits_def split: if_splits)
      moreover have "del c r \<noteq> NilNode" using c(4) del_full_not_Nil by simp
      ultimately have dw: "wfn (del c r)" using False by (simp add: fits_def)
      let ?t = "case del c r of ShortNode k' c' f' \<Rightarrow> ShortNode (p @ k') c' newFlag | c' \<Rightarrow> ShortNode p c' newFlag"
      have t: "del (ShortNode p c f) k = ?t" using d by simp
      have vk: "valid_key k" "k \<noteq> []" using w(2) r c(1) by simp_all
      have "look (ShortNode p (del c r) f) k' = ((look (ShortNode p c f))(k := None)) k'"
      proof (cases "take (length p) k' = p")
        case True
        then obtain s where "k' = p @ s" by (auto simp: take_eq_iff_append)
        then show ?thesis using IH [of s] r by simp
      next
        case False
        then show ?thesis by simp
      qed
      with merge_short(1) [OF c(1,2) dw] merge_short(2) [OF c(1,2) dw, of k' f] vk show ?thesis unfolding t by (simp add: fits_def)
    qed
  next
    case False
    then show ?thesis using "3.prems" by auto
  qed
next
  case (5 cs f x k)
  then have w: "wfn (FullNode cs f)" "valid_key (x # k)" by (auto simp: fits_def)
  note c = fits_child [OF w]
  let ?c = "del (cs ! unat x) k"
  have IH: "fits ?c k" "look ?c k'' = ((look (cs ! unat x))(k := None)) k''" for k''
    using "5.IH" [OF c] by blast+
  have L: "look (FullNode (cs[unat x := ?c]) newFlag) k' = ((look (FullNode cs f))(x # k := None)) k'"
    using c(1) IH(2) by (cases k') (auto simp: nth_list_update word_unat_eq_iff)
  show ?case
  proof (cases "?c = NilNode")
    case True
    have b: "almost_branch (cs[unat x := NilNode])" using w(1) valid_key_index [OF w(2)] by (rule branch_delete)
    from True del_reduce_spec(1) [OF b] del_reduce_spec(2) [OF b, of k' newFlag] L w(2) c(1)
    show ?thesis by (simp add: fits_def Let_def)
  next
    case False
    with fits_child_update [OF w IH(1) False] L w(2) c(1) show ?thesis by (simp add: fits_def Let_def)
  qed
qed (auto simp: fits_def split: if_splits)

subsection \<open>Canonical tries are determined by their map\<close>

lemma wfn_dom: "wfn t \<Longrightarrow> \<exists>k. look t k \<noteq> None"
proof (induction rule: wfn.induct)
  case (Leaf k v)
  then show ?case by (intro exI [of _ k]) simp
next
  case (Ext k cs)
  then obtain l where "look (FullNode cs newFlag) l \<noteq> None" by blast
  then show ?case by (intro exI [of _ "k @ l"]) simp
next
  case (Branch cs i j)
  obtain l where l: "look (cs ! i) l \<noteq> None"
  proof (cases "i = 16")
    case True
    with Branch.hyps(2,6) show thesis by (auto intro: that [of "[]"])
  next
    case False
    with Branch.hyps(3) have "i < 16" by simp
    with Branch.IH Branch.hyps(6) that show thesis by blast
  qed
  have "unat (word_of_nat i :: byte) = i" using Branch.hyps(3) by (simp add: unat_of_nat)
  with l Branch.hyps(1,3) show ?case by (intro exI [of _ "word_of_nat i # l"]) simp
qed

lemma child_dom:
  assumes "wfn (FullNode cs f)" "i < 17" "cs ! i \<noteq> NilNode"
  shows "\<exists>x k. unat x = i \<and> look (FullNode cs f) (x # k) \<noteq> None"
proof -
  from assms(1) have cs: "length cs = 17" "\<forall>i < 16. cs ! i = NilNode \<or> wfn (cs ! i)"
    "cs ! 16 = NilNode \<or> (\<exists>v. v \<noteq> [] \<and> cs ! 16 = ValueNode v)" by (auto elim: wfn_FullE)
  obtain l where l: "look (cs ! i) l \<noteq> None"
  proof (cases "i = 16")
    case True
    with cs(3) assms(3) show thesis by (auto intro: that [of "[]"])
  next
    case False
    with assms(2) have "i < 16" by simp
    with cs(2) assms(3) wfn_dom that show thesis by blast
  qed
  have "unat (word_of_nat i :: byte) = i" using assms(2) by (simp add: unat_of_nat)
  with l cs(1) assms(2) show ?thesis by (intro exI [of _ "word_of_nat i"] exI [of _ l]) simp
qed

lemma full_heads:
  assumes "wfn (FullNode cs f)"
  obtains x k y l where "x \<noteq> y" "look (FullNode cs f) (x # k) \<noteq> None" "look (FullNode cs f) (y # l) \<noteq> None"
proof -
  from assms obtain i j where ij: "i < 17" "j < 17" "i \<noteq> j" "cs ! i \<noteq> NilNode" "cs ! j \<noteq> NilNode"
    by (auto elim: wfn_FullE)
  from child_dom [OF assms ij(1,4)] child_dom [OF assms ij(2,5)] ij(3) that show thesis by metis
qed

text \<open>A short node fixes the first nibble of its keys; a full node does not.\<close>

lemma short_full_differ:
  assumes "wfn (FullNode cs f)" "p \<noteq> []"
  shows "look (ShortNode p c g) \<noteq> look (FullNode cs f)"
proof
  assume eq: "look (ShortNode p c g) = look (FullNode cs f)"
  from full_heads [OF assms(1)] obtain x k y l where
    "x \<noteq> y" "look (FullNode cs f) (x # k) \<noteq> None" "look (FullNode cs f) (y # l) \<noteq> None" .
  with assms(2) show False unfolding eq [symmetric] by (cases p) (auto split: if_splits)
qed

lemma ext_no_longer:
  assumes "wfn (FullNode cs f)"
  shows "look (ShortNode (p @ x # z) c g) \<noteq> look (ShortNode p (FullNode cs f) h)"
proof
  assume eq: "look (ShortNode (p @ x # z) c g) = look (ShortNode p (FullNode cs f) h)"
  have "look (ShortNode (x # z) c g) k = look (FullNode cs f) k" for k
    using fun_cong [OF eq, of "p @ k"] look_merge [of p "x # z" c g "p @ k" g g] by simp
  with short_full_differ [OF assms, of "x # z" c g] show False by blast
qed

lemma look_shortD: "look (ShortNode q c f) k \<noteq> None \<Longrightarrow> \<exists>l. k = q @ l \<and> look c l \<noteq> None"
  by (cases "take (length q) k = q") (auto simp: take_eq_iff_append)

lemma ext_ext:
  assumes "wfn (FullNode cs f)" "wfn (FullNode ds g)"
    and "look (ShortNode p (FullNode cs f) f') = look (ShortNode q (FullNode ds g) g')"
  shows "p = q \<and> look (FullNode cs f) = look (FullNode ds g)"
proof -
  from wfn_dom [OF assms(1)] obtain k where k: "look (FullNode cs f) k \<noteq> None" by blast
  then have "look (ShortNode q (FullNode ds g) g') (p @ k) \<noteq> None" unfolding assms(3) [symmetric] by simp
  then obtain l where "p @ k = q @ l" using look_shortD by blast
  then consider "p = q" | x z where "p = q @ x # z" | x z where "q = p @ x # z"
    by (auto simp: append_eq_append_conv2) (metis append_Nil2 list.exhaust)+
  then have "p = q"
  proof cases
    case 2
    with ext_no_longer [OF assms(2), of q x z] assms(3) show ?thesis by metis
  next
    case 3
    with ext_no_longer [OF assms(1), of p x z] assms(3) show ?thesis by metis
  qed
  moreover have "look (FullNode cs f) k = look (FullNode ds g) k" if "p = q" for k
    using fun_cong [OF assms(3), of "p @ k"] that by simp
  ultimately show ?thesis by blast
qed

lemma leaf_ext_differ:
  assumes "wfn (FullNode cs f)"
  shows "look (ShortNode k (ValueNode v) g) \<noteq> look (ShortNode p (FullNode cs f) h)"
proof
  assume eq: "look (ShortNode k (ValueNode v) g) = look (ShortNode p (FullNode cs f) h)"
  from full_heads [OF assms] obtain x a y b where
    d: "x \<noteq> y" "look (FullNode cs f) (x # a) \<noteq> None" "look (FullNode cs f) (y # b) \<noteq> None" .
  then have "look (ShortNode k (ValueNode v) g) (p @ x # a) \<noteq> None" "look (ShortNode k (ValueNode v) g) (p @ y # b) \<noteq> None"
    unfolding eq by simp_all
  then have "p @ x # a = k" "p @ y # b = k" using look_shortD by (fastforce split: if_splits)+
  then have "p @ x # a = p @ y # b" by simp
  with d(1) show False by simp
qed

lemma canonical:
  "wfn t \<Longrightarrow> wfn t' \<Longrightarrow> look t = look t' \<Longrightarrow> t = t'"
proof (induction t arbitrary: t' rule: wfn.induct)
  case (Leaf k v)
  from Leaf(3) show ?case
  proof (cases rule: wfn.cases)
    case (Leaf k' v')
    with Leaf.prems fun_cong [OF Leaf.prems(2), of k'] show ?thesis by (auto simp: take_eq_iff_append split: if_splits)
  next
    case (Ext p cs)
    with leaf_ext_differ [OF Ext(4)] Leaf.prems(2) show ?thesis by blast
  next
    case (Branch cs i j)
    moreover have "k \<noteq> []" using \<open>valid_key k\<close> by auto
    ultimately show ?thesis using short_full_differ [of cs newFlag k "ValueNode v" newFlag] Leaf.prems by metis
  qed
next
  case (Ext k cs)
  from Ext.prems(1) show ?case
  proof (cases rule: wfn.cases)
    case (Leaf k' v')
    with leaf_ext_differ [OF Ext.hyps(3)] Ext.prems(2) show ?thesis by metis
  next
    case e: (Ext p ds)
    from ext_ext [OF Ext.hyps(3) e(4)] Ext.prems(2) e(1) have "k = p" "look (FullNode cs newFlag) = look (FullNode ds newFlag)"
      by blast+
    with Ext.IH [OF e(4)] e(1) show ?thesis by simp
  next
    case (Branch ds i j)
    with short_full_differ [of ds newFlag k] Ext.prems Ext.hyps(1) show ?thesis by metis
  qed
next
  case (Branch cs i j)
  note w = wfn.Branch [OF Branch.hyps(1) _ Branch.hyps(2-7)]
  have wb: "wfn (FullNode cs newFlag)" by (rule w) (use Branch.IH in blast)
  from Branch.prems(1) show ?case
  proof (cases rule: wfn.cases)
    case (Leaf k' v')
    then have "k' \<noteq> []" by auto
    with short_full_differ [OF wb] Branch.prems(2) Leaf(1) show ?thesis by metis
  next
    case (Ext p ds)
    with short_full_differ [OF wb] Branch.prems(2) show ?thesis by metis
  next
    case b: (Branch ds i' j')
    have lk: "look (cs ! l) k = look (ds ! l) k" if "l < 17" for l k
      using fun_cong [OF Branch.prems(2), of "word_of_nat l # k"] that Branch.hyps(1) b(1,2) by (simp add: unat_of_nat)
    have "cs ! l = ds ! l" if l: "l < 17" for l
    proof (cases "l = 16")
      case True
      with Branch.hyps(2) b(4) lk [of 16 "[]"] show ?thesis by auto
    next
      case False
      with l have l16: "l < 16" by simp
      have eq: "look (cs ! l) = look (ds ! l)" using lk [OF l] by blast
      show ?thesis
      proof (cases "cs ! l = NilNode \<or> ds ! l = NilNode")
        case True
        with eq wfn_dom [of "cs ! l"] wfn_dom [of "ds ! l"] Branch.IH b(3) l16 show ?thesis by (metis look.simps(5))
      next
        case False
        with Branch.IH b(3) l16 eq show ?thesis by blast
      qed
    qed
    then show ?thesis using Branch.hyps(1) b(1,2) by (simp add: list_eq_iff_nth_eq)
  qed
qed

end
