(* ===== verification/Trie_Refine.thy ===== *)
theory Trie_Refine
  imports Trie_Map
begin

text \<open>
  The operations of \<^verbatim>\<open>trie/trie.go\<close> on a trie that is partly on disk implement a map: whatever of
  the trie is not loaded, they return, and their result stands for the looked-up, extended or
  reduced map.
\<close>

subsection \<open>The trie a node stands for\<close>

text \<open>
  All of the trie, with the hash nodes replaced by the nodes the database has for them and the
  cache flags forgotten. A node that comes from the database is a short or a full node and has its
  hash. What a
  cached hash has to be for a node is left open here (\<open>ok\<close>); a fresh node has none. The predicate is
  about the root if \<open>r\<close>, and about a node below one with a cached hash if \<open>q\<close>.
\<close>

type_synonym flagPred = "bool \<Rightarrow> bool \<Rightarrow> node \<Rightarrow> nodeFlag \<Rightarrow> bool"

definition hashed_flag :: "nodeFlag \<Rightarrow> bool" where
  "hashed_flag f \<longleftrightarrow> fl_hash f \<noteq> None"

lemma hashed_newFlag [simp]: "\<not> hashed_flag newFlag"
  by (simp add: hashed_flag_def newFlag_def)

inductive expands :: "flagPred \<Rightarrow> nodeDb \<Rightarrow> bool \<Rightarrow> bool \<Rightarrow> node \<Rightarrow> node \<Rightarrow> bool" for ok db where
  Nil: "expands ok db rt q NilNode NilNode"
| Value: "expands ok db rt q (ValueNode v) (ValueNode v)"
| Short: "expands ok db rt q (ShortNode k c f) (ShortNode k t newFlag)"
    if "expands ok db False (q \<or> hashed_flag f) c t" "ok rt q (ShortNode k t newFlag) f"
| Full: "expands ok db rt q (FullNode cs f) (FullNode ts newFlag)"
    if "list_all2 (expands ok db False (q \<or> hashed_flag f)) cs ts" "ok rt q (FullNode ts newFlag) f"
| Hash: "expands ok db rt q (HashNode h) t"
    if "db (BytesToHash h) = Some n" "\<exists>k c f cs. hashed_flag f \<and> (n = ShortNode k c f \<or> n = FullNode cs f)"
      "expands ok db rt q n t"
      "ok rt q t \<lparr>fl_hash = Some h, fl_dirty = False\<rparr>"

text \<open>Fresh flags are allowed, and what holds below a node with a cached hash holds elsewhere.\<close>

definition flag_new :: "flagPred \<Rightarrow> bool" where
  "flag_new ok \<longleftrightarrow> (\<forall>r t. ok r False t newFlag) \<and> (\<forall>r t f. ok r True t f \<longrightarrow> ok r False t f)"

lemma expands_Nil [simp]: "expands ok db rt q n NilNode \<longleftrightarrow> n = NilNode"
proof
  have "expands ok db rt q n t \<Longrightarrow> t = NilNode \<Longrightarrow> n = NilNode" for t
    by (induction rule: expands.induct) auto
  then show "expands ok db rt q n NilNode \<Longrightarrow> n = NilNode" by blast
qed (auto intro: expands.Nil)

lemma expands_Value [simp]: "expands ok db rt q n (ValueNode v) \<longleftrightarrow> n = ValueNode v"
proof
  have "expands ok db rt q n t \<Longrightarrow> t = ValueNode v \<Longrightarrow> n = ValueNode v" for t
    by (induction rule: expands.induct) auto
  then show "expands ok db rt q n (ValueNode v) \<Longrightarrow> n = ValueNode v" by blast
qed (auto intro: expands.Value)

lemma expands_NilD [simp]: "expands ok db rt q NilNode t \<longleftrightarrow> t = NilNode"
  by (auto elim: expands.cases intro: expands.Nil)

lemma expands_weaken:
  assumes new: "flag_new ok"
  shows "expands ok db rt q n t \<Longrightarrow> expands ok db rt False n t"
proof (induction rule: expands.induct)
  case (Short q f c t rt k)
  have "ok rt False (ShortNode k t newFlag) f" using Short.hyps(2) new by (cases q) (auto simp: flag_new_def)
  moreover have "expands ok db False (False \<or> hashed_flag f) c t" using Short.hyps(1) Short.IH by (cases q; cases "hashed_flag f") simp_all
  ultimately show ?case by (intro expands.Short)
next
  case (Full q f cs ts rt)
  have "ok rt False (FullNode ts newFlag) f" using Full.hyps new by (cases q) (auto simp: flag_new_def)
  moreover have "list_all2 (expands ok db False (False \<or> hashed_flag f)) cs ts"
    using Full.IH by (cases q; cases "hashed_flag f") (auto simp: list_all2_conv_all_nth)
  ultimately show ?case by (intro expands.Full)
next
  case (Hash h n rt q t)
  have "ok rt False t \<lparr>fl_hash = Some h, fl_dirty = False\<rparr>" using Hash.hyps(4) new by (cases q) (auto simp: flag_new_def)
  with Hash show ?case by (intro expands.Hash)
qed (auto intro: expands.intros)

lemma list_expands_weaken:
  "flag_new ok \<Longrightarrow> list_all2 (expands ok db rt q) cs ts \<Longrightarrow> list_all2 (expands ok db rt False) cs ts"
  using expands_weaken by (auto simp: list_all2_conv_all_nth)

lemma expands_new:
  assumes "flag_new ok"
  shows "expands ok db False False c t \<Longrightarrow> expands ok db rt False (ShortNode k c newFlag) (ShortNode k t newFlag)"
    and "list_all2 (expands ok db False False) cs ts \<Longrightarrow> expands ok db rt False (FullNode cs newFlag) (FullNode ts newFlag)"
  using assms by (auto simp: flag_new_def intro!: expands.Short expands.Full)

lemma expands_move:
  "flag_new ok \<Longrightarrow> expands ok db False q c t \<Longrightarrow> expands ok db rt False (ShortNode k c newFlag) (ShortNode k t newFlag)"
  by (rule expands_new(1) [OF _ expands_weaken])

lemma expands_attach: "flag_new ok \<Longrightarrow> expands ok db (rt \<and> k = []) False c t \<Longrightarrow> expands ok db rt False (attach k c) (attach k t)"
  by (auto simp: attach_def intro: expands_new)

lemma list_expands_update:
  "list_all2 (expands ok db rt q) cs ts \<Longrightarrow> expands ok db rt q c t \<Longrightarrow> list_all2 (expands ok db rt q) (cs[i := c]) (ts[i := t])"
  by (rule list_all2_update_cong)

lemma list_expands_Nil: "list_all2 (expands ok db rt q) (replicate n NilNode) (replicate n NilNode)"
  by (simp add: list_all2_conv_all_nth)

lemma fits_Cons: "fits t (x # k) \<longleftrightarrow> valid_key (x # k) \<and> (t = NilNode \<or> wfn t)"
  by (simp add: fits_def)

subsection \<open>Lookup\<close>

lemma tryGet_ok:
  "expands ok db rt q n t \<Longrightarrow> fits t (drop pos key) \<Longrightarrow> pos \<le> length key \<Longrightarrow>
   \<exists>n' d. tryGet db n key pos = Some (Inr (look t (drop pos key), n', d)) \<and> expands ok db rt q n' t"
proof (induction arbitrary: pos rule: expands.induct)
  case Nil
  show ?case by (subst tryGet.simps) auto
next
  case (Value v)
  then have "drop pos key = []" by (auto simp: fits_def split: if_splits)
  then show ?case by (subst tryGet.simps) auto
next
  case (Short q f c t rt k)
  show ?case
  proof (cases "take (length k) (drop pos key) = k")
    case True
    then obtain r where r: "drop pos key = k @ r" by (auto simp: take_eq_iff_append)
    have "wfn (ShortNode k t newFlag)" "valid_key (k @ r)" using Short.prems(1) r by (auto simp: fits_def split: if_splits)
    then have ft: "fits t r" by (rule fits_short)
    have l: "length key - pos = length k + length r" using arg_cong [OF r, of length] by simp
    have d: "drop (pos + length k) key = r" using arg_cong [OF r, of "drop (length k)"] by (simp add: add.commute)
    have "pos + length k \<le> length key" using l Short.prems(2) by linarith
    with ft d obtain n' d where "tryGet db c key (pos + length k) = Some (Inr (look t r, n', d))" "expands ok db False (q \<or> hashed_flag f) n' t"
      using Short.IH [of "pos + length k"] by auto
    moreover have "\<not> (length key - pos < length k \<or> k \<noteq> take (length k) (drop pos key))" using True l by simp
    ultimately show ?thesis
      using Short.hyps True r by (subst tryGet.simps) (auto intro: expands.Short)
  next
    case False
    with Short.hyps show ?thesis by (subst tryGet.simps) (auto intro: expands.Short)
  qed
next
  case (Full q f cs ts rt)
  then obtain x k where k: "drop pos key = x # k" by (cases "drop pos key") (auto simp: fits_def)
  then have p: "pos < length key" "key ! pos = x" "drop (pos + 1) key = k"
    by (metis drop_eq_Nil linorder_not_le list.simps(3), metis hd_drop_conv_nth drop_eq_Nil linorder_not_le list.sel(1) list.simps(3),
        metis drop_Suc Suc_eq_plus1 drop_tl list.sel(3))
  have w: "wfn (FullNode ts newFlag)" "valid_key (x # k)" using Full.prems(1) k by (auto simp: fits_Cons)
  note c = fits_child [OF w]
  have len: "length cs = length ts" using Full.IH by (auto simp: list_all2_conv_all_nth)
  from Full.IH c(1) have e: "expands ok db False (q \<or> hashed_flag f) (cs ! unat x) (ts ! unat x)" and
    IH: "fits (ts ! unat x) (drop p key) \<Longrightarrow> p \<le> length key \<Longrightarrow>
      \<exists>n' d. tryGet db (cs ! unat x) key p = Some (Inr (look (ts ! unat x) (drop p key), n', d)) \<and> expands ok db False (q \<or> hashed_flag f) n' (ts ! unat x)" for p
    by (auto simp: list_all2_conv_all_nth)
  from IH [of "pos + 1"] c(2) p obtain n' d where
    g: "tryGet db (cs ! unat x) key (pos + 1) = Some (Inr (look (ts ! unat x) k, n', d))" "expands ok db False (q \<or> hashed_flag f) n' (ts ! unat x)" by auto
  have "list_all2 (expands ok db False (q \<or> hashed_flag f)) cs ts" using Full.IH by (auto simp: list_all2_conv_all_nth)
  moreover from this g(2) have "list_all2 (expands ok db False (q \<or> hashed_flag f)) (cs[unat x := n']) ts"
    using list_expands_update [of ok db False "q \<or> hashed_flag f" cs ts n' "ts ! unat x" "unat x"] by simp
  ultimately show ?case
    using g(1) p c(1) len k Full.hyps by (subst tryGet.simps) (auto simp: child_ok_def intro: expands.Full)
next
  case (Hash h n rt q t)
  from Hash.IH [OF Hash.prems] Hash.hyps(1) show ?case
    by (subst tryGet.simps) (auto simp: resolveHash_def)
qed

subsection \<open>Insertion\<close>

lemma insert_Nil: "insert_node db NilNode prefix k v = Some (Inr (True, attach k v))"
  by (subst insert_node.simps) (simp add: attach_def)

lemma prefixLen_rest: "take (length p) k = p \<Longrightarrow> prefixLen k p = length p"
  by (simp add: prefixLen_full)

lemma insert_short_fork:
  assumes new: "flag_new ok" and a: "expands ok db False False c t" "wfn (ShortNode p t newFlag)" "valid_key key" "take (length p) key \<noteq> p"
  shows "\<exists>n'. insert_node db (ShortNode p c f) prefix key (ValueNode v) = Some (Inr (True, n')) \<and>
    expands ok db rt False n' (fork p key t v)"
proof -
  obtain q a ka b pb where
    e: "key = q @ a # ka" "p = q @ b # pb" "a \<noteq> b" "unat a < 17" "unat b < 17" "is_nibbles q" "valid_key (a # ka)"
    "fork p key t v =
      attach q (FullNode ((replicate 17 NilNode)[unat b := attach pb t, unat a := attach ka (ValueNode v)]) newFlag)"
    by (rule fork_cases [OF assms(3-5)])
  have m: "prefixLen (q @ a # ka) (q @ b # pb) = length q" using e(3) by (induction q) simp_all
  let ?cs = "\<lambda>c. (replicate 17 NilNode)[unat b := attach pb c, unat a := attach ka (ValueNode v)]"
  have "insert_node db (ShortNode p c f) prefix key (ValueNode v) = Some (Inr (True, attach q (FullNode (?cs c) newFlag)))"
    using e(4,5) by (subst insert_node.simps) (simp add: m e(1,2) insert_Nil child_ok_def Let_def attach_def [of q])
  moreover have "expands ok db rt False (attach q (FullNode (?cs c) newFlag)) (fork p key t v)"
    unfolding e(8) using a
    by (intro expands_attach [OF new] expands_new(2) [OF new] list_expands_update list_expands_Nil) simp_all
  ultimately show ?thesis by blast
qed

lemma insert_ok:
  assumes "v \<noteq> []" and new: "flag_new ok"
  shows "expands ok db rt q n t \<Longrightarrow> fits t key \<Longrightarrow>
    \<exists>d n'. insert_node db n prefix key (ValueNode v) = Some (Inr (d, n')) \<and> expands ok db rt False n' (ins t key v) \<and>
      (\<not> d \<longrightarrow> ins t key v = t)"
proof (induction arbitrary: key prefix rule: expands.induct)
  case Nil
  show ?case by (cases key) (auto simp: insert_Nil attach_def expands_new [OF new])
next
  case (Value w)
  then have "key = []" by (auto simp: fits_def split: if_splits)
  then show ?case by (subst insert_node.simps) auto
next
  case (Short q f c t rt p)
  from Short.prems obtain x k where k: "key = x # k" by (cases key) (auto simp: fits_def)
  have w: "wfn (ShortNode p t newFlag)" "valid_key key" using Short.prems k by (auto simp: fits_def)
  show ?case
  proof (cases "take (length p) key = p")
    case True
    then obtain r where r: "key = p @ r" by (auto simp: take_eq_iff_append)
    with w fits_short have "fits t r" by blast
    from Short.IH [OF this, of "prefix @ p"] obtain d n' where
      IH: "insert_node db c (prefix @ p) r (ValueNode v) = Some (Inr (d, n'))" "expands ok db False False n' (ins t r v)" "\<not> d \<longrightarrow> ins t r v = t"
      by blast
    have m: "prefixLen key p = length p" using True by (rule prefixLen_rest)
    have d: "drop (length p) key = r" using r by simp
    have i: "ins (ShortNode p t newFlag) key v = ShortNode p (ins t r v) newFlag" using True d unfolding k by simp
    have s: "insert_node db (ShortNode p c f) prefix key (ValueNode v) =
      Some (Inr (if d then (True, ShortNode p n' newFlag) else (False, ShortNode p c f)))"
      using k m IH(1) True d by (subst insert_node.simps) simp
    have "expands ok db rt False (ShortNode p n' newFlag) (ShortNode p (ins t r v) newFlag)" using IH(2) by (rule expands_new [OF new])
    with s IH(3) expands_weaken [OF new expands.Short [where ok = ok, OF Short.hyps]] show ?thesis
      unfolding i by (intro exI [of _ d] exI [of _ "if d then ShortNode p n' newFlag else ShortNode p c f"]) (cases d; simp)
  next
    case False
    from insert_short_fork [OF new expands_weaken [OF new Short.hyps(1)] w False, of f prefix v] obtain n' where
      "insert_node db (ShortNode p c f) prefix key (ValueNode v) = Some (Inr (True, n'))" "expands ok db rt False n' (fork p key t v)" by blast
    moreover have "ins (ShortNode p t newFlag) key v = fork p key t v" using False unfolding k by simp
    ultimately show ?thesis by auto
  qed
next
  case (Full q f cs ts rt)
  from Full.prems obtain x k where k: "key = x # k" by (cases key) (auto simp: fits_def)
  have w: "wfn (FullNode ts newFlag)" "valid_key (x # k)" using Full.prems k by (auto simp: fits_def)
  note c = fits_child [OF w]
  have len: "length cs = length ts" using Full.IH by (auto simp: list_all2_conv_all_nth)
  have e: "list_all2 (expands ok db False (q \<or> hashed_flag f)) cs ts" using Full.IH by (auto simp: list_all2_conv_all_nth)
  note e' = list_expands_weaken [OF new e]
  from Full.IH c(1) len have "\<exists>d n'. insert_node db (cs ! unat x) (prefix @ [x]) k (ValueNode v) = Some (Inr (d, n')) \<and>
      expands ok db False False n' (ins (ts ! unat x) k v) \<and> (\<not> d \<longrightarrow> ins (ts ! unat x) k v = ts ! unat x)"
    if "fits (ts ! unat x) k" using that by (simp add: list_all2_conv_all_nth)
  with c(2) obtain d n' where
    IH: "insert_node db (cs ! unat x) (prefix @ [x]) k (ValueNode v) = Some (Inr (d, n'))" "expands ok db False False n' (ins (ts ! unat x) k v)"
      "\<not> d \<longrightarrow> ins (ts ! unat x) k v = ts ! unat x"
    by blast
  have "insert_node db (FullNode cs f) prefix key (ValueNode v) =
      Some (Inr (if d then (True, FullNode (cs[unat x := n']) newFlag) else (False, FullNode cs f)))"
    using k c(1) len IH(1) by (subst insert_node.simps) (simp add: child_ok_def)
  moreover have "expands ok db rt False (FullNode (cs[unat x := n']) newFlag) (ins (FullNode ts newFlag) key v)"
    using k c(1) expands_new(2) [OF new list_expands_update [OF e' IH(2)]] by simp
  ultimately show ?case using IH(3) c(1) k expands_weaken [OF new expands.Full [where ok = ok, OF e Full.hyps]]
    by (intro exI [of _ d] exI [of _ "if d then FullNode (cs[unat x := n']) newFlag else FullNode cs f"]) (cases d; simp)
next
  case (Hash h n rt q t)
  from Hash.prems Hash.hyps(2,3) obtain x k where k: "key = x # k" by (cases key) (auto simp: fits_def split: if_splits)
  from Hash.IH [OF Hash.prems, of prefix] obtain d n' where
    IH: "insert_node db n prefix key (ValueNode v) = Some (Inr (d, n'))" "expands ok db rt False n' (ins t key v)" "\<not> d \<longrightarrow> ins t key v = t"
    by blast
  then have "insert_node db (HashNode h) prefix key (ValueNode v) = Some (Inr (if d then (True, n') else (False, n)))"
    using k Hash.hyps(1) by (subst insert_node.simps) (simp add: resolveHash_def)
  with IH(2,3) expands_weaken [OF new Hash.hyps(3)] show ?case by (intro exI [of _ d] exI [of _ "if d then n' else n"]) (cases d; simp)
qed

subsection \<open>Deletion\<close>

lemma reduce_pos_expands: "list_all2 (expands ok db False False) cs ts \<Longrightarrow> reduce_pos i pos cs = reduce_pos i pos ts"
proof (induction cs ts arbitrary: i pos rule: list_all2_induct)
  case (Cons c cs t ts)
  then have "c = NilNode \<longleftrightarrow> t = NilNode" by auto
  with Cons.IH show ?case by simp
qed simp

lemma reduce_pos_bound: "reduce_pos i pos cs \<le> max pos (int (i + length cs) - 1)"
proof (induction i pos cs rule: reduce_pos.induct)
  case (2 i pos cld cs)
  then show ?case by (auto simp: max_def split: if_splits)
qed simp

lemma delete_reduce_ok:
  assumes "list_all2 (expands ok db False False) cs ts" "length ts = 17" "almost_branch ts" and new: "flag_new ok"
  shows "\<exists>n'. delete_reduce db prefix cs = Inr (True, n') \<and> expands ok db rt False n' (del_reduce ts) \<and> (\<forall>h. n' \<noteq> HashNode h)"
proof -
  let ?pos = "reduce_pos 0 (- 1) ts"
  have p: "reduce_pos 0 (- 1) cs = ?pos" using assms(1) by (rule reduce_pos_expands)
  show ?thesis
  proof (cases "?pos \<ge> 0")
    case True
    let ?p = "nat ?pos"
    have lt: "?p < 17" using reduce_pos_bound [of 0 "- 1" ts] assms(2) True by simp
    then have e: "expands ok db False False (cs ! ?p) (ts ! ?p)" using assms(1,2) by (simp add: list_all2_conv_all_nth)
    show ?thesis
    proof (cases "?p = 16")
      case True
      then have "\<not> (\<exists>k c f. ts ! ?p = ShortNode k c f)" using assms(3) by (auto simp: almost_branch_def)
      then have "del_reduce ts = ShortNode [word_of_nat ?p] (ts ! ?p) newFlag"
        using \<open>?pos \<ge> 0\<close> by (auto simp: del_reduce_def Let_def split: node.splits)
      with True e \<open>?pos \<ge> 0\<close> p show ?thesis by (simp add: delete_reduce_def Let_def expands_new [OF new])
    next
      case False
      from e show ?thesis
      proof (cases rule: expands.cases)
        case (Hash h n)
        from Hash(4) show ?thesis
          by (cases rule: expands.cases)
            (use False Hash e \<open>?pos \<ge> 0\<close> p in \<open>auto simp: delete_reduce_def del_reduce_def resolve_def resolveHash_def Let_def intro: expands_move [OF new]\<close>)
      qed (use False e \<open>?pos \<ge> 0\<close> p in \<open>auto simp: delete_reduce_def del_reduce_def resolve_def Let_def intro: expands_move [OF new]\<close>)
    qed
  next
    case False
    with p assms(1) show ?thesis by (auto simp: delete_reduce_def del_reduce_def Let_def intro: expands_new(2) [OF new])
  qed
qed

lemma del_reduce_full:
  assumes "wfn (FullNode cs f)"
  shows "del_reduce cs = FullNode cs newFlag"
proof -
  from assms obtain i j where cs: "length cs = 17" "i < 17" "j < 17" "i \<noteq> j" "cs ! i \<noteq> NilNode" "cs ! j \<noteq> NilNode"
    by (auto elim: wfn_FullE)
  then have "reduce_pos 0 (- 1) cs = - 2"
    using reduce_pos_two [of "min i j" "max i j" cs 0] by (auto simp: min_def max_def split: if_splits)
  then show ?thesis by (simp add: del_reduce_def)
qed

lemma wfn_newFlag: "wfn (FullNode cs f) \<Longrightarrow> f = newFlag"
  by (auto elim: wfn_FullE)

lemma del_full:
  assumes "wfn (FullNode ts newFlag)" "valid_key (x # k)"
  shows "del (FullNode ts newFlag) (x # k) =
    (let c = del (ts ! unat x) k in if c = ts ! unat x then FullNode ts newFlag
     else if c \<noteq> NilNode then FullNode (ts[unat x := c]) newFlag else del_reduce (ts[unat x := NilNode]))"
proof -
  have "ts[unat x := NilNode] = ts" if "ts ! unat x = NilNode" using that by (metis list_update_id)
  then show ?thesis using fits_child(1) [OF assms] del_reduce_full [OF assms(1)] by (auto simp: Let_def)
qed

lemma delete_short_step:
  fixes p
  assumes "expands ok db False False n' t'" "wfn t'" "\<forall>h. n' \<noteq> HashNode h" and new: "flag_new ok"
  defines "m \<equiv> case n' of ShortNode k' v' f' \<Rightarrow> ShortNode (p @ k') v' newFlag | _ \<Rightarrow> ShortNode p n' newFlag"
  shows "expands ok db rt False m (case t' of ShortNode k' c' f' \<Rightarrow> ShortNode (p @ k') c' newFlag | c' \<Rightarrow> ShortNode p c' newFlag)"
    and "\<forall>h. m \<noteq> HashNode h"
  unfolding m_def using assms(1)
  by (cases rule: expands.cases; use assms in \<open>auto intro: expands_move [OF new]\<close>)+

lemma delete_ok:
  assumes new: "flag_new ok"
  shows "expands ok db rt q n t \<Longrightarrow> fits t key \<Longrightarrow>
    \<exists>d n'. delete_node db n prefix key = Some (Inr (d, n')) \<and> (if d then expands ok db rt False n' (del t key) \<and> (\<forall>h. n' \<noteq> HashNode h)
      else expands ok db rt False n' t \<and> del t key = t)"
proof (induction arbitrary: key prefix rule: expands.induct)
  case Nil
  show ?case by (subst delete_node.simps) auto
next
  case (Value w)
  then show ?case by (subst delete_node.simps) auto
next
  case (Short q f c t rt p)
  then have w: "wfn (ShortNode p t newFlag)" "valid_key key" by (auto simp: fits_def split: if_splits)
  show ?case
  proof (cases "take (length p) key = p")
    case True
    then obtain r where r: "key = p @ r" by (auto simp: take_eq_iff_append)
    have m: "prefixLen key p = length p" using True by (rule prefixLen_rest)
    show ?thesis
    proof (cases "r = []")
      case r0: True
      then show ?thesis using m r by (subst delete_node.simps) auto
    next
      case False
      with short_leaf_or_ext [OF w(1), of r] w(2) r obtain ts where
        t: "p \<noteq> []" "is_nibbles p" "valid_key r" "t = FullNode ts newFlag" "wfn t" by auto
      then have "fits t r" using False by (simp add: fits_def)
      from Short.IH [OF this, of "prefix @ p"] obtain d n' where
        IH: "delete_node db c (prefix @ p) r = Some (Inr (d, n'))"
          "if d then expands ok db False False n' (del t r) \<and> (\<forall>h. n' \<noteq> HashNode h) else expands ok db False False n' t \<and> del t r = t" by blast
      have dk: "drop (length p) key = r" "key \<noteq> p" "length key \<noteq> length p" using r False by simp_all
      have D: "del (ShortNode p t newFlag) key =
          (case del t r of ShortNode k' c' f' \<Rightarrow> ShortNode (p @ k') c' newFlag | c' \<Rightarrow> ShortNode p c' newFlag)"
        using True dk by simp
      have dn: "delete_node db (ShortNode p c f) prefix key =
          Some (Inr (if d then (True, case n' of ShortNode k' v' f' \<Rightarrow> ShortNode (p @ k') v' newFlag | _ \<Rightarrow> ShortNode p n' newFlag)
            else (False, ShortNode p c f)))"
        using m IH(1) True dk by (subst delete_node.simps) (auto split: node.splits)
      show ?thesis
      proof (cases d)
        case True
        have "wfn (del t r)"
          using del_spec [OF \<open>fits t r\<close>] False del_full_not_Nil [of ts newFlag r] t(4) by (auto simp: fits_def)
        with IH(2) True have "expands ok db False False n' (del t r)" "wfn (del t r)" "\<forall>h. n' \<noteq> HashNode h" by simp_all
        note s = delete_short_step [where p = p, OF this new]
        show ?thesis unfolding D dn if_P [OF True] by (intro exI conjI) (rule refl, simp only: if_True s simp_thms)
      next
        case False
        then have "delete_node db (ShortNode p c f) prefix key = Some (Inr (False, ShortNode p c f))" "del t r = t"
          using IH(2) dn by simp_all
        with D t(4) expands_weaken [OF new expands.Short [where ok = ok, OF Short.hyps]] show ?thesis by auto
      qed
    qed
  next
    case False
    moreover have "prefixLen key p < length p" using False prefixLen_le(2) [of key p] prefixLen_full [of key p] by linarith
    ultimately show ?thesis
      using expands_weaken [OF new expands.Short [where ok = ok, OF Short.hyps]] by (subst delete_node.simps) auto
  qed
next
  case (Full q f cs ts rt)
  then obtain x k where k: "key = x # k" by (cases key) (auto simp: fits_def)
  have w: "wfn (FullNode ts newFlag)" "valid_key (x # k)" using Full.prems k by (auto simp: fits_def)
  note c = fits_child [OF w]
  have len: "length cs = length ts" using Full.IH by (auto simp: list_all2_conv_all_nth)
  have e: "list_all2 (expands ok db False (q \<or> hashed_flag f)) cs ts" using Full.IH by (auto simp: list_all2_conv_all_nth)
  note e' = list_expands_weaken [OF new e]
  from Full.IH c(1) len have "\<exists>d n'. delete_node db (cs ! unat x) (prefix @ [x]) k = Some (Inr (d, n')) \<and>
      (if d then expands ok db False False n' (del (ts ! unat x) k) \<and> (\<forall>h. n' \<noteq> HashNode h)
       else expands ok db False False n' (ts ! unat x) \<and> del (ts ! unat x) k = ts ! unat x)"
    if "fits (ts ! unat x) k" using that by (simp add: list_all2_conv_all_nth)
  with c(2) obtain d n' where
    IH: "delete_node db (cs ! unat x) (prefix @ [x]) k = Some (Inr (d, n'))"
      "if d then expands ok db False False n' (del (ts ! unat x) k) \<and> (\<forall>h. n' \<noteq> HashNode h)
       else expands ok db False False n' (ts ! unat x) \<and> del (ts ! unat x) k = ts ! unat x"
    by blast
  let ?c = "del (ts ! unat x) k"
  let ?cs = "cs[unat x := n']"
  have dn: "delete_node db (FullNode cs f) prefix key =
      Some (if \<not> d then Inr (False, FullNode cs f)
        else if n' \<noteq> NilNode then Inr (True, FullNode ?cs newFlag) else delete_reduce db prefix ?cs)"
    using k c(1) len IH(1) by (subst delete_node.simps) (simp add: child_ok_def Let_def)
  show ?case
  proof (cases d)
    case False
    then show ?thesis using IH(2) dn k del_full [OF w] expands_weaken [OF new expands.Full [where ok = ok, OF e Full.hyps]] by (auto simp: Let_def)
  next
    case True
    then have en: "expands ok db False False n' ?c" using IH(2) by simp
    have D: "del (FullNode ts newFlag) key = (if ?c \<noteq> NilNode then FullNode (ts[unat x := ?c]) newFlag else del_reduce (ts[unat x := ?c]))"
      using k c(1) by (simp add: Let_def)
    have le: "list_all2 (expands ok db False False) ?cs (ts[unat x := ?c])" using e' en by (rule list_expands_update)
    show ?thesis
    proof (cases "?c = NilNode")
      case nil: True
      have "almost_branch (ts[unat x := ?c])" unfolding nil using w(1) valid_key_index [OF w(2)] by (rule branch_delete)
      moreover from this have "length (ts[unat x := ?c]) = 17" by (simp add: almost_branch_def)
      ultimately show ?thesis
        using delete_reduce_ok [OF le _ _ new, of prefix rt] dn D nil en True by auto
    next
      case False
      with en have "n' \<noteq> NilNode" by auto
      with False True dn D le show ?thesis by (auto intro: expands_new(2) [OF new])
    qed
  qed
next
  case (Hash h n rt q t)
  from Hash.IH [OF Hash.prems, of prefix] obtain d n' where
    IH: "delete_node db n prefix key = Some (Inr (d, n'))"
      "if d then expands ok db rt False n' (del t key) \<and> (\<forall>h. n' \<noteq> HashNode h) else expands ok db rt False n' t \<and> del t key = t" by blast
  then have "delete_node db (HashNode h) prefix key = Some (Inr (if d then (True, n') else (False, n)))"
    using Hash.hyps(1) by (subst delete_node.simps) (simp add: resolveHash_def)
  with IH(2) expands_weaken [OF new Hash.hyps(3)] show ?case by (auto split: if_splits)
qed

subsection \<open>The trie as a map from keys to values\<close>

definition trie_map :: "flagPred \<Rightarrow> nodeDb \<Rightarrow> trie \<Rightarrow> (bytes \<rightharpoonup> bytes) \<Rightarrow> bool" where
  "trie_map ok db T m \<longleftrightarrow>
     (\<exists>t. expands ok db True False (tr_root T) t \<and> (t = NilNode \<or> wfn t) \<and> (\<forall>k. look t (keybytesToHex k) = m k) \<and>
        (\<forall>h. look t h \<noteq> None \<longrightarrow> h \<in> range keybytesToHex))"

text \<open>The empty value deletes.\<close>

definition map_put :: "(bytes \<rightharpoonup> bytes) \<Rightarrow> bytes \<Rightarrow> bytes \<Rightarrow> (bytes \<rightharpoonup> bytes)" where
  "map_put m k v = m(k := (if v = [] then None else Some v))"

lemma valid_keybytes: "valid_key (keybytesToHex k)" "keybytesToHex k \<noteq> []"
  by (auto simp: keybytesToHex_def valid_key_last nibbles_of_nibbles)

lemma fits_root: "t = NilNode \<or> wfn t \<Longrightarrow> fits t (keybytesToHex k)"
  using valid_keybytes by (auto simp: fits_def)

lemma fits_rootD: "fits t (keybytesToHex k) \<Longrightarrow> t = NilNode \<or> wfn t"
  using valid_keybytes by (auto simp: fits_def)

lemma trie_map_empty: "tr_root T = NilNode \<Longrightarrow> trie_map ok db T Map.empty"
  unfolding trie_map_def by (rule exI [of _ NilNode]) simp

lemma TryGet_ok:
  assumes "trie_map ok db T m"
  shows "\<exists>T'. TryGet db T k = Some (Inr (m k, T')) \<and> trie_map ok db T' m"
proof -
  from assms obtain t where t: "expands ok db True False (tr_root T) t" "t = NilNode \<or> wfn t" "\<forall>k. look t (keybytesToHex k) = m k"
    "\<forall>h. look t h \<noteq> None \<longrightarrow> h \<in> range keybytesToHex" by (auto simp: trie_map_def)
  from tryGet_ok [OF t(1), of 0 "keybytesToHex k"] fits_root [OF t(2), of k] t(3) obtain n' d where
    g: "tryGet db (tr_root T) (keybytesToHex k) 0 = Some (Inr (m k, n', d))" "expands ok db True False n' t" by auto
  with t have "trie_map ok db (if d then T\<lparr>tr_root := n'\<rparr> else T) m" by (auto simp: trie_map_def)
  with g(1) show ?thesis by (simp add: TryGet_def)
qed

lemma map_of_trie_put:
  assumes "\<forall>k. look t (keybytesToHex k) = m k" "\<forall>h. look t h \<noteq> None \<longrightarrow> h \<in> range keybytesToHex"
    and "\<forall>h. look t' h = ((look t)(keybytesToHex k := x)) h"
  shows "\<forall>l. look t' (keybytesToHex l) = (m(k := x)) l" "\<forall>h. look t' h \<noteq> None \<longrightarrow> h \<in> range keybytesToHex"
  using assms by (auto simp: keybytesToHex_inj split: if_splits)

lemma trie_map_put:
  assumes "\<forall>k. look t (keybytesToHex k) = m k" "\<forall>h. look t h \<noteq> None \<longrightarrow> h \<in> range keybytesToHex"
    and "expands ok db True False n t'" "t' = NilNode \<or> wfn t'" "\<forall>h. look t' h = ((look t)(keybytesToHex k := x)) h"
  shows "trie_map ok db \<lparr>tr_root = n, unhashed = u\<rparr> (m(k := x))"
  unfolding trie_map_def
  using assms(3,4) map_of_trie_put [OF assms(1,2,5)] by (intro exI [of _ t'] conjI) simp_all

lemma delete_root:
  assumes "trie_map ok db T m" and new: "flag_new ok"
  shows "\<exists>d n. delete_node db (tr_root T) [] (keybytesToHex k) = Some (Inr (d, n)) \<and> (\<forall>u. trie_map ok db \<lparr>tr_root = n, unhashed = u\<rparr> (m(k := None)))"
proof -
  let ?k = "keybytesToHex k"
  from assms obtain t where t: "expands ok db True False (tr_root T) t" "t = NilNode \<or> wfn t" "\<forall>k. look t (keybytesToHex k) = m k"
    "\<forall>h. look t h \<noteq> None \<longrightarrow> h \<in> range keybytesToHex" by (auto simp: trie_map_def)
  note f = fits_root [OF t(2), of k]
  from delete_ok [OF new t(1) f, of "[]"] obtain d n where
    n: "delete_node db (tr_root T) [] ?k = Some (Inr (d, n))" "expands ok db True False n (del t ?k)" by (auto split: if_splits)
  from del_spec [OF f] fits_rootD have "del t ?k = NilNode \<or> wfn (del t ?k)" "\<forall>h. look (del t ?k) h = ((look t)(?k := None)) h" by blast+
  with n trie_map_put [OF t(3,4) n(2)] show ?thesis by blast
qed

lemma insert_root:
  assumes "trie_map ok db T m" "v \<noteq> []" and new: "flag_new ok"
  shows "\<exists>d n. insert_node db (tr_root T) [] (keybytesToHex k) (ValueNode v) = Some (Inr (d, n)) \<and>
    (\<forall>u. trie_map ok db \<lparr>tr_root = n, unhashed = u\<rparr> (m(k \<mapsto> v)))"
proof -
  let ?k = "keybytesToHex k"
  from assms obtain t where t: "expands ok db True False (tr_root T) t" "t = NilNode \<or> wfn t" "\<forall>k. look t (keybytesToHex k) = m k"
    "\<forall>h. look t h \<noteq> None \<longrightarrow> h \<in> range keybytesToHex" by (auto simp: trie_map_def)
  note f = fits_root [OF t(2), of k]
  from insert_ok [OF assms(2) new t(1) f, of "[]"] obtain d n where
    n: "insert_node db (tr_root T) [] ?k (ValueNode v) = Some (Inr (d, n))" "expands ok db True False n (ins t ?k v)" by blast
  from fits_ins [OF f assms(2)] look_ins [OF f assms(2)] fits_rootD
  have "ins t ?k v = NilNode \<or> wfn (ins t ?k v)" "\<forall>h. look (ins t ?k v) h = ((look t)(?k \<mapsto> v)) h" by blast+
  with n trie_map_put [OF t(3,4) n(2)] show ?thesis by blast
qed

lemma TryUpdate_ok:
  assumes "trie_map ok db T m" and new: "flag_new ok"
  shows "\<exists>T'. TryUpdate db T k v = Some (None, T') \<and> trie_map ok db T' (map_put m k v) \<and> unhashed T' = unhashed T + 1"
proof (cases "v = []")
  case True
  from delete_root [OF assms(1) new, of k] obtain d n where
    "delete_node db (tr_root T) [] (keybytesToHex k) = Some (Inr (d, n))" "\<And>u. trie_map ok db \<lparr>tr_root = n, unhashed = u\<rparr> (m(k := None))" by blast
  with True show ?thesis by (cases T) (simp add: TryUpdate_def Let_def map_put_def)
next
  case False
  from insert_root [OF assms(1) False new, of k] obtain d n where
    "insert_node db (tr_root T) [] (keybytesToHex k) (ValueNode v) = Some (Inr (d, n))"
    "\<And>u. trie_map ok db \<lparr>tr_root = n, unhashed = u\<rparr> (m(k \<mapsto> v))" by blast
  with False show ?thesis by (cases T) (simp add: TryUpdate_def Let_def map_put_def)
qed

lemma TryDelete_ok:
  assumes "trie_map ok db T m" and new: "flag_new ok"
  shows "\<exists>T'. TryDelete db T k = Some (None, T') \<and> trie_map ok db T' (m(k := None)) \<and> unhashed T' = unhashed T + 1"
proof -
  from delete_root [OF assms(1) new, of k] obtain d n where
    "delete_node db (tr_root T) [] (keybytesToHex k) = Some (Inr (d, n))" "\<And>u. trie_map ok db \<lparr>tr_root = n, unhashed = u\<rparr> (m(k := None))" by blast
  then show ?thesis by (cases T) (simp add: TryDelete_def Let_def)
qed

end
