(* ===== verification/Trie_Hash.thy ===== *)
theory Trie_Hash
  imports Trie_Refine Rlp_Raw Rlp_Encode
begin

text \<open>
  Root hashes of tries: the encoding of nodes (\<^verbatim>\<open>trie/node_enc.go\<close>), the hasher with its caches
  (\<^verbatim>\<open>trie/hasher.go\<close>) and \<^verbatim>\<open>Trie.Hash\<close>. Keccak-256 comes from outside of the repository and is
  the argument \<open>K\<close>.

  A hash that is cached in a node is right if it is the hash of the node's content; the root hash
  then only depends on the map the trie stands for, and determines it as long as no two of the node
  encodings collide.
\<close>

subsection \<open>Encoding\<close>

fun node_encode :: "node \<Rightarrow> encBuffer \<Rightarrow> encBuffer" where
  "node_encode NilNode w = eb_append w [0x80]"
| "node_encode (FullNode cs f) w = (case eb_list w of (w1, offset) \<Rightarrow> eb_listEnd (fold node_encode cs w1) offset)"
| "node_encode (ShortNode k v f) w =
     (case eb_list w of (w1, offset) \<Rightarrow> eb_listEnd (node_encode v (eb_writeBytes w1 k)) offset)"
| "node_encode (HashNode h) w = eb_writeBytes w h"
| "node_encode (ValueNode v) w = eb_writeBytes w v"

definition nodeToBytes :: "node \<Rightarrow> bytes" where
  "nodeToBytes n = makeBytes (node_encode n eb_reset)"

subsection \<open>The hasher\<close>

text \<open>
  \<^verbatim>\<open>shortnodeToHash\<close> and \<^verbatim>\<open>fullnodeToHash\<close>, which differ in their types only: a node of less than
  32 bytes is kept inside its parent.
\<close>

definition nodeToHash :: "(bytes \<Rightarrow> bytes) \<Rightarrow> node \<Rightarrow> bool \<Rightarrow> node" where
  "nodeToHash K n force =
     (let enc = nodeToBytes n in if length enc < 32 \<and> \<not> force then n else HashNode (K enc))"

definition cached_flag :: "node \<Rightarrow> nodeFlag \<Rightarrow> nodeFlag" where
  "cached_flag hashed f = f\<lparr>fl_hash := (case hashed of HashNode h \<Rightarrow> Some h | _ \<Rightarrow> None)\<rparr>"

text \<open>
  The result is the collapsed node and the node to keep. A full node hashes its first 16 children;
  in parallel, each goroutine writes the two places of its own index, which gives the same.
\<close>

function (sequential) hasher_hash :: "(bytes \<Rightarrow> bytes) \<Rightarrow> node \<Rightarrow> bool \<Rightarrow> node \<times> node" where
  "hasher_hash K (ShortNode k v f) force =
     (case fl_hash f of
        Some h \<Rightarrow> (HashNode h, ShortNode k v f)
      | None \<Rightarrow>
          (case (case v of
                   FullNode _ _ \<Rightarrow> hasher_hash K v False
                 | ShortNode _ _ _ \<Rightarrow> hasher_hash K v False
                 | _ \<Rightarrow> (v, v)) of
             (collapsedVal, cachedVal) \<Rightarrow>
               let hashed = nodeToHash K (ShortNode (hexToCompact k) collapsedVal f) force
               in (hashed, ShortNode k cachedVal (cached_flag hashed f))))"
| "hasher_hash K (FullNode cs f) force =
     (case fl_hash f of
        Some h \<Rightarrow> (HashNode h, FullNode cs f)
      | None \<Rightarrow>
          let rs = map (\<lambda>c. if c = NilNode then (ValueNode [], NilNode) else hasher_hash K c False) (take 16 cs);
              hashed = nodeToHash K (FullNode (map fst rs @ drop 16 cs) f) force
          in (hashed, FullNode (map snd rs @ drop 16 cs) (cached_flag hashed f)))"
| "hasher_hash K n force = (n, n)"
  by pat_completeness auto
termination
  by (relation "measure (\<lambda>(K, n, force). size n)") (auto dest!: in_set_takeD simp: less_Suc_eq_le trans_le_add1 size_list_estimation')

declare hasher_hash.simps [simp del]

text \<open>\<^verbatim>\<open>Trie.Hash\<close> with \<^verbatim>\<open>hashRoot\<close>; a root that does not become a hash node fails the type assertion.\<close>

definition trie_Hash :: "(bytes \<Rightarrow> bytes) \<Rightarrow> trie \<Rightarrow> bytes go \<times> trie" where
  "trie_Hash K t =
     (if tr_root t = NilNode then (Ret (BytesToHash emptyRoot), t)
      else
        (case hasher_hash K (tr_root t) True of
           (hashed, cached) \<Rightarrow>
             (case hashed of
                HashNode h \<Rightarrow> (Ret (BytesToHash h), t\<lparr>tr_root := cached, unhashed := 0\<rparr>)
              | _ \<Rightarrow> (Panicked, t\<lparr>tr_root := cached, unhashed := 0\<rparr>))))"

subsection \<open>Reference\<close>

text \<open>The node that is encoded for the root of a trie, with references in place of the subtries.\<close>

function (sequential) collapse :: "(bytes \<Rightarrow> bytes) \<Rightarrow> node \<Rightarrow> node" where
  "collapse K (ShortNode k c f) =
     ShortNode (hexToCompact k)
       (case c of
          FullNode _ _ \<Rightarrow> nodeToHash K (collapse K c) False
        | ShortNode _ _ _ \<Rightarrow> nodeToHash K (collapse K c) False
        | _ \<Rightarrow> c) newFlag"
| "collapse K (FullNode cs f) =
     FullNode (map (\<lambda>c. case c of
          FullNode _ _ \<Rightarrow> nodeToHash K (collapse K c) False
        | ShortNode _ _ _ \<Rightarrow> nodeToHash K (collapse K c) False
        | NilNode \<Rightarrow> ValueNode []
        | _ \<Rightarrow> c) (take 16 cs) @ drop 16 cs) newFlag"
| "collapse K n = n"
  by pat_completeness auto
termination
  by (relation "measure (\<lambda>(K, n). size n)") (auto dest!: in_set_takeD simp: less_Suc_eq_le trans_le_add1 size_list_estimation')

declare collapse.simps [simp del]

text \<open>The reference to a subtrie in its parent, and the hash node for a root.\<close>

definition ref :: "(bytes \<Rightarrow> bytes) \<Rightarrow> bool \<Rightarrow> node \<Rightarrow> node" where
  "ref K force c =
     (case c of
        FullNode _ _ \<Rightarrow> nodeToHash K (collapse K c) force
      | ShortNode _ _ _ \<Rightarrow> nodeToHash K (collapse K c) force
      | _ \<Rightarrow> c)"

lemma collapse_Short [simp]: "collapse K (ShortNode k c f) = ShortNode (hexToCompact k) (ref K False c) newFlag"
  by (simp add: collapse.simps ref_def)

lemma collapse_Full [simp]:
  "collapse K (FullNode cs f) =
     FullNode (map (\<lambda>c. if c = NilNode then ValueNode [] else ref K False c) (take 16 cs) @ drop 16 cs) newFlag"
  unfolding collapse.simps by (intro arg_cong2 [where f = FullNode] arg_cong2 [where f = append] map_cong refl)
    (auto simp: ref_def split: node.splits)

lemma ref_simps [simp]: "ref K b NilNode = NilNode" "ref K b (ValueNode v) = ValueNode v" "ref K b (HashNode h) = HashNode h"
  "ref K b (ShortNode k c f) = nodeToHash K (collapse K (ShortNode k c f)) b"
  "ref K b (FullNode cs f) = nodeToHash K (collapse K (FullNode cs f)) b"
  by (simp_all add: ref_def)

text \<open>The flags are not part of the encoding.\<close>

fun strip :: "node \<Rightarrow> node" where
  "strip (FullNode cs f) = FullNode (map strip cs) newFlag"
| "strip (ShortNode k c f) = ShortNode k (strip c) newFlag"
| "strip n = n"

lemma node_encode_strip [simp]: "node_encode (strip n) = node_encode n"
proof (induction n)
  case (FullNode cs f)
  have "fold (node_encode \<circ> strip) cs w = fold node_encode cs w" for w
    using FullNode by (intro fold_cong) simp_all
  then show ?case by (intro ext) (simp add: fold_map split: prod.split)
qed (auto intro!: ext split: prod.split)

lemma nodeToHash_strip: "strip (nodeToHash K n b) = nodeToHash K (strip n) b"
  by (simp add: nodeToHash_def nodeToBytes_def Let_def)

lemma expands_strip: "expands ok db r q n t \<Longrightarrow> strip t = t"
proof (induction rule: expands.induct)
  case (Full q f cs ts r)
  then have "\<forall>t \<in> set ts. strip t = t" by (auto simp: list_all2_conv_all_nth in_set_conv_nth)
  then show ?case by (simp add: map_idI)
qed simp_all

subsection \<open>The caches\<close>

definition merkle_ok :: "(bytes \<Rightarrow> bytes) \<Rightarrow> flagPred" where
  "merkle_ok K r q t f \<longleftrightarrow>
     (case fl_hash f of
        None \<Rightarrow> q \<longrightarrow> \<not> r \<and> length (nodeToBytes (collapse K t)) < 32
      | Some h \<Rightarrow> h = K (nodeToBytes (collapse K t)) \<and> (r \<or> 32 \<le> length (nodeToBytes (collapse K t))))"

lemma merkle_new: "flag_new (merkle_ok K)"
  by (auto simp: flag_new_def merkle_ok_def newFlag_def split: option.splits)

definition inner :: "node \<Rightarrow> bool" where
  "inner t \<longleftrightarrow> (\<exists>k c f cs. t = ShortNode k c f \<or> t = FullNode cs f)"

lemma inner_simps [simp]: "inner (ShortNode k c f)" "inner (FullNode cs f)" "\<not> inner NilNode" "\<not> inner (ValueNode v)" "\<not> inner (HashNode h)"
  by (auto simp: inner_def)

lemma ref_inner: "inner t \<Longrightarrow> ref K b t = nodeToHash K (collapse K t) b"
  by (auto simp: inner_def)

lemma merkle_ok_ref: "inner t \<Longrightarrow> merkle_ok K r q t f \<Longrightarrow> fl_hash f = Some h \<Longrightarrow> ref K r t = HashNode h"
  by (auto simp: ref_inner merkle_ok_def nodeToHash_def Let_def)

text \<open>
  What the hasher needs of a condition on flags: it implies that the cached hash is right, and it
  holds of the flag the hasher sets, as of a flag with a hash, at any depth.
\<close>

definition flag_hash :: "(bytes \<Rightarrow> bytes) \<Rightarrow> flagPred \<Rightarrow> bool" where
  "flag_hash K ok \<longleftrightarrow>
     (\<forall>r q t f. ok r q t f \<longrightarrow> merkle_ok K r q t f) \<and>
     (\<forall>r q t f. ok r q t f \<and> hashed_flag f \<longrightarrow> ok r True t f) \<and>
     (\<forall>r q t f hashed. ok r q t f \<and> fl_hash f = None \<and> inner t \<and> strip hashed = ref K r t \<longrightarrow> ok r True t (cached_flag hashed f))"

lemma flag_hashD:
  assumes "flag_hash K ok" "ok r q t f"
  shows "merkle_ok K r q t f" "hashed_flag f \<Longrightarrow> ok r True t f"
    "fl_hash f = None \<Longrightarrow> inner t \<Longrightarrow> strip hashed = ref K r t \<Longrightarrow> ok r True t (cached_flag hashed f)"
  using assms unfolding flag_hash_def by blast+

lemma merkle_ok_cached: "inner t \<Longrightarrow> strip hashed = ref K r t \<Longrightarrow> merkle_ok K r True t (cached_flag hashed f)"
  by (cases hashed) (auto simp: ref_inner merkle_ok_def cached_flag_def nodeToHash_def Let_def inner_def split: if_splits)

lemma merkle_hash: "flag_hash K (merkle_ok K)"
  using merkle_ok_cached by (auto simp: flag_hash_def merkle_ok_def hashed_flag_def split: option.splits)

lemma expands_hashed:
  assumes "flag_hash K ok" "expands ok db r q n t" "\<exists>k c f cs. hashed_flag f \<and> (n = ShortNode k c f \<or> n = FullNode cs f)"
  shows "expands ok db r True n t"
  using assms(2)
proof cases
  case (Short f c t k)
  with assms(3) flag_hashD(2) [OF assms(1) Short(4)] show ?thesis by (auto intro: expands.Short)
next
  case (Full f cs ts)
  with assms(3) flag_hashD(2) [OF assms(1) Full(4)] show ?thesis by (auto intro: expands.Full)
qed (use assms(3) in auto)

lemma collapse_inner: "inner t \<Longrightarrow> inner (collapse K t)"
  by (auto simp: inner_def)

text \<open>A subtrie of a canonical trie, or the value at a leaf.\<close>

definition sub :: "node \<Rightarrow> bool" where
  "sub t \<longleftrightarrow> wfn t \<or> (\<exists>v. t = ValueNode v)"

lemma sub_short: "sub (ShortNode k c f) \<Longrightarrow> sub c \<and> c \<noteq> NilNode"
  by (auto simp: sub_def elim: wfn_ShortE)

lemma sub_full:
  assumes "sub (FullNode cs f)"
  shows "length cs = 17" "i < 16 \<Longrightarrow> cs ! i \<noteq> NilNode \<Longrightarrow> sub (cs ! i)"
    "drop 16 cs = [NilNode] \<or> (\<exists>v. v \<noteq> [] \<and> drop 16 cs = [ValueNode v])"
proof -
  have cs: "length cs = 17" "\<forall>i < 16. cs ! i = NilNode \<or> wfn (cs ! i)"
    "cs ! 16 = NilNode \<or> (\<exists>v. v \<noteq> [] \<and> cs ! 16 = ValueNode v)"
    using assms by (auto simp: sub_def elim: wfn_FullE)
  show "length cs = 17" by (rule cs(1))
  show "i < 16 \<Longrightarrow> cs ! i \<noteq> NilNode \<Longrightarrow> sub (cs ! i)" using cs(2) by (auto simp: sub_def)
  have "drop 16 cs = [cs ! 16]" using cs(1) by (simp add: Cons_nth_drop_Suc [symmetric])
  with cs(3) show "drop 16 cs = [NilNode] \<or> (\<exists>v. v \<noteq> [] \<and> drop 16 cs = [ValueNode v])" by auto
qed

subsection \<open>The hasher computes the reference\<close>

definition hashed_ok :: "(bytes \<Rightarrow> bytes) \<Rightarrow> flagPred \<Rightarrow> nodeDb \<Rightarrow> bool \<Rightarrow> node \<Rightarrow> node \<Rightarrow> bool" where
  "hashed_ok K ok db r n t \<longleftrightarrow>
     strip (fst (hasher_hash K n r)) = ref K r t \<and> expands ok db r True (snd (hasher_hash K n r)) t"

lemma hasher_cached:
  assumes "fl_hash f = Some h"
  shows "hasher_hash K (ShortNode k v f) r = (HashNode h, ShortNode k v f)" "hasher_hash K (FullNode cs f) r = (HashNode h, FullNode cs f)"
  using assms by (simp_all add: hasher_hash.simps)

lemma hasher_short:
  assumes fh: "flag_hash K ok" and f: "ok r q (ShortNode k t newFlag) f" "fl_hash f = None"
    and v: "hashed_ok K ok db False v t" "v \<noteq> NilNode"
  shows "hashed_ok K ok db r (ShortNode k v f) (ShortNode k t newFlag)"
proof -
  let ?p = "hasher_hash K v False"
  let ?h = "nodeToHash K (ShortNode (hexToCompact k) (fst ?p) f) r"
  have "(case v of FullNode _ _ \<Rightarrow> ?p | ShortNode _ _ _ \<Rightarrow> ?p | _ \<Rightarrow> (v, v)) = ?p"
    using v(2) by (cases v) (simp_all add: hasher_hash.simps)
  then have h: "hasher_hash K (ShortNode k v f) r = (?h, ShortNode k (snd ?p) (cached_flag ?h f))"
    using f(2) by (subst hasher_hash.simps) (simp add: Let_def split: prod.split)
  have s: "strip ?h = ref K r (ShortNode k t newFlag)"
    using v(1) by (simp add: nodeToHash_strip hashed_ok_def)
  with v(1) flag_hashD(3) [OF fh f _ s] show ?thesis
    unfolding hashed_ok_def h by (simp add: expands.Short)
qed

lemma hasher_full:
  assumes fh: "flag_hash K ok" and f: "ok r q (FullNode ts newFlag) f" "fl_hash f = None"
    and t: "sub (FullNode ts newFlag)" and len: "length cs = 17"
    and el: "\<And>i. i < 17 \<Longrightarrow> expands ok db False q (cs ! i) (ts ! i)"
    and IH: "\<And>i. i < 16 \<Longrightarrow> ts ! i \<noteq> NilNode \<Longrightarrow> hashed_ok K ok db False (cs ! i) (ts ! i)"
  shows "hashed_ok K ok db r (FullNode cs f) (FullNode ts newFlag)"
proof -
  let ?g = "\<lambda>c. if c = NilNode then (ValueNode [], NilNode) else hasher_hash K c False"
  let ?rs = "map ?g (take 16 cs)"
  let ?h = "nodeToHash K (FullNode (map fst ?rs @ drop 16 cs) f) r"
  note ts = sub_full [OF t]
  have h: "hasher_hash K (FullNode cs f) r = (?h, FullNode (map snd ?rs @ drop 16 cs) (cached_flag ?h f))"
    using f(2) by (subst hasher_hash.simps) (simp add: Let_def)
  have nil: "cs ! i = NilNode \<longleftrightarrow> ts ! i = NilNode" if "i < 17" for i using el [OF that] by auto
  have last: "drop 16 cs = drop 16 ts" "map strip (drop 16 ts) = drop 16 ts"
    using el [of 16] ts(1,3) len by (auto simp: Cons_nth_drop_Suc [symmetric])
  have m: "map strip (map fst ?rs) = map (\<lambda>c. if c = NilNode then ValueNode [] else ref K False c) (take 16 ts)"
  proof (rule nth_equalityI)
    fix i assume "i < length (map strip (map fst ?rs))"
    then have "i < 16" by simp
    with nil [of i] IH [of i] len ts(1)
    show "map strip (map fst ?rs) ! i = map (\<lambda>c. if c = NilNode then ValueNode [] else ref K False c) (take 16 ts) ! i"
      by (auto simp: hashed_ok_def)
  qed (use len ts(1) in simp)
  have s: "strip ?h = ref K r (FullNode ts newFlag)"
    unfolding nodeToHash_strip using m last by simp
  have "list_all2 (expands ok db False True) (map snd ?rs @ drop 16 cs) ts"
  proof (rule list_all2_all_nthI)
    fix i assume "i < length (map snd ?rs @ drop 16 cs)"
    then have i: "i < 17" using len by simp
    show "expands ok db False True ((map snd ?rs @ drop 16 cs) ! i) (ts ! i)"
    proof (cases "i = 16")
      case True
      with el [OF i] ts(3) ts(1) len show ?thesis by (auto simp: nth_append Cons_nth_drop_Suc [symmetric])
    next
      case False
      with i nil [OF i] IH [of i] len show ?thesis by (auto simp: nth_append hashed_ok_def)
    qed
  qed (use len ts(1) in simp)
  with s flag_hashD(3) [OF fh f _ s] show ?thesis unfolding hashed_ok_def h by (simp add: expands.Full)
qed

lemma hasher_ok:
  assumes fh: "flag_hash K ok"
  shows "expands ok db r q n t \<Longrightarrow> sub t \<Longrightarrow> hashed_ok K ok db r n t"
proof (induction rule: expands.induct)
  case (Value r q v)
  then show ?case by (simp add: hashed_ok_def hasher_hash.simps)
next
  case (Short q f c t r k)
  then have e: "expands ok db r q (ShortNode k c f) (ShortNode k t newFlag)" by (simp add: expands.Short)
  show ?case
  proof (cases "fl_hash f")
    case None
    from sub_short [OF Short.prems] have "sub t" "t \<noteq> NilNode" by auto
    with None Short.IH Short.hyps show ?thesis by (intro hasher_short [OF fh]) auto
  next
    case (Some h)
    then have "hashed_flag f" by (simp add: hashed_flag_def)
    with expands_hashed [OF fh e] merkle_ok_ref [OF _ flag_hashD(1) [OF fh Short.hyps(2)] Some] show ?thesis
      by (simp add: hashed_ok_def hasher_cached [OF Some])
  qed
next
  case (Full q f cs ts r)
  have l: "list_all2 (expands ok db False (q \<or> hashed_flag f)) cs ts" using Full.IH by (auto simp: list_all2_conv_all_nth)
  then have e: "expands ok db r q (FullNode cs f) (FullNode ts newFlag)" using Full.hyps by (rule expands.Full)
  show ?case
  proof (cases "fl_hash f")
    case None
    note s = sub_full [OF Full.prems]
    from fh Full.hyps None Full.prems show ?thesis
      by (rule hasher_full) (use Full.IH s l None in \<open>auto simp: list_all2_conv_all_nth hashed_flag_def\<close>)
  next
    case (Some h)
    then have "hashed_flag f" by (simp add: hashed_flag_def)
    with expands_hashed [OF fh e] merkle_ok_ref [OF _ flag_hashD(1) [OF fh Full.hyps] Some]
    show ?thesis by (simp add: hashed_ok_def hasher_cached [OF Some])
  qed
next
  case (Hash h n r q t)
  then have "inner t" by (auto simp: sub_def inner_def elim: wfn.cases)
  have "expands ok db r True (HashNode h) t"
    using Hash.hyps(1,2) expands_hashed [OF fh Hash.hyps(3,2)] flag_hashD(2) [OF fh Hash.hyps(4)]
    by (intro expands.Hash) (simp_all add: hashed_flag_def)
  with merkle_ok_ref [OF \<open>inner t\<close> flag_hashD(1) [OF fh Hash.hyps(4)]] show ?case by (simp add: hashed_ok_def hasher_hash.simps)
qed (simp add: sub_def)

subsection \<open>Encodings and items\<close>

fun node_item :: "node \<Rightarrow> item" where
  "node_item NilNode = Str []"
| "node_item (FullNode cs f) = Lst (map node_item cs)"
| "node_item (ShortNode k v f) = Lst [Str k, node_item v]"
| "node_item (HashNode h) = Str h"
| "node_item (ValueNode v) = Str v"

lemma node_encode_emits: "length (rlp_enc (node_item n)) < 2 ^ 63 \<Longrightarrow> emits w (node_encode n w) (rlp_enc (node_item n))"
proof (induction n arbitrary: w)
  case NilNode
  show ?case using emits_append [of w "[0x80]"] by (simp add: rlp_string_def rlp_head_def)
next
  case (FullNode cs f)
  let ?e = "concat (map (rlp_enc \<circ> node_item) cs)"
  have e: "length ?e < 2 ^ 63" using FullNode.prems length_rlp_list [of ?e] by simp
  have step: "emits w1 (fold node_encode ds w1) (concat (map (rlp_enc \<circ> node_item) ds))" if "set ds \<subseteq> set cs" for ds w1
    using that
  proof (induction ds arbitrary: w1)
    case (Cons d ds)
    have "length (rlp_enc (node_item d)) \<le> length ?e" using Cons.prems by (intro length_concat_le) auto
    then have "emits w1 (node_encode d w1) (rlp_enc (node_item d))" using FullNode.IH [of d w1] e Cons.prems by simp
    with Cons.IH [of "node_encode d w1"] Cons.prems show ?case by (auto intro: emits_trans)
  qed (simp add: emits_refl)
  obtain w1 i where l: "eb_list w = (w1, i)" by (cases "eb_list w")
  with emits_list [OF l step [of cs w1] e] show ?case by simp
next
  case (ShortNode k v f)
  let ?e = "rlp_string k @ rlp_enc (node_item v)"
  have e: "length ?e < 2 ^ 63" using ShortNode.prems length_rlp_list [of ?e] by simp
  then have "length k < 2 ^ 63" using length_rlp_string [of k] by simp
  then have "emits w1 (eb_writeBytes w1 k) (rlp_string k)" for w1 by (simp add: eb_writeBytes_eq emits_append)
  then have step: "emits w1 (node_encode v (eb_writeBytes w1 k)) ?e" for w1 using ShortNode.IH e by (auto intro: emits_trans)
  obtain w1 i where l: "eb_list w = (w1, i)" by (cases "eb_list w")
  with emits_list [OF l step [of w1] e] show ?case by simp
qed (use length_rlp_string le_less_trans in \<open>fastforce simp: eb_writeBytes_eq emits_append\<close>)+

lemma nodeToBytes_item: "length (rlp_enc (node_item n)) < 2 ^ 63 \<Longrightarrow> nodeToBytes n = rlp_enc (node_item n)"
  unfolding nodeToBytes_def by (rule emits_makeBytes(3) [OF node_encode_emits])

lemma rlp_string_or_list: "length (rlp_string a @ r) < 2 ^ 63 \<Longrightarrow> rlp_string a @ r \<noteq> rlp_list c @ s"
proof
  assume l: "length (rlp_string a @ r) < 2 ^ 63" and e: "rlp_string a @ r = rlp_list c @ s"
  from SplitString_iff [OF l, of a r] have "SplitString (rlp_string a @ r) = Inr (a, r)" by simp
  moreover from SplitList_iff [OF l, of c s] e have "SplitList (rlp_string a @ r) = Inr (c, s)" by simp
  ultimately show False by (auto simp: SplitString_def SplitList_def split: sum.splits if_splits)
qed

lemma rlp_enc_prefix_free:
  "rlp_enc a @ r = rlp_enc b @ s \<Longrightarrow> length (rlp_enc a @ r) < 2 ^ 63 \<Longrightarrow> a = b \<and> r = s"
proof (induction a arbitrary: b r s)
  case (Str x)
  show ?case
  proof (cases b)
    case (Str y)
    with Str.prems SplitString_iff [of "rlp_string x @ r" x r] SplitString_iff [of "rlp_string x @ r" y s] show ?thesis by simp
  next
    case (Lst ys)
    with Str.prems rlp_string_or_list [of x r] show ?thesis by auto
  qed
next
  case (Lst xs)
  show ?case
  proof (cases b)
    case (Str y)
    with Lst.prems rlp_string_or_list [of y s] show ?thesis by (metis rlp_enc.simps)
  next
    case B: (Lst ys)
    let ?p = "\<lambda>l. concat (map rlp_enc l)"
    from Lst.prems B SplitList_iff [of "rlp_list (?p xs) @ r" "?p xs" r] SplitList_iff [of "rlp_list (?p xs) @ r" "?p ys" s]
    have eq: "?p xs = ?p ys" "r = s" by simp_all
    have small: "length (?p xs) < 2 ^ 63" using Lst.prems(2) length_rlp_list [of "?p xs"] by simp
    have "?p us = ?p vs \<Longrightarrow> set us \<subseteq> set xs \<Longrightarrow> length (?p us) < 2 ^ 63 \<Longrightarrow> us = vs" for us vs
    proof (induction us arbitrary: vs)
      case Nil
      then show ?case by (cases vs) simp_all
    next
      case (Cons u us)
      then obtain v vs' where vs: "vs = v # vs'" by (cases vs) simp_all
      from Lst.IH [of u "?p us" v "?p vs'"] Cons.prems vs have "u = v" "?p us = ?p vs'" by simp_all
      with Cons.IH [of vs'] Cons.prems vs show ?case by simp
    qed
    from this [OF eq(1) subset_refl small] eq(2) B show ?thesis by simp
  qed
qed

lemma rlp_enc_inj: "rlp_enc a = rlp_enc b \<Longrightarrow> length (rlp_enc a) < 2 ^ 63 \<Longrightarrow> a = b"
  using rlp_enc_prefix_free [of a "[]" b "[]"] by simp

subsection \<open>The root hash binds the content\<close>

definition node_enc :: "(bytes \<Rightarrow> bytes) \<Rightarrow> node \<Rightarrow> bytes" where
  "node_enc K t = rlp_enc (node_item (collapse K t))"

text \<open>The encodings of the nodes of a trie.\<close>

fun encs :: "(bytes \<Rightarrow> bytes) \<Rightarrow> node \<Rightarrow> bytes set" where
  "encs K (ShortNode k c f) = insert (node_enc K (ShortNode k c f)) (encs K c)"
| "encs K (FullNode cs f) = insert (node_enc K (FullNode cs f)) (\<Union>c \<in> set cs. encs K c)"
| "encs K n = {}"

text \<open>They fit into a slice, and no two of them have the same hash.\<close>

definition no_collision :: "(bytes \<Rightarrow> bytes) \<Rightarrow> bytes set \<Rightarrow> bool" where
  "no_collision K S \<longleftrightarrow> inj_on K S \<and> (\<forall>e \<in> S. length e < 2 ^ 63)"

lemma encs_self: "inner t \<Longrightarrow> node_enc K t \<in> encs K t"
  by (auto simp: inner_def)

lemma node_enc_inj:
  assumes "no_collision K S" "inner t" "encs K t \<subseteq> S" "node_enc K t = node_enc K t'"
  shows "node_item (collapse K t) = node_item (collapse K t')"
proof (rule rlp_enc_inj)
  have "node_enc K t \<in> S" using encs_self [OF assms(2), of K] assms(3) by blast
  then show "length (rlp_enc (node_item (collapse K t))) < 2 ^ 63"
    using assms(1) unfolding no_collision_def node_enc_def by blast
qed (use assms(4) in \<open>simp add: node_enc_def\<close>)

lemma nodeToBytes_enc: "no_collision K S \<Longrightarrow> inner t \<Longrightarrow> encs K t \<subseteq> S \<Longrightarrow> nodeToBytes (collapse K t) = node_enc K t"
  using encs_self [of t K] by (auto simp: no_collision_def node_enc_def intro!: nodeToBytes_item)

lemma ref_item:
  assumes "no_collision K S" "inner t" "encs K t \<subseteq> S"
  shows "node_item (ref K False t) = (if length (node_enc K t) < 32 then node_item (collapse K t) else Str (K (node_enc K t)))"
  using nodeToBytes_enc [OF assms] by (simp add: ref_inner [OF assms(2)] nodeToHash_def)

lemma collapse_item: "inner t \<Longrightarrow> \<exists>xs. node_item (collapse K t) = Lst xs"
  by (auto simp: inner_def)

lemma ref_item_inj:
  assumes "no_collision K S" "inner t" "encs K t \<subseteq> S" "inner t'" "encs K t' \<subseteq> S"
    and eq: "node_item (ref K False t) = node_item (ref K False t')"
  shows "node_item (collapse K t) = node_item (collapse K t')"
proof -
  obtain xs ys where l: "node_item (collapse K t) = Lst xs" "node_item (collapse K t') = Lst ys"
    using collapse_item [OF assms(2)] collapse_item [OF assms(4)] by blast
  have "node_enc K t \<in> S" "node_enc K t' \<in> S" using encs_self assms(2-5) by blast+
  then have "K (node_enc K t) = K (node_enc K t') \<longleftrightarrow> node_enc K t = node_enc K t'"
    using assms(1) by (auto simp: no_collision_def inj_on_def)
  with eq l node_enc_inj [OF assms(1,2,3), of t'] show ?thesis
    unfolding ref_item [OF assms(1,2,3)] ref_item [OF assms(1,4,5)]
    by (cases "length (node_enc K t) < 32"; cases "length (node_enc K t') < 32") simp_all
qed

lemma hex_key_valid: "valid_key k \<Longrightarrow> hex_key k" "is_nibbles k \<Longrightarrow> hex_key k"
  by (auto simp: valid_key_last hex_key_def)

lemma hexToCompact_inj: "hex_key k \<Longrightarrow> hex_key k' \<Longrightarrow> hexToCompact k = hexToCompact k' \<Longrightarrow> k = k'"
  by (metis compactToHex_hexToCompact)

lemma wfn_inner: "wfn t \<Longrightarrow> inner t"
  by (auto elim: wfn.cases)

lemma short_item_inj:
  assumes "wfn (ShortNode k c f)" "wfn t'"
    and "node_item (collapse K (ShortNode k c f)) = node_item (collapse K t')"
  obtains c' where "t' = ShortNode k c' newFlag" "f = newFlag" "(\<exists>v. c = ValueNode v) \<longleftrightarrow> (\<exists>v. c' = ValueNode v)"
    "node_item (ref K False c) = node_item (ref K False c')" "inner c \<longrightarrow> wfn c" "inner c' \<longrightarrow> wfn c'"
proof -
  from assms(2) obtain k' c' where t': "t' = ShortNode k' c' newFlag"
  proof (cases rule: wfn.cases)
    case (Branch cs i j)
    then have "length (map (\<lambda>c. if c = NilNode then ValueNode [] else ref K False c) (take 16 cs) @ drop 16 cs) = 17" by simp
    with assms(3) Branch(1) show ?thesis by (auto dest!: arg_cong [of _ _ length])
  qed auto
  have e: "hexToCompact k = hexToCompact k'" "node_item (ref K False c) = node_item (ref K False c')"
    using assms(3) t' by simp_all
  have h: "hex_key k" "hex_key k'" using assms(1,2) t' by (auto elim!: wfn_ShortE intro: hex_key_valid)
  then have k: "k = k'" using e(1) by (rule hexToCompact_inj)
  have "(\<exists>v. c = ValueNode v) \<longleftrightarrow> (\<exists>v. c' = ValueNode v)"
    using assms(1,2) t' k by (auto elim!: wfn_ShortE simp: valid_key_last)
  with that t' k e(2) assms(1,2) show thesis by (auto elim!: wfn_ShortE)
qed

lemma full_item_inj:
  assumes "wfn (FullNode cs f)" "wfn t'"
    and "node_item (collapse K (FullNode cs f)) = node_item (collapse K t')"
  obtains cs' where "t' = FullNode cs' newFlag" "length cs' = 17" "cs' ! 16 = cs ! 16"
    "\<And>i. i < 16 \<Longrightarrow> node_item (if cs ! i = NilNode then ValueNode [] else ref K False (cs ! i)) =
       node_item (if cs' ! i = NilNode then ValueNode [] else ref K False (cs' ! i))"
    "\<And>i. i < 16 \<Longrightarrow> cs' ! i = NilNode \<or> wfn (cs' ! i)"
proof -
  let ?g = "\<lambda>c. if c = NilNode then ValueNode [] else ref K False c"
  have cs: "length cs = 17" "cs ! 16 = NilNode \<or> (\<exists>v. v \<noteq> [] \<and> cs ! 16 = ValueNode v)" using assms(1) by (auto elim: wfn_FullE)
  from assms(2) obtain cs' where t': "t' = FullNode cs' newFlag"
  proof (cases rule: wfn.cases)
    case (Leaf k v)
    with assms(3) cs(1) show ?thesis by (auto dest!: arg_cong [of _ _ length])
  next
    case (Ext k ds)
    with assms(3) cs(1) show ?thesis by (auto dest!: arg_cong [of _ _ length])
  qed auto
  have cs': "length cs' = 17" "cs' ! 16 = NilNode \<or> (\<exists>v. v \<noteq> [] \<and> cs' ! 16 = ValueNode v)"
    "\<And>i. i < 16 \<Longrightarrow> cs' ! i = NilNode \<or> wfn (cs' ! i)" using assms(2) t' by (auto elim: wfn_FullE)
  have m: "map node_item (map ?g (take 16 cs) @ drop 16 cs) ! i = map node_item (map ?g (take 16 cs') @ drop 16 cs') ! i" for i
    using assms(3) t' by simp
  have "node_item (cs ! 16) = node_item (cs' ! 16)" using m [of 16] cs(1) cs'(1) by (simp add: nth_append)
  then have "cs' ! 16 = cs ! 16" using cs(2) cs'(2) by auto
  moreover have "node_item (?g (cs ! i)) = node_item (?g (cs' ! i))" if "i < 16" for i
    using m [of i] that cs(1) cs'(1) by (simp add: nth_append)
  ultimately show thesis using that t' cs' by blast
qed

lemma collapse_inj:
  assumes K: "no_collision K S" "\<And>e. length (K e) = 32"
  shows "wfn t \<Longrightarrow> wfn t' \<Longrightarrow> encs K t \<subseteq> S \<Longrightarrow> encs K t' \<subseteq> S \<Longrightarrow>
    node_item (collapse K t) = node_item (collapse K t') \<Longrightarrow> t = t'"
proof (induction arbitrary: t' rule: wfn.induct)
  case (Leaf k v)
  have "wfn (ShortNode k (ValueNode v) newFlag)" using Leaf.hyps by (rule wfn.Leaf)
  from this Leaf.prems(1,4) show ?case by (rule short_item_inj) auto
next
  case (Ext k cs)
  have "wfn (ShortNode k (FullNode cs newFlag) newFlag)" using Ext.hyps by (rule wfn.Ext)
  then obtain c' where c': "t' = ShortNode k c' newFlag" "\<not> (\<exists>v. c' = ValueNode v)"
    "node_item (ref K False (FullNode cs newFlag)) = node_item (ref K False c')" "inner c' \<longrightarrow> wfn c'"
    using Ext.prems(1,4) by (rule short_item_inj) auto
  then have w: "wfn c'" using Ext.prems(1) by (auto elim: wfn_ShortE)
  have s: "encs K (FullNode cs newFlag) \<subseteq> S" "encs K c' \<subseteq> S" using Ext.prems(2,3) c'(1) by auto
  have "node_item (collapse K (FullNode cs newFlag)) = node_item (collapse K c')"
    using K(1) _ s(1) wfn_inner [OF w] s(2) c'(3) by (rule ref_item_inj) simp
  with Ext.IH [OF w s] c'(1) show ?case by simp
next
  case (Branch cs i j)
  have sub: "\<forall>i < 16. cs ! i = NilNode \<or> wfn (cs ! i)" using Branch.IH by blast
  have "wfn (FullNode cs newFlag)" by (rule wfn.Branch [OF Branch.hyps(1) sub Branch.hyps(2-)])
  from this Branch.prems(1,4) obtain cs' where c': "t' = FullNode cs' newFlag" "length cs' = 17" "cs' ! 16 = cs ! 16"
    "\<And>i. i < 16 \<Longrightarrow> node_item (if cs ! i = NilNode then ValueNode [] else ref K False (cs ! i)) =
       node_item (if cs' ! i = NilNode then ValueNode [] else ref K False (cs' ! i))"
    "\<And>i. i < 16 \<Longrightarrow> cs' ! i = NilNode \<or> wfn (cs' ! i)"
    by (rule full_item_inj) blast
  have "cs ! i = cs' ! i" if "i < 17" for i
  proof (cases "i = 16")
    case False
    with that have i: "i < 16" by simp
    have s: "encs K (cs ! i) \<subseteq> S" "encs K (cs' ! i) \<subseteq> S"
      using Branch.prems(2,3) c'(1,2) Branch.hyps(1) that by (auto simp: UN_subset_iff)
    have nil: "node_item (ref K False c) \<noteq> Str []" if "wfn c" "encs K c \<subseteq> S" for c
      using that ref_item [OF K(1) wfn_inner [OF that(1)] that(2)] collapse_item [OF wfn_inner [OF that(1)], of K] K(2)
      by (auto split: if_splits dest!: arg_cong [of _ _ length])
    show ?thesis
    proof (cases "cs ! i = NilNode \<or> cs' ! i = NilNode")
      case True
      with c'(4) [OF i] c'(5) [OF i] sub i nil [OF _ s(1)] nil [OF _ s(2)] show ?thesis by (auto split: if_splits)
    next
      case False
      with sub c'(5) [OF i] i have w: "wfn (cs ! i)" "wfn (cs' ! i)" by auto
      have "node_item (collapse K (cs ! i)) = node_item (collapse K (cs' ! i))"
        using K(1) wfn_inner [OF w(1)] s(1) wfn_inner [OF w(2)] s(2) by (rule ref_item_inj) (use c'(4) [OF i] False in simp)
      with Branch.IH i w s False show ?thesis by blast
    qed
  qed (use c'(3) in simp)
  with c'(1,2) Branch.hyps(1) show ?case by (simp add: nth_equalityI)
qed

lemma collapse_item_not_Nil:
  assumes "inner t"
  shows "node_enc K t \<noteq> [0x80]"
proof
  assume e: "node_enc K t = [0x80]"
  have n: "rlp_enc (Str []) = [0x80]" by (simp add: rlp_string_def rlp_head_def)
  obtain xs where "node_item (collapse K t) = Lst xs" using collapse_item [OF assms] by blast
  with e have "rlp_enc (Str []) = rlp_enc (Lst xs)" unfolding n node_enc_def by simp
  then have "Str [] = Lst xs" by (rule rlp_enc_inj) (simp only: n, simp)
  then show False by simp
qed

subsection \<open>The trie\<close>

definition root_hash :: "(bytes \<Rightarrow> bytes) \<Rightarrow> node \<Rightarrow> bytes" where
  "root_hash K t = (if t = NilNode then emptyRoot else K (nodeToBytes (collapse K t)))"

lemma BytesToHash_id: "length h = 32 \<Longrightarrow> BytesToHash h = h"
  by (simp add: BytesToHash_def)

lemma Hash_ok:
  assumes fh: "flag_hash K ok" and e: "expands ok db True q (tr_root T) t" and w: "t = NilNode \<or> wfn t"
  obtains T' where "trie_Hash K T = (Ret (BytesToHash (root_hash K t)), T')" "expands ok db True True (tr_root T') t"
proof (cases "t = NilNode")
  case True
  with e that [of T] show thesis by (simp add: trie_Hash_def root_hash_def expands.Nil)
next
  case False
  with e w have w: "wfn t" "tr_root T \<noteq> NilNode" by auto
  from hasher_ok [OF fh e] w(1) have h: "hashed_ok K ok db True (tr_root T) t" by (simp add: sub_def)
  obtain n c where p: "hasher_hash K (tr_root T) True = (n, c)" by (cases "hasher_hash K (tr_root T) True")
  from h p ref_inner [OF wfn_inner [OF w(1)], of K True]
  have "strip n = HashNode (K (nodeToBytes (collapse K t)))" "expands ok db True True c t"
    by (simp_all add: hashed_ok_def nodeToHash_def Let_def)
  moreover from this(1) have "n = HashNode (K (nodeToBytes (collapse K t)))" by (cases n) simp_all
  ultimately show thesis
    using that [of "T\<lparr>tr_root := c, unhashed := 0\<rparr>"] w(2) p False by (simp add: trie_Hash_def root_hash_def)
qed

lemma trie_Hash_ok:
  assumes "flag_new ok" "flag_hash K ok" "trie_map ok db T m"
  shows "\<exists>h T'. trie_Hash K T = (Ret h, T') \<and> trie_map ok db T' m"
proof -
  from assms obtain t where t: "expands ok db True False (tr_root T) t" "t = NilNode \<or> wfn t" "\<forall>k. look t (keybytesToHex k) = m k"
    "\<forall>h. look t h \<noteq> None \<longrightarrow> h \<in> range keybytesToHex" by (auto simp: trie_map_def)
  from assms(2) t(1,2) obtain T' where "trie_Hash K T = (Ret (BytesToHash (root_hash K t)), T')" "expands ok db True True (tr_root T') t"
    by (rule Hash_ok)
  moreover from expands_weaken [OF assms(1) this(2)] t(2-) have "trie_map ok db T' m" unfolding trie_map_def by blast
  ultimately show ?thesis by blast
qed

lemma look_determines:
  assumes "\<forall>k. look t (keybytesToHex k) = m k" "\<forall>h. look t h \<noteq> None \<longrightarrow> h \<in> range keybytesToHex"
    and "\<forall>k. look t' (keybytesToHex k) = m k" "\<forall>h. look t' h \<noteq> None \<longrightarrow> h \<in> range keybytesToHex"
    and "t = NilNode \<or> wfn t" "t' = NilNode \<or> wfn t'"
  shows "t = t'"
proof -
  have l: "look t h = look t' h" for h
    using assms(1-4) by (cases "h \<in> range keybytesToHex") (auto, metis option.exhaust)
  then have "look t = look t'" by (rule ext)
  with assms(5,6) wfn_dom [of t] wfn_dom [of t'] canonical [of t t'] show ?thesis by (auto simp: fun_eq_iff)
qed

lemma root_hash_inj:
  assumes "t = NilNode \<or> wfn t" "t' = NilNode \<or> wfn t'" "\<And>e. length (K e) = 32" "K [0x80] = emptyRoot"
    and S: "no_collision K S" "[0x80] \<in> S" "encs K t \<subseteq> S" "encs K t' \<subseteq> S"
    and eq: "root_hash K t = root_hash K t'"
  shows "t = t'"
proof -
  have E: "root_hash K u = K (if u = NilNode then [0x80] else node_enc K u)" "(if u = NilNode then [0x80] else node_enc K u) \<in> S"
    if "u = NilNode \<or> wfn u" "encs K u \<subseteq> S" for u
    using that nodeToBytes_enc [OF S(1), of u] wfn_inner [of u] encs_self [of u K] assms(4) S(2) by (auto simp: root_hash_def)
  from eq have "(if t = NilNode then [0x80] else node_enc K t) = (if t' = NilNode then [0x80] else node_enc K t')"
    unfolding E(1) [OF assms(1) S(3)] E(1) [OF assms(2) S(4)]
    using S(1) E(2) [OF assms(1) S(3)] E(2) [OF assms(2) S(4)] by (simp add: no_collision_def inj_on_def)
  then show ?thesis
    using assms(1,2) collapse_item_not_Nil [OF wfn_inner, of t K] collapse_item_not_Nil [OF wfn_inner, of t' K]
      node_enc_inj [OF S(1) wfn_inner S(3), of t'] collapse_inj [OF S(1) assms(3) _ _ S(3,4)] by (auto split: if_splits)
qed

subsection \<open>Key-value stores\<close>

text \<open>
  What the users of a trie rely on: it behaves as a map under every sequence of operations. An
  operation that fails, or does not return, is \<open>None\<close>.
\<close>

datatype kvOp = KvGet bytes | KvUpdate bytes bytes | KvDelete bytes | KvHash

fun kv_run ::
  "('s \<Rightarrow> bytes \<Rightarrow> (bytes option \<times> 's) option) \<Rightarrow> ('s \<Rightarrow> bytes \<Rightarrow> bytes \<Rightarrow> 's option) \<Rightarrow> ('s \<Rightarrow> bytes \<Rightarrow> 's option) \<Rightarrow>
   ('s \<Rightarrow> 's option) \<Rightarrow> 's \<Rightarrow> kvOp list \<Rightarrow> (bytes option list \<times> 's) option" where
  "kv_run get put rem hash s [] = Some ([], s)"
| "kv_run get put rem hash s (KvGet k # ops) =
     (case get s k of
        None \<Rightarrow> None
      | Some (v, s) \<Rightarrow> map_option (\<lambda>(vs, s). (v # vs, s)) (kv_run get put rem hash s ops))"
| "kv_run get put rem hash s (KvUpdate k v # ops) =
     (case put s k v of None \<Rightarrow> None | Some s \<Rightarrow> kv_run get put rem hash s ops)"
| "kv_run get put rem hash s (KvDelete k # ops) =
     (case rem s k of None \<Rightarrow> None | Some s \<Rightarrow> kv_run get put rem hash s ops)"
| "kv_run get put rem hash s (KvHash # ops) =
     (case hash s of None \<Rightarrow> None | Some s \<Rightarrow> kv_run get put rem hash s ops)"

fun map_run :: "(bytes \<rightharpoonup> bytes) \<Rightarrow> kvOp list \<Rightarrow> bytes option list \<times> (bytes \<rightharpoonup> bytes)" where
  "map_run m [] = ([], m)"
| "map_run m (KvGet k # ops) = (case map_run m ops of (vs, m') \<Rightarrow> (m k # vs, m'))"
| "map_run m (KvUpdate k v # ops) = map_run (map_put m k v) ops"
| "map_run m (KvDelete k # ops) = map_run (m(k := None)) ops"
| "map_run m (KvHash # ops) = map_run m ops"

locale kv_store =
  fixes rep :: "'s \<Rightarrow> (bytes \<rightharpoonup> bytes) \<Rightarrow> bool"
    and get :: "'s \<Rightarrow> bytes \<Rightarrow> (bytes option \<times> 's) option"
    and put :: "'s \<Rightarrow> bytes \<Rightarrow> bytes \<Rightarrow> 's option"
    and rem :: "'s \<Rightarrow> bytes \<Rightarrow> 's option"
    and hash :: "'s \<Rightarrow> 's option"
  assumes get_rep: "rep s m \<Longrightarrow> \<exists>s'. get s k = Some (m k, s') \<and> rep s' m"
    and put_rep: "rep s m \<Longrightarrow> \<exists>s'. put s k v = Some s' \<and> rep s' (map_put m k v)"
    and del_rep: "rep s m \<Longrightarrow> \<exists>s'. rem s k = Some s' \<and> rep s' (m(k := None))"
    and hash_rep: "rep s m \<Longrightarrow> \<exists>s'. hash s = Some s' \<and> rep s' m"
begin

lemma run_rep:
  assumes "rep s m"
  shows "\<exists>s'. kv_run get put rem hash s ops = Some (fst (map_run m ops), s') \<and> rep s' (snd (map_run m ops))"
  using assms
proof (induction ops arbitrary: s m)
  case (Cons oper ops)
  show ?case
  proof (cases oper)
    case (KvGet k)
    with get_rep [OF Cons.prems, of k] Cons.IH show ?thesis by (fastforce split: prod.split)
  next
    case (KvUpdate k v)
    with put_rep [OF Cons.prems, of k v] Cons.IH show ?thesis by fastforce
  next
    case (KvDelete k)
    with del_rep [OF Cons.prems, of k] Cons.IH show ?thesis by fastforce
  next
    case KvHash
    with hash_rep [OF Cons.prems] Cons.IH show ?thesis by fastforce
  qed
qed simp

end

definition trie_get :: "nodeDb \<Rightarrow> trie \<Rightarrow> bytes \<Rightarrow> (bytes option \<times> trie) option" where
  "trie_get db t k = (case TryGet db t k of Some (Inr r) \<Rightarrow> Some r | _ \<Rightarrow> None)"

definition trie_put :: "nodeDb \<Rightarrow> trie \<Rightarrow> bytes \<Rightarrow> bytes \<Rightarrow> trie option" where
  "trie_put db t k v = (case TryUpdate db t k v of Some (None, t') \<Rightarrow> Some t' | _ \<Rightarrow> None)"

definition trie_del :: "nodeDb \<Rightarrow> trie \<Rightarrow> bytes \<Rightarrow> trie option" where
  "trie_del db t k = (case TryDelete db t k of Some (None, t') \<Rightarrow> Some t' | _ \<Rightarrow> None)"

definition trie_hashed :: "(bytes \<Rightarrow> bytes) \<Rightarrow> trie \<Rightarrow> trie option" where
  "trie_hashed K t = (case trie_Hash K t of (Ret _, t') \<Rightarrow> Some t' | _ \<Rightarrow> None)"

interpretation trie_kv: kv_store "trie_map (merkle_ok K) db" "trie_get db" "trie_put db" "trie_del db" "trie_hashed K"
  for K db
proof unfold_locales
  fix T m k v
  assume a: "trie_map (merkle_ok K) db T m"
  show "\<exists>s'. trie_get db T k = Some (m k, s') \<and> trie_map (merkle_ok K) db s' m"
    using TryGet_ok [OF a, of k] by (auto simp: trie_get_def)
  show "\<exists>s'. trie_put db T k v = Some s' \<and> trie_map (merkle_ok K) db s' (map_put m k v)"
    using TryUpdate_ok [OF a merkle_new, of k v] by (auto simp: trie_put_def)
  show "\<exists>s'. trie_del db T k = Some s' \<and> trie_map (merkle_ok K) db s' (m(k := None))"
    using TryDelete_ok [OF a merkle_new, of k] by (auto simp: trie_del_def)
  show "\<exists>s'. trie_hashed K T = Some s' \<and> trie_map (merkle_ok K) db s' m"
    using trie_Hash_ok [OF merkle_new merkle_hash a] by (auto simp: trie_hashed_def)
qed

subsection \<open>Properties\<close>

text \<open>
  C1: a trie is a map. Any sequence of lookups, updates, deletions and root hashes on a trie that
  stands for a map, some of its nodes loaded and some only known by hash, returns without error,
  gives the results of the same sequence on the map, and leaves a trie that stands for the map's
  final state, with right hashes in all caches. The empty trie stands for the empty map.
\<close>

theorem trie_refines_map:
  assumes "trie_map (merkle_ok K) db T m"
  shows "\<exists>T'. kv_run (trie_get db) (trie_put db) (trie_del db) (trie_hashed K) T ops = Some (fst (map_run m ops), T') \<and>
    trie_map (merkle_ok K) db T' (snd (map_run m ops))"
  using assms by (rule trie_kv.run_rep)

theorem trie_refines_map_witness:
  "\<exists>T'. kv_run (trie_get (\<lambda>_. None)) (trie_put (\<lambda>_. None)) (trie_del (\<lambda>_. None)) (trie_hashed (\<lambda>_. replicate 32 0))
      \<lparr>tr_root = NilNode, unhashed = 0\<rparr> [KvUpdate [1] [7], KvUpdate [0x12] [8], KvHash, KvGet [1], KvDelete [1], KvGet [1], KvGet [0x12]] =
    Some ([Some [7], None, Some [8]], T')"
  using trie_refines_map [OF trie_map_empty, of "\<lparr>tr_root = NilNode, unhashed = 0\<rparr>" "\<lambda>_. None" "\<lambda>_. replicate 32 0"
      "[KvUpdate [1] [7], KvUpdate [0x12] [8], KvHash, KvGet [1], KvDelete [1], KvGet [1], KvGet [0x12]]"]
  by (auto simp: map_put_def)

text \<open>The encodings of the nodes of a trie, loaded or not.\<close>

definition trie_encs :: "(bytes \<Rightarrow> bytes) \<Rightarrow> nodeDb \<Rightarrow> trie \<Rightarrow> bytes set" where
  "trie_encs K db T = (\<Union>t \<in> {t. expands (merkle_ok K) db True False (tr_root T) t}. encs K t)"

text \<open>
  C2: the root hash is a commitment to the content. Two tries, whatever the histories that led to
  them and whatever is cached or not loaded in them, have the same root hash if and only if they
  stand for the same map, provided the hash function has no collision among the encodings of their
  nodes (and the known hash of the empty trie is the hash of the empty string's encoding).
\<close>

theorem trie_root_commits:
  assumes "trie_map (merkle_ok K) db T m" "trie_map (merkle_ok K) db' T' m'"
    and "\<And>e. length (K e) = 32" "K [0x80] = emptyRoot"
    and "no_collision K ({[0x80]} \<union> trie_encs K db T \<union> trie_encs K db' T')"
  shows "fst (trie_Hash K T) = fst (trie_Hash K T') \<longleftrightarrow> m = m'"
proof -
  let ?S = "{[0x80]} \<union> trie_encs K db T \<union> trie_encs K db' T'"
  from assms(1) obtain t where t: "expands (merkle_ok K) db True False (tr_root T) t" "t = NilNode \<or> wfn t" "\<forall>k. look t (keybytesToHex k) = m k"
    "\<forall>h. look t h \<noteq> None \<longrightarrow> h \<in> range keybytesToHex" by (auto simp: trie_map_def)
  from assms(2) obtain t' where t': "expands (merkle_ok K) db' True False (tr_root T') t'" "t' = NilNode \<or> wfn t'"
    "\<forall>k. look t' (keybytesToHex k) = m' k" "\<forall>h. look t' h \<noteq> None \<longrightarrow> h \<in> range keybytesToHex" by (auto simp: trie_map_def)
  have sub: "encs K t \<subseteq> ?S" "encs K t' \<subseteq> ?S" using t(1) t'(1) by (auto simp: trie_encs_def)
  have id: "BytesToHash (root_hash K u) = root_hash K u" for u
    using assms(3) [of "[0x80]"] assms(3,4) by (intro BytesToHash_id) (simp add: root_hash_def)
  have "fst (trie_Hash K T) = Ret (root_hash K t)" "fst (trie_Hash K T') = Ret (root_hash K t')"
    using Hash_ok [OF merkle_hash t(1,2)] Hash_ok [OF merkle_hash t'(1,2)] id by (metis fst_conv)+
  moreover have "t = t' \<longleftrightarrow> m = m'" using look_determines [OF t(3,4) _ _ t(2), of t'] t' t(3) by auto
  moreover have "t = t'" if "root_hash K t = root_hash K t'"
    using t(2) t'(2) assms(3,4,5) _ sub that by (rule root_hash_inj) simp
  ultimately show ?thesis by auto
qed

text \<open>A hash function that keeps 32 bytes of its argument.\<close>

definition toyHash :: "bytes \<Rightarrow> bytes" where
  "toyHash b = (if b = [0x80] then emptyRoot else take 32 (b @ replicate 32 0))"

lemma toyHash_simps: "length (toyHash b) = 32" "toyHash [0x80] = emptyRoot"
  by (auto simp: toyHash_def emptyRoot_def)

lemma expands_leaf: "expands ok db r q (ShortNode k (ValueNode v) f) t \<longleftrightarrow> t = ShortNode k (ValueNode v) newFlag \<and> ok r q t f"
  by (auto elim!: expands.cases [of ok db r q "ShortNode k (ValueNode v) f"] elim: expands.cases [of ok db False _ "ValueNode v"]
      intro!: expands.Short expands.Value)

theorem trie_root_commits_witness:
  "fst (trie_Hash toyHash \<lparr>tr_root = NilNode, unhashed = 0\<rparr>) =
     fst (trie_Hash toyHash \<lparr>tr_root = ShortNode [0, 1, 16] (ValueNode [7]) newFlag, unhashed = 1\<rparr>) \<longleftrightarrow>
   Map.empty = [[1 :: byte] \<mapsto> [7 :: byte]]"
proof -
  let ?T = "\<lparr>tr_root = NilNode, unhashed = 0\<rparr>"
  let ?T' = "\<lparr>tr_root = ShortNode [0, 1, 16] (ValueNode [7]) newFlag, unhashed = 1\<rparr>"
  let ?db = "\<lambda>_. None :: node option"
  have e: "trie_map (merkle_ok toyHash) ?db ?T Map.empty" by (rule trie_map_empty) simp
  have "TryUpdate ?db ?T [1] [7] = Some (None, ?T')"
    by (simp add: TryUpdate_def insert_Nil attach_def keybytesToHex_def)
  with TryUpdate_ok [OF e merkle_new, of "[1]" "[7]"] have m: "trie_map (merkle_ok toyHash) ?db ?T' [[1] \<mapsto> [7]]"
    by (auto simp: map_put_def)
  have "trie_encs toyHash ?db ?T = {}" by (simp add: trie_encs_def)
  moreover have "trie_encs toyHash ?db ?T' = {[0xC4, 0x82, 0x20, 0x01, 0x07]}"
    using merkle_new [of toyHash]
    by (auto simp: trie_encs_def expands_leaf flag_new_def node_enc_def hexToCompact_def hasTerm_def rlp_list_def rlp_string_def rlp_head_def)
  ultimately have "no_collision toyHash ({[0x80]} \<union> trie_encs toyHash ?db ?T \<union> trie_encs toyHash ?db ?T')"
    by (simp add: no_collision_def toyHash_def emptyRoot_def)
  with e m toyHash_simps show ?thesis by (rule trie_root_commits)
qed

end
