(* ===== verification/Trie_Store.thy ===== *)
theory Trie_Store
  imports Trie_Hash
begin

text \<open>
  Tries on disk: decoding of nodes (\<^verbatim>\<open>trie/node.go\<close>), the node cache of the trie database with its
  compact node form (\<^verbatim>\<open>trie/database.go\<close>), and the committer (\<^verbatim>\<open>trie/committer.go\<close>).

  What is shown: a node that is encoded and decoded is the node the cache gives back, and a trie that
  is committed can be opened again by its root hash and then stands for the same map.
\<close>

subsection \<open>Decoding\<close>

datatype decError =
    decRlp rlpError
  | decCount nat
  | decOversized nat
  | decStringSize nat
  | decUnexpectedEOF
  | decOutOfFuel

definition cleanFlag :: "bytes option \<Rightarrow> nodeFlag" where
  "cleanFlag hash = \<lparr>fl_hash = hash, fl_dirty = False\<rparr>"

text \<open>The functions call each other; \<open>dec\<close> is \<^verbatim>\<open>decodeNode(nil, _)\<close>.\<close>

definition decodeRef :: "(bytes \<Rightarrow> decError + node) \<Rightarrow> bytes \<Rightarrow> decError + node \<times> bytes" where
  "decodeRef dec buf =
     (case Split buf of
        Inl err \<Rightarrow> Inl (decRlp err)
      | Inr (kind, val, rest) \<Rightarrow>
          if kind = List then
            (let size = length buf - length rest
             in if size > 32 then Inl (decOversized size)
                else (case dec buf of Inl err \<Rightarrow> Inl err | Inr n \<Rightarrow> Inr (n, rest)))
          else if kind = String \<and> length val = 0 then Inr (NilNode, rest)
          else if kind = String \<and> length val = 32 then Inr (HashNode val, rest)
          else Inl (decStringSize (length val)))"

definition decodeShort :: "(bytes \<Rightarrow> decError + node) \<Rightarrow> bytes option \<Rightarrow> bytes \<Rightarrow> decError + node" where
  "decodeShort dec hash elems =
     (case SplitString elems of
        Inl err \<Rightarrow> Inl (decRlp err)
      | Inr (kbuf, rest) \<Rightarrow>
          let key = compactToHex kbuf
          in if hasTerm key then
               (case SplitString rest of
                  Inl err \<Rightarrow> Inl (decRlp err)
                | Inr (val, _) \<Rightarrow> Inr (ShortNode key (ValueNode val) (cleanFlag hash)))
             else
               (case decodeRef dec rest of
                  Inl err \<Rightarrow> Inl err
                | Inr (r, _) \<Rightarrow> Inr (ShortNode key r (cleanFlag hash))))"

fun decodeChildren :: "(bytes \<Rightarrow> decError + node) \<Rightarrow> nat \<Rightarrow> bytes \<Rightarrow> decError + node list \<times> bytes" where
  "decodeChildren dec 0 elems = Inr ([], elems)"
| "decodeChildren dec (Suc i) elems =
     (case decodeRef dec elems of
        Inl err \<Rightarrow> Inl err
      | Inr (cld, rest) \<Rightarrow>
          (case decodeChildren dec i rest of Inl err \<Rightarrow> Inl err | Inr (cs, rest) \<Rightarrow> Inr (cld # cs, rest)))"

definition decodeFull :: "(bytes \<Rightarrow> decError + node) \<Rightarrow> bytes option \<Rightarrow> bytes \<Rightarrow> decError + node" where
  "decodeFull dec hash elems =
     (case decodeChildren dec 16 elems of
        Inl err \<Rightarrow> Inl err
      | Inr (cs, elems) \<Rightarrow>
          (case SplitString elems of
             Inl err \<Rightarrow> Inl (decRlp err)
           | Inr (val, _) \<Rightarrow> Inr (FullNode (cs @ [if length val > 0 then ValueNode val else NilNode]) (cleanFlag hash))))"

text \<open>
  An embedded node is shorter than the node around it, so the length of the input bounds the depth.
  \<^verbatim>\<open>CountValues\<close> gives 0 with an error.
\<close>

fun decodeNode_fuel :: "nat \<Rightarrow> bytes option \<Rightarrow> bytes \<Rightarrow> decError + node" where
  "decodeNode_fuel 0 hash buf = Inl decOutOfFuel"
| "decodeNode_fuel (Suc n) hash buf =
     (if length buf = 0 then Inl decUnexpectedEOF
      else
        (case SplitList buf of
           Inl err \<Rightarrow> Inl (decRlp err)
         | Inr (elems, _) \<Rightarrow>
             let c = (case CountValues elems of Some (Inr c) \<Rightarrow> c | _ \<Rightarrow> 0)
             in if c = 2 then decodeShort (decodeNode_fuel n None) hash elems
                else if c = 17 then decodeFull (decodeNode_fuel n None) hash elems
                else Inl (decCount c)))"

definition decodeNode :: "bytes option \<Rightarrow> bytes \<Rightarrow> decError + node" where
  "decodeNode hash buf = decodeNode_fuel (Suc (length buf)) hash buf"

definition mustDecodeNode :: "bytes \<Rightarrow> bytes \<Rightarrow> node go" where
  "mustDecodeNode hash buf = (case decodeNode (Some hash) buf of Inl err \<Rightarrow> Panicked | Inr n \<Rightarrow> Ret n)"

subsection \<open>The node cache\<close>

text \<open>
  \<^verbatim>\<open>rawFullNode\<close>, \<^verbatim>\<open>rawShortNode\<close> and \<^verbatim>\<open>rawNode\<close> (an encoded node); nodes without caches and flags.
\<close>

datatype rnode = RNil | RFull "rnode list" | RShort bytes rnode | RHash bytes | RValue bytes | RBlob bytes

text \<open>A missing child is kept; there is no node to simplify or expand for a missing node itself.\<close>

fun simplifyNode :: "node \<Rightarrow> rnode go" where
  "simplifyNode (ShortNode k v f) = go_bind (simplifyNode v) (\<lambda>v. Ret (RShort k v))"
| "simplifyNode (FullNode cs f) =
     go_bind (go_map (\<lambda>c. if c \<noteq> NilNode then simplifyNode c else Ret RNil) cs) (\<lambda>cs. Ret (RFull cs))"
| "simplifyNode (ValueNode v) = Ret (RValue v)"
| "simplifyNode (HashNode h) = Ret (RHash h)"
| "simplifyNode NilNode = Panicked"

fun expandNode :: "bytes option \<Rightarrow> rnode \<Rightarrow> node go" where
  "expandNode hash (RShort k v) = go_bind (expandNode None v) (\<lambda>v. Ret (ShortNode (compactToHex k) v (cleanFlag hash)))"
| "expandNode hash (RFull cs) =
     go_bind (go_map (\<lambda>c. if c \<noteq> RNil then expandNode None c else Ret NilNode) cs) (\<lambda>cs. Ret (FullNode cs (cleanFlag hash)))"
| "expandNode hash (RValue v) = Ret (ValueNode v)"
| "expandNode hash (RHash h) = Ret (HashNode h)"
| "expandNode hash RNil = Panicked"
| "expandNode hash (RBlob b) = Panicked"

fun rnode_encode :: "rnode \<Rightarrow> encBuffer \<Rightarrow> encBuffer" where
  "rnode_encode RNil w = eb_append w [0x80]"
| "rnode_encode (RFull cs) w = (case eb_list w of (w1, offset) \<Rightarrow> eb_listEnd (fold rnode_encode cs w1) offset)"
| "rnode_encode (RShort k v) w =
     (case eb_list w of (w1, offset) \<Rightarrow> eb_listEnd (rnode_encode v (eb_writeBytes w1 k)) offset)"
| "rnode_encode (RHash h) w = eb_writeBytes w h"
| "rnode_encode (RValue v) w = eb_writeBytes w v"
| "rnode_encode (RBlob b) w = eb_append w b"

text \<open>The node is \<open>RNil\<close> for the meta root, \<^verbatim>\<open>children\<close> is \<open>None\<close> until it is first used.\<close>

record cachedNode =
  cn_node :: rnode
  cn_size :: "16 word"
  parents :: "32 word"
  cn_children :: "(bytes, 16 word) gomap option"
  flushPrev :: bytes
  flushNext :: bytes

definition cn_rlp :: "cachedNode \<Rightarrow> bytes go" where
  "cn_rlp n =
     (case cn_node n of
        RBlob b \<Rightarrow> Ret b
      | RNil \<Rightarrow> Panicked
      | r \<Rightarrow> Ret (makeBytes (rnode_encode r eb_reset)))"

definition cn_obj :: "cachedNode \<Rightarrow> bytes \<Rightarrow> node go" where
  "cn_obj n hash = (case cn_node n of RBlob b \<Rightarrow> mustDecodeNode hash b | r \<Rightarrow> expandNode (Some hash) r)"

text \<open>The hashes the callback is called with, in this order.\<close>

function (sequential) forGatherChildren :: "rnode \<Rightarrow> bytes list" where
  "forGatherChildren (RShort k v) = forGatherChildren v"
| "forGatherChildren (RFull cs) = concat (map forGatherChildren (take 16 cs))"
| "forGatherChildren (RHash h) = [BytesToHash h]"
| "forGatherChildren r = []"
  by pat_completeness auto
termination
  by (relation "measure size") (auto dest!: in_set_takeD simp: less_Suc_eq_le size_list_estimation')

text \<open>\<^verbatim>\<open>children\<close> is ranged over in the order of the seed.\<close>

definition forChilds :: "seed \<Rightarrow> cachedNode \<Rightarrow> bytes list" where
  "forChilds sd n =
     (case cn_children n of None \<Rightarrow> [] | Some m \<Rightarrow> map fst (gomap_range sd m)) @
     (case cn_node n of RBlob b \<Rightarrow> [] | r \<Rightarrow> forGatherChildren r)"

subsection \<open>Decoding ends\<close>

lemma Split_shorter:
  assumes "Split b = Inr (k, c, r)" "length b < 2 ^ 63"
  shows "length r < length b" "length c \<le> length b" "k = List \<Longrightarrow> length c < length b"
proof -
  from assms have b: "b = frame k c @ r" "frame_ok k c" by (simp_all add: Split_iff)
  have "frame k c \<noteq> []" using b(2) by (cases k) (auto simp: frame_def frame_ok_def)
  then show "length r < length b" using b(1) by simp
  show "length c \<le> length b" using b(1) by (cases k) (simp_all add: frame_def rlp_list_def)
  show "k = List \<Longrightarrow> length c < length b" using b(1) by (simp add: frame_def rlp_list_def rlp_head_def)
qed

lemma SplitList_shorter: "SplitList b = Inr (c, r) \<Longrightarrow> length b < 2 ^ 63 \<Longrightarrow> length c < length b"
  by (auto simp: SplitList_def split: sum.splits if_splits dest: Split_shorter(3))

lemma SplitString_shorter: "SplitString b = Inr (c, r) \<Longrightarrow> length b < 2 ^ 63 \<Longrightarrow> length r < length b"
  by (auto simp: SplitString_def split: sum.splits if_splits dest: Split_shorter(1))

lemma decodeRef_shorter: "decodeRef dec b = Inr (n, r) \<Longrightarrow> length b < 2 ^ 63 \<Longrightarrow> length r < length b"
  by (auto simp: decodeRef_def Let_def split: sum.splits if_splits dest: Split_shorter(1))

lemma decodeRef_cong:
  assumes "\<And>b. length b \<le> n \<Longrightarrow> dec b = dec' b" "length buf \<le> n"
  shows "decodeRef dec buf = decodeRef dec' buf"
  unfolding decodeRef_def assms(1) [OF assms(2)] ..

lemma decodeChildren_cong:
  assumes "\<And>b. length b \<le> n \<Longrightarrow> dec b = dec' b" "length buf \<le> n" "n < 2 ^ 63"
  shows "decodeChildren dec i buf = decodeChildren dec' i buf"
  using assms(2)
proof (induction i arbitrary: buf)
  case (Suc i)
  have eq: "decodeRef dec buf = decodeRef dec' buf" using assms(1) Suc.prems by (rule decodeRef_cong)
  show ?case
  proof (cases "decodeRef dec' buf")
    case (Inr p)
    obtain c r where p: "p = (c, r)" by fastforce
    have "length r < length buf" using Inr p Suc.prems assms(3) by (intro decodeRef_shorter [of dec']) simp_all
    with Suc.IH [of r] Suc.prems have "decodeChildren dec i r = decodeChildren dec' i r" by simp
    with eq Inr p show ?thesis by simp
  qed (simp add: eq)
qed simp

lemma decodeFull_cong:
  assumes "\<And>b. length b \<le> n \<Longrightarrow> dec b = dec' b" "length buf \<le> n" "n < 2 ^ 63"
  shows "decodeFull dec hash buf = decodeFull dec' hash buf"
  using decodeChildren_cong [OF assms] by (simp add: decodeFull_def)

lemma decodeShort_cong:
  assumes d: "\<And>b. length b \<le> n \<Longrightarrow> dec b = dec' b" and l: "length buf \<le> n" "n < 2 ^ 63"
  shows "decodeShort dec hash buf = decodeShort dec' hash buf"
proof (cases "SplitString buf")
  case (Inr p)
  obtain k r where p: "p = (k, r)" by fastforce
  have "length r < length buf" using Inr p l by (intro SplitString_shorter) simp_all
  with l have "decodeRef dec r = decodeRef dec' r" by (intro decodeRef_cong [where n = n, OF d]) linarith+
  with Inr p show ?thesis by (simp add: decodeShort_def Let_def)
qed (simp add: decodeShort_def)

lemma decodeNode_fuel_enough:
  "length buf < n \<Longrightarrow> length buf < m \<Longrightarrow> length buf < 2 ^ 63 \<Longrightarrow> decodeNode_fuel n hash buf = decodeNode_fuel m hash buf"
proof (induction n arbitrary: m hash buf)
  case (Suc n)
  then obtain m' where m: "m = Suc m'" by (cases m) simp_all
  show ?case
  proof (cases "SplitList buf")
    case (Inr p)
    obtain c r where p: "p = (c, r)" by fastforce
    have c: "length c < length buf" using Inr p Suc.prems(3) by (intro SplitList_shorter) simp_all
    have eq: "decodeNode_fuel n None b = decodeNode_fuel m' None b" if "length b \<le> length c" for b
      using Suc.IH [of b m' None] that c Suc.prems m by simp
    note cong = decodeShort_cong [where n = "length c", OF eq] decodeFull_cong [where n = "length c", OF eq]
    have "decodeShort (decodeNode_fuel n None) hash c = decodeShort (decodeNode_fuel m' None) hash c"
      "decodeFull (decodeNode_fuel n None) hash c = decodeFull (decodeNode_fuel m' None) hash c"
      using c Suc.prems(3) by (intro cong; simp)+
    with Inr p show ?thesis by (simp add: m Let_def)
  qed (simp add: m)
qed simp

text \<open>The recursion as the source has it.\<close>

lemma decodeNode_unfold:
  assumes "length buf < 2 ^ 63"
  shows "decodeNode hash buf =
     (if length buf = 0 then Inl decUnexpectedEOF
      else
        (case SplitList buf of
           Inl err \<Rightarrow> Inl (decRlp err)
         | Inr (elems, _) \<Rightarrow>
             let c = (case CountValues elems of Some (Inr c) \<Rightarrow> c | _ \<Rightarrow> 0)
             in if c = 2 then decodeShort (decodeNode None) hash elems
                else if c = 17 then decodeFull (decodeNode None) hash elems
                else Inl (decCount c)))"
proof (cases "SplitList buf")
  case (Inr p)
  obtain c r where p: "p = (c, r)" by fastforce
  have c: "length c < length buf" using Inr p assms by (intro SplitList_shorter) simp_all
  have eq: "decodeNode_fuel (length buf) None b = decodeNode None b" if "length b \<le> length c" for b
    unfolding decodeNode_def using that c assms by (intro decodeNode_fuel_enough) simp_all
  note cong = decodeShort_cong [where n = "length c", OF eq] decodeFull_cong [where n = "length c", OF eq]
  have "decodeShort (decodeNode_fuel (length buf) None) hash c = decodeShort (decodeNode None) hash c"
    "decodeFull (decodeNode_fuel (length buf) None) hash c = decodeFull (decodeNode None) hash c"
    using c assms by (intro cong; simp)+
  with Inr p show ?thesis by (simp add: decodeNode_def [of hash] Let_def)
qed (simp add: decodeNode_def)

subsection \<open>Stored nodes\<close>

text \<open>
  The node that is read back for the root of a trie: subtries of 32 bytes and more by their hash,
  smaller ones embedded, all of it clean.
\<close>

function (sequential) load :: "(bytes \<Rightarrow> bytes) \<Rightarrow> bytes option \<Rightarrow> node \<Rightarrow> node" where
  "load K hash (ShortNode k c f) =
     ShortNode k
       (if inner c then if 32 \<le> length (node_enc K c) then HashNode (K (node_enc K c)) else load K None c else c) (cleanFlag hash)"
| "load K hash (FullNode cs f) =
     FullNode (map (\<lambda>c.
       if inner c then if 32 \<le> length (node_enc K c) then HashNode (K (node_enc K c)) else load K None c else c) cs) (cleanFlag hash)"
| "load K hash n = n"
  by pat_completeness auto
termination
  by (relation "measure (\<lambda>(K, hash, n). size n)") (auto simp: less_Suc_eq_le size_list_estimation')

definition loadref :: "(bytes \<Rightarrow> bytes) \<Rightarrow> node \<Rightarrow> node" where
  "loadref K c =
     (if inner c then if 32 \<le> length (node_enc K c) then HashNode (K (node_enc K c)) else load K None c else c)"

lemma load_simps [simp]:
  "load K hash (ShortNode k c f) = ShortNode k (loadref K c) (cleanFlag hash)"
  "load K hash (FullNode cs f) = FullNode (map (loadref K) cs) (cleanFlag hash)"
  by (simp_all add: loadref_def [abs_def])

declare load.simps [simp del]

lemma loadref_simps [simp]: "loadref K NilNode = NilNode" "loadref K (ValueNode v) = ValueNode v"
  by (simp_all add: loadref_def)

subsection \<open>Decoding reads what was encoded\<close>

lemma rlp_enc_frame: "\<exists>k c. rlp_enc it = frame k c \<and> frame_ok k c"
proof (cases it)
  case (Str b)
  let ?k = "if length b = 1 \<and> unat (hd b) < 128 then Byte else String"
  have "rlp_enc it = frame ?k b" "frame_ok ?k b" using Str by (auto simp: frame_def frame_ok_def rlp_string_def)
  then show ?thesis by blast
next
  case (Lst xs)
  then have "rlp_enc it = frame List (concat (map rlp_enc xs))" by (simp add: frame_def)
  moreover have "frame_ok List (concat (map rlp_enc xs))" by (simp add: frame_ok_def)
  ultimately show ?thesis by blast
qed

lemma CountValues_items:
  assumes "length (concat (map rlp_enc xs)) < 2 ^ 63"
  shows "CountValues (concat (map rlp_enc xs)) = Some (Inr (length xs))"
proof -
  have "\<exists>fs. length fs = length ys \<and> (\<forall>(k, c) \<in> set fs. frame_ok k c) \<and> concat (map rlp_enc ys) = concat (map (\<lambda>(k, c). frame k c) fs)" for ys
  proof (induction ys)
    case (Cons y ys)
    then obtain fs where "length fs = length ys" "\<forall>(k, c) \<in> set fs. frame_ok k c" "concat (map rlp_enc ys) = concat (map (\<lambda>(k, c). frame k c) fs)" by blast
    moreover obtain k c where "rlp_enc y = frame k c" "frame_ok k c" using rlp_enc_frame by blast
    ultimately show ?case by (intro exI [of _ "(k, c) # fs"]) simp
  qed simp
  then obtain fs where "length xs = length fs" "\<forall>(k, c) \<in> set fs. frame_ok k c" "concat (map rlp_enc xs) = concat (map (\<lambda>(k, c). frame k c) fs)" by metis
  with CountValues_loop_spec [OF assms, of 0] show ?thesis unfolding CountValues_def by fastforce
qed

lemma Split_items:
  assumes "length (rlp_enc it @ r) < 2 ^ 63"
  shows "it = Str [] \<Longrightarrow> Split (rlp_enc it @ r) = Inr (String, [], r)"
    "it = Str h \<Longrightarrow> length h = 32 \<Longrightarrow> Split (rlp_enc it @ r) = Inr (String, h, r)"
    "it = Lst xs \<Longrightarrow> \<exists>c. Split (rlp_enc it @ r) = Inr (List, c, r)"
  using assms by (auto simp: Split_iff frame_def frame_ok_def rlp_string_def)

definition child_item :: "(bytes \<Rightarrow> bytes) \<Rightarrow> node \<Rightarrow> item" where
  "child_item K c = node_item (if c = NilNode then ValueNode [] else ref K False c)"

lemma decodeRef_child:
  assumes K: "no_collision K S" "\<And>e. length (K e) = 32"
    and c: "c = NilNode \<or> inner c" "encs K c \<subseteq> S" and len: "length (rlp_enc (child_item K c) @ r) < 2 ^ 63"
    and dec: "inner c \<Longrightarrow> length (node_enc K c) < 32 \<Longrightarrow> dec (node_enc K c @ r) = Inr (load K None c)"
  shows "decodeRef dec (rlp_enc (child_item K c) @ r) = Inr (loadref K c, r)"
proof (cases "c = NilNode")
  case True
  with Split_items(1) [OF len] show ?thesis by (simp add: decodeRef_def child_item_def)
next
  case False
  with c have i: "inner c" by simp
  then have it: "child_item K c = (if length (node_enc K c) < 32 then node_item (collapse K c) else Str (K (node_enc K c)))"
    using ref_item [OF K(1) i c(2)] False by (simp add: child_item_def)
  show ?thesis
  proof (cases "length (node_enc K c) < 32")
    case True
    obtain xs where "node_item (collapse K c) = Lst xs" using collapse_item [OF i] by blast
    with Split_items(3) [OF len] it True obtain d where "Split (rlp_enc (child_item K c) @ r) = Inr (List, d, r)" by auto
    with dec [OF i True] it True i show ?thesis by (simp add: decodeRef_def Let_def loadref_def node_enc_def)
  next
    case False
    moreover have "K (node_enc K c) \<noteq> []" using K(2) [of "node_enc K c"] by auto
    ultimately show ?thesis using Split_items(2) [OF len _ K(2)] it i K(2) by (simp add: decodeRef_def loadref_def)
  qed
qed

lemma decodeChildren_items:
  assumes K: "no_collision K S" "\<And>e. length (K e) = 32"
    and cs: "\<forall>c \<in> set cs. c = NilNode \<or> inner c" "\<forall>c \<in> set cs. encs K c \<subseteq> S"
    and len: "length (concat (map (rlp_enc \<circ> child_item K) cs) @ r) < 2 ^ 63"
    and dec: "\<And>c s. c \<in> set cs \<Longrightarrow> inner c \<Longrightarrow> length (node_enc K c) < 32 \<Longrightarrow> length (node_enc K c @ s) < 2 ^ 63 \<Longrightarrow>
      dec (node_enc K c @ s) = Inr (load K None c)"
  shows "decodeChildren dec (length cs) (concat (map (rlp_enc \<circ> child_item K) cs) @ r) = Inr (map (loadref K) cs, r)"
  using cs len dec
proof (induction cs)
  case (Cons c cs)
  let ?s = "concat (map (rlp_enc \<circ> child_item K) cs) @ r"
  have len: "length (rlp_enc (child_item K c) @ ?s) < 2 ^ 63" using Cons.prems(3) by (simp add: comp_def)
  have i: "child_item K c = node_item (collapse K c)" if "inner c" "length (node_enc K c) < 32"
    using ref_item [OF K(1) that(1)] Cons.prems(2) that by (auto simp: child_item_def)
  have "decodeRef dec (rlp_enc (child_item K c) @ ?s) = Inr (loadref K c, ?s)"
    using K _ _ len
  proof (rule decodeRef_child)
    assume a: "inner c" "length (node_enc K c) < 32"
    with len i have "length (node_enc K c @ ?s) < 2 ^ 63" by (simp add: node_enc_def)
    with Cons.prems(4) a show "dec (node_enc K c @ ?s) = Inr (load K None c)" by simp
  qed (use Cons.prems in auto)
  moreover have "decodeChildren dec (length cs) ?s = Inr (map (loadref K) cs, r)"
    using Cons.prems by (intro Cons.IH) auto
  ultimately show ?case by (simp add: comp_def)
qed simp

lemma child_item_value: "child_item K (ValueNode v) = Str v"
  by (simp add: child_item_def)

lemma node_enc_simps:
  "c \<noteq> NilNode \<Longrightarrow> node_enc K (ShortNode k c f) = rlp_list (rlp_string (hexToCompact k) @ rlp_enc (child_item K c))"
  "length cs = 17 \<Longrightarrow> node_enc K (FullNode cs f) = rlp_list (concat (map (rlp_enc \<circ> child_item K) (take 16 cs)) @ rlp_enc (node_item (cs ! 16)))"
proof -
  show "c \<noteq> NilNode \<Longrightarrow> node_enc K (ShortNode k c f) = rlp_list (rlp_string (hexToCompact k) @ rlp_enc (child_item K c))"
    by (simp add: node_enc_def child_item_def)
  assume "length cs = 17"
  then have "drop 16 cs = [cs ! 16]" by (simp add: Cons_nth_drop_Suc [symmetric])
  then show "node_enc K (FullNode cs f) = rlp_list (concat (map (rlp_enc \<circ> child_item K) (take 16 cs)) @ rlp_enc (node_item (cs ! 16)))"
    by (simp add: node_enc_def child_item_def [abs_def] comp_def)
qed

lemma SplitList_node:
  assumes "length (rlp_list p @ r) < 2 ^ 63"
  shows "SplitList (rlp_list p @ r) = Inr (p, r)" "length (rlp_list p @ r) \<noteq> 0" "length p < 2 ^ 63"
  using SplitList_iff [OF assms] assms length_rlp_list [of p] by simp_all

lemma hasTerm_keys: "valid_key k \<Longrightarrow> hasTerm k" "is_nibbles k \<Longrightarrow> \<not> hasTerm k"
proof -
  show "valid_key k \<Longrightarrow> hasTerm k" by (auto simp: valid_key_last hasTerm_def)
  assume n: "is_nibbles k"
  show "\<not> hasTerm k"
  proof
    assume t: "hasTerm k"
    then have "k ! (length k - 1) \<in> set k" by (intro nth_mem) (simp add: hasTerm_def)
    with n t show False by (auto simp: is_nibbles_def hasTerm_def)
  qed
qed

lemma decodeNode_enc:
  assumes K: "no_collision K S" "\<And>e. length (K e) = 32"
  shows "wfn t \<Longrightarrow> encs K t \<subseteq> S \<Longrightarrow> length (node_enc K t @ r) < 2 ^ 63 \<Longrightarrow> decodeNode hash (node_enc K t @ r) = Inr (load K hash t)"
proof (induction arbitrary: hash r rule: wfn.induct)
  case (Leaf k v)
  let ?p = "rlp_string (hexToCompact k) @ rlp_string v"
  have e: "node_enc K (ShortNode k (ValueNode v) newFlag) = rlp_list ?p" by (simp add: node_enc_simps child_item_value)
  note s = SplitList_node [OF Leaf.prems(2) [unfolded e]]
  have c: "CountValues ?p = Some (Inr 2)" using CountValues_items [of "[Str (hexToCompact k), Str v]"] s(3) by simp
  have "SplitString ?p = Inr (hexToCompact k, rlp_string v)" "SplitString (rlp_string v) = Inr (v, [])"
    using s(3) by (simp_all add: SplitString_iff)
  then have "decodeShort (decodeNode None) hash ?p = Inr (ShortNode k (ValueNode v) (cleanFlag hash))"
    using hasTerm_keys(1) [OF Leaf.hyps(1)] compactToHex_hexToCompact [OF hex_key_valid(1) [OF Leaf.hyps(1)]]
    by (simp add: decodeShort_def)
  with s c Leaf.prems(2) show ?case by (simp add: e decodeNode_unfold del: length_append)
next
  case (Ext k cs)
  let ?f = "FullNode cs newFlag"
  let ?i = "child_item K ?f"
  let ?p = "rlp_string (hexToCompact k) @ rlp_enc ?i"
  have e: "node_enc K (ShortNode k ?f newFlag) = rlp_list ?p" by (simp add: node_enc_simps)
  note s = SplitList_node [OF Ext.prems(2) [unfolded e]]
  have c: "CountValues ?p = Some (Inr 2)" using CountValues_items [of "[Str (hexToCompact k), ?i]"] s(3) by simp
  have "decodeRef (decodeNode None) (rlp_enc ?i @ []) = Inr (loadref K ?f, [])"
  proof (rule decodeRef_child [OF K])
    show "encs K ?f \<subseteq> S" using Ext.prems(1) by auto
    show "length (rlp_enc ?i @ []) < 2 ^ 63" using s(3) by simp
    show "decodeNode None (node_enc K ?f @ []) = Inr (load K None ?f)" if "length (node_enc K ?f) < 32"
      using Ext.IH [of "[]" None] Ext.prems(1) that by auto
  qed simp
  moreover have "SplitString ?p = Inr (hexToCompact k, rlp_enc ?i)"
    using s(3) by (simp add: SplitString_iff)
  ultimately have "decodeShort (decodeNode None) hash ?p = Inr (ShortNode k (loadref K ?f) (cleanFlag hash))"
    using hasTerm_keys(2) [OF Ext.hyps(2)] compactToHex_hexToCompact [OF hex_key_valid(2) [OF Ext.hyps(2)]]
    by (simp add: decodeShort_def)
  with s c Ext.prems(2) show ?case by (simp add: e decodeNode_unfold del: length_append)
next
  case (Branch cs i j)
  let ?q = "concat (map (rlp_enc \<circ> child_item K) (take 16 cs))"
  let ?l = "rlp_enc (node_item (cs ! 16))"
  have e: "node_enc K (FullNode cs newFlag) = rlp_list (?q @ ?l)" using Branch.hyps(1) by (simp add: node_enc_simps)
  note s = SplitList_node [OF Branch.prems(2) [unfolded e]]
  have c: "CountValues (?q @ ?l) = Some (Inr 17)"
    using CountValues_items [of "map (child_item K) (take 16 cs) @ [node_item (cs ! 16)]"] s(3) Branch.hyps(1) by (simp add: comp_def)
  have d: "decodeChildren (decodeNode None) (length (take 16 cs)) (?q @ ?l) = Inr (map (loadref K) (take 16 cs), ?l)"
  proof (rule decodeChildren_items [OF K])
    have ch: "\<exists>i < 16. c = cs ! i" if "c \<in> set (take 16 cs)" for c using that by (auto simp: in_set_conv_nth)
    then show "\<forall>c \<in> set (take 16 cs). c = NilNode \<or> inner c" using Branch.IH wfn_inner by blast
    show "\<forall>c \<in> set (take 16 cs). encs K c \<subseteq> S" using Branch.prems(1) by (auto dest!: in_set_takeD)
    show "length (?q @ ?l) < 2 ^ 63" by (rule s(3))
    fix c s
    assume a: "c \<in> set (take 16 cs)" "inner c" "length (node_enc K c @ s) < 2 ^ 63"
    from ch [OF a(1)] obtain i where "i < 16" "c = cs ! i" by blast
    moreover have "encs K c \<subseteq> S" using a(1) Branch.prems(1) by (auto dest!: in_set_takeD)
    ultimately show "decodeNode None (node_enc K c @ s) = Inr (load K None c)" using Branch.IH a(2,3) by auto
  qed
  have l: "SplitString ?l = Inr (case cs ! 16 of ValueNode v \<Rightarrow> v | _ \<Rightarrow> [], [])" 
    using s(3) Branch.hyps(2) by (auto simp: SplitString_iff)
  have "decodeFull (decodeNode None) hash (?q @ ?l) = Inr (FullNode (map (loadref K) (take 16 cs) @ [cs ! 16]) (cleanFlag hash))"
    using d l Branch.hyps(1,2) by (auto simp: decodeFull_def)
  moreover have "map (loadref K) (take 16 cs) @ [cs ! 16] = map (loadref K) cs"
  proof -
    have "cs = take 16 cs @ [cs ! 16]" using Branch.hyps(1) by (metis append_take_drop_id Cons_nth_drop_Suc drop_all eval_nat_numeral(3) le_numeral_extra(3) lessI order_refl)
    moreover have "loadref K (cs ! 16) = cs ! 16" using Branch.hyps(2) by auto
    ultimately show ?thesis by (metis list.simps(8,9) map_append)
  qed
  ultimately show ?case using s c Branch.prems(2) by (simp add: e decodeNode_unfold del: length_append)
qed

subsection \<open>The compact form\<close>

text \<open>The compact form of the node \<open>load\<close> gives back.\<close>

function (sequential) raw :: "(bytes \<Rightarrow> bytes) \<Rightarrow> node \<Rightarrow> rnode" where
  "raw K (ShortNode k c f) =
     RShort (hexToCompact k) (if inner c \<and> 32 \<le> length (node_enc K c) then RHash (K (node_enc K c)) else raw K c)"
| "raw K (FullNode cs f) =
     RFull (map (\<lambda>c. if inner c \<and> 32 \<le> length (node_enc K c) then RHash (K (node_enc K c)) else raw K c) cs)"
| "raw K NilNode = RNil"
| "raw K (ValueNode v) = RValue v"
| "raw K (HashNode h) = RHash h"
  by pat_completeness auto
termination
  by (relation "measure (\<lambda>(K, n). size n)") (auto simp: less_Suc_eq_le size_list_estimation')

definition rawref :: "(bytes \<Rightarrow> bytes) \<Rightarrow> node \<Rightarrow> rnode" where
  "rawref K c = (if inner c \<and> 32 \<le> length (node_enc K c) then RHash (K (node_enc K c)) else raw K c)"

lemma raw_simps [simp]:
  "raw K (ShortNode k c f) = RShort (hexToCompact k) (rawref K c)" "raw K (FullNode cs f) = RFull (map (rawref K) cs)"
  by (simp_all add: rawref_def [abs_def])

declare raw.simps(1,2) [simp del]

lemma rawref_simps [simp]: "rawref K NilNode = RNil" "rawref K (ValueNode v) = RValue v"
  by (simp_all add: rawref_def)

lemma raw_RNil [simp]: "raw K c = RNil \<longleftrightarrow> c = NilNode" "rawref K c = RNil \<longleftrightarrow> c = NilNode"
  by (cases c; simp add: rawref_def)+

lemma expandNode_ref:
  assumes "c = NilNode \<or> inner c \<or> (\<exists>v. c = ValueNode v)" "inner c \<Longrightarrow> length (node_enc K c) < 32 \<Longrightarrow> expandNode None (raw K c) = Ret (load K None c)"
  shows "(if rawref K c \<noteq> RNil then expandNode None (rawref K c) else Ret NilNode) = Ret (loadref K c)"
  using assms by (auto simp: rawref_def loadref_def)

lemma expandNode_raw: "wfn t \<Longrightarrow> expandNode hash (raw K t) = Ret (load K hash t)"
proof (induction arbitrary: hash rule: wfn.induct)
  case (Leaf k v)
  then show ?case by (simp add: compactToHex_hexToCompact hex_key_valid)
next
  case (Ext k cs)
  with expandNode_ref [of "FullNode cs newFlag" K] show ?case
    by (simp add: compactToHex_hexToCompact hex_key_valid del: raw_simps load_simps split: if_splits)
      (simp add: raw_simps load_simps compactToHex_hexToCompact hex_key_valid Ext)
next
  case (Branch cs i j)
  let ?e = "\<lambda>c. if c \<noteq> RNil then expandNode None c else Ret NilNode"
  have "go_map ?e (map (rawref K) cs) = Ret (map (loadref K) cs)"
  proof -
    have "?e (rawref K c) = Ret (loadref K c)" if "c \<in> set cs" for c
    proof (rule expandNode_ref)
      from that obtain i where i: "i < 17" "c = cs ! i" using Branch.hyps(1) by (auto simp: in_set_conv_nth)
      then have "i < 16 \<or> i = 16" by auto
      with i Branch.IH Branch.hyps(2) show "c = NilNode \<or> inner c \<or> (\<exists>v. c = ValueNode v)" using wfn_inner by blast
      show "expandNode None (raw K c) = Ret (load K None c)" if "inner c"
        using \<open>i < 16 \<or> i = 16\<close> i Branch.IH Branch.hyps(2) that by auto
    qed
    then show ?thesis by (induction cs) auto
  qed
  then show ?case by simp
qed

text \<open>As a node again, for the encoding.\<close>

fun unraw :: "rnode \<Rightarrow> node" where
  "unraw RNil = NilNode"
| "unraw (RFull cs) = FullNode (map unraw cs) newFlag"
| "unraw (RShort k v) = ShortNode k (unraw v) newFlag"
| "unraw (RHash h) = HashNode h"
| "unraw (RValue v) = ValueNode v"
| "unraw (RBlob b) = NilNode"

fun blob_free :: "rnode \<Rightarrow> bool" where
  "blob_free (RFull cs) \<longleftrightarrow> (\<forall>c \<in> set cs. blob_free c)"
| "blob_free (RShort k v) \<longleftrightarrow> blob_free v"
| "blob_free (RBlob b) \<longleftrightarrow> False"
| "blob_free r \<longleftrightarrow> True"

lemma rnode_encode_unraw: "blob_free r \<Longrightarrow> rnode_encode r w = node_encode (unraw r) w"
proof (induction r arbitrary: w)
  case (RFull cs)
  then have "fold rnode_encode cs w = fold (node_encode \<circ> unraw) cs w" for w by (intro fold_cong ext) auto
  then show ?case by (simp add: fold_map split: prod.split)
qed (auto split: prod.split)

lemma raw_item:
  assumes "no_collision K S"
  shows "wfn t \<Longrightarrow> encs K t \<subseteq> S \<Longrightarrow> blob_free (raw K t) \<and> node_item (unraw (raw K t)) = node_item (collapse K t)"
proof (induction rule: wfn.induct)
  case (Ext k cs)
  have "encs K (FullNode cs newFlag) \<subseteq> S" using Ext.prems by auto
  with Ext.IH ref_item [OF assms _ this] show ?case by (auto simp: rawref_def)
next
  case (Branch cs i j)
  have c: "blob_free (rawref K c) \<and> node_item (unraw (rawref K c)) = child_item K c" if "c = cs ! i" "i < 16" for c i
  proof -
    have s: "encs K c \<subseteq> S" using that Branch.prems Branch.hyps(1) by (auto simp: UN_subset_iff)
    from that Branch.IH have "c = NilNode \<or> wfn c \<and> (blob_free (raw K c) \<and> node_item (unraw (raw K c)) = node_item (collapse K c))"
      using s by auto
    with ref_item [OF assms wfn_inner s] wfn_inner [of c] show ?thesis by (auto simp: rawref_def child_item_def)
  qed
  have l: "drop 16 cs = [cs ! 16]" using Branch.hyps(1) by (simp add: Cons_nth_drop_Suc [symmetric])
  have "blob_free (rawref K c)" if "c \<in> set cs" for c
  proof -
    from that obtain i where "i < 17" "c = cs ! i" using Branch.hyps(1) by (auto simp: in_set_conv_nth)
    then show ?thesis using c [of c i] Branch.hyps(2) by (cases "i = 16") auto
  qed
  moreover have "map (node_item \<circ> unraw \<circ> rawref K) cs = map (child_item K) (take 16 cs) @ [node_item (cs ! 16)]"
  proof (rule nth_equalityI)
    fix i assume "i < length (map (node_item \<circ> unraw \<circ> rawref K) cs)"
    then have "i < 16 \<or> i = 16" using Branch.hyps(1) by auto
    then show "map (node_item \<circ> unraw \<circ> rawref K) cs ! i = (map (child_item K) (take 16 cs) @ [node_item (cs ! 16)]) ! i"
      using c [OF refl, of i] Branch.hyps(1,2) by (auto simp: nth_append)
  qed (use Branch.hyps(1) in simp)
  ultimately show ?case using l by (simp add: comp_def child_item_def)
qed simp

lemma raw_encode:
  assumes "no_collision K S" "wfn t" "encs K t \<subseteq> S"
  shows "makeBytes (rnode_encode (raw K t) eb_reset) = node_enc K t"
proof -
  have "length (node_enc K t) < 2 ^ 63" using assms encs_self [OF wfn_inner [OF assms(2)], of K] by (auto simp: no_collision_def)
  moreover from raw_item [OF assms] have r: "blob_free (raw K t)" "node_item (unraw (raw K t)) = node_item (collapse K t)" by simp_all
  ultimately have "nodeToBytes (unraw (raw K t)) = node_enc K t" using nodeToBytes_item [of "unraw (raw K t)"] by (simp add: node_enc_def)
  with r(1) show ?thesis by (simp add: nodeToBytes_def rnode_encode_unraw)
qed

lemma wfn_raw: "wfn t \<Longrightarrow> (\<exists>k v. raw K t = RShort k v) \<or> (\<exists>cs. raw K t = RFull cs)"
  by (auto elim: wfn.cases)

text \<open>What the cache gives back for a node is what is read from its encoding.\<close>

lemma cached_node:
  assumes K: "no_collision K S" "\<And>e. length (K e) = 32" and t: "wfn t" "encs K t \<subseteq> S" and n: "cn_node n = raw K t"
  shows "cn_rlp n = Ret (node_enc K t)" "cn_obj n h = Ret (load K (Some h) t)" "mustDecodeNode h (node_enc K t) = Ret (load K (Some h) t)"
proof -
  have len: "length (node_enc K t @ []) < 2 ^ 63" using K(1) t encs_self [OF wfn_inner [OF t(1)], of K] by (auto simp: no_collision_def)
  show "cn_rlp n = Ret (node_enc K t)" using wfn_raw [OF t(1), of K] n raw_encode [OF K(1) t] by (auto simp: cn_rlp_def)
  show "cn_obj n h = Ret (load K (Some h) t)" using wfn_raw [OF t(1), of K] n expandNode_raw [OF t(1), of "Some h" K]
    by (auto simp: cn_obj_def simp del: expandNode.simps)
  show "mustDecodeNode h (node_enc K t) = Ret (load K (Some h) t)"
    using decodeNode_enc [OF K t len, of "Some h"] by (simp add: mustDecodeNode_def)
qed

end
