(* ===== verification/Memorydb.thy ===== *)
theory Memorydb
  imports Go_Prelude
begin

text \<open>
  The key-value store in memory (\<^verbatim>\<open>ethdb/memorydb/memorydb.go\<close>): point operations, batches with
  their replay, and iterators, and the batch with hooks of \<^verbatim>\<open>ethdb/batch.go\<close>. A closed store is a
  nil map: reading it gives an error or nothing, writing a batch to it panics.

  What is shown: a batch does to the store what its operations would do one by one, and an iterator
  visits exactly the entries of its range, in ascending order, as they were when it was made.
\<close>

subsection \<open>The store\<close>

datatype dbError = errMemorydbClosed | errMemorydbNotFound | errNotImplemented | errWrite

record memorydb =
  md_db :: "(bytes, bytes) gomap option"

definition memorydb_New :: memorydb where
  "memorydb_New = \<lparr>md_db = Some []\<rparr>"

definition memorydb_Close :: "memorydb \<Rightarrow> memorydb" where
  "memorydb_Close db = db\<lparr>md_db := None\<rparr>"

definition memorydb_Has :: "memorydb \<Rightarrow> bytes \<Rightarrow> dbError + bool" where
  "memorydb_Has db key = (case md_db db of None \<Rightarrow> Inl errMemorydbClosed | Some m \<Rightarrow> Inr (gomap_has m key))"

definition memorydb_Get :: "memorydb \<Rightarrow> bytes \<Rightarrow> dbError + bytes" where
  "memorydb_Get db key =
     (case md_db db of
        None \<Rightarrow> Inl errMemorydbClosed
      | Some m \<Rightarrow> (case gomap_get m key of Some entry \<Rightarrow> Inr entry | None \<Rightarrow> Inl errMemorydbNotFound))"

definition memorydb_Put :: "memorydb \<Rightarrow> bytes \<Rightarrow> bytes \<Rightarrow> dbError + memorydb" where
  "memorydb_Put db key value =
     (case md_db db of None \<Rightarrow> Inl errMemorydbClosed | Some m \<Rightarrow> Inr (db\<lparr>md_db := Some (gomap_set key value m)\<rparr>))"

definition memorydb_Delete :: "memorydb \<Rightarrow> bytes \<Rightarrow> dbError + memorydb" where
  "memorydb_Delete db key =
     (case md_db db of None \<Rightarrow> Inl errMemorydbClosed | Some m \<Rightarrow> Inr (db\<lparr>md_db := Some (gomap_del key m)\<rparr>))"

definition memorydb_Len :: "memorydb \<Rightarrow> nat" where
  "memorydb_Len db = (case md_db db of None \<Rightarrow> 0 | Some m \<Rightarrow> gomap_len m)"

subsection \<open>Batches\<close>

record keyvalue =
  kv_key :: bytes
  kv_value :: bytes
  kv_delete :: bool

record batch =
  writes :: "keyvalue list"
  bt_size :: int

definition memorydb_NewBatch :: batch where
  "memorydb_NewBatch = \<lparr>writes = [], bt_size = 0\<rparr>"

definition batch_Put :: "bytes \<Rightarrow> bytes \<Rightarrow> batch \<Rightarrow> batch" where
  "batch_Put key value b =
     b\<lparr>writes := writes b @ [\<lparr>kv_key = key, kv_value = value, kv_delete = False\<rparr>],
       bt_size := bt_size b + int (length key) + int (length value)\<rparr>"

definition batch_Delete :: "bytes \<Rightarrow> batch \<Rightarrow> batch" where
  "batch_Delete key b =
     b\<lparr>writes := writes b @ [\<lparr>kv_key = key, kv_value = [], kv_delete = True\<rparr>],
       bt_size := bt_size b + int (length key)\<rparr>"

definition ValueSize :: "batch \<Rightarrow> int" where
  "ValueSize b = bt_size b"

text \<open>Deleting from a nil map does nothing, assigning to one panics.\<close>

definition write_one :: "keyvalue \<Rightarrow> memorydb \<Rightarrow> memorydb go" where
  "write_one w db =
     (if kv_delete w then Ret (db\<lparr>md_db := map_option (gomap_del (kv_key w)) (md_db db)\<rparr>)
      else (case md_db db of None \<Rightarrow> Panicked | Some m \<Rightarrow> Ret (db\<lparr>md_db := Some (gomap_set (kv_key w) (kv_value w) m)\<rparr>)))"

definition batch_Write :: "batch \<Rightarrow> memorydb \<Rightarrow> memorydb go" where
  "batch_Write b db = go_fold write_one (writes b) db"

definition batch_Reset :: "batch \<Rightarrow> batch" where
  "batch_Reset b = b\<lparr>writes := [], bt_size := 0\<rparr>"

text \<open>\<^verbatim>\<open>Replay\<close> to a writer given by its two methods, up to the first error.\<close>

primrec replay :: "(bytes \<Rightarrow> bytes \<Rightarrow> 's \<Rightarrow> ('e option \<times> 's) go) \<Rightarrow> (bytes \<Rightarrow> 's \<Rightarrow> ('e option \<times> 's) go) \<Rightarrow>
    keyvalue list \<Rightarrow> 's \<Rightarrow> ('e option \<times> 's) go" where
  "replay put rem [] s = Ret (None, s)"
| "replay put rem (w # ws) s =
     go_bind (if kv_delete w then rem (kv_key w) s else put (kv_key w) (kv_value w) s)
       (\<lambda>(err, s). case err of Some e \<Rightarrow> Ret (Some e, s) | None \<Rightarrow> replay put rem ws s)"

definition batch_Replay :: "(bytes \<Rightarrow> bytes \<Rightarrow> 's \<Rightarrow> ('e option \<times> 's) go) \<Rightarrow> (bytes \<Rightarrow> 's \<Rightarrow> ('e option \<times> 's) go) \<Rightarrow>
    batch \<Rightarrow> 's \<Rightarrow> ('e option \<times> 's) go" where
  "batch_Replay put rem b s = replay put rem (writes b) s"

text \<open>A batch whose operations are reported; the hooks act on a state of their own.\<close>

record 'h hookedBatch =
  hk_batch :: batch
  OnPut :: "(bytes \<Rightarrow> bytes \<Rightarrow> 'h \<Rightarrow> 'h) option"
  OnDelete :: "(bytes \<Rightarrow> 'h \<Rightarrow> 'h) option"

definition hooked_Put :: "bytes \<Rightarrow> bytes \<Rightarrow> 'h hookedBatch \<Rightarrow> 'h \<Rightarrow> 'h hookedBatch \<times> 'h" where
  "hooked_Put key value b s =
     (b\<lparr>hk_batch := batch_Put key value (hk_batch b)\<rparr>, (case OnPut b of None \<Rightarrow> s | Some f \<Rightarrow> f key value s))"

definition hooked_Delete :: "bytes \<Rightarrow> 'h hookedBatch \<Rightarrow> 'h \<Rightarrow> 'h hookedBatch \<times> 'h" where
  "hooked_Delete key b s =
     (b\<lparr>hk_batch := batch_Delete key (hk_batch b)\<rparr>, (case OnDelete b of None \<Rightarrow> s | Some f \<Rightarrow> f key s))"

subsection \<open>Iterators\<close>

record iterator =
  inited :: bool
  it_keys :: "bytes list"
  it_values :: "bytes list"

text \<open>\<^verbatim>\<open>strings.HasPrefix\<close>\<close>

definition HasPrefix :: "bytes \<Rightarrow> bytes \<Rightarrow> bool" where
  "HasPrefix s pr \<longleftrightarrow> length pr \<le> length s \<and> take (length pr) s = pr"

text \<open>The map is ranged over in the order of the seed. The values are those of the keys after sorting.\<close>

definition NewIterator :: "seed \<Rightarrow> memorydb \<Rightarrow> bytes \<Rightarrow> bytes \<Rightarrow> iterator" where
  "NewIterator sd db prefix start =
     (let st = prefix @ start;
          m = (case md_db db of None \<Rightarrow> [] | Some m \<Rightarrow> m);
          keys = filter (\<lambda>key. HasPrefix key prefix \<and> \<not> str_less key st) (map fst (gomap_range sd m));
          keys = sort_Strings keys
      in \<lparr>inited = False, it_keys = keys,
          it_values = map (\<lambda>key. case gomap_get m key of Some v \<Rightarrow> v | None \<Rightarrow> []) keys\<rparr>)"

definition it_Next :: "iterator \<Rightarrow> bool \<times> iterator" where
  "it_Next it =
     (if \<not> inited it then (it_keys it \<noteq> [], it\<lparr>inited := True\<rparr>)
      else
        let it = (if it_keys it \<noteq> [] then it\<lparr>it_keys := tl (it_keys it), it_values := tl (it_values it)\<rparr> else it)
        in (it_keys it \<noteq> [], it))"

definition it_Key :: "iterator \<Rightarrow> bytes" where
  "it_Key it = (case it_keys it of [] \<Rightarrow> [] | k # _ \<Rightarrow> k)"

definition it_Value :: "iterator \<Rightarrow> bytes" where
  "it_Value it = (case it_values it of [] \<Rightarrow> [] | v # _ \<Rightarrow> v)"

definition it_Release :: "iterator \<Rightarrow> iterator" where
  "it_Release it = it\<lparr>it_keys := [], it_values := []\<rparr>"

text \<open>The loop of every user: advance until \<^verbatim>\<open>Next\<close> is false, reading the entry each time.\<close>

function iterate :: "iterator \<Rightarrow> (bytes \<times> bytes) list" where
  "iterate it = (case it_Next it of (b, it') \<Rightarrow> if b then (it_Key it', it_Value it') # iterate it' else [])"
  by pat_completeness auto
termination
  by (relation "measure (\<lambda>it. 2 * length (it_keys it) + (if inited it then 0 else 1))")
    (auto simp: it_Next_def Let_def split: if_splits)

declare iterate.simps [simp del]

subsection \<open>The store as a map\<close>

text \<open>A batch's effect as a function on maps.\<close>

primrec apply_writes :: "keyvalue list \<Rightarrow> (bytes \<rightharpoonup> bytes) \<Rightarrow> (bytes \<rightharpoonup> bytes)" where
  "apply_writes [] m = m"
| "apply_writes (w # ws) m = apply_writes ws (m(kv_key w := (if kv_delete w then None else Some (kv_value w))))"

lemma apply_writes_append [simp]: "apply_writes (a @ b) m = apply_writes b (apply_writes a m)"
  by (induction a arbitrary: m) simp_all

lemma write_one_open:
  "md_db db = Some m \<Longrightarrow> write_one w db =
     Ret (db\<lparr>md_db := Some (if kv_delete w then gomap_del (kv_key w) m else gomap_set (kv_key w) (kv_value w) m)\<rparr>)"
  by (simp add: write_one_def)

lemma batch_Write_open:
  assumes "md_db db = Some m" "gomap_ok m"
  shows "\<exists>m'. batch_Write b db = Ret (db\<lparr>md_db := Some m'\<rparr>) \<and> gomap_ok m' \<and> gomap_get m' = apply_writes (writes b) (gomap_get m)"
proof -
  have "\<exists>m'. go_fold write_one ws db = Ret (db\<lparr>md_db := Some m'\<rparr>) \<and> gomap_ok m' \<and> gomap_get m' = apply_writes ws (gomap_get m)" for ws
    using assms
  proof (induction ws arbitrary: db m)
    case (Cons w ws)
    define m1 where "m1 = (if kv_delete w then gomap_del (kv_key w) m else gomap_set (kv_key w) (kv_value w) m)"
    have "gomap_get m1 = (gomap_get m)(kv_key w := (if kv_delete w then None else Some (kv_value w)))"
      using Cons.prems by (auto simp: m1_def fun_eq_iff)
    then have "apply_writes (w # ws) (gomap_get m) = apply_writes ws (gomap_get m1)" by (simp only: apply_writes.simps)
    moreover have "write_one w db = Ret (db\<lparr>md_db := Some m1\<rparr>)" "gomap_ok m1"
      using Cons.prems by (auto simp: m1_def write_one_open)
    ultimately show ?case using Cons.IH [of "db\<lparr>md_db := Some m1\<rparr>" m1] by (auto simp del: apply_writes.simps)
  next
    case Nil
    then have "db = db\<lparr>md_db := Some m\<rparr>" by (cases db) simp
    with Nil show ?case by (intro exI [of _ m]) simp
  qed
  then show ?thesis unfolding batch_Write_def .
qed

lemma iterate_values:
  "length (it_keys it) = length (it_values it) \<Longrightarrow> \<not> inited it \<Longrightarrow> iterate it = zip (it_keys it) (it_values it)"
proof -
  have run: "inited it \<Longrightarrow> length (it_keys it) = length (it_values it) \<Longrightarrow> iterate it = zip (tl (it_keys it)) (tl (it_values it))" for it
  proof (induction it rule: iterate.induct)
    case (1 it)
    show ?case
    proof (cases "tl (it_keys it)")
      case Nil
      then show ?thesis by (subst iterate.simps) (simp add: it_Next_def Let_def 1)
    next
      case (Cons k ks)
      then obtain v vs where v: "tl (it_values it) = v # vs" using 1(3) by (metis length_Suc_conv length_tl)
      let ?it = "it\<lparr>it_keys := k # ks, it_values := v # vs\<rparr>"
      have n: "it_Next it = (True, ?it)" using Cons v 1(2) by (auto simp: it_Next_def Let_def)
      have "length ks = length vs" using arg_cong [OF Cons, of length] arg_cong [OF v, of length] 1(3) by simp
      with 1(1) [OF n [symmetric] TrueI] 1(2) have "iterate ?it = zip ks vs" by simp
      with n Cons v show ?thesis by (subst iterate.simps) (simp add: it_Key_def it_Value_def)
    qed
  qed
  assume a: "length (it_keys it) = length (it_values it)" "\<not> inited it"
  have "iterate (it\<lparr>inited := True\<rparr>) = zip (tl (it_keys it)) (tl (it_values it))" using run [of "it\<lparr>inited := True\<rparr>"] a by simp
  with a show ?thesis
    by (subst iterate.simps) (cases "it_keys it"; cases "it_values it"; simp add: it_Next_def it_Key_def it_Value_def)
qed

text \<open>
  C40: an iterator visits the range it was asked for. Whatever the order in which the map is ranged
  over, the loop over \<^verbatim>\<open>Next\<close> ends and yields the entries of the store whose key has the prefix and
  is not below the prefix followed by the start, each one once with its value, in strictly ascending
  order of the keys.
\<close>

theorem memorydb_iteration:
  assumes "md_db db = Some m" "gomap_ok m"
  shows "sorted_wrt str_less (map fst (iterate (NewIterator sd db prefix start))) \<and>
    (\<forall>k v. (k, v) \<in> set (iterate (NewIterator sd db prefix start)) \<longleftrightarrow>
       memorydb_Get db k = Inr v \<and> (\<exists>s. k = prefix @ s \<and> \<not> str_less s start))"
proof -
  let ?ks = "sort_Strings (filter (\<lambda>key. HasPrefix key prefix \<and> \<not> str_less key (prefix @ start)) (map fst (gomap_range sd m)))"
  have it: "iterate (NewIterator sd db prefix start) = map (\<lambda>k. (k, case gomap_get m k of Some v \<Rightarrow> v | None \<Rightarrow> [])) ?ks"
    using assms by (subst iterate_values) (simp_all add: NewIterator_def Let_def zip_map2 zip_same_conv_map)
  have "distinct (map fst (gomap_range sd m))" using assms(2) by simp
  then have s: "sorted_wrt str_less ?ks" by (intro sorted_sort_Strings distinct_filter)
  have less: "str_less (prefix @ a) (prefix @ b) \<longleftrightarrow> str_less a b" for a b by (induction prefix) auto
  have pre: "HasPrefix k prefix \<longleftrightarrow> (\<exists>s. k = prefix @ s)" for k
    by (auto simp: HasPrefix_def) (metis append_take_drop_id)
  have "set (map fst (gomap_range sd m)) = gomap_keys m" by (simp add: gomap_range_def gomap_keys_def)
  then have "k \<in> set ?ks \<longleftrightarrow> gomap_get m k \<noteq> None \<and> (\<exists>s. k = prefix @ s \<and> \<not> str_less s start)" for k
    using pre less by (auto simp: gomap_keys_get simp del: set_map)
  moreover have "memorydb_Get db k = Inr v \<longleftrightarrow> gomap_get m k = Some v" for k v
    using assms(1) by (simp add: memorydb_Get_def split: option.splits)
  ultimately have "(k, v) \<in> set (map (\<lambda>k. (k, case gomap_get m k of Some v \<Rightarrow> v | None \<Rightarrow> [])) ?ks) \<longleftrightarrow>
      memorydb_Get db k = Inr v \<and> (\<exists>s. k = prefix @ s \<and> \<not> str_less s start)" for k v
    by (cases "gomap_get m k") (auto simp del: set_sort_Strings)
  with s show ?thesis unfolding it by (simp add: comp_def)
qed

theorem memorydb_iteration_witness:
  "sorted_wrt str_less (map fst (iterate (NewIterator [1] \<lparr>md_db = Some [([2, 7], [1]), ([1], [2]), ([2, 3], [3]), ([2], [4])]\<rparr> [2] [3]))) \<and>
   (\<forall>k v. (k, v) \<in> set (iterate (NewIterator [1] \<lparr>md_db = Some [([2, 7], [1]), ([1], [2]), ([2, 3], [3]), ([2], [4])]\<rparr> [2] [3])) \<longleftrightarrow>
      memorydb_Get \<lparr>md_db = Some [([2, 7], [1]), ([1], [2]), ([2, 3], [3]), ([2], [4])]\<rparr> k = Inr v \<and> (\<exists>s. k = [2] @ s \<and> \<not> str_less s [3]))"
  by (rule memorydb_iteration [of _ "[([2, 7], [1]), ([1], [2]), ([2, 3], [3]), ([2], [4])]"]) (simp_all add: gomap_ok_def)

end
