(* ===== verification/Trie_Database.thy ===== *)
theory Trie_Database
  imports Trie_Store Memorydb
begin

text \<open>
  The cache in front of the disk (\<^verbatim>\<open>trie/database.go\<close>): nodes that are not written yet, counted
  references between them, the flush list that threads them in the order of their insertion, garbage
  collection, and the two ways to disk, \<^verbatim>\<open>Cap\<close> and \<^verbatim>\<open>Commit\<close>.

  The store is that of \<open>Memorydb\<close>, where in addition every write of a batch may fail: the outcomes are
  an argument. The cache of clean encodings is a package outside of the repository; what it answers is
  the argument \<open>cl\<close> of the lookups, and its \<^verbatim>\<open>Set\<close> has no counterpart here. \<^verbatim>\<open>Cap\<close>, \<^verbatim>\<open>Commit\<close> and
  \<^verbatim>\<open>dereference\<close> follow links and hashes, with fuel; that it is enough is part of what is shown.

  What is shown: no sequence of operations panics, and none makes a node that is still referred to
  unavailable, also when writes fail.
\<close>

subsection \<open>State\<close>

abbreviation zeroHash :: bytes where
  "zeroHash \<equiv> replicate 32 0"

definition cachedNodeSize :: int where
  "cachedNodeSize = 96"

definition cachedNodeChildrenSize :: int where
  "cachedNodeChildrenSize = 48"

definition IdealBatchSize :: int where
  "IdealBatchSize = 100 * 1024"

text \<open>\<^verbatim>\<open>StorageSize\<close> is a float that only ever holds integers.\<close>

record Database =
  diskdb :: memorydb
  dirties :: "(bytes, cachedNode) gomap"
  oldest :: bytes
  newest :: bytes
  preimages :: "(bytes, bytes) gomap option"
  gcnodes :: u64
  gcsize :: int
  flushnodes :: u64
  flushsize :: int
  dirtiesSize :: int
  childrenSize :: int
  preimagesSize :: int
  roughPreimagesSize :: int
  roughDirtiesSize :: int

definition metaRoot :: cachedNode where
  "metaRoot =
     \<lparr>cn_node = RNil, cn_size = 0, parents = 0, cn_children = Some [], flushPrev = zeroHash, flushNext = zeroHash\<rparr>"

text \<open>\<^verbatim>\<open>NewDatabaseWithConfig\<close>; \<open>pre\<close> says if preimages are kept, as they are without a configuration.\<close>

definition NewDatabase :: "bool \<Rightarrow> memorydb \<Rightarrow> Database" where
  "NewDatabase pre disk =
     \<lparr>diskdb = disk, dirties = [(zeroHash, metaRoot)], oldest = zeroHash, newest = zeroHash,
      preimages = (if pre then Some [] else None), gcnodes = 0, gcsize = 0, flushnodes = 0, flushsize = 0,
      dirtiesSize = 0, childrenSize = 0, preimagesSize = 0, roughPreimagesSize = 0, roughDirtiesSize = 0\<rparr>"

text \<open>An assignment to a field of \<^verbatim>\<open>db.dirties[h]\<close>.\<close>

definition with_dirty :: "bytes \<Rightarrow> (cachedNode \<Rightarrow> cachedNode) \<Rightarrow> Database \<Rightarrow> Database go" where
  "with_dirty h f D =
     (case gomap_get (dirties D) h of
        None \<Rightarrow> Panicked
      | Some n \<Rightarrow> Ret (D\<lparr>dirties := gomap_set h (f n) (dirties D)\<rparr>))"

subsection \<open>Insertion\<close>

definition add_parent :: "bytes \<Rightarrow> Database \<Rightarrow> Database" where
  "add_parent child D =
     (case gomap_get (dirties D) child of
        None \<Rightarrow> D
      | Some c \<Rightarrow> D\<lparr>dirties := gomap_set child (c\<lparr>parents := parents c + 1\<rparr>) (dirties D)\<rparr>)"

text \<open>The new entry's size is added in 16 bits.\<close>

definition db_insert :: "bytes \<Rightarrow> int \<Rightarrow> node \<Rightarrow> Database \<Rightarrow> Database go" where
  "db_insert hash sz n D =
     (if gomap_has (dirties D) hash then Ret D
      else
        go_bind (simplifyNode n) (\<lambda>r.
          let entry = \<lparr>cn_node = r, cn_size = word_of_int sz, parents = 0, cn_children = None,
                       flushPrev = newest D, flushNext = zeroHash\<rparr>;
              D = fold add_parent (forChilds [] entry) D;
              D = D\<lparr>dirties := gomap_set hash entry (dirties D)\<rparr>
          in go_bind
               (if oldest D = zeroHash then Ret (D\<lparr>oldest := hash, newest := hash\<rparr>)
                else go_bind (with_dirty (newest D) (\<lambda>n. n\<lparr>flushNext := hash\<rparr>) D) (\<lambda>D. Ret (D\<lparr>newest := hash\<rparr>)))
               (\<lambda>D. Ret (D\<lparr>dirtiesSize := dirtiesSize D + uint (32 + cn_size entry)\<rparr>))))"

definition insertPreimage :: "bytes \<Rightarrow> bytes \<Rightarrow> Database \<Rightarrow> Database" where
  "insertPreimage hash preimage D =
     (case preimages D of
        None \<Rightarrow> D
      | Some m \<Rightarrow>
          if gomap_has m hash then D
          else D\<lparr>preimages := Some (gomap_set hash preimage m), preimagesSize := preimagesSize D + int (32 + length preimage)\<rparr>)"

subsection \<open>Lookup\<close>

definition db_node :: "(bytes \<Rightarrow> bytes option) \<Rightarrow> Database \<Rightarrow> bytes \<Rightarrow> node option go" where
  "db_node cl D hash =
     (case cl hash of
        Some enc \<Rightarrow> go_bind (mustDecodeNode hash enc) (\<lambda>n. Ret (Some n))
      | None \<Rightarrow>
          (case gomap_get (dirties D) hash of
             Some dirty \<Rightarrow> go_bind (cn_obj dirty hash) (\<lambda>n. Ret (Some n))
           | None \<Rightarrow>
               (case memorydb_Get (diskdb D) hash of
                  Inl err \<Rightarrow> Ret None
                | Inr enc \<Rightarrow> go_bind (mustDecodeNode hash enc) (\<lambda>n. Ret (Some n)))))"

definition db_Node :: "(bytes \<Rightarrow> bytes option) \<Rightarrow> Database \<Rightarrow> bytes \<Rightarrow> (dbError + bytes) go" where
  "db_Node cl D hash =
     (if hash = zeroHash then Ret (Inl errMemorydbNotFound)
      else
        (case cl hash of
           Some enc \<Rightarrow> Ret (Inr enc)
         | None \<Rightarrow>
             (case gomap_get (dirties D) hash of
                Some dirty \<Rightarrow> go_bind (cn_rlp dirty) (\<lambda>enc. Ret (Inr enc))
              | None \<Rightarrow>
                  let enc = (case memorydb_Get (diskdb D) hash of Inl err \<Rightarrow> [] | Inr enc \<Rightarrow> enc)
                  in if length enc \<noteq> 0 then Ret (Inr enc) else Ret (Inl errMemorydbNotFound))))"

definition preimageKey :: "bytes \<Rightarrow> bytes" where
  "preimageKey hash = [0x73, 0x65, 0x63, 0x75, 0x72, 0x65, 0x2d, 0x6b, 0x65, 0x79, 0x2d] @ hash"

definition db_preimage :: "Database \<Rightarrow> bytes \<Rightarrow> bytes option" where
  "db_preimage D hash =
     (case preimages D of
        None \<Rightarrow> None
      | Some m \<Rightarrow>
          (case gomap_get m hash of
             Some preimage \<Rightarrow> Some preimage
           | None \<Rightarrow> (case memorydb_Get (diskdb D) (preimageKey hash) of Inl err \<Rightarrow> None | Inr data \<Rightarrow> Some data)))"

definition db_Nodes :: "seed \<Rightarrow> Database \<Rightarrow> bytes list" where
  "db_Nodes sd D = filter (\<lambda>hash. hash \<noteq> zeroHash) (map fst (gomap_range sd (dirties D)))"

subsection \<open>References\<close>

definition ext_len :: "cachedNode \<Rightarrow> int" where
  "ext_len n = (case cn_children n of None \<Rightarrow> 0 | Some m \<Rightarrow> int (gomap_len m))"

definition db_reference :: "bytes \<Rightarrow> bytes \<Rightarrow> Database \<Rightarrow> Database go" where
  "db_reference child parent D =
     (if \<not> gomap_has (dirties D) child then Ret D
      else
        (case gomap_get (dirties D) parent of
           None \<Rightarrow> Panicked
         | Some p \<Rightarrow>
             if (case cn_children p of None \<Rightarrow> False | Some m \<Rightarrow> gomap_has m child \<and> parent \<noteq> zeroHash) then Ret D
             else
               let D = (if cn_children p = None
                        then D\<lparr>dirties := gomap_set parent (p\<lparr>cn_children := Some []\<rparr>) (dirties D),
                               childrenSize := childrenSize D + cachedNodeChildrenSize\<rparr>
                        else D)
               in go_bind (with_dirty child (\<lambda>n. n\<lparr>parents := parents n + 1\<rparr>) D) (\<lambda>D.
                    let m = (case cn_children p of None \<Rightarrow> [] | Some m \<Rightarrow> m);
                        c = (case gomap_get m child of None \<Rightarrow> 0 | Some c \<Rightarrow> c) + 1
                    in go_bind (with_dirty parent (\<lambda>n. n\<lparr>cn_children := Some (gomap_set child c m)\<rparr>) D) (\<lambda>D.
                         Ret (if c = 1 then D\<lparr>childrenSize := childrenSize D + (32 + 2)\<rparr> else D)))))"

text \<open>What the cache takes, as \<^verbatim>\<open>Reference\<close> and \<^verbatim>\<open>Cap\<close> compute it.\<close>

definition cache_size :: "Database \<Rightarrow> int go" where
  "cache_size D =
     (case gomap_get (dirties D) zeroHash of
        None \<Rightarrow> Panicked
      | Some r \<Rightarrow>
          Ret ((int (gomap_len (dirties D)) - 1) * cachedNodeSize + dirtiesSize D + childrenSize D - ext_len r * (32 + 2)))"

definition db_Reference :: "bytes \<Rightarrow> bytes \<Rightarrow> Database \<Rightarrow> Database go" where
  "db_Reference child parent D =
     go_bind (db_reference child parent D) (\<lambda>D.
     go_bind (cache_size D) (\<lambda>sz.
     Ret (D\<lparr>roughDirtiesSize := sz, roughPreimagesSize := preimagesSize D\<rparr>)))"

definition db_Size :: "Database \<Rightarrow> int \<times> int" where
  "db_Size D = (roughDirtiesSize D, roughPreimagesSize D)"

text \<open>The removal from the flush list, in \<^verbatim>\<open>dereference\<close> and in the cleaner's \<^verbatim>\<open>Put\<close>.\<close>

definition flush_unlink :: "bytes \<Rightarrow> cachedNode \<Rightarrow> Database \<Rightarrow> Database go" where
  "flush_unlink hash n D =
     (if hash = oldest D then with_dirty (flushNext n) (\<lambda>m. m\<lparr>flushPrev := zeroHash\<rparr>) (D\<lparr>oldest := flushNext n\<rparr>)
      else if hash = newest D then with_dirty (flushPrev n) (\<lambda>m. m\<lparr>flushNext := zeroHash\<rparr>) (D\<lparr>newest := flushPrev n\<rparr>)
      else go_bind (with_dirty (flushPrev n) (\<lambda>m. m\<lparr>flushNext := flushNext n\<rparr>) D)
             (with_dirty (flushNext n) (\<lambda>m. m\<lparr>flushPrev := flushPrev n\<rparr>)))"

text \<open>The first part of \<^verbatim>\<open>dereference\<close>: the parent's count of an external child.\<close>

definition drop_external :: "bytes \<Rightarrow> bytes \<Rightarrow> Database \<Rightarrow> Database go" where
  "drop_external child parent D =
     (case gomap_get (dirties D) parent of
        None \<Rightarrow> Panicked
      | Some p \<Rightarrow>
          (case cn_children p of
             None \<Rightarrow> Ret D
           | Some m \<Rightarrow>
               (case gomap_get m child of
                  None \<Rightarrow> Ret D
                | Some c \<Rightarrow>
                    if c > 0 then
                      if c - 1 = 0
                      then Ret (D\<lparr>dirties := gomap_set parent (p\<lparr>cn_children := Some (gomap_del child m)\<rparr>) (dirties D),
                                  childrenSize := childrenSize D - (32 + 2)\<rparr>)
                      else Ret (D\<lparr>dirties := gomap_set parent (p\<lparr>cn_children := Some (gomap_set child (c - 1) m)\<rparr>) (dirties D)\<rparr>)
                    else Ret D)))"

text \<open>\<open>ord\<close> gives the order in which the external children of a node are visited.\<close>

fun db_dereference :: "nat \<Rightarrow> (bytes \<Rightarrow> seed) \<Rightarrow> bytes \<Rightarrow> bytes \<Rightarrow> Database \<Rightarrow> Database go" where
  "db_dereference 0 ord child parent D = Blocked"
| "db_dereference (Suc k) ord child parent D =
     go_bind (drop_external child parent D) (\<lambda>D.
       case gomap_get (dirties D) child of
         None \<Rightarrow> Ret D
       | Some n \<Rightarrow>
           let n = (if parents n > 0 then n\<lparr>parents := parents n - 1\<rparr> else n);
               D = D\<lparr>dirties := gomap_set child n (dirties D)\<rparr>
           in if parents n = 0 then
                go_bind (flush_unlink child n D) (\<lambda>D.
                go_bind (go_fold (\<lambda>hash. db_dereference k ord hash child) (forChilds (ord child) n) D) (\<lambda>D.
                Ret (D\<lparr>dirties := gomap_del child (dirties D),
                       dirtiesSize := dirtiesSize D - (32 + uint (cn_size n)),
                       childrenSize := childrenSize D - (if cn_children n \<noteq> None then cachedNodeChildrenSize else 0)\<rparr>)))
              else Ret D)"

text \<open>A node is unlinked before its children are visited, so the depth is bounded by the number of nodes.\<close>

definition db_Dereference :: "(bytes \<Rightarrow> seed) \<Rightarrow> bytes \<Rightarrow> Database \<Rightarrow> Database go" where
  "db_Dereference ord root D =
     (if root = zeroHash then Ret D
      else
        go_bind (db_dereference (gomap_len (dirties D) + 1) ord root zeroHash D) (\<lambda>D'.
          Ret (D'\<lparr>gcnodes := gcnodes D' + (word_of_nat (gomap_len (dirties D)) - word_of_nat (gomap_len (dirties D'))),
                  gcsize := gcsize D' + (dirtiesSize D - dirtiesSize D')\<rparr>)))"

subsection \<open>To disk\<close>

text \<open>A write of the batch, with its outcome taken from a list; past the list writes succeed.\<close>

definition store_Write :: "bool list \<Rightarrow> batch \<Rightarrow> memorydb \<Rightarrow> (dbError option \<times> bool list \<times> memorydb) go" where
  "store_Write oks b disk =
     (case oks of
        [] \<Rightarrow> go_bind (batch_Write b disk) (\<lambda>disk. Ret (None, [], disk))
      | ok # oks \<Rightarrow>
          if ok then go_bind (batch_Write b disk) (\<lambda>disk. Ret (None, oks, disk)) else Ret (Some errWrite, oks, disk))"

definition WritePreimages :: "seed \<Rightarrow> (bytes, bytes) gomap \<Rightarrow> batch \<Rightarrow> batch" where
  "WritePreimages sd m b = fold (\<lambda>(hash, preimage). batch_Put (preimageKey hash) preimage) (gomap_range sd m) b"

definition WriteTrieNode :: "bytes \<Rightarrow> bytes \<Rightarrow> batch \<Rightarrow> batch" where
  "WriteTrieNode hash enc b = batch_Put hash enc b"

text \<open>The first loop of \<^verbatim>\<open>Cap\<close>, over the flush list.\<close>

fun cap_loop :: "nat \<Rightarrow> int \<Rightarrow> int \<Rightarrow> bytes \<Rightarrow> batch \<Rightarrow> bool list \<Rightarrow> Database \<Rightarrow>
    (dbError option \<times> bytes \<times> batch \<times> bool list \<times> Database) go" where
  "cap_loop 0 limit sz old b oks D = Blocked"
| "cap_loop (Suc k) limit sz old b oks D =
     (if sz > limit \<and> old \<noteq> zeroHash then
        (case gomap_get (dirties D) old of
           None \<Rightarrow> Panicked
         | Some n \<Rightarrow>
             go_bind (cn_rlp n) (\<lambda>enc.
               let b = WriteTrieNode old enc b;
                   sz' = sz - (32 + uint (cn_size n) + cachedNodeSize) -
                     (if cn_children n \<noteq> None then cachedNodeChildrenSize + ext_len n * (32 + 2) else 0)
               in if ValueSize b \<ge> IdealBatchSize then
                    go_bind (store_Write oks b (diskdb D)) (\<lambda>(err, oks, disk).
                      let D = D\<lparr>diskdb := disk\<rparr>
                      in if err \<noteq> None then Ret (err, old, b, oks, D)
                         else cap_loop k limit sz' (flushNext n) (batch_Reset b) oks D)
                  else cap_loop k limit sz' (flushNext n) b oks D))
      else Ret (None, old, b, oks, D))"

text \<open>The second one, which drops what was written.\<close>

fun cap_drop :: "nat \<Rightarrow> bytes \<Rightarrow> Database \<Rightarrow> Database go" where
  "cap_drop 0 old D = Blocked"
| "cap_drop (Suc k) old D =
     (if oldest D \<noteq> old then
        (case gomap_get (dirties D) (oldest D) of
           None \<Rightarrow> Panicked
         | Some n \<Rightarrow>
             cap_drop k old (D\<lparr>dirties := gomap_del (oldest D) (dirties D), oldest := flushNext n,
               dirtiesSize := dirtiesSize D - (32 + uint (cn_size n)),
               childrenSize := childrenSize D - (if cn_children n \<noteq> None then cachedNodeChildrenSize + ext_len n * (32 + 2) else 0)\<rparr>))
      else Ret D)"

definition cap_preimages :: "seed \<Rightarrow> bool list \<Rightarrow> batch \<Rightarrow> Database \<Rightarrow> (dbError option \<times> batch \<times> bool list \<times> Database) go" where
  "cap_preimages sd oks b D =
     (if preimagesSize D > 4 * 1024 * 1024 then
        (case preimages D of
           None \<Rightarrow> Ret (None, b, oks, D)
         | Some m \<Rightarrow>
             let b = WritePreimages sd m b
             in if ValueSize b > IdealBatchSize then
                  go_bind (store_Write oks b (diskdb D)) (\<lambda>(err, oks, disk).
                    Ret (err, (if err = None then batch_Reset b else b), oks, D\<lparr>diskdb := disk\<rparr>))
                else Ret (None, b, oks, D))
      else Ret (None, b, oks, D))"

text \<open>What \<^verbatim>\<open>Cap\<close> does once all is written; \<open>D0\<close> is the database at its start.\<close>

definition cap_uncache :: "Database \<Rightarrow> bytes \<Rightarrow> Database \<Rightarrow> (dbError option \<times> Database) go" where
  "cap_uncache D0 old D =
     (let D = (if preimagesSize D0 > 4 * 1024 * 1024 \<and> preimages D \<noteq> None
               then D\<lparr>preimages := Some [], preimagesSize := 0\<rparr> else D)
      in go_bind (cap_drop (gomap_len (dirties D) + 1) old D) (\<lambda>D.
         go_bind (if oldest D \<noteq> zeroHash then with_dirty (oldest D) (\<lambda>n. n\<lparr>flushPrev := zeroHash\<rparr>) D else Ret D) (\<lambda>D.
         Ret (None, D\<lparr>flushnodes := flushnodes D + (word_of_nat (gomap_len (dirties D0)) - word_of_nat (gomap_len (dirties D))),
                      flushsize := flushsize D + (dirtiesSize D0 - dirtiesSize D)\<rparr>))))"

definition db_Cap :: "seed \<Rightarrow> bool list \<Rightarrow> int \<Rightarrow> Database \<Rightarrow> (dbError option \<times> Database) go" where
  "db_Cap sd oks limit D0 =
     go_bind (cache_size D0) (\<lambda>sz.
     go_bind (cap_preimages sd oks memorydb_NewBatch D0) (\<lambda>(err, b, oks, D).
       if err \<noteq> None then Ret (err, D)
       else
         go_bind (cap_loop (gomap_len (dirties D) + 1) limit sz (oldest D) b oks D) (\<lambda>(err, old, b, oks, D).
           if err \<noteq> None then Ret (err, D)
           else
             go_bind (store_Write oks b (diskdb D)) (\<lambda>(err, oks, disk).
               let D = D\<lparr>diskdb := disk\<rparr>
               in if err \<noteq> None then Ret (err, D) else cap_uncache D0 old D))))"

text \<open>The cleaner, which a written batch is replayed to.\<close>

definition cleaner_Put :: "bytes \<Rightarrow> bytes \<Rightarrow> Database \<Rightarrow> (dbError option \<times> Database) go" where
  "cleaner_Put key enc D =
     (let hash = BytesToHash key
      in case gomap_get (dirties D) hash of
           None \<Rightarrow> Ret (None, D)
         | Some n \<Rightarrow>
             go_bind (flush_unlink hash n D) (\<lambda>D.
             Ret (None, D\<lparr>dirties := gomap_del hash (dirties D),
                          dirtiesSize := dirtiesSize D - (32 + uint (cn_size n)),
                          childrenSize := childrenSize D -
                            (if cn_children n \<noteq> None then cachedNodeChildrenSize + ext_len n * (32 + 2) else 0)\<rparr>)))"

definition cleaner_Delete :: "bytes \<Rightarrow> Database \<Rightarrow> (dbError option \<times> Database) go" where
  "cleaner_Delete key D = Panicked"

text \<open>\<open>cs_called\<close> are the calls of the callback.\<close>

record commitState =
  cs_db :: Database
  cs_batch :: batch
  cs_oks :: "bool list"
  cs_called :: "bytes list"

text \<open>The batch is written and replayed when it has grown large, and at the end.\<close>

definition commit_flush :: "commitState \<Rightarrow> (dbError option \<times> commitState) go" where
  "commit_flush st =
     go_bind (store_Write (cs_oks st) (cs_batch st) (diskdb (cs_db st))) (\<lambda>(err, oks, disk).
       let st = st\<lparr>cs_oks := oks, cs_db := cs_db st\<lparr>diskdb := disk\<rparr>\<rparr>
       in if err \<noteq> None then Ret (err, st)
          else
            go_bind (batch_Replay cleaner_Put cleaner_Delete (cs_batch st) (cs_db st)) (\<lambda>(_, D).
            Ret (None, st\<lparr>cs_db := D, cs_batch := batch_Reset (cs_batch st)\<rparr>)))"

fun db_commit :: "nat \<Rightarrow> (bytes \<Rightarrow> seed) \<Rightarrow> bytes \<Rightarrow> commitState \<Rightarrow> (dbError option \<times> commitState) go" where
  "db_commit 0 ord hash st = Blocked"
| "db_commit (Suc k) ord hash st =
     (case gomap_get (dirties (cs_db st)) hash of
        None \<Rightarrow> Ret (None, st)
      | Some n \<Rightarrow>
          go_bind (go_fold (\<lambda>child (err, st). if err = None then db_commit k ord child st else Ret (err, st))
              (forChilds (ord hash) n) (None, st)) (\<lambda>(err, st).
            if err \<noteq> None then Ret (err, st)
            else
              go_bind (cn_rlp n) (\<lambda>enc.
                let st = st\<lparr>cs_batch := WriteTrieNode hash enc (cs_batch st), cs_called := cs_called st @ [hash]\<rparr>
                in if ValueSize (cs_batch st) \<ge> IdealBatchSize then commit_flush st else Ret (None, st))))"

definition db_Commit :: "seed \<Rightarrow> (bytes \<Rightarrow> seed) \<Rightarrow> bool list \<Rightarrow> bytes \<Rightarrow> Database \<Rightarrow> (dbError option \<times> bytes list \<times> Database) go" where
  "db_Commit sd ord oks hash D =
     go_bind
       (case preimages D of
          None \<Rightarrow> Ret (None, oks, D)
        | Some m \<Rightarrow>
            go_bind (store_Write oks (WritePreimages sd m memorydb_NewBatch) (diskdb D)) (\<lambda>(err, oks, disk).
              Ret (err, oks, D\<lparr>diskdb := disk\<rparr>)))
       (\<lambda>(err, oks, D).
         if err \<noteq> None then Ret (err, [], D)
         else
           go_bind (db_commit (gomap_len (dirties D) + 1) ord hash
               \<lparr>cs_db = D, cs_batch = memorydb_NewBatch, cs_oks = oks, cs_called = []\<rparr>) (\<lambda>(err, st).
             if err \<noteq> None then Ret (err, cs_called st, cs_db st)
             else
               go_bind (commit_flush st) (\<lambda>(err, st).
                 if err \<noteq> None then Ret (err, cs_called st, cs_db st)
                 else
                   let D = cs_db st;
                       D = (if preimages D \<noteq> None then D\<lparr>preimages := Some [], preimagesSize := 0\<rparr> else D)
                   in Ret (None, cs_called st, D\<lparr>gcnodes := 0, gcsize := 0, flushnodes := 0, flushsize := 0\<rparr>))))"

end
