(* ===== verification/Trie_Flush.thy ===== *)
theory Trie_Flush
  imports Trie_Database
begin

text \<open>
  The flush list of the trie database: the cached nodes, without the meta root, form a doubly linked
  list from \<^verbatim>\<open>oldest\<close> to \<^verbatim>\<open>newest\<close>. While \<^verbatim>\<open>dereference\<close> runs, the nodes it is about to delete
  are cached and no longer on the list.
\<close>

abbreviation dn :: "Database \<Rightarrow> bytes \<Rightarrow> cachedNode option" where
  "dn D \<equiv> gomap_get (dirties D)"

subsection \<open>Linked lists\<close>

fun linked :: "('a \<Rightarrow> 'a) \<Rightarrow> ('a \<Rightarrow> 'a) \<Rightarrow> 'a list \<Rightarrow> bool" where
  "linked nx pv (a # b # hs) \<longleftrightarrow> nx a = b \<and> pv b = a \<and> linked nx pv (b # hs)"
| "linked nx pv hs \<longleftrightarrow> True"

lemma linked_append:
  "linked nx pv (xs @ ys) \<longleftrightarrow>
     linked nx pv xs \<and> linked nx pv ys \<and> (xs \<noteq> [] \<and> ys \<noteq> [] \<longrightarrow> nx (last xs) = hd ys \<and> pv (hd ys) = last xs)"
proof (induction xs)
  case (Cons x xs)
  then show ?case by (cases xs; cases ys) auto
qed simp

lemma linked_Cons: "linked nx pv (a # hs) \<longleftrightarrow> linked nx pv hs \<and> (hs \<noteq> [] \<longrightarrow> nx a = hd hs \<and> pv (hd hs) = a)"
  by (cases hs) auto

lemma linked_cong:
  "(\<And>a. a \<in> set (butlast hs) \<Longrightarrow> nx a = nx' a) \<Longrightarrow> (\<And>a. a \<in> set (tl hs) \<Longrightarrow> pv a = pv' a) \<Longrightarrow> linked nx pv hs \<longleftrightarrow> linked nx' pv' hs"
  by (induction nx pv hs rule: linked.induct) auto

subsection \<open>The list of the database\<close>

definition link :: "(cachedNode \<Rightarrow> bytes) \<Rightarrow> (bytes \<rightharpoonup> cachedNode) \<Rightarrow> bytes \<Rightarrow> bytes" where
  "link f d h = (case d h of Some n \<Rightarrow> f n | None \<Rightarrow> [])"

lemma link_upd [simp]: "link f (d(h \<mapsto> n)) = (link f d)(h := f n)"
  by (auto simp: link_def fun_eq_iff)

definition flush_ok :: "Database \<Rightarrow> bytes list \<Rightarrow> bytes set \<Rightarrow> bool" where
  "flush_ok D hs P \<longleftrightarrow>
     gomap_ok (dirties D) \<and> distinct hs \<and> zeroHash \<notin> set hs \<union> P \<and> set hs \<inter> P = {} \<and>
     dom (dn D) = insert zeroHash (set hs \<union> P) \<and>
     linked (link flushNext (dn D)) (link flushPrev (dn D)) hs \<and>
     (if hs = [] then oldest D = zeroHash
      else oldest D = hd hs \<and> newest D = last hs \<and> link flushNext (dn D) (last hs) = zeroHash)"

lemma flush_ok_None: "flush_ok D hs P \<Longrightarrow> dn D h = None \<longleftrightarrow> h \<noteq> zeroHash \<and> h \<notin> set hs \<and> h \<notin> P"
  unfolding flush_ok_def by (metis UnCI UnE domIff insert_iff)

lemma flush_ok_Some: "flush_ok D hs P \<Longrightarrow> (\<exists>n. dn D h = Some n) \<longleftrightarrow> h = zeroHash \<or> h \<in> set hs \<or> h \<in> P"
  using flush_ok_None [of D hs P h] by (metis option.exhaust option.simps(3))

text \<open>A node without its place in the list.\<close>

definition core :: "cachedNode \<Rightarrow> cachedNode" where
  "core n = n\<lparr>flushPrev := [], flushNext := []\<rparr>"

lemma core_simps [simp]:
  "core (n\<lparr>flushPrev := a\<rparr>) = core n" "core (n\<lparr>flushNext := a\<rparr>) = core n"
  "cn_node (core n) = cn_node n" "cn_size (core n) = cn_size n" "parents (core n) = parents n" "cn_children (core n) = cn_children n"
  by (simp_all add: core_def)

definition relinked :: "Database \<Rightarrow> Database \<Rightarrow> bool" where
  "relinked D D' \<longleftrightarrow> map_option core \<circ> dn D' = map_option core \<circ> dn D \<and>
     diskdb D' = diskdb D \<and> dirtiesSize D' = dirtiesSize D \<and> childrenSize D' = childrenSize D \<and>
     preimages D' = preimages D \<and> preimagesSize D' = preimagesSize D"

lemma relinkedD:
  assumes "relinked D D'"
  shows "map_option core (dn D' h) = map_option core (dn D h)" "diskdb D' = diskdb D" "dirtiesSize D' = dirtiesSize D"
    "childrenSize D' = childrenSize D" "preimages D' = preimages D" "preimagesSize D' = preimagesSize D"
    "dn D h = Some n \<Longrightarrow> \<exists>n'. dn D' h = Some n' \<and> core n' = core n" "dn D' h = Some n \<Longrightarrow> \<exists>n'. dn D h = Some n' \<and> core n' = core n"
    "dn D h = None \<longleftrightarrow> dn D' h = None"
proof -
  have c: "map_option core (dn D' h) = map_option core (dn D h)" for h using assms by (auto simp: relinked_def fun_eq_iff)
  then show "map_option core (dn D' h) = map_option core (dn D h)" .
  show "diskdb D' = diskdb D" "dirtiesSize D' = dirtiesSize D" "childrenSize D' = childrenSize D"
    "preimages D' = preimages D" "preimagesSize D' = preimagesSize D" using assms by (simp_all add: relinked_def)
  show "dn D h = Some n \<Longrightarrow> \<exists>n'. dn D' h = Some n' \<and> core n' = core n" "dn D' h = Some n \<Longrightarrow> \<exists>n'. dn D h = Some n' \<and> core n' = core n"
    "dn D h = None \<longleftrightarrow> dn D' h = None" using c [of h] by (cases "dn D h"; cases "dn D' h"; simp)+
qed

lemma relinked_refl [simp]: "relinked D D"
  by (simp add: relinked_def)

lemma relinked_trans: "relinked D D' \<Longrightarrow> relinked D' D'' \<Longrightarrow> relinked D D''"
  by (simp add: relinked_def)

lemma with_dirty_Some: "dn D h = Some n \<Longrightarrow> with_dirty h f D = Ret (D\<lparr>dirties := gomap_set h (f n) (dirties D)\<rparr>)"
  by (simp add: with_dirty_def)

lemma dn_set [simp]: "gomap_get (gomap_set h n m) = (gomap_get m)(h \<mapsto> n)"
  by (auto simp: fun_eq_iff)

lemma dn_del [simp]: "gomap_get (gomap_del h m) = (gomap_get m)(h := None)"
  by (auto simp: fun_eq_iff)

lemma relinked_set:
  "dn D h = Some n \<Longrightarrow> core n' = core n \<Longrightarrow> relinked D (D\<lparr>dirties := gomap_set h n' (dirties D), oldest := a\<rparr>)"
  "dn D h = Some n \<Longrightarrow> core n' = core n \<Longrightarrow> relinked D (D\<lparr>dirties := gomap_set h n' (dirties D)\<rparr>)"
  "dn D h = Some n \<Longrightarrow> core n' = core n \<Longrightarrow> relinked D (D\<lparr>dirties := gomap_set h n' (dirties D), newest := a\<rparr>)"
  by (auto simp: relinked_def fun_eq_iff)

text \<open>Taking a node off the list.\<close>

lemma flush_unlink_ok:
  assumes ok: "flush_ok D (xs @ h # ys) P" and n: "dn D h = Some n"
  shows "\<exists>D'. flush_unlink h n D = Ret D' \<and> flush_ok D' (xs @ ys) (insert h P) \<and> relinked D D'"
proof -
  let ?nx = "link flushNext (dn D)" and ?pv = "link flushPrev (dn D)"
  have d: "gomap_ok (dirties D)" "distinct (xs @ h # ys)" "zeroHash \<notin> set (xs @ h # ys) \<union> P" "set (xs @ h # ys) \<inter> P = {}"
    "dom (dn D) = insert zeroHash (set (xs @ h # ys) \<union> P)" "linked ?nx ?pv (xs @ h # ys)"
    "oldest D = hd (xs @ h # ys)" "newest D = last (xs @ h # ys)" "?nx (last (xs @ h # ys)) = zeroHash"
    using ok by (auto simp: flush_ok_def)
  have h: "?nx h = flushNext n" "?pv h = flushPrev n" using n by (simp_all add: link_def)
  have l: "linked ?nx ?pv xs" "linked ?nx ?pv ys" "ys \<noteq> [] \<Longrightarrow> ?nx h = hd ys" "xs \<noteq> [] \<Longrightarrow> ?pv h = last xs"
    using d(6) by (auto simp: linked_append linked_Cons)
  have cached: "\<exists>m. dn D a = Some m" if "a = zeroHash \<or> a \<in> set (xs @ ys)" for a using that d(5) by (auto simp: dom_def)
  consider (oldest) "xs = []" | (newest) "xs \<noteq> []" "ys = []" | (middle) "xs \<noteq> []" "ys \<noteq> []" by blast
  then show ?thesis
  proof cases
    case oldest
    have nx: "flushNext n = (if ys = [] then zeroHash else hd ys)" using l(3) h d(9) oldest by auto
    then have "flushNext n = zeroHash \<or> flushNext n \<in> set (xs @ ys)" by simp
    then obtain m where m: "dn D (flushNext n) = Some m" using cached by blast
    let ?D = "D\<lparr>dirties := gomap_set (flushNext n) (m\<lparr>flushPrev := zeroHash\<rparr>) (dirties D), oldest := flushNext n\<rparr>"
    have "flush_unlink h n D = Ret ?D" using d(7) oldest m by (simp add: flush_unlink_def with_dirty_def)
    moreover have "relinked D ?D" by (rule relinked_set(1) [OF m]) simp
    moreover have "linked (link flushNext (dn ?D)) (link flushPrev (dn ?D)) ys"
    proof -
      have "linked (link flushNext (dn ?D)) (link flushPrev (dn ?D)) ys = linked ?nx ?pv ys"
      proof (rule linked_cong)
        show "link flushNext (dn ?D) a = ?nx a" for a using m by (simp add: link_def)
        show "link flushPrev (dn ?D) a = ?pv a" if "a \<in> set (tl ys)" for a using that nx d(2,3) oldest by (cases ys) auto
      qed
      with l(2) show ?thesis by simp
    qed
    moreover have "link flushNext (dn ?D) (last ys) = zeroHash" if "ys \<noteq> []"
    proof -
      have "link flushNext (dn ?D) (last ys) = ?nx (last ys)" using m by (simp add: link_def)
      with d(9) that show ?thesis by simp
    qed
    moreover have "dom (dn ?D) = insert zeroHash (set ys \<union> insert h P)" using d(5) oldest nx by (auto split: if_splits)
    ultimately show ?thesis
      using d(1-4) d(8) nx oldest unfolding flush_ok_def by (intro exI [of _ ?D]) (auto split: if_splits)
  next
    case newest
    have pv: "flushPrev n = last xs" using l(4) h newest by simp
    obtain m where m: "dn D (last xs) = Some m" using cached [of "last xs"] newest by auto
    let ?D = "D\<lparr>dirties := gomap_set (last xs) (m\<lparr>flushNext := zeroHash\<rparr>) (dirties D), newest := last xs\<rparr>"
    have "h \<noteq> hd xs" using d(2) newest hd_in_set by fastforce
    then have "flush_unlink h n D = Ret ?D" using d(7,8) newest m pv by (simp add: flush_unlink_def with_dirty_def)
    moreover have "relinked D ?D" by (rule relinked_set(3) [OF m]) simp
    moreover have "linked (link flushNext (dn ?D)) (link flushPrev (dn ?D)) xs"
    proof -
      have "linked (link flushNext (dn ?D)) (link flushPrev (dn ?D)) xs = linked ?nx ?pv xs"
      proof (rule linked_cong)
        show "link flushPrev (dn ?D) a = ?pv a" for a using m by (simp add: link_def)
        have "last xs \<notin> set (butlast xs)" using d(2) newest(1) by (metis append_butlast_last_id distinct_append not_distinct_conv_prefix)
        then show "link flushNext (dn ?D) a = ?nx a" if "a \<in> set (butlast xs)" for a using that by auto
      qed
      with l(1) show ?thesis by simp
    qed
    moreover have "dom (dn ?D) = insert zeroHash (set xs \<union> insert h P)" using d(5) newest by auto
    ultimately show ?thesis
      using d(1-4,7) newest unfolding flush_ok_def by (intro exI [of _ ?D]) auto
  next
    case middle
    have pv: "flushPrev n = last xs" "flushNext n = hd ys" using l(3,4) h middle by simp_all
    obtain m m' where m: "dn D (last xs) = Some m" "dn D (hd ys) = Some m'" using cached [of "last xs"] cached [of "hd ys"] middle by auto
    have ne: "last xs \<noteq> hd ys" using d(2) middle last_in_set hd_in_set by fastforce
    let ?D1 = "D\<lparr>dirties := gomap_set (last xs) (m\<lparr>flushNext := hd ys\<rparr>) (dirties D)\<rparr>"
    let ?D = "?D1\<lparr>dirties := gomap_set (hd ys) (m'\<lparr>flushPrev := last xs\<rparr>) (dirties ?D1)\<rparr>"
    have "h \<noteq> hd xs" "h \<noteq> last ys" using d(2) middle hd_in_set last_in_set by fastforce+
    then have un: "flush_unlink h n D = Ret ?D" using d(7,8) middle m pv ne by (simp add: flush_unlink_def with_dirty_def)
    have nx: "link flushNext (dn ?D) a = (if a = last xs then hd ys else ?nx a)" for a using m ne by (auto simp: link_def)
    have "relinked D ?D1" by (rule relinked_set(2) [OF m(1)]) simp
    then have re: "relinked D ?D" by (rule relinked_trans) (rule relinked_set(2), use m ne in simp_all)
    have li: "linked (link flushNext (dn ?D)) (link flushPrev (dn ?D)) (xs @ ys)"
    proof -
      let ?nx' = "link flushNext (dn ?D)" and ?pv' = "link flushPrev (dn ?D)"
      have px: "?pv' a = (if a = hd ys then last xs else ?pv a)" for a using m ne by (auto simp: link_def)
      have "linked ?nx' ?pv' xs = linked ?nx ?pv xs"
      proof (rule linked_cong)
        have "last xs \<notin> set (butlast xs)" using d(2) middle(1) by (metis append_butlast_last_id distinct_append not_distinct_conv_prefix)
        then show "?nx' a = ?nx a" if "a \<in> set (butlast xs)" for a using that nx by auto
        have "hd ys \<notin> set xs" using d(2) middle(2) hd_in_set by fastforce
        then show "?pv' a = ?pv a" if "a \<in> set (tl xs)" for a using that px [of a] list.set_sel(2) [OF middle(1) that] by metis
      qed
      moreover have "linked ?nx' ?pv' ys = linked ?nx ?pv ys"
      proof (rule linked_cong)
        have "last xs \<notin> set ys" using d(2) middle(1) last_in_set by fastforce
        then show "?nx' a = ?nx a" if "a \<in> set (butlast ys)" for a using that nx [of a] in_set_butlastD [OF that] by metis
        have "hd ys \<notin> set (tl ys)" using d(2) middle(2) by (cases ys) auto
        then show "?pv' a = ?pv a" if "a \<in> set (tl ys)" for a using that px by auto
      qed
      ultimately show ?thesis using l(1,2) nx px by (auto simp: linked_append)
    qed
    have ls: "link flushNext (dn ?D) (last ys) = zeroHash"
    proof -
      have "last ys \<noteq> last xs" using d(2) last_in_set [OF middle(1)] last_in_set [OF middle(2)] by auto
      then show ?thesis unfolding nx using d(9) middle by simp
    qed
    have dm: "dom (dn ?D) = insert zeroHash (set (xs @ ys) \<union> insert h P)" using d(5) middle by auto
    have en: "oldest ?D = hd (xs @ ys)" "newest ?D = last (xs @ ys)" "gomap_ok (dirties ?D)" using d(1,7,8) middle by simp_all
    define E where "E = ?D"
    note E = ls dm en li un re
    have "flush_ok E (xs @ ys) (insert h P)"
      using d(2-4) middle E(1-6) unfolding flush_ok_def E_def [symmetric] by auto
    with un re show ?thesis unfolding E_def by blast
  qed
qed

subsection \<open>Other changes\<close>

lemma flush_ok_fields [simp]:
  "flush_ok (D\<lparr>diskdb := x\<rparr>) hs P = flush_ok D hs P" "flush_ok (D\<lparr>dirtiesSize := i\<rparr>) hs P = flush_ok D hs P"
  "flush_ok (D\<lparr>childrenSize := i\<rparr>) hs P = flush_ok D hs P" "flush_ok (D\<lparr>preimages := y\<rparr>) hs P = flush_ok D hs P"
  "flush_ok (D\<lparr>preimagesSize := i\<rparr>) hs P = flush_ok D hs P" "flush_ok (D\<lparr>gcnodes := w\<rparr>) hs P = flush_ok D hs P"
  "flush_ok (D\<lparr>gcsize := i\<rparr>) hs P = flush_ok D hs P" "flush_ok (D\<lparr>flushnodes := w\<rparr>) hs P = flush_ok D hs P"
  "flush_ok (D\<lparr>flushsize := i\<rparr>) hs P = flush_ok D hs P" "flush_ok (D\<lparr>roughPreimagesSize := i\<rparr>) hs P = flush_ok D hs P"
  "flush_ok (D\<lparr>roughDirtiesSize := i\<rparr>) hs P = flush_ok D hs P"
  by (simp_all add: flush_ok_def)

lemma flush_ok_set:
  assumes "flush_ok D hs P" "dn D h = Some n" "flushNext n' = flushNext n" "flushPrev n' = flushPrev n"
  shows "flush_ok (D\<lparr>dirties := gomap_set h n' (dirties D)\<rparr>) hs P"
proof -
  have "link flushNext ((dn D)(h \<mapsto> n')) = link flushNext (dn D)" "link flushPrev ((dn D)(h \<mapsto> n')) = link flushPrev (dn D)"
    using assms(2-) by (auto simp: link_def fun_eq_iff)
  moreover have "dom ((dn D)(h \<mapsto> n')) = dom (dn D)" using assms(2) by auto
  ultimately show ?thesis using assms(1) by (simp add: flush_ok_def del: link_upd dom_fun_upd)
qed

lemma flush_ok_del:
  assumes "flush_ok D hs (insert h P)" "h \<notin> P"
  shows "flush_ok (D\<lparr>dirties := gomap_del h (dirties D)\<rparr>) hs P"
proof -
  have h: "h \<notin> set hs" "h \<noteq> zeroHash" using assms by (auto simp: flush_ok_def)
  then have l: "link f ((dn D)(h := None)) a = link f (dn D) a" if "a \<in> set hs" for f a using that by (auto simp: link_def)
  have "linked (link flushNext ((dn D)(h := None))) (link flushPrev ((dn D)(h := None))) hs =
    linked (link flushNext (dn D)) (link flushPrev (dn D)) hs"
    by (rule linked_cong) (meson l in_set_butlastD, metis l list.sel(2) list.set_sel(2))
  with l [of "last hs" flushNext] assms h show ?thesis by (auto simp: flush_ok_def)
qed

lemma flush_ok_pop:
  assumes "flush_ok D (h # hs) P" "dn D h = Some n"
  shows "flush_ok (D\<lparr>dirties := gomap_del h (dirties D), oldest := flushNext n\<rparr>) hs P"
proof -
  have a: "h \<notin> set hs" "h \<notin> P" "h \<noteq> zeroHash" using assms(1) by (auto simp: flush_ok_def)
  have nx: "link flushNext (dn D) h = flushNext n" using assms(2) by (simp add: link_def)
  have "linked (link flushNext (dn D)) (link flushPrev (dn D)) (h # hs)" using assms(1) by (simp add: flush_ok_def)
  then have "linked (link flushNext (dn D)) (link flushPrev (dn D)) hs" "flushNext n = (if hs = [] then zeroHash else hd hs)"
    using assms(1) nx by (auto simp: linked_Cons flush_ok_def)
  then have "flush_ok (D\<lparr>oldest := flushNext n\<rparr>) hs (insert h P)" using assms(1) a by (auto simp: flush_ok_def)
  from flush_ok_del [OF this a(2)] show ?thesis by (cases "hs = []") (simp_all add: flush_ok_def)
qed

lemma flush_ok_append:
  assumes "flush_ok D hs P" "dn D h = None" "h \<noteq> zeroHash" "flushPrev n = newest D" "flushNext n = zeroHash"
  defines "E \<equiv> D\<lparr>dirties := gomap_set h n (dirties D)\<rparr>"
  shows "\<exists>E'. (if oldest E = zeroHash then Ret (E\<lparr>oldest := h, newest := h\<rparr>)
      else go_bind (with_dirty (newest E) (\<lambda>n. n\<lparr>flushNext := h\<rparr>) E) (\<lambda>E. Ret (E\<lparr>newest := h\<rparr>))) = Ret E' \<and>
    flush_ok E' (hs @ [h]) P \<and> relinked E E'"
proof -
  have h: "h \<notin> set hs" "h \<notin> P" using assms(2) flush_ok_None [OF assms(1)] by auto
  show ?thesis
  proof (cases "hs = []")
    case True
    let ?E = "E\<lparr>oldest := h, newest := h\<rparr>"
    have "flush_ok ?E (hs @ [h]) P" using assms(1,3,5) h True by (auto simp: flush_ok_def E_def link_def)
    moreover have "relinked E ?E" by (simp add: relinked_def)
    moreover have "oldest E = zeroHash" using assms(1) True by (simp add: flush_ok_def E_def)
    ultimately show ?thesis by auto
  next
    case False
    have "oldest D = hd hs" "zeroHash \<notin> set hs" "newest D = last hs" using assms(1) False by (simp_all add: flush_ok_def)
    then have o: "oldest D \<in> set hs" "newest D = last hs" "last hs \<in> set hs" "oldest D \<noteq> zeroHash"
      using hd_in_set [OF False] last_in_set [OF False] by metis+
    obtain m where m: "dn D (last hs) = Some m" using flush_ok_Some [OF assms(1)] o(3) by blast
    have ne: "last hs \<noteq> h" using o(3) h by auto
    let ?E = "E\<lparr>dirties := gomap_set (last hs) (m\<lparr>flushNext := h\<rparr>) (dirties E), newest := h\<rparr>"
    have e: "(if oldest E = zeroHash then Ret (E\<lparr>oldest := h, newest := h\<rparr>)
      else go_bind (with_dirty (newest E) (\<lambda>n. n\<lparr>flushNext := h\<rparr>) E) (\<lambda>E. Ret (E\<lparr>newest := h\<rparr>))) = Ret ?E"
      using o(2,4) m ne by (simp add: E_def with_dirty_def)
    have mE: "dn E (last hs) = Some m" using m ne by (simp add: E_def)
    have re: "relinked E ?E" by (rule relinked_set(3) [OF mE]) simp
    have nx: "link flushNext (dn ?E) a = (if a = last hs then h else if a = h then zeroHash else link flushNext (dn D) a)" for a
      using m ne assms(5) by (auto simp: E_def link_def)
    have pv: "link flushPrev (dn ?E) a = (if a = h then last hs else link flushPrev (dn D) a)" for a
      using m ne assms(4) o(2) by (auto simp: E_def link_def)
    have "linked (link flushNext (dn ?E)) (link flushPrev (dn ?E)) hs = linked (link flushNext (dn D)) (link flushPrev (dn D)) hs"
    proof (rule linked_cong)
      have "distinct hs" using assms(1) by (simp add: flush_ok_def)
      then have "last hs \<notin> set (butlast hs)" using False by (metis append_butlast_last_id distinct_append not_distinct_conv_prefix)
      then show "link flushNext (dn ?E) a = link flushNext (dn D) a" if "a \<in> set (butlast hs)" for a
        unfolding nx using that in_set_butlastD [OF that] h by auto
      show "link flushPrev (dn ?E) a = link flushPrev (dn D) a" if "a \<in> set (tl hs)" for a
        unfolding pv using list.set_sel(2) [OF False that] h by auto
    qed
    then have li: "linked (link flushNext (dn ?E)) (link flushPrev (dn ?E)) (hs @ [h])"
      using assms(1) nx pv ne by (simp add: linked_append flush_ok_def del: dn_set link_upd)
    have ls: "link flushNext (dn ?E) (last (hs @ [h])) = zeroHash" using nx [of h] ne by simp
    have dm: "dom (dn ?E) = insert zeroHash (set (hs @ [h]) \<union> P)" using assms(1) o(3) by (auto simp: flush_ok_def E_def)
    have en: "oldest ?E = hd (hs @ [h])" "newest ?E = last (hs @ [h])" "gomap_ok (dirties ?E)" "distinct (hs @ [h])"
      "zeroHash \<notin> set (hs @ [h]) \<union> P" "set (hs @ [h]) \<inter> P = {}"
      using assms(1,3) h False by (auto simp: flush_ok_def E_def)
    have "flush_ok ?E (hs @ [h]) P" unfolding flush_ok_def using li ls dm en by (simp only: if_False append_is_Nil_conv list.simps simp_thms)
    with e re show ?thesis by blast
  qed
qed

end
