(* ===== verification/Trie_GC.thy ===== *)
theory Trie_GC
  imports Trie_Flush "HOL-Library.Sublist"
begin

text \<open>
  Reference counting in the trie database: every cached node counts at least as many parents as there
  are references to it in the cache, unless it is on disk, and whatever is referred to in the cache
  can be read. Insertion, referencing and garbage collection keep this, and none of them panics.
\<close>

subsection \<open>References\<close>

text \<open>The hashes a node refers to, in its compact form and as external children.\<close>

definition kids :: "cachedNode \<Rightarrow> bytes multiset" where
  "kids n = mset (forChilds [] n)"

lemma kids_seed: "mset (forChilds sd n) = kids n"
  by (simp add: kids_def forChilds_def mset_map gomap_range_def split: option.split)

lemma kids_cong: "cn_node n = cn_node n' \<Longrightarrow> cn_children n = cn_children n' \<Longrightarrow> kids n = kids n'"
  by (simp add: kids_def forChilds_def)

lemma kids_core [simp]: "kids (core n) = kids n"
  by (rule kids_cong) simp_all

lemma kids_upd [simp]: "kids (n\<lparr>parents := w\<rparr>) = kids n" "kids (n\<lparr>flushNext := a\<rparr>) = kids n" "kids (n\<lparr>flushPrev := a\<rparr>) = kids n"
  by (rule kids_cong; simp)+

definition root_refs :: "Database \<Rightarrow> bytes \<Rightarrow> nat" where
  "root_refs D h =
     (case dn D zeroHash of
        None \<Rightarrow> 0
      | Some r \<Rightarrow> (case cn_children r of None \<Rightarrow> 0 | Some m \<Rightarrow> (case gomap_get m h of None \<Rightarrow> 0 | Some c \<Rightarrow> unat c)))"

text \<open>The references to \<open>h\<close> from the cached nodes that are not in \<open>P\<close>, and from outside.\<close>

definition refs :: "Database \<Rightarrow> bytes set \<Rightarrow> bytes \<Rightarrow> nat" where
  "refs D P h = (\<Sum>p \<in> dom (dn D) - insert zeroHash P. count (kids (the (dn D p))) h) + root_refs D h"

lemma finite_dom_dn [simp]: "finite (dom (gomap_get m))"
  by (simp add: gomap_get_def [abs_def] finite_dom_map_of)

lemma refs_cong:
  assumes "\<And>p. p \<notin> insert zeroHash P \<Longrightarrow> map_option kids (dn D' p) = map_option kids (dn D p)" "root_refs D' h = root_refs D h"
  shows "refs D' P h = refs D P h"
proof -
  have "dom (dn D') - insert zeroHash P = dom (dn D) - insert zeroHash P"
    using assms(1) by (auto simp: dom_def) (metis option.map_disc_iff option.exhaust)+
  moreover have "kids (the (dn D' p)) = kids (the (dn D p))" if "p \<in> dom (dn D) - insert zeroHash P" for p
    using assms(1) [of p] that by (cases "dn D' p") auto
  ultimately show ?thesis using assms(2) unfolding refs_def by (metis (mono_tags, lifting) sum.cong)
qed

lemma refs_insert:
  assumes "dn D p = Some n" "p \<notin> insert zeroHash P"
  shows "refs D P h = count (kids n) h + refs D (insert p P) h"
proof -
  let ?A = "dom (dn D) - insert zeroHash P"
  have "p \<in> ?A" "finite ?A" using assms by auto
  then have "(\<Sum>p \<in> ?A. count (kids (the (dn D p))) h) = count (kids n) h + (\<Sum>p \<in> ?A - {p}. count (kids (the (dn D p))) h)"
    using assms(1) by (simp add: sum.remove)
  moreover have "?A - {p} = dom (dn D) - insert zeroHash (insert p P)" by blast
  ultimately show ?thesis by (simp add: refs_def)
qed

lemma root_refs_fields [simp]:
  "h \<noteq> zeroHash \<Longrightarrow> root_refs (D\<lparr>dirties := gomap_del h (dirties D)\<rparr>) x = root_refs D x"
  "h \<noteq> zeroHash \<Longrightarrow> root_refs (D\<lparr>dirties := gomap_set h n (dirties D)\<rparr>) x = root_refs D x"
  by (simp_all add: root_refs_def)

lemma refs_del:
  assumes "c \<noteq> zeroHash"
  shows "refs (D\<lparr>dirties := gomap_del c (dirties D)\<rparr>) P h = refs D (insert c P) h"
proof -
  have "dom ((dn D)(c := None)) - insert zeroHash P = dom (dn D) - insert zeroHash (insert c P)" by auto
  moreover have "(\<Sum>p \<in> dom (dn D) - insert zeroHash (insert c P). count (kids (the (((dn D)(c := None)) p))) h) =
    (\<Sum>p \<in> dom (dn D) - insert zeroHash (insert c P). count (kids (the (dn D p))) h)" by (rule sum.cong) auto
  ultimately show ?thesis using assms by (simp add: refs_def del: dom_fun_upd)
qed

lemma refs_pos:
  assumes "dn D p = Some n" "p \<noteq> zeroHash" "p \<notin> P" "h \<in># kids n"
  shows "refs D P h > 0"
  using refs_insert [OF assms(1), of P h] assms(2-) by (simp add: count_greater_zero_iff)

subsection \<open>The invariant\<close>

definition on_disk :: "Database \<Rightarrow> bytes \<Rightarrow> bool" where
  "on_disk D h \<longleftrightarrow> length h = 32 \<and> (\<exists>e. memorydb_Get (diskdb D) h = Inr e \<and> e \<noteq> [])"

definition avail :: "Database \<Rightarrow> bytes \<Rightarrow> bool" where
  "avail D h \<longleftrightarrow> dn D h \<noteq> None \<or> on_disk D h"

text \<open>
  \<open>P\<close> are the nodes \<^verbatim>\<open>dereference\<close> is deleting and \<open>R\<close> the references of theirs it has still to
  release.
\<close>

definition counted :: "Database \<Rightarrow> bytes set \<Rightarrow> bytes multiset \<Rightarrow> bool" where
  "counted D P R \<longleftrightarrow>
     (\<forall>h n. dn D h = Some n \<and> h \<noteq> zeroHash \<longrightarrow>
        refs D P h + count R h \<le> (if h \<in> P then 0 else unat (parents n)) \<or> on_disk D h)"

definition closed :: "Database \<Rightarrow> bytes set \<Rightarrow> bool" where
  "closed D P \<longleftrightarrow> (\<forall>h. refs D P h > 0 \<longrightarrow> avail D h)"

text \<open>A hash does not depend on itself: some measure grows from the children to the parents.\<close>

definition ranked :: "(bytes \<Rightarrow> nat) \<Rightarrow> Database \<Rightarrow> bool" where
  "ranked rank D \<longleftrightarrow>
     (\<forall>p n h. dn D p = Some n \<and> p \<noteq> zeroHash \<and> h \<in># kids n \<longrightarrow> rank h < rank p \<and> h \<noteq> zeroHash)"

definition nodes_ok :: "Database \<Rightarrow> bool" where
  "nodes_ok D \<longleftrightarrow>
     (\<forall>p n. dn D p = Some n \<longrightarrow>
        (\<forall>m. cn_children n = Some m \<longrightarrow> gomap_ok m) \<and>
        (p \<noteq> zeroHash \<longrightarrow> length p = 32 \<and> (\<exists>e. e \<noteq> [] \<and> cn_rlp n = Ret e))) \<and>
     (\<exists>r m. dn D zeroHash = Some r \<and> cn_children r = Some m) \<and>
     (\<exists>m. md_db (diskdb D) = Some m \<and> gomap_ok m)"

lemma nodes_okD:
  assumes "nodes_ok D" "dn D p = Some n" "p \<noteq> zeroHash"
  shows "length p = 32" "\<exists>e. cn_rlp n = Ret e" "cn_rlp n = Ret e \<Longrightarrow> e \<noteq> []"
proof -
  have "length p = 32 \<and> (\<exists>e. e \<noteq> [] \<and> cn_rlp n = Ret e)" using assms unfolding nodes_ok_def by blast
  then show "length p = 32" "\<exists>e. cn_rlp n = Ret e" "cn_rlp n = Ret e \<Longrightarrow> e \<noteq> []" by auto
qed

definition gc_inv :: "(bytes \<Rightarrow> nat) \<Rightarrow> Database \<Rightarrow> bytes list \<Rightarrow> bytes set \<Rightarrow> bytes multiset \<Rightarrow> bool" where
  "gc_inv rank D hs P R \<longleftrightarrow> flush_ok D hs P \<and> counted D P R \<and> closed D P \<and> ranked rank D \<and> nodes_ok D"

lemma gc_invD:
  assumes "gc_inv rank D hs P R"
  shows "flush_ok D hs P" "counted D P R" "closed D P" "ranked rank D" "nodes_ok D"
  using assms by (simp_all add: gc_inv_def)

lemma countedD:
  assumes "counted D P R" "dn D h = Some n" "h \<noteq> zeroHash"
  shows "refs D P h + count R h \<le> (if h \<in> P then 0 else unat (parents n)) \<or> on_disk D h"
  using assms by (simp add: counted_def)

text \<open>Only the compact form, the children, the links and the counters of the nodes matter.\<close>

lemma same_nodes:
  assumes c: "map_option core \<circ> dn D' = map_option core \<circ> dn D" and d: "diskdb D' = diskdb D"
  shows "refs D' P h = refs D P h" "counted D' P R = counted D P R" "closed D' P = closed D P" "ranked rank D' = ranked rank D"
    "nodes_ok D' = nodes_ok D" "on_disk D' h = on_disk D h" "avail D' h = avail D h" "root_refs D' h = root_refs D h"
proof -
  have c': "map_option core (dn D' p) = map_option core (dn D p)" for p using c by (auto simp: fun_eq_iff)
  have sym: "(\<exists>n. dn D' p = Some n \<and> X (core n)) \<longleftrightarrow> (\<exists>n. dn D p = Some n \<and> X (core n))" for p and X :: "cachedNode \<Rightarrow> bool"
    using c' [of p] by (cases "dn D p"; cases "dn D' p") auto
  have none: "dn D' p = None \<longleftrightarrow> dn D p = None" for p using c' [of p] by (cases "dn D p"; cases "dn D' p") auto
  have opt: "map_option f (dn D' p) = map_option f (dn D p)" if "\<And>n. f (core n) = f n" for f :: "cachedNode \<Rightarrow> 'z" and p
  proof -
    have "map_option f x = map_option f (map_option core x)" for x using that by (cases x) simp_all
    with c' [of p] show ?thesis by metis
  qed
  have k: "map_option kids (dn D' p) = map_option kids (dn D p)" for p by (rule opt) simp
  have pa: "map_option parents (dn D' p) = map_option parents (dn D p)" for p by (rule opt) simp
  have ch: "map_option cn_children (dn D' p) = map_option cn_children (dn D p)" for p by (rule opt) simp
  have r: "root_refs D' h = root_refs D h" for h
    using ch [of zeroHash] by (cases "dn D zeroHash"; cases "dn D' zeroHash") (simp_all add: root_refs_def)
  show "root_refs D' h = root_refs D h" by (rule r)
  have refs: "refs D' P h = refs D P h" for h using k r by (intro refs_cong) auto
  show "refs D' P h = refs D P h" by (rule refs)
  have disk: "on_disk D' h = on_disk D h" for h using d by (simp add: on_disk_def)
  show "on_disk D' h = on_disk D h" by (rule disk)
  have av: "avail D' h = avail D h" for h using none [of h] disk by (simp add: avail_def)
  show "avail D' h = avail D h" by (rule av)
  have "(\<forall>n. dn D' h = Some n \<and> h \<noteq> zeroHash \<longrightarrow> refs D' P h + count R h \<le> (if h \<in> P then 0 else unat (parents n)) \<or> on_disk D' h) \<longleftrightarrow>
      (\<forall>n. dn D h = Some n \<and> h \<noteq> zeroHash \<longrightarrow> refs D P h + count R h \<le> (if h \<in> P then 0 else unat (parents n)) \<or> on_disk D h)" for h
    using pa [of h] unfolding refs disk by (cases "dn D h"; cases "dn D' h") simp_all
  then show "counted D' P R = counted D P R" by (simp add: counted_def)
  show "closed D' P = closed D P" by (simp add: closed_def refs av)
  have "(\<forall>n h. dn D' p = Some n \<and> p \<noteq> zeroHash \<and> h \<in># kids n \<longrightarrow> X h) \<longleftrightarrow>
      (\<forall>n h. dn D p = Some n \<and> p \<noteq> zeroHash \<and> h \<in># kids n \<longrightarrow> X h)" for p and X :: "bytes \<Rightarrow> bool"
    using k [of p] by (cases "dn D p"; cases "dn D' p") simp_all
  then show "ranked rank D' = ranked rank D" by (simp only: ranked_def)
  have "cn_rlp (core n) = cn_rlp n" for n by (simp add: cn_rlp_def)
  then have "(\<forall>n. dn D' p = Some n \<longrightarrow> (\<forall>m. cn_children n = Some m \<longrightarrow> gomap_ok m) \<and> (p \<noteq> zeroHash \<longrightarrow> length p = 32 \<and> (\<exists>e. e \<noteq> [] \<and> cn_rlp n = Ret e))) \<longleftrightarrow>
      (\<forall>n. dn D p = Some n \<longrightarrow> (\<forall>m. cn_children n = Some m \<longrightarrow> gomap_ok m) \<and> (p \<noteq> zeroHash \<longrightarrow> length p = 32 \<and> (\<exists>e. e \<noteq> [] \<and> cn_rlp n = Ret e)))" for p
    using sym [of p "\<lambda>n. \<not> ((\<forall>m. cn_children n = Some m \<longrightarrow> gomap_ok m) \<and> (p \<noteq> zeroHash \<longrightarrow> length p = 32 \<and> (\<exists>e. e \<noteq> [] \<and> cn_rlp n = Ret e)))"] by auto
  moreover have "(\<exists>n m. dn D' zeroHash = Some n \<and> cn_children n = Some m) \<longleftrightarrow> (\<exists>n m. dn D zeroHash = Some n \<and> cn_children n = Some m)"
    using sym [of zeroHash "\<lambda>n. \<exists>m. cn_children n = Some m"] by auto
  ultimately show "nodes_ok D' = nodes_ok D" using d by (simp add: nodes_ok_def)
qed

lemma gc_inv_relinked:
  "relinked D D' \<Longrightarrow> flush_ok D' hs' P' \<Longrightarrow> counted D P' R \<and> closed D P' \<and> ranked rank D \<and> nodes_ok D \<Longrightarrow> gc_inv rank D' hs' P' R"
  using same_nodes [of D' D] by (simp add: relinked_def gc_inv_def)

lemma gc_inv_same:
  assumes "dirties D' = dirties D" "oldest D' = oldest D" "newest D' = newest D" "diskdb D' = diskdb D"
  shows "gc_inv rank D' hs P R = gc_inv rank D hs P R"
proof -
  have "flush_ok D' hs P = flush_ok D hs P" using assms by (simp add: flush_ok_def)
  with same_nodes [of D' D] assms show ?thesis by (simp add: gc_inv_def)
qed

lemma gc_inv_fields [simp]:
  "gc_inv rank (D\<lparr>dirtiesSize := i\<rparr>) hs P R = gc_inv rank D hs P R" "gc_inv rank (D\<lparr>childrenSize := i\<rparr>) hs P R = gc_inv rank D hs P R"
  "gc_inv rank (D\<lparr>gcnodes := w\<rparr>) hs P R = gc_inv rank D hs P R" "gc_inv rank (D\<lparr>gcsize := i\<rparr>) hs P R = gc_inv rank D hs P R"
  "gc_inv rank (D\<lparr>flushnodes := w\<rparr>) hs P R = gc_inv rank D hs P R" "gc_inv rank (D\<lparr>flushsize := i\<rparr>) hs P R = gc_inv rank D hs P R"
  "gc_inv rank (D\<lparr>preimages := y\<rparr>) hs P R = gc_inv rank D hs P R" "gc_inv rank (D\<lparr>preimagesSize := i\<rparr>) hs P R = gc_inv rank D hs P R"
  "gc_inv rank (D\<lparr>roughDirtiesSize := i\<rparr>) hs P R = gc_inv rank D hs P R" "gc_inv rank (D\<lparr>roughPreimagesSize := i\<rparr>) hs P R = gc_inv rank D hs P R"
  by (rule gc_inv_same; simp)+

lemma nodes_ok_set:
  assumes "nodes_ok D" "dn D h = Some n" "cn_node n' = cn_node n" "\<And>m. cn_children n' = Some m \<Longrightarrow> gomap_ok m"
    "h = zeroHash \<Longrightarrow> cn_children n' \<noteq> None"
  shows "nodes_ok (D\<lparr>dirties := gomap_set h n' (dirties D)\<rparr>)"
proof -
  have "cn_rlp n' = cn_rlp n" using assms(3) by (simp add: cn_rlp_def)
  with assms show ?thesis by (auto simp: nodes_ok_def)
qed

lemma ranked_set:
  "ranked rank D \<Longrightarrow> dn D h = Some n \<Longrightarrow> set_mset (kids n') \<subseteq> set_mset (kids n) \<Longrightarrow> ranked rank (D\<lparr>dirties := gomap_set h n' (dirties D)\<rparr>)"
  by (auto simp: ranked_def)

lemma on_disk_fields [simp]: "on_disk (D\<lparr>dirties := m\<rparr>) h = on_disk D h" "avail (D\<lparr>dirties := gomap_set a n' (dirties D)\<rparr>) h = (avail D h \<or> h = a)"
  by (auto simp: on_disk_def avail_def)

lemma set_kids: "set_mset (kids n) = (case cn_children n of None \<Rightarrow> {} | Some m \<Rightarrow> gomap_keys m) \<union> set_mset (kids (n\<lparr>cn_children := None\<rparr>))"
  by (auto simp: kids_def forChilds_def gomap_range_def gomap_keys_def split: option.split)

subsection \<open>Garbage collection\<close>

definition shrinks :: "Database \<Rightarrow> Database \<Rightarrow> bool" where
  "shrinks D D' \<longleftrightarrow> diskdb D' = diskdb D \<and> preimages D' = preimages D \<and> (\<forall>h n'. dn D' h = Some n' \<longrightarrow> (\<exists>n. dn D h = Some n \<and> cn_node n' = cn_node n))"

lemma shrinks_refl [simp]: "shrinks D D"
  by (simp add: shrinks_def)

lemma shrinks_trans: "shrinks D D' \<Longrightarrow> shrinks D' D'' \<Longrightarrow> shrinks D D''"
  unfolding shrinks_def by (metis (no_types, lifting))

lemma shrinks_relinked:
  assumes "relinked D D'"
  shows "shrinks D D'"
proof -
  have "\<exists>n. dn D h = Some n \<and> cn_node n' = cn_node n" if "dn D' h = Some n'" for h n'
  proof -
    from relinkedD(8) [OF assms that] obtain n where n: "dn D h = Some n" "core n = core n'" by blast
    from arg_cong [OF n(2), of cn_node] n(1) show ?thesis by simp
  qed
  with relinkedD(2,5) [OF assms] show ?thesis by (simp add: shrinks_def)
qed

lemma shrinks_set: "dn D h = Some n \<Longrightarrow> cn_node n' = cn_node n \<Longrightarrow> shrinks D (D\<lparr>dirties := gomap_set h n' (dirties D)\<rparr>)"
  by (auto simp: shrinks_def)

text \<open>Changes to the external children of a node that is being deleted.\<close>

lemma gc_inv_deleting:
  assumes "gc_inv rank D hs P R" "p \<in> P" "dn D p = Some n"
    and "flushNext n' = flushNext n" "flushPrev n' = flushPrev n" "cn_node n' = cn_node n" "\<And>m. cn_children n' = Some m \<Longrightarrow> gomap_ok m"
      "set_mset (kids n') \<subseteq> set_mset (kids n)"
  shows "gc_inv rank (D\<lparr>dirties := gomap_set p n' (dirties D)\<rparr>) hs P R"
proof -
  let ?D = "D\<lparr>dirties := gomap_set p n' (dirties D)\<rparr>"
  note i = gc_invD [OF assms(1)]
  have z: "p \<noteq> zeroHash" using i(1) assms(2) by (auto simp: flush_ok_def)
  have r: "refs ?D P h = refs D P h" for h using assms(2) z by (intro refs_cong) auto
  have "flush_ok ?D hs P" by (rule flush_ok_set [OF i(1) assms(3-5)])
  moreover have "counted ?D P R"
    unfolding counted_def r
  proof (intro allI impI)
    fix h m
    assume "dn ?D h = Some m \<and> h \<noteq> zeroHash"
    with countedD [OF i(2), of h] countedD [OF i(2) assms(3) z] assms(2)
    show "refs D P h + count R h \<le> (if h \<in> P then 0 else unat (parents m)) \<or> on_disk ?D h" by (cases "h = p") simp_all
  qed
  moreover have "closed ?D P" unfolding closed_def r using i(3) by (auto simp: closed_def)
  moreover have "nodes_ok ?D" using nodes_ok_set [OF i(5) assms(3,6,7)] z by blast
  ultimately show ?thesis using ranked_set [OF i(4) assms(3,8)] by (simp add: gc_inv_def)
qed

lemma drop_external_deleting:
  assumes "gc_inv rank D hs P R" "p \<in> P"
  shows "\<exists>D'. drop_external child p D = Ret D' \<and> gc_inv rank D' hs P R \<and> shrinks D D'"
proof -
  note i = gc_invD [OF assms(1)]
  obtain n where n: "dn D p = Some n" using flush_ok_Some [OF i(1), of p] assms(2) by blast
  have ok: "cn_children n = Some m \<Longrightarrow> gomap_ok m" for m using i(5) n by (simp add: nodes_ok_def)
  consider (same) "drop_external child p D = Ret D"
    | (less) m m' j where "cn_children n = Some m" "gomap_ok m'" "gomap_keys m' \<subseteq> gomap_keys m"
        "drop_external child p D = Ret (D\<lparr>dirties := gomap_set p (n\<lparr>cn_children := Some m'\<rparr>) (dirties D), childrenSize := j\<rparr>)"
  proof (cases "cn_children n")
    case None
    with n that(1) show ?thesis by (simp add: drop_external_def)
  next
    case (Some m)
    show ?thesis
    proof (cases "gomap_get m child")
      case None
      with n Some that(1) show ?thesis by (simp add: drop_external_def)
    next
      case c: (Some c)
      then have "child \<in> gomap_keys m" by (simp add: gomap_keys_get)
      consider "\<not> c > 0" | "c > 0" "c - 1 = 0" | "c > 0" "c - 1 \<noteq> 0" by blast
      then show ?thesis
      proof cases
        case 1
        with n Some c that(1) show ?thesis by (simp add: drop_external_def)
      next
        case 2
        with n Some c that(2) [of m "gomap_del child m" "childrenSize D - 34"] ok [OF Some] show ?thesis by (auto simp: drop_external_def)
      next
        case 3
        with n Some c that(2) [of m "gomap_set child (c - 1) m" "childrenSize D"] ok [OF Some] \<open>child \<in> gomap_keys m\<close>
        show ?thesis by (auto simp: drop_external_def)
      qed
    qed
  qed
  then show ?thesis
  proof cases
    case same
    with assms(1) show ?thesis by auto
  next
    case (less m m' j)
    have "set_mset (kids (n\<lparr>cn_children := Some m'\<rparr>)) \<subseteq> set_mset (kids n)"
      using less(1,3) set_kids [of n] set_kids [of "n\<lparr>cn_children := Some m'\<rparr>"] by auto
    with less(2) gc_inv_deleting [OF assms n, of "n\<lparr>cn_children := Some m'\<rparr>"]
    have "gc_inv rank (D\<lparr>dirties := gomap_set p (n\<lparr>cn_children := Some m'\<rparr>) (dirties D)\<rparr>) hs P R" by simp
    moreover have "shrinks D (D\<lparr>dirties := gomap_set p (n\<lparr>cn_children := Some m'\<rparr>) (dirties D), childrenSize := j\<rparr>)"
      using n by (auto simp: shrinks_def)
    ultimately show ?thesis using less(4) by auto
  qed
qed

text \<open>The steps of \<^verbatim>\<open>dereference\<close> after that: one reference to \<open>child\<close> is pending.\<close>

definition dec_parents :: "cachedNode \<Rightarrow> cachedNode" where
  "dec_parents n = (if parents n > 0 then n\<lparr>parents := parents n - 1\<rparr> else n)"

lemma dec_parents_simps [simp]:
  "cn_node (dec_parents n) = cn_node n" "cn_children (dec_parents n) = cn_children n" "cn_size (dec_parents n) = cn_size n"
  "flushNext (dec_parents n) = flushNext n" "flushPrev (dec_parents n) = flushPrev n" "kids (dec_parents n) = kids n"
  "unat (parents (dec_parents n)) = unat (parents n) - 1"
proof -
  show "unat (parents (dec_parents n)) = unat (parents n) - 1"
    by (simp add: dec_parents_def unat_minus_one word_gt_0)
qed (simp_all add: dec_parents_def)

lemma counted_less:
  assumes "counted D P (R + {#c#})"
  shows "counted D P R"
  unfolding counted_def
proof (intro allI impI)
  fix h n
  assume "dn D h = Some n \<and> h \<noteq> zeroHash"
  with countedD [OF assms, of h n]
  show "refs D P h + count R h \<le> (if h \<in> P then 0 else unat (parents n)) \<or> on_disk D h" by (simp split: if_splits) auto
qed

lemma release_none: "gc_inv rank D hs P (R + {#c#}) \<Longrightarrow> gc_inv rank D hs P R"
  using counted_less by (auto simp: gc_inv_def)

lemma gc_inv_dec:
  assumes "gc_inv rank D hs P (R + {#c#})" "dn D c = Some n" "c \<noteq> zeroHash"
  defines "E \<equiv> D\<lparr>dirties := gomap_set c (dec_parents n) (dirties D)\<rparr>"
  shows "flush_ok E hs P" "closed E P" "ranked rank E" "nodes_ok E" "refs E P h = refs D P h"
proof -
  note i = gc_invD [OF assms(1)]
  show r: "refs E P h = refs D P h" for h using assms(2,3) by (intro refs_cong) (auto simp: E_def)
  show "flush_ok E hs P" unfolding E_def by (rule flush_ok_set [OF i(1) assms(2)]) simp_all
  show "closed E P" unfolding closed_def r using i(3) by (auto simp: closed_def E_def)
  show "ranked rank E" unfolding E_def by (rule ranked_set [OF i(4) assms(2)]) simp
  show "nodes_ok E" unfolding E_def using i(5) assms(2,3) by (intro nodes_ok_set [OF i(5) assms(2)]) (auto simp: nodes_ok_def)
qed

lemma release_keep:
  assumes "gc_inv rank D hs P (R + {#c#})" "dn D c = Some n" "c \<noteq> zeroHash" "c \<notin> P" "parents (dec_parents n) \<noteq> 0"
  shows "gc_inv rank (D\<lparr>dirties := gomap_set c (dec_parents n) (dirties D)\<rparr>) hs P R"
proof -
  let ?E = "D\<lparr>dirties := gomap_set c (dec_parents n) (dirties D)\<rparr>"
  note d = gc_inv_dec [OF assms(1-3)]
  have p: "unat (parents n) \<noteq> 0" using assms(5) unat_eq_zero [of "parents (dec_parents n)"] by auto
  have "counted ?E P R"
    unfolding counted_def d(5)
  proof (intro allI impI)
    fix h m
    assume a: "dn ?E h = Some m \<and> h \<noteq> zeroHash"
    from gc_invD(2) [OF assms(1)] have less: "counted D P R" by (rule counted_less)
    show "refs D P h + count R h \<le> (if h \<in> P then 0 else unat (parents m)) \<or> on_disk ?E h"
    proof (cases "h = c")
      case True
      with a countedD [OF gc_invD(2) [OF assms(1)] assms(2,3)] assms(4) p show ?thesis by auto
    next
      case False
      with a countedD [OF less, of h m] show ?thesis by simp
    qed
  qed
  with d(1-4) show ?thesis by (simp add: gc_inv_def)
qed

lemma release_move:
  assumes "gc_inv rank D hs P (R + {#c#})" "dn D c = Some n" "c \<noteq> zeroHash" "c \<notin> P" "parents (dec_parents n) = 0"
  defines "E \<equiv> D\<lparr>dirties := gomap_set c (dec_parents n) (dirties D)\<rparr>"
  shows "counted E (insert c P) (R + kids n)" "closed E (insert c P)"
proof -
  note d = gc_inv_dec [OF assms(1-3)]
  have e: "dn E c = Some (dec_parents n)" by (simp add: E_def)
  have r: "refs E (insert c P) h + count (kids n) h = refs D P h" for h
    using refs_insert [OF e, of P h] assms(3,4) d(5) [of h] by (simp add: E_def)
  have p: "unat (parents n) \<le> 1" using assms(5) dec_parents_simps(7) [of n] by simp
  show "counted E (insert c P) (R + kids n)"
    unfolding counted_def
  proof (intro allI impI)
    fix h m
    assume a: "dn E h = Some m \<and> h \<noteq> zeroHash"
    have "refs E (insert c P) h + count (R + kids n) h = refs D P h + count R h" using r [of h] by simp
    moreover have "refs D P h + count R h \<le> (if h \<in> insert c P then 0 else unat (parents m)) \<or> on_disk E h"
    proof (cases "h = c")
      case True
      with countedD [OF gc_invD(2) [OF assms(1)] assms(2,3)] assms(4) p show ?thesis by (auto simp: E_def)
    next
      case False
      with a countedD [OF counted_less [OF gc_invD(2) [OF assms(1)]], of h m] show ?thesis by (auto simp: E_def)
    qed
    ultimately show "refs E (insert c P) h + count (R + kids n) h \<le> (if h \<in> insert c P then 0 else unat (parents m)) \<or> on_disk E h" by (simp only:)
  qed
  show "closed E (insert c P)"
    unfolding closed_def
  proof (intro allI impI)
    fix h assume "0 < refs E (insert c P) h"
    with r [of h] have "refs D P h > 0" by simp
    with gc_invD(3) [OF assms(1)] have "avail D h" by (simp add: closed_def)
    then show "avail E h" by (simp add: E_def)
  qed
qed

lemma release_delete:
  assumes "gc_inv rank D hs (insert c P) R" "c \<notin> P"
  shows "gc_inv rank (D\<lparr>dirties := gomap_del c (dirties D)\<rparr>) hs P R"
proof -
  let ?E = "D\<lparr>dirties := gomap_del c (dirties D)\<rparr>"
  note i = gc_invD [OF assms(1)]
  have z: "c \<noteq> zeroHash" using i(1) by (auto simp: flush_ok_def)
  obtain n where n: "dn D c = Some n" using flush_ok_Some [OF i(1), of c] by blast
  have r: "refs ?E P h = refs D (insert c P) h" for h using z by (rule refs_del)
  have "counted ?E P R"
    unfolding counted_def r
  proof (intro allI impI)
    fix h m
    assume "dn ?E h = Some m \<and> h \<noteq> zeroHash"
    then show "refs D (insert c P) h + count R h \<le> (if h \<in> P then 0 else unat (parents m)) \<or> on_disk ?E h"
      using countedD [OF i(2), of h m] by (cases "h = c") simp_all
  qed
  moreover have "closed ?E P"
    unfolding closed_def r
  proof (intro allI impI)
    fix h assume h: "0 < refs D (insert c P) h"
    then have "avail D h" using i(3) by (simp add: closed_def)
    moreover have "on_disk D c" if "h = c" using countedD [OF i(2) n z] h that by simp
    ultimately show "avail ?E h" by (auto simp: avail_def)
  qed
  moreover have "ranked rank ?E" using i(4) by (auto simp: ranked_def)
  moreover have "nodes_ok ?E" using i(5) z by (auto simp: nodes_ok_def)
  ultimately show ?thesis using flush_ok_del [OF i(1) assms(2)] by (simp add: gc_inv_def)
qed

lemma ranked_fold:
  assumes step: "\<And>h D hs R. h \<in> set cs \<Longrightarrow> gc_inv rank D hs P (R + {#h#}) \<Longrightarrow> length hs \<le> k \<Longrightarrow>
      \<exists>D' hs'. f h D = Ret D' \<and> gc_inv rank D' hs' P R \<and> subseq hs' hs \<and> shrinks D D'"
    and "gc_inv rank D hs P (R + mset cs)" "length hs \<le> k"
  shows "\<exists>D' hs'. go_fold f cs D = Ret D' \<and> gc_inv rank D' hs' P R \<and> subseq hs' hs \<and> shrinks D D'"
  using assms
proof (induction cs arbitrary: D hs)
  case (Cons c cs)
  have "gc_inv rank D hs P ((R + mset cs) + {#c#})" using Cons.prems(2) by simp
  then obtain D1 hs1 where 1: "f c D = Ret D1" "gc_inv rank D1 hs1 P (R + mset cs)" "subseq hs1 hs" "shrinks D D1"
    using Cons.prems(1) [of c D hs "R + mset cs"] Cons.prems(3) by auto
  have len: "length hs1 \<le> k" using list_emb_length [OF 1(3)] Cons.prems(3) by simp
  obtain D' hs' where 2: "go_fold f cs D1 = Ret D'" "gc_inv rank D' hs' P R" "subseq hs' hs1" "shrinks D1 D'"
    using Cons.IH [OF Cons.prems(1) 1(2) len] by auto
  have "subseq hs' hs" using 2(3) 1(3) by (rule subseq_order.trans)
  with 1 2 shrinks_trans [of D D1 D'] show ?case by (intro exI [of _ D'] exI [of _ hs']) simp
qed auto

lemma db_dereference_ok:
  assumes "drop_external c p D0 = Ret D" "gc_inv rank D hs P (R + {#c#})" "length hs < k" "c \<noteq> zeroHash" "\<forall>q \<in> P. rank c < rank q"
  shows "\<exists>D' hs'. db_dereference k ord c p D0 = Ret D' \<and> gc_inv rank D' hs' P R \<and> subseq hs' hs \<and> shrinks D D'"
  using assms
proof (induction k arbitrary: c p D0 D hs P R)
  case (Suc k)
  note i = gc_invD [OF Suc.prems(2)]
  have cP: "c \<notin> P" using Suc.prems(5) by blast
  show ?case
  proof (cases "dn D c")
    case None
    with Suc.prems(1) release_none [OF Suc.prems(2)] show ?thesis by auto
  next
    case (Some n)
    let ?E = "D\<lparr>dirties := gomap_set c (dec_parents n) (dirties D)\<rparr>"
    note d = gc_inv_dec [OF Suc.prems(2) Some Suc.prems(4)]
    have sE: "shrinks D ?E" using Some by (intro shrinks_set) simp_all
    have eq: "db_dereference (Suc k) ord c p D0 =
      (if parents (dec_parents n) = 0 then
         go_bind (flush_unlink c (dec_parents n) ?E) (\<lambda>D.
           go_bind (go_fold (\<lambda>hash. db_dereference k ord hash c) (forChilds (ord c) (dec_parents n)) D) (\<lambda>D.
             Ret (D\<lparr>dirties := gomap_del c (dirties D), dirtiesSize := dirtiesSize D - (32 + uint (cn_size (dec_parents n))),
               childrenSize := childrenSize D - (if cn_children (dec_parents n) \<noteq> None then cachedNodeChildrenSize else 0)\<rparr>)))
       else Ret ?E)"
      using Suc.prems(1) Some by (simp add: dec_parents_def Let_def)
    show ?thesis
    proof (cases "parents (dec_parents n) = 0")
      case False
      with eq sE release_keep [OF Suc.prems(2) Some Suc.prems(4) cP False] show ?thesis by auto
    next
      case True
      have "c \<in> set hs" using flush_ok_Some [OF i(1), of c] Some Suc.prems(4) cP by blast
      then obtain xs ys where hs: "hs = xs @ c # ys" by (auto simp: in_set_conv_decomp)
      obtain F where F: "flush_unlink c (dec_parents n) ?E = Ret F" "flush_ok F (xs @ ys) (insert c P)" "relinked ?E F"
        using flush_unlink_ok [of ?E xs c ys P "dec_parents n"] d(1) hs by auto
      have iF: "gc_inv rank F (xs @ ys) (insert c P) (R + mset (forChilds (ord c) (dec_parents n)))"
        unfolding kids_seed dec_parents_simps
        by (rule gc_inv_relinked [OF F(3,2)]) (use release_move [OF Suc.prems(2) Some Suc.prems(4) cP True] d(3,4) in simp)
      have "\<exists>D' hs'. go_fold (\<lambda>hash. db_dereference k ord hash c) (forChilds (ord c) (dec_parents n)) F = Ret D' \<and>
        gc_inv rank D' hs' (insert c P) R \<and> subseq hs' (xs @ ys) \<and> shrinks F D'"
      proof (rule ranked_fold [OF _ iF order_refl])
        fix h D hs R'
        assume h: "h \<in> set (forChilds (ord c) (dec_parents n))" "gc_inv rank D hs (insert c P) (R' + {#h#})" "length hs \<le> length (xs @ ys)"
        have "h \<in># kids n" using h(1) kids_seed [of "ord c" "dec_parents n"] by (metis dec_parents_simps(6) set_mset_mset)
        then have r: "rank h < rank c" "h \<noteq> zeroHash" using i(4) Some Suc.prems(4) by (auto simp: ranked_def)
        obtain D1 where D1: "drop_external h c D = Ret D1" "gc_inv rank D1 hs (insert c P) (R' + {#h#})" "shrinks D D1"
          using drop_external_deleting [OF h(2), of c h] by auto
        have "\<exists>D' hs'. db_dereference k ord h c D = Ret D' \<and> gc_inv rank D' hs' (insert c P) R' \<and> subseq hs' hs \<and> shrinks D1 D'"
          using Suc.prems(3,5) h(3) hs r by (intro Suc.IH [OF D1(1,2)]) auto
        with shrinks_trans [OF D1(3)] show "\<exists>D' hs'. db_dereference k ord h c D = Ret D' \<and> gc_inv rank D' hs' (insert c P) R' \<and> subseq hs' hs \<and> shrinks D D'"
          by blast
      qed
      then obtain G hs' where G: "go_fold (\<lambda>hash. db_dereference k ord hash c) (forChilds (ord c) (dec_parents n)) F = Ret G"
        "gc_inv rank G hs' (insert c P) R" "subseq hs' (xs @ ys)" "shrinks F G" by blast
      let ?H = "G\<lparr>dirties := gomap_del c (dirties G), dirtiesSize := dirtiesSize G - (32 + uint (cn_size (dec_parents n))),
               childrenSize := childrenSize G - (if cn_children (dec_parents n) \<noteq> None then cachedNodeChildrenSize else 0)\<rparr>"
      have "db_dereference (Suc k) ord c p D0 = Ret ?H" using eq F(1) G(1) True by simp
      moreover have "gc_inv rank ?H hs' P R" using release_delete [OF G(2) cP] by simp
      moreover have "shrinks G ?H" by (auto simp: shrinks_def)
      then have "shrinks D ?H" using sE shrinks_relinked [OF F(3)] G(4) shrinks_trans by blast
      moreover have "subseq (xs @ ys) hs" unfolding hs by (intro list_emb_append_mono) auto
      then have "subseq hs' hs" by (rule subseq_order.trans [OF G(3)])
      ultimately show ?thesis by blast
    qed
  qed
qed simp

lemma flush_ok_len:
  assumes "flush_ok D hs P" "finite P"
  shows "gomap_len (dirties D) = Suc (length hs + card P)"
proof -
  have k: "gomap_keys (dirties D) = dom (dn D)" by (auto simp: gomap_keys_get)
  have d: "distinct hs" "zeroHash \<notin> set hs \<union> P" "set hs \<inter> P = {}" "dom (dn D) = insert zeroHash (set hs \<union> P)" "gomap_ok (dirties D)"
    using assms(1) by (simp_all add: flush_ok_def)
  have "card (insert zeroHash (set hs \<union> P)) = Suc (card (set hs \<union> P))" using d(2) assms(2) by (intro card_insert_disjoint) auto
  also have "card (set hs \<union> P) = length hs + card P" using d(1,3) assms(2) by (simp add: card_Un_disjoint distinct_card)
  finally show ?thesis using gomap_len_card [OF d(5)] k d(4) by simp
qed

lemma drop_external_root:
  assumes "gc_inv rank D hs {} {#}" "root_refs D c > 0"
  shows "\<exists>D'. drop_external c zeroHash D = Ret D' \<and> gc_inv rank D' hs {} ({#} + {#c#}) \<and> shrinks D D'"
proof -
  note i = gc_invD [OF assms(1)]
  obtain r m x where r: "dn D zeroHash = Some r" "cn_children r = Some m" "gomap_get m c = Some x" "unat x > 0"
    using assms(2) by (auto simp: root_refs_def split: option.splits)
  have x: "x > 0" "unat (x - 1) = unat x - 1" using r(4) by (simp_all add: word_less_nat_alt unat_minus_one unat_eq_zero [symmetric])
  have "x - 1 = 0 \<longleftrightarrow> unat x = 1" using x(2) r(4) unat_eq_zero [of "x - 1"] by (simp; linarith)
  define m' where "m' = (if x - 1 = 0 then gomap_del c m else gomap_set c (x - 1) m)"
  define E where "E = D\<lparr>dirties := gomap_set zeroHash (r\<lparr>cn_children := Some m'\<rparr>) (dirties D)\<rparr>"
  have ok: "gomap_ok m'" using i(5) r(1,2) by (auto simp: m'_def nodes_ok_def)
  have rr: "root_refs E h = root_refs D h - (if h = c then 1 else 0)" for h
    using r x \<open>x - 1 = 0 \<longleftrightarrow> unat x = 1\<close> by (auto simp: root_refs_def E_def m'_def)
  have rd: "refs E {} h + count {#c#} h = refs D {} h" for h
  proof -
    have "(\<Sum>p \<in> dom (dn E) - {zeroHash}. count (kids (the (dn E p))) h) = (\<Sum>p \<in> dom (dn D) - {zeroHash}. count (kids (the (dn D p))) h)"
      by (rule sum.cong) (auto simp: E_def)
    with rr [of h] assms(2) show ?thesis by (auto simp: refs_def)
  qed
  have "flush_ok E hs {}" unfolding E_def by (rule flush_ok_set [OF i(1) r(1)]) simp_all
  moreover have "counted E {} ({#} + {#c#})"
    unfolding counted_def
  proof (intro allI impI)
    fix h n
    assume a: "dn E h = Some n \<and> h \<noteq> zeroHash"
    then have "dn D h = Some n" by (auto simp: E_def split: if_splits)
    from countedD [OF i(2) this] a rd [of h] show "refs E {} h + count ({#} + {#c#}) h \<le> (if h \<in> {} then 0 else unat (parents n)) \<or> on_disk E h"
      by (simp add: E_def)
  qed
  moreover have "closed E {}"
    unfolding closed_def
  proof (intro allI impI)
    fix h assume "0 < refs E {} h"
    with rd [of h] have "avail D h" using i(3) by (simp add: closed_def)
    then show "avail E h" by (simp add: E_def)
  qed
  moreover have "ranked rank E" using i(4) by (auto simp: ranked_def E_def)
  moreover have "nodes_ok E" unfolding E_def using ok by (intro nodes_ok_set [OF i(5) r(1)]) auto
  ultimately have g: "gc_inv rank E hs {} ({#} + {#c#})" by (simp add: gc_inv_def)
  have "shrinks D E" using r(1) by (auto simp: shrinks_def E_def)
  show ?thesis
  proof (cases "x - 1 = 0")
    case True
    then have "drop_external c zeroHash D = Ret (E\<lparr>childrenSize := childrenSize D - (32 + 2)\<rparr>)"
      using r x(1) by (simp add: drop_external_def E_def m'_def)
    with g \<open>shrinks D E\<close> show ?thesis by (auto simp: shrinks_def)
  next
    case False
    then have "drop_external c zeroHash D = Ret E" using r x(1) by (simp add: drop_external_def E_def m'_def)
    with g \<open>shrinks D E\<close> show ?thesis by auto
  qed
qed

lemma db_Dereference_ok:
  assumes "gc_inv rank D hs {} {#}" "root_refs D root > 0 \<or> dn D root = None"
  shows "\<exists>D' hs'. db_Dereference ord root D = Ret D' \<and> gc_inv rank D' hs' {} {#} \<and> subseq hs' hs \<and> shrinks D D'"
proof (cases "root = zeroHash")
  case True
  with assms(1) show ?thesis by (auto simp: db_Dereference_def)
next
  case False
  note i = gc_invD [OF assms(1)]
  have len: "length hs < gomap_len (dirties D) + 1" using flush_ok_len [OF i(1)] by simp
  have "\<exists>D' hs'. db_dereference (gomap_len (dirties D) + 1) ord root zeroHash D = Ret D' \<and> gc_inv rank D' hs' {} {#} \<and> subseq hs' hs \<and> shrinks D D'"
  proof (cases "root_refs D root > 0")
    case True
    from drop_external_root [OF assms(1) True] obtain D1 where D1: "drop_external root zeroHash D = Ret D1"
      "gc_inv rank D1 hs {} ({#} + {#root#})" "shrinks D D1" by blast
    from db_dereference_ok [OF D1(1,2) len False, of ord] shrinks_trans [OF D1(3)] show ?thesis by auto
  next
    case no: False
    obtain r m where r: "dn D zeroHash = Some r" "cn_children r = Some m" using i(5) by (auto simp: nodes_ok_def)
    have "drop_external root zeroHash D = Ret D"
      using no r by (auto simp: drop_external_def root_refs_def word_less_nat_alt split: option.splits)
    with assms no show ?thesis by auto
  qed
  then obtain D' hs' where D': "db_dereference (gomap_len (dirties D) + 1) ord root zeroHash D = Ret D'" "gc_inv rank D' hs' {} {#}"
    "subseq hs' hs" "shrinks D D'" by blast
  then show ?thesis using False
    by (simp add: db_Dereference_def) (auto simp: shrinks_def)
qed

subsection \<open>Insertion\<close>

lemma simplify_item: "simplifyNode n = Ret r \<Longrightarrow> blob_free r \<and> r \<noteq> RNil \<and> node_item (unraw r) = node_item n"
proof (induction n arbitrary: r)
  case (FullNode cs f)
  then obtain rs where rs: "r = RFull rs" "list_all2 (\<lambda>c r. (if c \<noteq> NilNode then simplifyNode c else Ret RNil) = Ret r) cs rs"
    by (auto simp: go_simps)
  have c: "blob_free r \<and> node_item (unraw r) = node_item c"
    if "c \<in> set cs" "(if c \<noteq> NilNode then simplifyNode c else Ret RNil) = Ret r" for c r
    using that FullNode.IH [of c r] by (cases "c = NilNode") auto
  have "list_all2 (\<lambda>c r. blob_free r \<and> node_item (unraw r) = node_item c) cs rs"
    using rs(2) by (rule list.rel_mono_strong) (rule c)
  then have "(\<forall>r \<in> set rs. blob_free r) \<and> map (node_item \<circ> unraw) rs = map node_item cs"
    by (auto simp: list_all2_conv_all_nth in_set_conv_nth intro: nth_equalityI)
  with rs(1) show ?case by simp
qed (auto simp: go_simps)

lemma simplify_rlp:
  assumes "simplifyNode n = Ret r" "length (rlp_enc (node_item n)) < 2 ^ 63" "cn_node e = r"
  shows "cn_rlp e = Ret (rlp_enc (node_item n))"
proof -
  from simplify_item [OF assms(1)] have r: "blob_free r" "r \<noteq> RNil" "node_item (unraw r) = node_item n" by simp_all
  then have "makeBytes (rnode_encode r eb_reset) = rlp_enc (node_item n)"
    using nodeToBytes_item [of "unraw r"] assms(2) by (simp add: rnode_encode_unraw nodeToBytes_def)
  with r(1,2) assms(3) show ?thesis by (auto simp: cn_rlp_def split: rnode.splits)
qed

lemma fold_add_parent:
  "dn (fold add_parent cs D) h = map_option (\<lambda>c. c\<lparr>parents := parents c + word_of_nat (count_list cs h)\<rparr>) (dn D h)"
  "gomap_ok (dirties D) \<Longrightarrow> gomap_ok (dirties (fold add_parent cs D))"
  "(fold add_parent cs D)\<lparr>dirties := []\<rparr> = D\<lparr>dirties := []\<rparr>"
proof (induction cs arbitrary: D)
  case (Cons c cs)
  {
  case 1
  have "dn (add_parent c D) h = map_option (\<lambda>n. if h = c then n\<lparr>parents := parents n + 1\<rparr> else n) (dn D h)"
    by (cases "h = c"; cases "dn D c"; cases "dn D h") (simp_all add: add_parent_def)
  with Cons(1) [of "add_parent c D"] show ?case by (auto simp: option.map_comp comp_def add.assoc intro!: option.map_cong)
  next
  case 2
  then have "gomap_ok (dirties (add_parent c D))" by (simp add: add_parent_def split: option.split)
  then show ?case using Cons(2) by simp
  next
  case 3
  show ?case using Cons(3) [of "add_parent c D"] by (simp add: add_parent_def split: option.splits)
  }
qed (simp_all add: option.map_ident)

text \<open>A node can be inserted after its children.\<close>

definition insertable :: "(bytes \<Rightarrow> nat) \<Rightarrow> Database \<Rightarrow> bytes \<Rightarrow> node \<Rightarrow> bool" where
  "insertable rank D hash n \<longleftrightarrow>
     hash \<noteq> zeroHash \<and> length hash = 32 \<and> length (rlp_enc (node_item n)) < 2 ^ 63 \<and>
     (\<exists>r. simplifyNode n = Ret r \<and>
       (\<forall>h \<in> set (forGatherChildren r). rank h < rank hash \<and> h \<noteq> zeroHash \<and> avail D h \<and>
          (\<forall>c. dn D h = Some c \<longrightarrow> unat (parents c) + count_list (forGatherChildren r) h < 2 ^ 32)))"

lemma count_list_kids: "count_list xs h = count (mset xs) h"
  by (induction xs) auto

lemma db_insert_ok:
  assumes inv: "gc_inv rank D hs {} {#}" and n: "insertable rank D hash n"
  shows "\<exists>D' hs'. db_insert hash sz n D = Ret D' \<and> gc_inv rank D' hs' {} {#} \<and> avail D' hash \<and> (\<forall>h. avail D h \<longrightarrow> avail D' h) \<and>
    preimages D' = preimages D \<and> diskdb D' = diskdb D \<and>
    (if gomap_has (dirties D) hash then D' = D \<and> hs' = hs
     else hs' = hs @ [hash] \<and> (\<forall>p. map_option (Ret \<circ> cn_node) (dn D' p) = (if p = hash then Some (simplifyNode n) else map_option (Ret \<circ> cn_node) (dn D p))))"
proof (cases "gomap_has (dirties D) hash")
  case True
  with inv show ?thesis by (auto simp: db_insert_def avail_def gomap_has_def)
next
  case False
  then have new: "dn D hash = None" by (simp add: gomap_has_def)
  note i = gc_invD [OF inv]
  from n obtain r where r: "simplifyNode n = Ret r" "\<forall>h \<in> set (forGatherChildren r). rank h < rank hash \<and> h \<noteq> zeroHash \<and> avail D h \<and>
     (\<forall>c. dn D h = Some c \<longrightarrow> unat (parents c) + count_list (forGatherChildren r) h < 2 ^ 32)"
    and h: "hash \<noteq> zeroHash" "length hash = 32" "length (rlp_enc (node_item n)) < 2 ^ 63" by (auto simp: insertable_def)
  define e where "e = \<lparr>cn_node = r, cn_size = word_of_int sz, parents = 0, cn_children = None, flushPrev = newest D, flushNext = zeroHash\<rparr>"
  let ?cs = "forChilds [] e"
  have cs: "?cs = forGatherChildren r" using simplify_item [OF r(1)] by (auto simp: forChilds_def e_def split: rnode.splits)
  have k: "kids e = mset (forGatherChildren r)" by (simp add: kids_def cs)
  have self: "count (kids e) hash = 0" using r(2) k by (auto simp: count_eq_zero_iff)
  define D1 where "D1 = fold add_parent ?cs D"
  have dn1: "dn D1 h = map_option (\<lambda>c. c\<lparr>parents := parents c + word_of_nat (count (kids e) h)\<rparr>) (dn D h)" for h
    unfolding D1_def fold_add_parent(1) by (simp add: k cs count_list_kids)
  have f1: "D1\<lparr>dirties := []\<rparr> = D\<lparr>dirties := []\<rparr>" unfolding D1_def by (rule fold_add_parent(3))
  have f: "diskdb D1 = diskdb D" "oldest D1 = oldest D" "newest D1 = newest D" "preimages D1 = preimages D"
    using arg_cong [OF f1, of preimages] arg_cong [OF f1, of diskdb] arg_cong [OF f1, of oldest] arg_cong [OF f1, of newest] by simp_all
  have l: "link flushNext (dn D1) = link flushNext (dn D)" "link flushPrev (dn D1) = link flushPrev (dn D)"
    by (auto simp: link_def dn1 fun_eq_iff split: option.split)
  have "dom (dn D1) = dom (dn D)" by (auto simp: dn1)
  then have fl: "flush_ok D1 hs {}" using i(1) fold_add_parent(2) [of D ?cs] l f by (simp add: flush_ok_def D1_def [symmetric])
  let ?E = "D1\<lparr>dirties := gomap_set hash e (dirties D1)\<rparr>"
  obtain E' where E': "(if oldest ?E = zeroHash then Ret (?E\<lparr>oldest := hash, newest := hash\<rparr>)
      else go_bind (with_dirty (newest ?E) (\<lambda>n. n\<lparr>flushNext := hash\<rparr>) ?E) (\<lambda>E. Ret (E\<lparr>newest := hash\<rparr>))) = Ret E'"
    "flush_ok E' (hs @ [hash]) {}" "relinked ?E E'"
    using flush_ok_append [OF fl _ h(1), of e] new f by (auto simp: dn1 e_def)
  have kE: "dn ?E p = Some m \<Longrightarrow> p \<noteq> hash \<Longrightarrow> \<exists>c. dn D p = Some c \<and> m = c\<lparr>parents := parents c + word_of_nat (count (kids e) p)\<rparr>" for p m
    by (auto simp: dn1)
  have rf: "refs ?E {} x = refs D {} x + count (kids e) x" for x
  proof -
    have "refs ?E {} x = count (kids e) x + refs ?E {hash} x" using h(1) by (intro refs_insert) simp_all
    moreover have "refs ?E {hash} x = refs D {hash} x"
    proof (rule refs_cong)
      show "map_option kids (dn ?E p) = map_option kids (dn D p)" if "p \<notin> insert zeroHash {hash}" for p
        using that by (simp add: dn1 option.map_comp comp_def)
      show "root_refs ?E x = root_refs D x" using h(1) by (auto simp: root_refs_def dn1 split: option.split)
    qed
    moreover have "refs D {hash} x = refs D {} x"
    proof -
      have "dom (dn D) - insert zeroHash {hash} = dom (dn D) - insert zeroHash {}" using new by auto
      then show ?thesis by (simp add: refs_def)
    qed
    ultimately show ?thesis by simp
  qed
  have av: "avail ?E x" if "avail D x" for x using that f(1) by (auto simp: avail_def on_disk_def dn1)
  have "counted ?E {} {#}"
    unfolding counted_def rf
  proof (intro allI impI)
    fix x m
    assume a: "dn ?E x = Some m \<and> x \<noteq> zeroHash"
    show "refs D {} x + count (kids e) x + count {#} x \<le> (if x \<in> {} then 0 else unat (parents m)) \<or> on_disk ?E x"
    proof (cases "x = hash")
      case True
      have "refs D {} hash = 0 \<or> on_disk D hash" using i(3) new by (auto simp: closed_def avail_def)
      with True self f(1) show ?thesis by (auto simp: on_disk_def)
    next
      case False
      with kE a obtain c where c: "dn D x = Some c" "m = c\<lparr>parents := parents c + word_of_nat (count (kids e) x)\<rparr>" by blast
      have b: "unat (parents c) + count (kids e) x < 2 ^ 32"
      proof (cases "x \<in># kids e")
        case True
        with r(2) c(1) show ?thesis by (auto simp: k count_list_kids)
      next
        case False
        then have "count (kids e) x = 0" by (simp add: count_eq_zero_iff)
        with unsigned_less [of "parents c"] show ?thesis by simp
      qed
      then have "unat (parents m) = unat (parents c) + count (kids e) x"
        using c(2) by (simp add: unat_word_ariths unat_of_nat mod_less)
      with countedD [OF i(2) c(1)] a f(1) show ?thesis by (auto simp: on_disk_def)
    qed
  qed
  moreover have "closed ?E {}"
    unfolding closed_def rf
  proof (intro allI impI)
    fix x assume "0 < refs D {} x + count (kids e) x"
    then have "refs D {} x > 0 \<or> x \<in># kids e" unfolding count_greater_zero_iff [symmetric] by simp
    then have "avail D x" using i(3) r(2) by (auto simp: closed_def k)
    then show "avail ?E x" by (rule av)
  qed
  moreover have "ranked rank ?E"
    unfolding ranked_def
  proof (intro allI impI)
    fix p m x
    assume a: "dn ?E p = Some m \<and> p \<noteq> zeroHash \<and> x \<in># kids m"
    show "rank x < rank p \<and> x \<noteq> zeroHash"
    proof (cases "p = hash")
      case True
      with a r(2) k show ?thesis by auto
    next
      case False
      with kE a obtain c where "dn D p = Some c" "kids m = kids c" by fastforce
      with i(4) a show ?thesis by (auto simp: ranked_def)
    qed
  qed
  moreover have "nodes_ok ?E"
  proof -
    have "cn_rlp e = Ret (rlp_enc (node_item n))" using r(1) h(3) by (rule simplify_rlp) (simp add: e_def)
    then have new: "(\<forall>m. cn_children e = Some m \<longrightarrow> gomap_ok m) \<and> length hash = 32 \<and> (\<exists>enc. enc \<noteq> [] \<and> cn_rlp e = Ret enc)"
      using h(2) by (simp add: e_def)
    have old: "cn_rlp (c\<lparr>parents := w\<rparr>) = cn_rlp c" for c w by (simp add: cn_rlp_def)
    show ?thesis
      using i(5) new h(1) f(1) unfolding nodes_ok_def
      by (auto simp: dn1 old)
  qed
  ultimately have "gc_inv rank E' (hs @ [hash]) {} {#}" by (intro gc_inv_relinked [OF E'(3,2)]) simp
  moreover have "db_insert hash sz n D = Ret (E'\<lparr>dirtiesSize := dirtiesSize E' + uint (32 + cn_size e)\<rparr>)"
    unfolding db_insert_def r(1) go_bind.simps Let_def e_def [symmetric] D1_def [symmetric] E'(1) using False by simp
  moreover have "avail E' x = avail ?E x" for x using E'(3) same_nodes(7) [of E' ?E x] by (simp add: relinked_def)
  moreover have "avail ?E hash" by (simp add: avail_def)
  moreover have "preimages E' = preimages D" using relinkedD(5) [OF E'(3)] f(4) by simp
  moreover have "diskdb E' = diskdb D" using relinkedD(2) [OF E'(3)] f(1) by simp
  moreover have "map_option (Ret \<circ> cn_node) (dn E' x) = (if x = hash then Some (simplifyNode n) else map_option (Ret \<circ> cn_node) (dn D x))" for x
  proof -
    have "map_option g y = map_option g (map_option core y)" if "\<And>m. g (core m) = g m" for g :: "cachedNode \<Rightarrow> rnode go" and y using that by (cases y) simp_all
    from this [of "Ret \<circ> cn_node"] have "map_option (Ret \<circ> cn_node) (dn E' x) = map_option (Ret \<circ> cn_node) (dn ?E x)"
      using relinkedD(1) [OF E'(3), of x] by (metis comp_apply core_simps(3))
    then show ?thesis using r(1) by (simp add: dn1 e_def option.map_comp comp_def)
  qed
  ultimately show ?thesis using av False by (intro exI [of _ "E'\<lparr>dirtiesSize := dirtiesSize E' + uint (32 + cn_size e)\<rparr>"] exI [of _ "hs @ [hash]"])
    (auto simp: avail_def on_disk_def)
qed

subsection \<open>References from outside\<close>

lemma gomap_set_new: "gomap_get m k = None \<Longrightarrow> gomap_set k v m = m @ [(k, v)]"
  unfolding gomap_get_def gomap_set_def by (induction m) (auto split: if_splits)

definition referable :: "(bytes \<Rightarrow> nat) \<Rightarrow> Database \<Rightarrow> bytes \<Rightarrow> bytes \<Rightarrow> bool" where
  "referable rank D child parent \<longleftrightarrow>
     (\<forall>c. dn D child = Some c \<longrightarrow>
        child \<noteq> zeroHash \<and> unat (parents c) + 1 < 2 ^ 32 \<and> dn D parent \<noteq> None \<and>
        (if parent = zeroHash then root_refs D child + 1 < 2 ^ 16 else rank child < rank parent))"

lemma gc_inv_reference:
  assumes inv: "gc_inv rank D hs {} {#}" and c: "dn D c = Some n" "c \<noteq> zeroHash" "unat (parents n) + 1 < 2 ^ 32"
    and p: "dn D p = Some q" "p \<noteq> c" "cn_node q' = cn_node q" "flushNext q' = flushNext q" "flushPrev q' = flushPrev q" "parents q' = parents q"
      "cn_children q' = Some m'" "gomap_ok m'"
    and E: "dn E = (dn D)(c \<mapsto> n\<lparr>parents := parents n + 1\<rparr>, p \<mapsto> q')" "gomap_ok (dirties E)"
      "diskdb E = diskdb D" "oldest E = oldest D" "newest E = newest D"
    and one: "p \<noteq> zeroHash \<Longrightarrow> kids q' = add_mset c (kids q) \<and> rank c < rank p"
    and more: "\<And>h. p = zeroHash \<Longrightarrow> root_refs E h = root_refs D h + (if h = c then 1 else 0)"
  shows "gc_inv rank E hs {} {#}"
proof -
  note i = gc_invD [OF inv]
  have l: "link flushNext (dn E) = link flushNext (dn D)" "link flushPrev (dn E) = link flushPrev (dn D)"
    using c p E(1) by (auto simp: link_def fun_eq_iff)
  have "dom (dn E) = dom (dn D)" using c p E(1) by auto
  then have fl: "flush_ok E hs {}" using i(1) l E by (simp add: flush_ok_def del: link_upd)
  have rf: "refs E {} h = refs D {} h + (if h = c then 1 else 0)" for h
  proof (cases "p = zeroHash")
    case True
    have "(\<Sum>x \<in> dom (dn E) - {zeroHash}. count (kids (the (dn E x))) h) = (\<Sum>x \<in> dom (dn D) - {zeroHash}. count (kids (the (dn D x))) h)"
      using c p(1,2) E(1) True by (intro sum.cong) auto
    with more [OF True] show ?thesis by (simp add: refs_def)
  next
    case False
    have "refs E {} h = count (kids q') h + refs E {p} h" using False E(1) by (intro refs_insert) simp_all
    moreover have "refs D {} h = count (kids q) h + refs D {p} h" using False p(1) by (intro refs_insert) simp_all
    moreover have "refs E {p} h = refs D {p} h"
    proof (rule refs_cong)
      show "map_option kids (dn E x) = map_option kids (dn D x)" if "x \<notin> insert zeroHash {p}" for x using that E(1) c(1) by auto
      show "root_refs E h = root_refs D h" using False c(2) E(1) by (simp add: root_refs_def)
    qed
    ultimately show ?thesis using one [OF False] by simp
  qed
  have "counted E {} {#}"
    unfolding counted_def rf
  proof (intro allI impI)
    fix h x
    assume a: "dn E h = Some x \<and> h \<noteq> zeroHash"
    then obtain y where y: "dn D h = Some y" "unat (parents x) = unat (parents y) + (if h = c then 1 else 0)"
      using E(1) c p by (auto simp: unat_word_ariths split: if_splits)
    from countedD [OF i(2) y(1)] a y(2) E(3)
    show "refs D {} h + (if h = c then 1 else 0) + count {#} h \<le> (if h \<in> {} then 0 else unat (parents x)) \<or> on_disk E h" by (auto simp: on_disk_def)
  qed
  moreover have "closed E {}"
    unfolding closed_def rf
  proof (intro allI impI)
    fix h assume "0 < refs D {} h + (if h = c then 1 else 0)"
    then have "avail D h" using i(3) c(1) by (auto simp: closed_def avail_def split: if_splits)
    then show "avail E h" using E(1,3) by (auto simp: avail_def on_disk_def)
  qed
  moreover have "ranked rank E"
    unfolding ranked_def
  proof (intro allI impI)
    fix a x h
    assume a: "dn E a = Some x \<and> a \<noteq> zeroHash \<and> h \<in># kids x"
    have rk: "h \<in># kids y \<Longrightarrow> dn D a = Some y \<Longrightarrow> rank h < rank a \<and> h \<noteq> zeroHash" for y using i(4) a by (auto simp: ranked_def)
    have eq: "dn E a = (if a = p then Some q' else if a = c then Some (n\<lparr>parents := parents n + 1\<rparr>) else dn D a)" using E(1) by simp
    show "rank h < rank a \<and> h \<noteq> zeroHash"
    proof (cases "a = p")
      case True
      then have "h = c \<or> h \<in># kids q" "rank c < rank a" using a one eq by auto
      then show ?thesis using rk [of q] p(1) True c(2) by auto
    next
      case False
      show ?thesis
      proof (cases "a = c")
        case True
        with False a eq have "h \<in># kids n" by auto
        with rk c(1) True show ?thesis by simp
      next
        case ac: False
        with False a eq rk [of x] show ?thesis by simp
      qed
    qed
  qed
  moreover have "nodes_ok E"
  proof -
    have "cn_rlp q' = cn_rlp q" "cn_rlp (n\<lparr>parents := w\<rparr>) = cn_rlp n" for w using p(3) by (simp_all add: cn_rlp_def)
    then show ?thesis using i(5) c(1,2) p E(1,3) unfolding nodes_ok_def by auto
  qed
  ultimately show ?thesis using fl by (simp add: gc_inv_def)
qed

text \<open>\<^verbatim>\<open>Reference\<close> from the outside, or from a node that is cached.\<close>

lemma db_reference_ok:
  assumes inv: "gc_inv rank D hs {} {#}" and ok: "referable rank D child parent"
  shows "\<exists>D'. db_reference child parent D = Ret D' \<and> gc_inv rank D' hs {} {#} \<and> (\<forall>h. avail D h \<longrightarrow> avail D' h) \<and>
    (parent = zeroHash \<and> dn D child \<noteq> None \<longrightarrow> root_refs D' child > 0) \<and> shrinks D D'"
proof (cases "dn D child")
  case None
  then have "\<not> gomap_has (dirties D) child" by (simp add: gomap_has_def)
  with inv None show ?thesis by (auto simp: db_reference_def)
next
  case (Some n)
  note i = gc_invD [OF inv]
  have c: "child \<noteq> zeroHash" "unat (parents n) + 1 < 2 ^ 32" and par: "parent = zeroHash \<Longrightarrow> root_refs D child + 1 < 2 ^ 16"
    "parent \<noteq> zeroHash \<Longrightarrow> rank child < rank parent" and ex: "dn D parent \<noteq> None"
    using ok Some by (auto simp: referable_def)
  then have ne: "parent \<noteq> child" by auto
  obtain p where p: "dn D parent = Some p" using ex by blast
  have has: "gomap_has (dirties D) child" using Some by (simp add: gomap_has_def)
  let ?m = "case cn_children p of None \<Rightarrow> [] | Some m \<Rightarrow> m"
  let ?x = "(case gomap_get ?m child of None \<Rightarrow> 0 | Some x \<Rightarrow> x) + 1"
  let ?q = "p\<lparr>cn_children := Some (gomap_set child ?x ?m)\<rparr>"
  show ?thesis
  proof (cases "case cn_children p of None \<Rightarrow> False | Some m \<Rightarrow> gomap_has m child \<and> parent \<noteq> zeroHash")
    case True
    then have "parent \<noteq> zeroHash" by (auto split: option.splits)
    with True inv has p show ?thesis by (auto simp: db_reference_def)
  next
    case False
    then obtain E where E: "db_reference child parent D = Ret E"
      "dn E = (dn D)(child \<mapsto> n\<lparr>parents := parents n + 1\<rparr>, parent \<mapsto> ?q)" "gomap_ok (dirties E)"
      "diskdb E = diskdb D" "oldest E = oldest D" "newest E = newest D" "preimages E = preimages D"
    proof (cases "cn_children p")
      case None
      let ?E = "D\<lparr>dirties := gomap_set parent ?q (gomap_set child (n\<lparr>parents := parents n + 1\<rparr>) (gomap_set parent (p\<lparr>cn_children := Some []\<rparr>) (dirties D))),
        childrenSize := childrenSize D + cachedNodeChildrenSize + 34\<rparr>"
      have "db_reference child parent D = Ret ?E"
        using has p Some ne None by (simp add: db_reference_def with_dirty_def Let_def)
      moreover have "gomap_ok (dirties ?E)" using i(1) by (simp add: flush_ok_def)
      moreover have "dn ?E = (dn D)(child \<mapsto> n\<lparr>parents := parents n + 1\<rparr>, parent \<mapsto> ?q)" using ne by (auto simp: fun_eq_iff)
      ultimately show thesis using that [of ?E] by simp
    next
      case (Some m)
      let ?E = "D\<lparr>dirties := gomap_set parent ?q (gomap_set child (n\<lparr>parents := parents n + 1\<rparr>) (dirties D))\<rparr>"
      have "db_reference child parent D = Ret (if ?x = 1 then ?E\<lparr>childrenSize := childrenSize ?E + (32 + 2)\<rparr> else ?E)"
        using has p \<open>dn D child = Some n\<close> ne False Some by (auto simp: db_reference_def with_dirty_def Let_def)
      moreover have "gomap_ok (dirties ?E)" using i(1) by (simp add: flush_ok_def)
      ultimately show thesis using that by (cases "?x = 1") simp_all
    qed
    have okm: "gomap_ok ?m" using i(5) p by (auto simp: nodes_ok_def split: option.split)
    have root: "root_refs E h = root_refs D h + (if h = child then 1 else 0)" if z: "parent = zeroHash" for h
    proof -
      obtain m where m: "cn_children p = Some m" using i(5) p z by (auto simp: nodes_ok_def)
      have "unat ?x = root_refs D child + 1"
        using par(1) [OF z] p m z by (auto simp: root_refs_def unat_word_ariths split: option.splits)
      then show ?thesis using E(2) p m z by (simp add: root_refs_def)
    qed
    have kid: "kids ?q = add_mset child (kids p)" if "parent \<noteq> zeroHash"
    proof -
      have "gomap_get ?m child = None" using False that by (auto simp: gomap_has_def split: option.splits)
      then have "gomap_set child ?x ?m = ?m @ [(child, ?x)]" by (rule gomap_set_new)
      then show ?thesis by (simp add: kids_def forChilds_def gomap_range_def split: option.split)
    qed
    have "gc_inv rank E hs {} {#}"
      using kid par(2) root okm by (intro gc_inv_reference [where m' = "gomap_set child ?x ?m", OF inv Some c p ne _ _ _ _ _ _ E(2-6)]) auto
    moreover have "avail E h" if "avail D h" for h using that E(2,4) by (auto simp: avail_def on_disk_def)
    moreover have "root_refs E child > 0" if "parent = zeroHash" using root [OF that, of child] by simp
    moreover have "shrinks D E" using E(2,4,7) Some p by (auto simp: shrinks_def)
    ultimately show ?thesis using E(1) by auto
  qed
qed

lemma cache_size_ok: "nodes_ok D \<Longrightarrow> \<exists>sz. cache_size D = Ret sz"
  by (auto simp: nodes_ok_def cache_size_def)

lemma db_Reference_ok:
  assumes "gc_inv rank D hs {} {#}" "referable rank D child parent"
  shows "\<exists>D'. db_Reference child parent D = Ret D' \<and> gc_inv rank D' hs {} {#} \<and> (\<forall>h. avail D h \<longrightarrow> avail D' h) \<and>
    (parent = zeroHash \<and> dn D child \<noteq> None \<longrightarrow> root_refs D' child > 0) \<and> shrinks D D'"
proof -
  from db_reference_ok [OF assms] obtain E where E: "db_reference child parent D = Ret E" "gc_inv rank E hs {} {#}"
    "\<forall>h. avail D h \<longrightarrow> avail E h" "parent = zeroHash \<and> dn D child \<noteq> None \<longrightarrow> root_refs E child > 0" "shrinks D E" by blast
  from cache_size_ok [OF gc_invD(5) [OF E(2)]] obtain sz where sz: "cache_size E = Ret sz" by blast
  let ?E = "E\<lparr>roughDirtiesSize := sz, roughPreimagesSize := preimagesSize E\<rparr>"
  have "avail ?E h = avail E h" "root_refs ?E h = root_refs E h" for h by (simp_all add: avail_def on_disk_def root_refs_def)
  moreover have "shrinks D ?E" using E(5) by (simp add: shrinks_def)
  ultimately show ?thesis using E sz by (simp add: db_Reference_def)
qed

end
