(* ===== verification/Trie_Disk.thy ===== *)
theory Trie_Disk
  imports Trie_GC
begin

text \<open>
  The ways to disk of the trie database, \<^verbatim>\<open>Cap\<close> and \<^verbatim>\<open>Commit\<close>: whether writes succeed or fail, they
  return, keep the invariant, and do not change what \<^verbatim>\<open>Node\<close> answers; a \<^verbatim>\<open>Cap\<close> that succeeds brings
  the cache below its limit, and a \<^verbatim>\<open>Commit\<close> that succeeds has all of its trie on disk.
\<close>

subsection \<open>Writes\<close>

definition content :: "memorydb \<Rightarrow> bytes \<rightharpoonup> bytes" where
  "content d h = (case md_db d of None \<Rightarrow> None | Some m \<Rightarrow> gomap_get m h)"

lemma Get_content: "memorydb_Get d h = Inr e \<longleftrightarrow> content d h = Some e"
  by (simp add: memorydb_Get_def content_def split: option.split)

lemma on_disk_content: "on_disk D h \<longleftrightarrow> length h = 32 \<and> (\<exists>e. content (diskdb D) h = Some e \<and> e \<noteq> [])"
  by (simp add: on_disk_def Get_content)

definition disk_open :: "memorydb \<Rightarrow> bool" where
  "disk_open d \<longleftrightarrow> (\<exists>m. md_db d = Some m \<and> gomap_ok m)"

lemma store_Write_ok:
  assumes "disk_open d"
  shows "\<exists>err oks' d'. store_Write oks b d = Ret (err, oks', d') \<and> disk_open d' \<and>
    (if err = None then content d' = apply_writes (writes b) (content d) else d' = d)"
proof -
  from assms obtain m where m: "md_db d = Some m" "gomap_ok m" by (auto simp: disk_open_def)
  from batch_Write_open [OF this, of b] obtain m' where m': "batch_Write b d = Ret (d\<lparr>md_db := Some m'\<rparr>)" "gomap_ok m'"
    "gomap_get m' = apply_writes (writes b) (gomap_get m)" by blast
  have "content d = gomap_get m" "content (d\<lparr>md_db := Some m'\<rparr>) = gomap_get m'" using m(1) by (auto simp: content_def fun_eq_iff)
  moreover have "disk_open (d\<lparr>md_db := Some m'\<rparr>)" using m'(2) by (simp add: disk_open_def)
  ultimately have ok: "disk_open (d\<lparr>md_db := Some m'\<rparr>) \<and> content (d\<lparr>md_db := Some m'\<rparr>) = apply_writes (writes b) (content d)"
    using m'(3) by simp
  show ?thesis
  proof (cases oks)
    case Nil
    with m'(1) ok show ?thesis by (auto simp: store_Write_def)
  next
    case (Cons a as)
    with m'(1) ok assms show ?thesis by (cases a) (auto simp: store_Write_def)
  qed
qed

lemma apply_writes_cases:
  "(\<forall>w \<in> set ws. kv_key w \<noteq> h) \<and> apply_writes ws c h = c h \<or>
   (\<exists>w \<in> set ws. kv_key w = h \<and> apply_writes ws c h = (if kv_delete w then None else Some (kv_value w)))"
proof (induction ws arbitrary: c)
  case (Cons w ws)
  define c1 where "c1 = c(kv_key w := (if kv_delete w then None else Some (kv_value w)))"
  have c1: "apply_writes (w # ws) c = apply_writes ws c1" "c1 h = (if kv_key w = h then if kv_delete w then None else Some (kv_value w) else c h)"
    by (simp_all only: apply_writes.simps c1_def fun_upd_apply eq_commute [of h])
  from Cons.IH [of c1] c1(2) show ?case unfolding c1(1) by (cases "kv_key w = h") auto
qed simp

text \<open>A write that puts what is cached, or something that is no hash.\<close>

definition right_write :: "Database \<Rightarrow> keyvalue \<Rightarrow> bool" where
  "right_write D w \<longleftrightarrow> \<not> kv_delete w \<and>
     (length (kv_key w) \<noteq> 32 \<or> kv_key w \<noteq> zeroHash \<and> (\<exists>n. dn D (kv_key w) = Some n \<and> cn_rlp n = Ret (kv_value w)))"

definition same_answers :: "Database \<Rightarrow> Database \<Rightarrow> bool" where
  "same_answers D E \<longleftrightarrow> (\<forall>cl h. length h = 32 \<longrightarrow> db_Node cl E h = db_Node cl D h)"

lemma same_answers_refl [simp]: "same_answers D D"
  by (simp add: same_answers_def)

lemma same_answers_trans: "same_answers D E \<Longrightarrow> same_answers E F \<Longrightarrow> same_answers D F"
  by (simp add: same_answers_def)

lemma db_Node_cong:
  assumes "map_option cn_rlp (dn E x) = map_option cn_rlp (dn D x)" "diskdb E = diskdb D"
  shows "db_Node cl E x = db_Node cl D x"
  using assms by (cases "dn E x"; cases "dn D x") (simp_all add: db_Node_def split: option.split)

lemma gc_inv_disk:
  assumes "gc_inv rank D hs P R" "\<And>h. on_disk D h \<Longrightarrow> on_disk (D\<lparr>diskdb := d\<rparr>) h" "disk_open d"
  shows "gc_inv rank (D\<lparr>diskdb := d\<rparr>) hs P R"
proof -
  let ?E = "D\<lparr>diskdb := d\<rparr>"
  note i = gc_invD [OF assms(1)]
  have r: "refs ?E Q h = refs D Q h" for Q h by (simp add: refs_def root_refs_def)
  have "counted ?E P R"
    unfolding counted_def r
  proof (intro allI impI)
    fix h n
    assume "dn ?E h = Some n \<and> h \<noteq> zeroHash"
    with countedD [OF i(2), of h n] assms(2) [of h] show "refs D P h + count R h \<le> (if h \<in> P then 0 else unat (parents n)) \<or> on_disk ?E h" by auto
  qed
  moreover have "closed ?E P" unfolding closed_def r using i(3) assms(2) by (auto simp: closed_def avail_def)
  moreover have "ranked rank ?E" using i(4) by (auto simp: ranked_def)
  moreover have "nodes_ok ?E" using i(5) assms(3) by (simp add: nodes_ok_def disk_open_def)
  ultimately show ?thesis using i(1) by (simp add: gc_inv_def)
qed

text \<open>Writing what is on disk already does no harm either.\<close>

lemma write_harmless:
  assumes inv: "gc_inv rank D hs P R"
    and w: "\<forall>w \<in> set ws. right_write D w \<or> \<not> kv_delete w \<and> content (diskdb D) (kv_key w) = Some (kv_value w)" and d: "disk_open d" "content d = apply_writes ws (content (diskdb D))"
  shows "gc_inv rank (D\<lparr>diskdb := d\<rparr>) hs P R" "same_answers D (D\<lparr>diskdb := d\<rparr>)" "on_disk D h \<Longrightarrow> on_disk (D\<lparr>diskdb := d\<rparr>) h"
proof -
  let ?E = "D\<lparr>diskdb := d\<rparr>"
  have none: "content d h = content (diskdb D) h" if "length h = 32" "dn D h = None" for h
    using apply_writes_cases [of ws h "content (diskdb D)"] w that unfolding d(2) by (auto simp: right_write_def)
  have some: "content d h = content (diskdb D) h \<or> (h \<noteq> zeroHash \<and> (\<exists>n e. dn D h = Some n \<and> cn_rlp n = Ret e \<and> content d h = Some e))"
    if "length h = 32" for h
    using apply_writes_cases [of ws h "content (diskdb D)"] w that unfolding d(2) by (auto simp: right_write_def)
  show mono: "on_disk ?E h" if "on_disk D h" for h
    using that some [of h] nodes_okD(3) [OF gc_invD(5) [OF inv], of h] by (auto simp: on_disk_content)
  show "gc_inv rank ?E hs P R" using gc_inv_disk [OF inv _ d(1)] mono by blast
  have get: "memorydb_Get d h = memorydb_Get (diskdb D) h \<or> (\<exists>n. dn D h = Some n)" if "length h = 32" for h
  proof -
    obtain m m' where "md_db d = Some m" "md_db (diskdb D) = Some m'" using d(1) gc_invD(5) [OF inv] by (auto simp: disk_open_def nodes_ok_def)
    with none [OF that] show ?thesis by (auto simp: memorydb_Get_def content_def)
  qed
  have "db_Node cl ?E h = db_Node cl D h" if "length h = 32" for cl h
    using get [OF that] by (elim disjE exE) (simp_all add: db_Node_def split: option.split)
  then show "same_answers D ?E" by (simp add: same_answers_def)
qed

subsection \<open>What is on disk is complete\<close>

definition inner :: "cachedNode \<Rightarrow> bytes set" where
  "inner n = set (forGatherChildren (cn_node n))"

lemma inner_kids: "c \<in> inner n \<Longrightarrow> c \<in># kids n"
  by (cases "cn_node n") (auto simp: inner_def kids_def forChilds_def)

text \<open>
  \<open>kd h\<close> are the children of the node with hash \<open>h\<close>. In the flush list a child stands before its
  parent, unless it is on disk, and a node on disk has its children there.
\<close>

definition sane :: "(bytes \<Rightarrow> bytes set) \<Rightarrow> Database \<Rightarrow> bytes list \<Rightarrow> bool" where
  "sane kd D hs \<longleftrightarrow>
     (\<forall>xs p ys n. hs = xs @ p # ys \<and> dn D p = Some n \<longrightarrow> kd p = inner n \<and> (\<forall>c \<in> kd p. c \<in> set xs \<or> on_disk D c)) \<and>
     (\<forall>h c. on_disk D h \<and> c \<in> kd h \<longrightarrow> on_disk D c)"

lemma saneD:
  assumes "sane kd D hs"
  shows "hs = xs @ p # ys \<Longrightarrow> dn D p = Some n \<Longrightarrow> kd p = inner n"
    "hs = xs @ p # ys \<Longrightarrow> dn D p = Some n \<Longrightarrow> c \<in> kd p \<Longrightarrow> c \<in> set xs \<or> on_disk D c"
    "on_disk D h \<Longrightarrow> c \<in> kd h \<Longrightarrow> on_disk D c"
  using assms unfolding sane_def by blast+

definition preserves :: "Database \<Rightarrow> bytes list \<Rightarrow> Database \<Rightarrow> bytes list \<Rightarrow> bool" where
  "preserves D hs E hs' \<longleftrightarrow> same_answers D E \<and> (\<forall>kd. sane kd D hs \<longrightarrow> sane kd E hs')"

lemma preserves_refl [simp]: "preserves D hs D hs"
  by (simp add: preserves_def)

lemma preserves_trans: "preserves D hs E hs' \<Longrightarrow> preserves E hs' F hs'' \<Longrightarrow> preserves D hs F hs''"
  using same_answers_trans by (auto simp: preserves_def)

lemma preserves_same:
  assumes "\<And>p. map_option cn_node (dn E p) = map_option cn_node (dn D p)" "diskdb E = diskdb D"
  shows "preserves D hs E hs"
proof -
  have rlp: "map_option cn_rlp y = map_option (\<lambda>r. cn_rlp (n\<lparr>cn_node := r\<rparr>)) (map_option cn_node y)" for y n
    by (cases y) (auto simp: cn_rlp_def)
  have "db_Node cl E x = db_Node cl D x" for cl x
    using assms(2) by (intro db_Node_cong) (simp_all only: rlp [of _ metaRoot] assms(1))
  moreover have od: "on_disk E = on_disk D" by (simp add: on_disk_def assms(2) fun_eq_iff)
  have "sane kd E hs" if kd: "sane kd D hs" for kd
    unfolding sane_def od
  proof (intro conjI allI impI; elim conjE)
    fix xs p ys n
    assume p: "hs = xs @ p # ys" "dn E p = Some n"
    then obtain m where m: "dn D p = Some m" "cn_node m = cn_node n" using assms(1) [of p] by (cases "dn D p") auto
    have "kd p = inner m" using kd p(1) m(1) by (rule saneD)
    then show "kd p = inner n" using m(2) by (simp add: inner_def)
    show "\<forall>c \<in> kd p. c \<in> set xs \<or> on_disk D c" using saneD(2) [OF kd p(1) m(1)] by blast
  next
    fix h c assume "on_disk D h" "c \<in> kd h"
    then show "on_disk D c" by (rule saneD(3) [OF kd])
  qed
  ultimately show ?thesis by (simp add: preserves_def same_answers_def)
qed

lemma preserves_relinked: "relinked D E \<Longrightarrow> preserves D hs E hs"
proof (rule preserves_same)
  assume r: "relinked D E"
  show "diskdb E = diskdb D" using r by (rule relinkedD)
  have "map_option cn_node y = map_option cn_node (map_option core y)" for y by (cases y) simp_all
  then show "map_option cn_node (dn E p) = map_option cn_node (dn D p)" for p using relinkedD(1) [OF r, of p] by metis
qed

lemma subseq_filter_eq: "subseq xs ys \<Longrightarrow> distinct ys \<Longrightarrow> xs = filter (\<lambda>x. x \<in> set xs) ys"
proof (induction rule: list_emb.induct)
  case (list_emb_Cons xs ys y)
  moreover have "y \<notin> set xs" using list_emb_Cons list_emb_set [of "(=)" xs ys y] by auto
  ultimately show ?case by simp
next
  case (list_emb_Cons2 x y xs ys)
  have "filter (\<lambda>z. z = y \<or> z \<in> set xs) ys = filter (\<lambda>z. z \<in> set xs) ys" using list_emb_Cons2 by (intro filter_cong) auto
  with list_emb_Cons2 show ?case by simp
qed simp

text \<open>When nodes leave the cache, the children of those that stay do so too or are on disk.\<close>

lemma sane_sub:
  assumes sane: "sane kd D hs" and inv: "gc_inv rank E hs' {} {#}" and fl: "distinct hs" "subseq hs' hs" and disk: "diskdb E = diskdb D"
    and nodes: "\<And>p n. dn E p = Some n \<Longrightarrow> \<exists>m. dn D p = Some m \<and> cn_node m = cn_node n"
  shows "sane kd E hs'"
  unfolding sane_def
proof (intro conjI allI impI ballI; elim conjE)
  have od: "on_disk E h = on_disk D h" for h using disk by (simp add: on_disk_def)
  fix xs p ys n
  assume p: "hs' = xs @ p # ys" "dn E p = Some n"
  obtain m where m: "dn D p = Some m" "cn_node m = cn_node n" using nodes [OF p(2)] by blast
  have "p \<in> set hs" using p(1) list_emb_set [OF fl(2), of p] by auto
  then obtain us vs where hs: "hs = us @ p # vs" by (auto simp: in_set_conv_decomp)
  have "kd p = inner m" using sane hs m(1) by (rule saneD)
  then show kd: "kd p = inner n" using m(2) by (simp add: inner_def)
  fix c assume c: "c \<in> kd p"
  show "c \<in> set xs \<or> on_disk E c"
  proof (cases "on_disk D c")
    case False
    then have us: "c \<in> set us" using saneD(2) [OF sane hs m(1) c] by simp
    have z: "p \<noteq> zeroHash" using gc_invD(1) [OF inv] p(1) by (auto simp: flush_ok_def)
    have ck: "c \<in># kids n" using c kd inner_kids by blast
    then have "avail E c" using refs_pos [OF p(2) z, of "{}" c] gc_invD(3) [OF inv] by (simp add: closed_def)
    then have "\<exists>k. dn E c = Some k" using False od by (auto simp: avail_def)
    moreover have "c \<noteq> zeroHash" using gc_invD(4) [OF inv] p(2) z ck by (auto simp: ranked_def)
    ultimately have ch: "c \<in> set hs'" using flush_ok_Some [OF gc_invD(1) [OF inv], of c] by blast
    define P where "P x \<longleftrightarrow> x \<in> set hs'" for x
    have "hs' = filter P hs" unfolding P_def using fl(2,1) by (rule subseq_filter_eq)
    also have "\<dots> = filter P us @ p # filter P vs" using p(1) by (simp add: hs P_def)
    finally have eq: "xs @ p # ys = filter P us @ p # filter P vs" using p(1) by simp
    have "p \<notin> set (filter P us)" "p \<notin> set (filter P vs)" using fl(1) hs by auto
    then have "xs = filter P us" using eq by (metis append_Cons_eq_iff)
    then show ?thesis using us ch by (simp add: P_def)
  qed (simp add: od)
next
  fix h c assume h: "on_disk E h" "c \<in> kd h"
  have "on_disk E x = on_disk D x" for x using disk by (simp add: on_disk_def)
  then show "on_disk E c" using saneD(3) [OF sane _ h(2)] h(1) by blast
qed

text \<open>When nodes are written, so are their children.\<close>

lemma sane_write:
  assumes sane: "sane kd D hs" and mono: "\<And>h. on_disk D h \<Longrightarrow> on_disk (D\<lparr>diskdb := d\<rparr>) h" and d: "content d = apply_writes ws (content (diskdb D))"
    and new: "\<And>w c. w \<in> set ws \<Longrightarrow> length (kv_key w) = 32 \<Longrightarrow> c \<in> kd (kv_key w) \<Longrightarrow> on_disk (D\<lparr>diskdb := d\<rparr>) c"
  shows "sane kd (D\<lparr>diskdb := d\<rparr>) hs"
  unfolding sane_def
proof (intro conjI allI impI ballI; elim conjE)
  fix xs p ys n
  assume "hs = xs @ p # ys" "dn (D\<lparr>diskdb := d\<rparr>) p = Some n"
  then have p: "hs = xs @ p # ys" "dn D p = Some n" by simp_all
  show "kd p = inner n" using saneD(1) [OF sane p] .
  show "c \<in> set xs \<or> on_disk (D\<lparr>diskdb := d\<rparr>) c" if "c \<in> kd p" for c using saneD(2) [OF sane p that] mono by blast
next
  fix h c
  assume h: "on_disk (D\<lparr>diskdb := d\<rparr>) h" and c: "c \<in> kd h"
  show "on_disk (D\<lparr>diskdb := d\<rparr>) c"
  proof (cases "\<exists>w \<in> set ws. kv_key w = h")
    case True
    with h c new show ?thesis by (auto simp: on_disk_def)
  next
    case False
    then have "content d h = content (diskdb D) h" using apply_writes_cases [of ws h "content (diskdb D)"] d by auto
    with h have "on_disk D h" by (simp add: on_disk_content)
    then show ?thesis using saneD(3) [OF sane _ c] mono by blast
  qed
qed

text \<open>Writes of something that is no hash.\<close>

lemma write_other:
  assumes inv: "gc_inv rank D hs P R" and w: "\<forall>w \<in> set ws. \<not> kv_delete w \<and> length (kv_key w) \<noteq> 32"
    and d: "disk_open d" "content d = apply_writes ws (content (diskdb D))"
  shows "gc_inv rank (D\<lparr>diskdb := d\<rparr>) hs P R" "preserves D hs (D\<lparr>diskdb := d\<rparr>) hs"
proof -
  have rw: "\<forall>w \<in> set ws. right_write D w \<or> \<not> kv_delete w \<and> content (diskdb D) (kv_key w) = Some (kv_value w)"
    using w by (auto simp: right_write_def)
  note h = write_harmless [OF inv rw d]
  show "gc_inv rank (D\<lparr>diskdb := d\<rparr>) hs P R" by (rule h(1))
  have "sane kd (D\<lparr>diskdb := d\<rparr>) hs" if "sane kd D hs" for kd using that h(3) d(2) w by (intro sane_write) auto
  with h(2) show "preserves D hs (D\<lparr>diskdb := d\<rparr>) hs" by (simp add: preserves_def)
qed

text \<open>A node that is on disk leaves the cache.\<close>

lemma remove_keeps:
  assumes inv: "gc_inv rank D hs {} {#}" and n: "dn D h = Some n" "h \<noteq> zeroHash" "cn_rlp n = Ret e" "content (diskdb D) h = Some e"
    and E: "map_option core \<circ> dn E = map_option core \<circ> (dn D)(h := None)" "diskdb E = diskdb D" "flush_ok E hs' {}" "subseq hs' hs"
  shows "gc_inv rank E hs' {} {#}" "preserves D hs E hs'"
proof -
  let ?F = "D\<lparr>dirties := gomap_del h (dirties D)\<rparr>"
  note i = gc_invD [OF inv]
  have e: "length h = 32" "e \<noteq> []" using nodes_okD(1,3) [OF i(5) n(1,2)] n(3) by auto
  then have od: "on_disk D h" using n(4) by (auto simp: on_disk_content)
  have r: "refs D {} x = count (kids n) x + refs ?F {} x" for x
    using refs_insert [OF n(1), of "{}" x] refs_del [OF n(2), of D "{}" x] n(2) by simp
  have "counted ?F {} {#}"
    unfolding counted_def
  proof (intro allI impI)
    fix x m
    assume a: "dn ?F x = Some m \<and> x \<noteq> zeroHash"
    then have "dn D x = Some m" by (auto split: if_splits)
    from countedD [OF i(2) this] a r [of x] show "refs ?F {} x + count {#} x \<le> (if x \<in> {} then 0 else unat (parents m)) \<or> on_disk ?F x" by auto
  qed
  moreover have "closed ?F {}"
    unfolding closed_def
  proof (intro allI impI)
    fix x assume "0 < refs ?F {} x"
    with r [of x] have "avail D x" using i(3) by (simp add: closed_def)
    then show "avail ?F x" using od by (auto simp: avail_def)
  qed
  moreover have "ranked rank ?F" using i(4) by (auto simp: ranked_def)
  moreover have "nodes_ok ?F" using i(5) n(2) by (auto simp: nodes_ok_def)
  ultimately show invE: "gc_inv rank E hs' {} {#}"
    using same_nodes [of E ?F] E by (simp add: gc_inv_def)
  have c: "map_option core (dn E x) = (if x = h then None else map_option core (dn D x))" for x
    using fun_cong [OF E(1), of x] by simp
  have rlp: "cn_rlp (core m) = cn_rlp m" for m by (simp add: cn_rlp_def)
  have "db_Node cl E x = db_Node cl D x" for cl x
  proof (cases "x = h")
    case True
    have "dn E h = None" using c [of h] by simp
    moreover have "memorydb_Get (diskdb D) h = Inr e" using n(4) by (simp add: Get_content)
    ultimately show ?thesis using True n e E(2) by (simp add: db_Node_def split: option.split)
  next
    case False
    have "map_option cn_rlp (dn E x) = map_option cn_rlp (dn D x)"
    proof -
      have "map_option cn_rlp y = map_option cn_rlp (map_option core y)" for y by (cases y) (simp_all add: rlp)
      with c [of x] False show ?thesis by metis
    qed
    then show ?thesis using E(2) by (rule db_Node_cong)
  qed
  moreover have "sane kd E hs'" if "sane kd D hs" for kd
  proof (rule sane_sub [OF that invE _ E(4,2)])
    show "distinct hs" using i(1) by (simp add: flush_ok_def)
    fix p m assume "dn E p = Some m"
    with c [of p] obtain m' where "dn D p = Some m'" "core m = core m'" by (cases "dn D p") (auto split: if_splits)
    then show "\<exists>m'. dn D p = Some m' \<and> cn_node m' = cn_node m" by (metis core_simps(3))
  qed
  ultimately show "preserves D hs E hs'" by (simp add: preserves_def same_answers_def)
qed

subsection \<open>Cap\<close>

definition node_bytes :: "cachedNode \<Rightarrow> int" where
  "node_bytes n = 32 + uint (cn_size n) + cachedNodeSize + (if cn_children n \<noteq> None then cachedNodeChildrenSize + ext_len n * (32 + 2) else 0)"

definition bytes_of :: "Database \<Rightarrow> bytes list \<Rightarrow> int" where
  "bytes_of D hs = (\<Sum>h \<leftarrow> hs. case dn D h of None \<Rightarrow> 0 | Some n \<Rightarrow> node_bytes n)"

lemma bytes_of_simps [simp]: "bytes_of D [] = 0" "bytes_of D (h # hs) = (case dn D h of None \<Rightarrow> 0 | Some n \<Rightarrow> node_bytes n) + bytes_of D hs"
  by (simp_all add: bytes_of_def)

lemma bytes_of_cong: "(\<And>h. h \<in> set hs \<Longrightarrow> dn E h = dn D h) \<Longrightarrow> bytes_of E hs = bytes_of D hs"
  unfolding bytes_of_def by (metis (mono_tags, lifting) map_eq_conv)

lemma flush_next:
  assumes "flush_ok D (as @ h # bs) P" "dn D h = Some n"
  shows "flushNext n = (if bs = [] then zeroHash else hd bs)"
  using assms by (auto simp: flush_ok_def linked_append linked_Cons link_def split: if_splits)

text \<open>
  In the first loop, the nodes \<open>as\<close> are in the batch or on disk already, and \<open>bs\<close> are left; \<open>as\<close> and
  \<open>bs\<close> make up the flush list.
\<close>

definition staged :: "Database \<Rightarrow> batch \<Rightarrow> bytes \<Rightarrow> bool" where
  "staged D b h \<longleftrightarrow> h \<noteq> zeroHash \<and> (\<exists>n e. dn D h = Some n \<and> cn_rlp n = Ret e \<and> apply_writes (writes b) (content (diskdb D)) h = Some e)"

definition capping :: "Database \<Rightarrow> batch \<Rightarrow> bytes list \<Rightarrow> bytes list \<Rightarrow> bytes \<Rightarrow> bool" where
  "capping D b as bs old \<longleftrightarrow>
     old = (if bs = [] then zeroHash else hd bs) \<and> (\<forall>w \<in> set (writes b). right_write D w \<and> (length (kv_key w) = 32 \<longrightarrow> kv_key w \<in> set as)) \<and>
     (\<forall>h \<in> set as. staged D b h)"

lemma capping_put:
  assumes inv: "gc_inv rank D (as @ h # bs) {} {#}" and cap: "capping D b as (h # bs) h" and n: "dn D h = Some n" "cn_rlp n = Ret e"
  shows "capping D (WriteTrieNode h e b) (as @ [h]) bs (flushNext n)"
proof -
  note fl = gc_invD(1) [OF inv]
  have z: "h \<noteq> zeroHash" "h \<notin> set as" using fl by (auto simp: flush_ok_def)
  have "flushNext n = (if bs = [] then zeroHash else hd bs)" using fl n(1) by (rule flush_next)
  moreover have "writes (WriteTrieNode h e b) = writes b @ [\<lparr>kv_key = h, kv_value = e, kv_delete = False\<rparr>]"
    by (simp add: WriteTrieNode_def batch_Put_def)
  ultimately show ?thesis using cap n z by (auto simp: capping_def staged_def right_write_def)
qed

lemma capping_written:
  assumes "capping D b as bs old" "content d = apply_writes (writes b) (content (diskdb D))"
  shows "capping (D\<lparr>diskdb := d\<rparr>) (batch_Reset b) as bs old"
  using assms by (auto simp: capping_def staged_def batch_Reset_def)

lemma capping_keeps:
  assumes inv: "gc_inv rank D (as @ bs) {} {#}" and cap: "capping D b as bs old"
    and d: "disk_open d" "content d = apply_writes (writes b) (content (diskdb D))"
  shows "gc_inv rank (D\<lparr>diskdb := d\<rparr>) (as @ bs) {} {#}" "preserves D (as @ bs) (D\<lparr>diskdb := d\<rparr>) (as @ bs)"
proof -
  let ?E = "D\<lparr>diskdb := d\<rparr>"
  have "\<forall>w \<in> set (writes b). right_write D w \<or> \<not> kv_delete w \<and> content (diskdb D) (kv_key w) = Some (kv_value w)"
    using cap by (auto simp: capping_def)
  note h = write_harmless [OF inv this d]
  show "gc_inv rank ?E (as @ bs) {} {#}" by (rule h(1))
  have as: "on_disk ?E x" if "x \<in> set as" for x
  proof -
    from cap that obtain n e where n: "x \<noteq> zeroHash" "dn D x = Some n" "cn_rlp n = Ret e" "content d x = Some e"
      by (auto simp: capping_def staged_def d(2))
    then show ?thesis using nodes_okD(1,3) [OF gc_invD(5) [OF inv] n(2,1)] by (simp add: on_disk_content)
  qed
  have "sane kd ?E (as @ bs)" if kd: "sane kd D (as @ bs)" for kd
  proof (rule sane_write [OF kd h(3) d(2)])
    fix w c
    assume w: "w \<in> set (writes b)" "length (kv_key w) = 32" and c: "c \<in> kd (kv_key w)"
    then have "kv_key w \<in> set as" using cap by (simp add: capping_def)
    then obtain xs ys where xs: "as = xs @ kv_key w # ys" by (auto simp: in_set_conv_decomp)
    obtain n where n: "dn D (kv_key w) = Some n" using flush_ok_Some [OF gc_invD(1) [OF inv], of "kv_key w"] xs by auto
    have "as @ bs = xs @ kv_key w # (ys @ bs)" using xs by simp
    then have "c \<in> set xs \<or> on_disk D c" using kd n c by (intro saneD(2))
    then show "on_disk ?E c" using as [of c] h(3) [of c] xs by auto
  qed
  with h(2) show "preserves D (as @ bs) ?E (as @ bs)" by (simp add: preserves_def)
qed

lemma cap_loop_ok:
  assumes "gc_inv rank D (as @ bs) {} {#}" "capping D b as bs old" "length bs < k"
  shows "\<exists>err old' b' oks' d cs bs'. cap_loop k limit sz old b oks D = Ret (err, old', b', oks', D\<lparr>diskdb := d\<rparr>) \<and>
    gc_inv rank (D\<lparr>diskdb := d\<rparr>) (as @ bs) {} {#} \<and> preserves D (as @ bs) (D\<lparr>diskdb := d\<rparr>) (as @ bs) \<and>
    (err = None \<longrightarrow> bs = cs @ bs' \<and> capping (D\<lparr>diskdb := d\<rparr>) b' (as @ cs) bs' old' \<and> (sz - bytes_of D cs \<le> limit \<or> bs' = []))"
  using assms
proof (induction k arbitrary: sz old b oks D as bs)
  case (Suc k)
  have same: "D\<lparr>diskdb := diskdb D\<rparr> = D" by simp
  show ?case
  proof (cases "sz > limit \<and> old \<noteq> zeroHash")
    case False
    have "bs = [] \<or> hd bs \<noteq> zeroHash" using gc_invD(1) [OF Suc.prems(1)] by (cases bs) (auto simp: flush_ok_def)
    with False Suc.prems(2) have "sz \<le> limit \<or> bs = []" by (auto simp: capping_def)
    moreover have "cap_loop (Suc k) limit sz old b oks D = Ret (None, old, b, oks, D)" by (simp only: cap_loop.simps if_not_P [OF False])
    ultimately show ?thesis using Suc.prems(1,2) same
      by (intro exI [of _ None] exI [of _ old] exI [of _ b] exI [of _ oks] exI [of _ "diskdb D"] exI [of _ "[]"] exI [of _ bs]) simp
  next
    case True
    with Suc.prems(2) obtain bs1 where bs: "bs = old # bs1" by (cases bs) (auto simp: capping_def)
    note inv = Suc.prems(1) [unfolded bs]
    have z: "old \<noteq> zeroHash" using True by simp
    obtain n where n: "dn D old = Some n" using flush_ok_Some [OF gc_invD(1) [OF inv], of old] by auto
    obtain e where e: "cn_rlp n = Ret e" using nodes_okD(2) [OF gc_invD(5) [OF inv] n z] by blast
    let ?b = "WriteTrieNode old e b"
    let ?sz = "sz - (32 + uint (cn_size n) + cachedNodeSize) -
                     (if cn_children n \<noteq> None then cachedNodeChildrenSize + ext_len n * (32 + 2) else 0)"
    have sz: "?sz - bytes_of D' cs = sz - bytes_of D' (old # cs)" if "dn D' old = Some n" for cs D' using that by (simp add: node_bytes_def)
    have cap: "capping D ?b (as @ [old]) bs1 (flushNext n)" using inv Suc.prems(2) [unfolded bs] n e by (rule capping_put)
    have len: "length bs1 < k" using Suc.prems(3) bs by simp
    have step: "\<exists>err old' b' oks' d' cs bs'. cap_loop k limit ?sz (flushNext n) b2 oks2 (D\<lparr>diskdb := d\<rparr>) = Ret (err, old', b', oks', D\<lparr>diskdb := d'\<rparr>) \<and>
        gc_inv rank (D\<lparr>diskdb := d'\<rparr>) (as @ bs) {} {#} \<and> preserves D (as @ bs) (D\<lparr>diskdb := d'\<rparr>) (as @ bs) \<and>
        (err = None \<longrightarrow> bs = cs @ bs' \<and> capping (D\<lparr>diskdb := d'\<rparr>) b' (as @ cs) bs' old' \<and> (sz - bytes_of D cs \<le> limit \<or> bs' = []))"
      if h: "gc_inv rank (D\<lparr>diskdb := d\<rparr>) (as @ bs) {} {#}" "preserves D (as @ bs) (D\<lparr>diskdb := d\<rparr>) (as @ bs)"
        "capping (D\<lparr>diskdb := d\<rparr>) b2 (as @ [old]) bs1 (flushNext n)" for d b2 oks2
    proof -
      have iv: "gc_inv rank (D\<lparr>diskdb := d\<rparr>) ((as @ [old]) @ bs1) {} {#}" using h(1) bs by simp
      have dd: "D\<lparr>diskdb := d, diskdb := d'\<rparr> = D\<lparr>diskdb := d'\<rparr>" for d' by simp
      have ass: "(as @ [old]) @ bs1 = as @ old # bs1" "(as @ [old]) @ cs = as @ old # cs" for cs using bs by simp_all
      from Suc.IH [OF iv h(3) len, of ?sz oks2, unfolded dd ass] obtain err old' b' oks' d' cs bs' where
        r: "cap_loop k limit ?sz (flushNext n) b2 oks2 (D\<lparr>diskdb := d\<rparr>) = Ret (err, old', b', oks', D\<lparr>diskdb := d'\<rparr>)"
        "gc_inv rank (D\<lparr>diskdb := d'\<rparr>) (as @ old # bs1) {} {#}" "preserves (D\<lparr>diskdb := d\<rparr>) (as @ old # bs1) (D\<lparr>diskdb := d'\<rparr>) (as @ old # bs1)"
        "err = None \<longrightarrow> bs1 = cs @ bs' \<and> capping (D\<lparr>diskdb := d'\<rparr>) b' (as @ old # cs) bs' old' \<and> (?sz - bytes_of (D\<lparr>diskdb := d\<rparr>) cs \<le> limit \<or> bs' = [])"
        by blast
      have "bytes_of (D\<lparr>diskdb := d\<rparr>) cs = bytes_of D cs" by (rule bytes_of_cong) simp
      with sz [OF n] have q: "?sz - bytes_of (D\<lparr>diskdb := d\<rparr>) cs = sz - bytes_of D (old # cs)" by simp
      have "err = None \<longrightarrow> bs = (old # cs) @ bs' \<and> capping (D\<lparr>diskdb := d'\<rparr>) b' (as @ old # cs) bs' old' \<and> (sz - bytes_of D (old # cs) \<le> limit \<or> bs' = [])"
        using r(4) [unfolded q] bs by (simp del: bytes_of_simps)
      with r(1,2) preserves_trans [OF h(2) [unfolded bs] r(3)] show ?thesis unfolding bs by blast
    qed
    show ?thesis
    proof (cases "ValueSize ?b \<ge> IdealBatchSize")
      case False
      then have "cap_loop (Suc k) limit sz old b oks D = cap_loop k limit ?sz (flushNext n) ?b oks D" using True n e by (simp add: Let_def)
      with step [of "diskdb D" ?b oks] Suc.prems(1) cap same show ?thesis by (simp del: cap_loop.simps)
    next
      case big: True
      obtain err oks2 d where w: "store_Write oks ?b (diskdb D) = Ret (err, oks2, d)" "disk_open d"
        "if err = None then content d = apply_writes (writes ?b) (content (diskdb D)) else d = diskdb D"
        using store_Write_ok [of "diskdb D" oks ?b] gc_invD(5) [OF inv] by (auto simp: nodes_ok_def disk_open_def)
      show ?thesis
      proof (cases "err = None")
        case False
        then have "cap_loop (Suc k) limit sz old b oks D = Ret (err, old, ?b, oks2, D)" using True n e big w by (simp add: Let_def)
        with Suc.prems(1) same False show ?thesis
          by (intro exI [of _ err] exI [of _ old] exI [of _ ?b] exI [of _ oks2] exI [of _ "diskdb D"] exI [of _ "[]"])
            (auto simp del: cap_loop.simps)
      next
        case None: True
        then have c: "content d = apply_writes (writes ?b) (content (diskdb D))" using w(3) by simp
        have "cap_loop (Suc k) limit sz old b oks D = cap_loop k limit ?sz (flushNext n) (batch_Reset ?b) oks2 (D\<lparr>diskdb := d\<rparr>)"
          using True n e big w(1) None by (simp add: Let_def)
        moreover have "gc_inv rank (D\<lparr>diskdb := d\<rparr>) (as @ bs) {} {#}" "preserves D (as @ bs) (D\<lparr>diskdb := d\<rparr>) (as @ bs)"
          using capping_keeps [of rank D "as @ [old]" bs1, OF _ cap w(2) c] Suc.prems(1) bs by simp_all
        ultimately show ?thesis using step [OF _ _ capping_written [OF cap c], of oks2] by (simp del: cap_loop.simps)
      qed
    qed
  qed
qed simp

lemma gomap_len_del:
  assumes "gomap_ok m" "gomap_get m k \<noteq> None"
  shows "int (gomap_len (gomap_del k m)) = int (gomap_len m) - 1"
proof -
  have k: "k \<in> gomap_keys m" using assms(2) by (simp add: gomap_keys_get)
  then have "card (gomap_keys m) > 0" by (auto simp: card_gt_0_iff)
  moreover have "gomap_len m = card (gomap_keys m)" "gomap_len (gomap_del k m) = card (gomap_keys m) - 1"
    using assms(1) k by (simp_all add: gomap_len_card)
  ultimately show ?thesis by simp
qed

definition flushed :: "Database \<Rightarrow> bytes \<Rightarrow> bool" where
  "flushed D h \<longleftrightarrow> h \<noteq> zeroHash \<and> (\<exists>n e. dn D h = Some n \<and> cn_rlp n = Ret e \<and> content (diskdb D) h = Some e)"

lemma cap_drop_ok:
  assumes "gc_inv rank D (as @ bs) {} {#}" "old = (if bs = [] then zeroHash else hd bs)" "\<forall>h \<in> set as. flushed D h" "length as < k"
    "cache_size D = Ret sz"
  shows "\<exists>D'. cap_drop k old D = Ret D' \<and> gc_inv rank D' bs {} {#} \<and> preserves D (as @ bs) D' bs \<and> cache_size D' = Ret (sz - bytes_of D as) \<and>
    preimages D' = preimages D"
  using assms
proof (induction k arbitrary: D as sz)
  case (Suc k)
  show ?case
  proof (cases as)
    case Nil
    then have "oldest D = old" using gc_invD(1) [OF Suc.prems(1)] Suc.prems(2) by (auto simp: flush_ok_def)
    with Nil Suc.prems show ?thesis by auto
  next
    case (Cons h as')
    have fl: "flush_ok D (h # as' @ bs) {}" using gc_invD(1) [OF Suc.prems(1)] Cons by simp
    from Suc.prems(3) Cons obtain n e where n: "h \<noteq> zeroHash" "dn D h = Some n" "cn_rlp n = Ret e" "content (diskdb D) h = Some e"
      by (auto simp: flushed_def)
    have ho: "oldest D = h" "old \<noteq> h" using fl Suc.prems(2) n(1) by (cases bs; auto simp: flush_ok_def)+
    let ?x = "if cn_children n \<noteq> None then cachedNodeChildrenSize + ext_len n * (32 + 2) else 0"
    define E where "E = D\<lparr>dirties := gomap_del h (dirties D), oldest := flushNext n, dirtiesSize := dirtiesSize D - (32 + uint (cn_size n)),
      childrenSize := childrenSize D - ?x\<rparr>"
    have dnE: "dn E x = (if x = h then None else dn D x)" for x by (simp add: E_def)
    have eq: "cap_drop (Suc k) old D = cap_drop k old E" using ho n by (simp add: E_def)
    have fE: "flush_ok E (as' @ bs) {}" using flush_ok_pop [OF fl n(2)] by (simp add: E_def)
    have "map_option core \<circ> dn E = map_option core \<circ> (dn D)(h := None)" "diskdb E = diskdb D" by (auto simp: E_def)
    moreover have "subseq (as' @ bs) (as @ bs)" unfolding Cons append_Cons by (rule list_emb_Cons) simp
    ultimately have iE: "gc_inv rank E (as' @ bs) {} {#}" "preserves D (as @ bs) E (as' @ bs)"
      using remove_keeps [OF Suc.prems(1) n(2,1,3,4) _ _ fE] by blast+
    have hn: "h \<notin> set as'" using fl by (auto simp: flush_ok_def)
    then have fd: "\<forall>x \<in> set as'. flushed E x" using Suc.prems(3) Cons by (auto simp: flushed_def dnE E_def)
    have "bytes_of E as' = bytes_of D as'" using hn by (intro bytes_of_cong) (auto simp: dnE)
    moreover have "cache_size E = Ret (sz - node_bytes n)"
    proof -
      obtain r where r: "dn D zeroHash = Some r" using gc_invD(5) [OF Suc.prems(1)] by (auto simp: nodes_ok_def)
      have "int (gomap_len (gomap_del h (dirties D))) = int (gomap_len (dirties D)) - 1"
        using n(2) fl by (intro gomap_len_del) (auto simp: flush_ok_def)
      then show ?thesis using Suc.prems(5) r n(1) unfolding cache_size_def dnE by (auto simp: E_def node_bytes_def cachedNodeSize_def)
    qed
    ultimately obtain D' where "cap_drop k old E = Ret D'" "gc_inv rank D' bs {} {#}" "preserves E (as' @ bs) D' bs"
      "cache_size D' = Ret (sz - bytes_of D as)" "preimages D' = preimages E"
      using Suc.IH [OF iE(1) Suc.prems(2) fd, of "sz - node_bytes n"] Suc.prems(4) Cons n(2) by (auto simp: algebra_simps)
    then show ?thesis using eq preserves_trans [OF iE(2)] by (auto simp: E_def)
  qed
qed simp

lemma flush_ok_head:
  assumes "flush_ok D (h # hs) P" "dn D h = Some n"
  shows "flush_ok (D\<lparr>dirties := gomap_set h (n\<lparr>flushPrev := z\<rparr>) (dirties D)\<rparr>) (h # hs) P"
proof -
  let ?E = "D\<lparr>dirties := gomap_set h (n\<lparr>flushPrev := z\<rparr>) (dirties D)\<rparr>"
  have nx: "link flushNext (dn ?E) = link flushNext (dn D)" using assms(2) by (auto simp: link_def fun_eq_iff)
  have "linked (link flushNext (dn ?E)) (link flushPrev (dn ?E)) (h # hs) = linked (link flushNext (dn D)) (link flushPrev (dn D)) (h # hs)"
  proof (rule linked_cong)
    show "link flushNext (dn ?E) a = link flushNext (dn D) a" for a by (simp only: nx)
    have "h \<notin> set hs" using assms(1) by (simp add: flush_ok_def)
    then show "link flushPrev (dn ?E) a = link flushPrev (dn D) a" if "a \<in> set (tl (h # hs))" for a using that by auto
  qed
  moreover have "dom (dn ?E) = dom (dn D)" using assms(2) by auto
  ultimately show ?thesis using assms(1) nx unfolding flush_ok_def by (simp del: link_upd dn_set)
qed

definition pre_ok :: "Database \<Rightarrow> bool" where
  "pre_ok D \<longleftrightarrow> (\<forall>m h. preimages D = Some m \<and> h \<in> gomap_keys m \<longrightarrow> length h = 32)"

lemma WritePreimages_ok:
  assumes "pre_ok D" "preimages D = Some m"
  shows "\<forall>w \<in> set (writes (WritePreimages sd m memorydb_NewBatch)). \<not> kv_delete w \<and> length (kv_key w) \<noteq> 32"
proof -
  have puts: "\<forall>w \<in> set (writes (fold (\<lambda>(hash, preimage). batch_Put (preimageKey hash) preimage) ps b)). \<not> kv_delete w \<and> length (kv_key w) \<noteq> 32"
    if "\<forall>p \<in> set ps. length (fst p) = 32" "\<forall>w \<in> set (writes b). \<not> kv_delete w \<and> length (kv_key w) \<noteq> 32" for ps b
    using that
  proof (induction ps arbitrary: b)
    case (Cons p ps)
    obtain h v where p: "p = (h, v)" by fastforce
    have "length (preimageKey h) \<noteq> 32" using Cons.prems(1) p by (simp add: preimageKey_def)
    then have "\<forall>w \<in> set (writes (batch_Put (preimageKey h) v b)). \<not> kv_delete w \<and> length (kv_key w) \<noteq> 32"
      using Cons.prems(2) by (auto simp: batch_Put_def)
    with Cons.prems(1) have "\<forall>w \<in> set (writes (fold (\<lambda>(hash, preimage). batch_Put (preimageKey hash) preimage) ps (batch_Put (preimageKey h) v b))).
        \<not> kv_delete w \<and> length (kv_key w) \<noteq> 32" by (intro Cons.IH) simp_all
    then show ?case unfolding p by (simp only: fold_Cons comp_apply case_prod_conv)
  qed simp
  have "\<forall>p \<in> set (gomap_range sd m). length (fst p) = 32" using assms(1,2) by (simp add: pre_ok_def gomap_range_def gomap_keys_def)
  from puts [OF this, of memorydb_NewBatch] show ?thesis unfolding WritePreimages_def by (simp add: memorydb_NewBatch_def)
qed

lemma cap_preimages_ok:
  assumes inv: "gc_inv rank D hs {} {#}" and pre: "pre_ok D"
  shows "\<exists>err b oks' d. cap_preimages sd oks memorydb_NewBatch D = Ret (err, b, oks', D\<lparr>diskdb := d\<rparr>) \<and>
    gc_inv rank (D\<lparr>diskdb := d\<rparr>) hs {} {#} \<and> preserves D hs (D\<lparr>diskdb := d\<rparr>) hs \<and>
    (err = None \<longrightarrow> (\<forall>w \<in> set (writes b). \<not> kv_delete w \<and> length (kv_key w) \<noteq> 32))"
proof -
  have same: "D\<lparr>diskdb := diskdb D\<rparr> = D" by simp
  have id: ?thesis if "cap_preimages sd oks memorydb_NewBatch D = Ret (None, b, oks, D)"
      "\<forall>w \<in> set (writes b). \<not> kv_delete w \<and> length (kv_key w) \<noteq> 32" for b
    using that inv same by (intro exI [of _ None] exI [of _ b] exI [of _ oks] exI [of _ "diskdb D"]) simp
  show ?thesis
  proof (cases "preimagesSize D > 4 * 1024 * 1024 \<and> preimages D \<noteq> None")
    case False
    then have "cap_preimages sd oks memorydb_NewBatch D = Ret (None, memorydb_NewBatch, oks, D)"
      by (auto simp: cap_preimages_def split: option.split)
    then show ?thesis by (rule id) (simp add: memorydb_NewBatch_def)
  next
    case True
    then obtain m where m: "preimages D = Some m" by auto
    let ?b = "WritePreimages sd m memorydb_NewBatch"
    have w: "\<forall>w \<in> set (writes ?b). \<not> kv_delete w \<and> length (kv_key w) \<noteq> 32" using pre m by (rule WritePreimages_ok)
    show ?thesis
    proof (cases "ValueSize ?b > IdealBatchSize")
      case False
      then have "cap_preimages sd oks memorydb_NewBatch D = Ret (None, ?b, oks, D)" using True m by (simp add: cap_preimages_def Let_def)
      then show ?thesis using w by (rule id)
    next
      case big: True
      obtain err oks2 d where s: "store_Write oks ?b (diskdb D) = Ret (err, oks2, d)" "disk_open d"
        "if err = None then content d = apply_writes (writes ?b) (content (diskdb D)) else d = diskdb D"
        using store_Write_ok [of "diskdb D" oks ?b] gc_invD(5) [OF inv] by (auto simp: nodes_ok_def disk_open_def)
      have r: "cap_preimages sd oks memorydb_NewBatch D = Ret (err, (if err = None then batch_Reset ?b else ?b), oks2, D\<lparr>diskdb := d\<rparr>)"
        using True m big s(1) by (simp add: cap_preimages_def Let_def)
      have "gc_inv rank (D\<lparr>diskdb := d\<rparr>) hs {} {#} \<and> preserves D hs (D\<lparr>diskdb := d\<rparr>) hs"
        using s(2,3) write_other [OF inv w, of d] inv same by (cases "err = None") auto
      with r show ?thesis by (auto simp: batch_Reset_def)
    qed
  qed
qed

lemma gomap_keys_dom: "gomap_keys m = dom (gomap_get m)"
  by (auto simp: gomap_keys_get)

lemma gomap_len_eq: "gomap_ok m \<Longrightarrow> gomap_ok m' \<Longrightarrow> dom (gomap_get m) = dom (gomap_get m') \<Longrightarrow> gomap_len m = gomap_len m'"
  by (simp add: gomap_len_card gomap_keys_dom)

lemma cap_head_ok:
  assumes "gc_inv rank G bs {} {#}"
  shows "\<exists>H. (if oldest G \<noteq> zeroHash then with_dirty (oldest G) (\<lambda>n. n\<lparr>flushPrev := zeroHash\<rparr>) G else Ret G) = Ret H \<and>
    gc_inv rank H bs {} {#} \<and> relinked G H \<and> gomap_len (dirties H) = gomap_len (dirties G)"
proof (cases bs)
  case Nil
  then have "oldest G = zeroHash" using gc_invD(1) [OF assms] by (simp add: flush_ok_def)
  with assms show ?thesis by simp
next
  case (Cons h hs)
  note i = gc_invD [OF assms]
  have h: "oldest G = h" "h \<noteq> zeroHash" using i(1) Cons by (auto simp: flush_ok_def)
  obtain n where n: "dn G h = Some n" using flush_ok_Some [OF i(1), of h] Cons by auto
  let ?H = "G\<lparr>dirties := gomap_set h (n\<lparr>flushPrev := zeroHash\<rparr>) (dirties G)\<rparr>"
  have r: "relinked G ?H" by (rule relinked_set(2) [OF n]) simp
  have fl: "flush_ok ?H bs {}" using flush_ok_head [OF i(1) [unfolded Cons] n] Cons by simp
  have "gc_inv rank ?H bs {} {#}" using i by (intro gc_inv_relinked [OF r fl]) simp
  moreover have "gomap_len (dirties ?H) = gomap_len (dirties G)" using n i(1) by (intro gomap_len_eq) (auto simp: flush_ok_def)
  moreover have "with_dirty h (\<lambda>n. n\<lparr>flushPrev := zeroHash\<rparr>) G = Ret ?H" using n by (simp add: with_dirty_def)
  ultimately show ?thesis using h r by auto
qed

lemma cache_size_cong:
  assumes "dirties E = dirties D" "dirtiesSize E = dirtiesSize D" "childrenSize E = childrenSize D"
  shows "cache_size E = cache_size D"
  unfolding cache_size_def assms ..

lemma cache_size_relinked:
  assumes "relinked G H" "gomap_len (dirties H) = gomap_len (dirties G)"
  shows "cache_size H = cache_size G"
proof -
  have "map_option ext_len (dn H zeroHash) = map_option ext_len (dn G zeroHash)"
  proof -
    have "ext_len (core n) = ext_len n" for n by (simp add: ext_len_def)
    then have "map_option ext_len y = map_option ext_len (map_option core y)" for y by (cases y) simp_all
    with relinkedD(1) [OF assms(1), of zeroHash] show ?thesis by metis
  qed
  then show ?thesis using assms(2) relinkedD(3,4) [OF assms(1)] by (cases "dn H zeroHash"; cases "dn G zeroHash") (simp_all add: cache_size_def)
qed

declare cap_loop.simps [simp del] cap_drop.simps [simp del]

text \<open>\<^verbatim>\<open>Cap\<close> returns, and whatever fails on the way, nothing is lost.\<close>

lemma db_Cap_ok:
  assumes inv: "gc_inv rank D hs {} {#}" and pre: "pre_ok D"
  shows "\<exists>err D' hs'. db_Cap sd oks limit D = Ret (err, D') \<and> gc_inv rank D' hs' {} {#} \<and> preserves D hs D' hs' \<and> pre_ok D' \<and>
    (err = None \<longrightarrow> (\<exists>sz. cache_size D' = Ret sz \<and> (sz \<le> limit \<or> hs' = [])))"
proof -
  obtain sz where sz: "cache_size D = Ret sz" using cache_size_ok [OF gc_invD(5) [OF inv]] by blast
  have szd: "cache_size (D\<lparr>diskdb := d\<rparr>) = Ret sz" "pre_ok (D\<lparr>diskdb := d\<rparr>)" for d
    using sz pre cache_size_cong [of "D\<lparr>diskdb := d\<rparr>" D] by (simp_all add: pre_ok_def)
  obtain err1 b1 oks1 d1 where 1: "cap_preimages sd oks memorydb_NewBatch D = Ret (err1, b1, oks1, D\<lparr>diskdb := d1\<rparr>)"
    "gc_inv rank (D\<lparr>diskdb := d1\<rparr>) hs {} {#}" "preserves D hs (D\<lparr>diskdb := d1\<rparr>) hs" "err1 = None \<longrightarrow> (\<forall>w \<in> set (writes b1). \<not> kv_delete w \<and> length (kv_key w) \<noteq> 32)"
    using cap_preimages_ok [OF inv pre] by blast
  show ?thesis
  proof (cases "err1 = None")
    case False
    then have "db_Cap sd oks limit D = Ret (err1, D\<lparr>diskdb := d1\<rparr>)" using sz 1(1) by (simp add: db_Cap_def)
    with 1 szd False show ?thesis by blast
  next
    case True
    have dd: "D\<lparr>diskdb := d, diskdb := d'\<rparr> = D\<lparr>diskdb := d'\<rparr>" for d d' by simp
    have "capping (D\<lparr>diskdb := d1\<rparr>) b1 [] hs (oldest D)"
      using 1(4) True gc_invD(1) [OF inv] by (auto simp: capping_def right_write_def flush_ok_def split: if_splits)
    moreover have len: "length hs < gomap_len (dirties D) + 1" using flush_ok_len [OF gc_invD(1) [OF inv]] by simp
    ultimately obtain err2 old2 b2 oks2 d2 cs bs where
      2: "cap_loop (gomap_len (dirties D) + 1) limit sz (oldest D) b1 oks1 (D\<lparr>diskdb := d1\<rparr>) = Ret (err2, old2, b2, oks2, D\<lparr>diskdb := d2\<rparr>)"
      "gc_inv rank (D\<lparr>diskdb := d2\<rparr>) hs {} {#}" "preserves (D\<lparr>diskdb := d1\<rparr>) hs (D\<lparr>diskdb := d2\<rparr>) hs"
      "err2 = None \<longrightarrow> hs = cs @ bs \<and> capping (D\<lparr>diskdb := d2\<rparr>) b2 cs bs old2 \<and> (sz - bytes_of (D\<lparr>diskdb := d1\<rparr>) cs \<le> limit \<or> bs = [])"
      using cap_loop_ok [of rank "D\<lparr>diskdb := d1\<rparr>" "[]" hs b1 "oldest D" "gomap_len (dirties D) + 1" limit sz oks1, unfolded dd append_Nil] 1(2) by blast
    have a2: "preserves D hs (D\<lparr>diskdb := d2\<rparr>) hs" by (rule preserves_trans [OF 1(3) 2(3)])
    show ?thesis
    proof (cases "err2 = None")
      case False
      then have "db_Cap sd oks limit D = Ret (err2, D\<lparr>diskdb := d2\<rparr>)" using sz 1(1) 2(1) True by (simp add: db_Cap_def)
      with 2 a2 szd False show ?thesis by blast
    next
      case ok2: True
      then have c: "hs = cs @ bs" "capping (D\<lparr>diskdb := d2\<rparr>) b2 cs bs old2" "sz - bytes_of D cs \<le> limit \<or> bs = []"
        using 2(4) bytes_of_cong [of cs "D\<lparr>diskdb := d1\<rparr>" D] by simp_all
      obtain err3 oks3 d3 where 3: "store_Write oks2 b2 (diskdb (D\<lparr>diskdb := d2\<rparr>)) = Ret (err3, oks3, d3)" "disk_open d3"
        "if err3 = None then content d3 = apply_writes (writes b2) (content (diskdb (D\<lparr>diskdb := d2\<rparr>))) else d3 = diskdb (D\<lparr>diskdb := d2\<rparr>)"
        using store_Write_ok [of "diskdb (D\<lparr>diskdb := d2\<rparr>)" oks2 b2] gc_invD(5) [OF 2(2)] by (auto simp: nodes_ok_def disk_open_def)
      show ?thesis
      proof (cases "err3 = None")
        case False
        then have "db_Cap sd oks limit D = Ret (err3, D\<lparr>diskdb := d2\<rparr>)" using sz 1(1) 2(1) 3 True ok2 by (simp add: db_Cap_def)
        with 2 a2 szd False show ?thesis by blast
      next
        case ok3: True
        then have c3: "content d3 = apply_writes (writes b2) (content (diskdb (D\<lparr>diskdb := d2\<rparr>)))" using 3(3) by simp
        from capping_keeps [OF 2(2) [unfolded c(1)] c(2) 3(2) c3] have w: "gc_inv rank (D\<lparr>diskdb := d3\<rparr>) hs {} {#}"
          "preserves (D\<lparr>diskdb := d2\<rparr>) hs (D\<lparr>diskdb := d3\<rparr>) hs" by (simp_all add: c(1))
        define F where "F = (if preimagesSize D > 4 * 1024 * 1024 \<and> preimages (D\<lparr>diskdb := d3\<rparr>) \<noteq> None
          then D\<lparr>diskdb := d3, preimages := Some [], preimagesSize := 0\<rparr> else D\<lparr>diskdb := d3\<rparr>)"
        have F: "dirties F = dirties D" "oldest F = oldest D" "newest F = newest D" "diskdb F = d3" "cache_size F = Ret sz" "pre_ok F"
          using sz pre cache_size_cong [of F D] by (auto simp: F_def pre_ok_def)
        have iF: "gc_inv rank F (cs @ bs) {} {#}" using w(1) c(1) gc_inv_same [of F "D\<lparr>diskdb := d3\<rparr>"] F by simp
        have "preserves (D\<lparr>diskdb := d3\<rparr>) hs F hs" by (rule preserves_same) (simp_all add: F)
        then have aF: "preserves D hs F hs" using preserves_trans preserves_trans [OF a2 w(2)] by blast
        have "\<forall>h \<in> set cs. flushed F h" using c(2) c3 by (auto simp: capping_def staged_def flushed_def F)
        moreover have "old2 = (if bs = [] then zeroHash else hd bs)" using c(2) by (simp add: capping_def)
        moreover have "length cs < gomap_len (dirties F) + 1" using len c(1) F by simp
        ultimately obtain G where G: "cap_drop (gomap_len (dirties F) + 1) old2 F = Ret G" "gc_inv rank G bs {} {#}" "preserves F (cs @ bs) G bs"
          "cache_size G = Ret (sz - bytes_of F cs)" "preimages G = preimages F"
          using cap_drop_ok [OF iF _ _ _ F(5)] by blast
        have szG: "sz - bytes_of F cs \<le> limit \<or> bs = []" using c(3) bytes_of_cong [of cs F D] F by simp
        obtain H where H: "(if oldest G \<noteq> zeroHash then with_dirty (oldest G) (\<lambda>n. n\<lparr>flushPrev := zeroHash\<rparr>) G else Ret G) = Ret H"
          "gc_inv rank H bs {} {#}" "relinked G H" "gomap_len (dirties H) = gomap_len (dirties G)"
          using cap_head_ok [OF G(2)] by blast
        let ?H = "H\<lparr>flushnodes := flushnodes H + (word_of_nat (gomap_len (dirties D)) - word_of_nat (gomap_len (dirties H))),
          flushsize := flushsize H + (dirtiesSize D - dirtiesSize H)\<rparr>"
        have "cap_uncache D old2 (D\<lparr>diskdb := d3\<rparr>) = Ret (None, ?H)"
          unfolding cap_uncache_def Let_def F_def [symmetric] G(1) go_bind.simps H(1) ..
        then have "db_Cap sd oks limit D = Ret (None, ?H)" using sz 1(1) 2(1) 3(1) True ok2 ok3 by (simp add: db_Cap_def)
        moreover have "cache_size ?H = Ret (sz - bytes_of F cs)" using G(4) cache_size_relinked [OF H(3,4)] cache_size_cong [of ?H H] by simp
        moreover have "preserves H bs ?H bs" by (rule preserves_same) simp_all
        then have "preserves D hs ?H bs" using preserves_trans aF G(3) preserves_relinked [OF H(3)] c(1) by blast
        moreover have "pre_ok ?H" using F(6) G(5) relinkedD(5) [OF H(3)] by (simp add: pre_ok_def)
        ultimately show ?thesis using H(2) szG by (intro exI [of _ None] exI [of _ ?H] exI [of _ bs]) simp
      qed
    qed
  qed
qed

end
