(* ===== verification/Trie_Durable.thy ===== *)
theory Trie_Durable
  imports Trie_Disk
begin

text \<open>
  \<^verbatim>\<open>Commit\<close> of the trie database writes a node after its children, and drops nodes from the cache only
  once they are on disk. Whether writes succeed or fail it returns, preserves the invariant and changes no
  answer of \<^verbatim>\<open>Node\<close>; when it succeeds, all of the trie is on disk and gone from the cache.
\<close>

subsection \<open>The cleaner\<close>

lemma cleaner_Put_ok:
  assumes inv: "gc_inv rank D hs {} {#}" and k: "k \<noteq> zeroHash" "length k = 32"
    and c: "\<And>n. dn D k = Some n \<Longrightarrow> \<exists>e. cn_rlp n = Ret e \<and> content (diskdb D) k = Some e"
  shows "\<exists>D' hs'. cleaner_Put k v D = Ret (None, D') \<and> gc_inv rank D' hs' {} {#} \<and> preserves D hs D' hs' \<and> diskdb D' = diskdb D \<and>
    preimages D' = preimages D \<and> (\<forall>x. map_option core (dn D' x) = (if x = k then None else map_option core (dn D x)))"
proof (cases "dn D k")
  case None
  then have "cleaner_Put k v D = Ret (None, D)" using k(2) by (simp add: cleaner_Put_def BytesToHash_id)
  then show ?thesis using inv None by auto
next
  case (Some n)
  obtain xs ys where hs: "hs = xs @ k # ys" using flush_ok_Some [OF gc_invD(1) [OF inv], of k] Some k(1) by (auto simp: in_set_conv_decomp)
  from flush_unlink_ok [OF gc_invD(1) [OF inv, unfolded hs] Some] obtain E where
    E: "flush_unlink k n D = Ret E" "flush_ok E (xs @ ys) (insert k {})" "relinked D E" by blast
  define F where "F = E\<lparr>dirties := gomap_del k (dirties E), dirtiesSize := dirtiesSize E - (32 + uint (cn_size n)),
    childrenSize := childrenSize E - (if cn_children n \<noteq> None then cachedNodeChildrenSize + ext_len n * (32 + 2) else 0)\<rparr>"
  have eq: "cleaner_Put k v D = Ret (None, F)" using Some k(2) E(1) by (simp add: cleaner_Put_def BytesToHash_id F_def)
  obtain e where e: "cn_rlp n = Ret e" "content (diskdb D) k = Some e" using c [OF Some] by blast
  have co: "map_option core (dn F x) = (if x = k then None else map_option core (dn D x))" for x
    using relinkedD(1) [OF E(3), of x] by (simp add: F_def)
  then have "map_option core \<circ> dn F = map_option core \<circ> (dn D)(k := None)" by (auto simp: fun_eq_iff)
  moreover have f: "diskdb F = diskdb D" "preimages F = preimages D" using relinkedD(2,5) [OF E(3)] by (simp_all add: F_def)
  moreover have "flush_ok F (xs @ ys) {}" using flush_ok_del [OF E(2)] by (simp add: F_def)
  moreover have "subseq (xs @ ys) hs" unfolding hs by (intro list_emb_append_mono) auto
  ultimately show ?thesis using remove_keeps [OF inv Some k(1) e] eq co by blast
qed

lemma replay_ok:
  assumes "gc_inv rank D hs {} {#}"
    and "\<And>w. w \<in> set ws \<Longrightarrow> \<not> kv_delete w \<and> kv_key w \<noteq> zeroHash \<and> length (kv_key w) = 32"
    and "\<And>w n. w \<in> set ws \<Longrightarrow> dn D (kv_key w) = Some n \<Longrightarrow> \<exists>e. cn_rlp n = Ret e \<and> content (diskdb D) (kv_key w) = Some e"
  shows "\<exists>D' hs'. replay cleaner_Put cleaner_Delete ws D = Ret (None, D') \<and> gc_inv rank D' hs' {} {#} \<and> preserves D hs D' hs' \<and>
    diskdb D' = diskdb D \<and> preimages D' = preimages D \<and>
    (\<forall>x. map_option core (dn D' x) = (if x \<in> kv_key ` set ws then None else map_option core (dn D x)))"
  using assms
proof (induction ws arbitrary: D hs)
  case Nil
  then show ?case by auto
next
  case (Cons w ws)
  have w: "\<not> kv_delete w" "kv_key w \<noteq> zeroHash" "length (kv_key w) = 32" using Cons.prems(2) [of w] by simp_all
  from cleaner_Put_ok [OF Cons.prems(1) w(2,3) Cons.prems(3) [of w], of "kv_value w"] obtain E hs' where
    E: "cleaner_Put (kv_key w) (kv_value w) D = Ret (None, E)" "gc_inv rank E hs' {} {#}" "preserves D hs E hs'" "diskdb E = diskdb D"
      "preimages E = preimages D" "\<And>x. map_option core (dn E x) = (if x = kv_key w then None else map_option core (dn D x))" by auto
  have put: "\<exists>e. cn_rlp n = Ret e \<and> content (diskdb E) (kv_key v) = Some e" if v: "v \<in> set ws" "dn E (kv_key v) = Some n" for v n
  proof -
    from E(6) [of "kv_key v"] v(2) obtain m where m: "dn D (kv_key v) = Some m" "core n = core m"
      by (cases "dn D (kv_key v)") (auto split: if_splits)
    have "cn_rlp n = cn_rlp m" using m(2) by (metis cn_rlp_def core_simps(3))
    with Cons.prems(3) [of v m] v(1) m(1) E(4) show ?thesis by simp
  qed
  have ok: "\<not> kv_delete v \<and> kv_key v \<noteq> zeroHash \<and> length (kv_key v) = 32" if "v \<in> set ws" for v
    using that by (intro Cons.prems(2)) simp
  from Cons.IH [OF E(2) ok put] obtain F hs'' where
    F: "replay cleaner_Put cleaner_Delete ws E = Ret (None, F)" "gc_inv rank F hs'' {} {#}" "preserves E hs' F hs''" "diskdb F = diskdb E"
      "preimages F = preimages E" "\<And>x. map_option core (dn F x) = (if x \<in> kv_key ` set ws then None else map_option core (dn E x))" by blast
  have "map_option core (dn F x) = (if x \<in> kv_key ` set (w # ws) then None else map_option core (dn D x))" for x
    unfolding F(6) [of x] E(6) [of x] by simp
  moreover have "replay cleaner_Put cleaner_Delete (w # ws) D = Ret (None, F)" using w(1) E(1) F(1) by simp
  ultimately show ?case using F E preserves_trans [OF E(3) F(3)] by (intro exI [of _ F] exI [of _ hs'']) simp
qed

subsection \<open>The traversal\<close>

definition child :: "Database \<Rightarrow> bytes \<Rightarrow> bytes \<Rightarrow> bool" where
  "child D p c \<longleftrightarrow> (\<exists>n. dn D p = Some n \<and> p \<noteq> zeroHash \<and> c \<in># kids n)"

abbreviation reach :: "Database \<Rightarrow> bytes \<Rightarrow> bytes \<Rightarrow> bool" where
  "reach D \<equiv> (child D)\<^sup>*\<^sup>*"

text \<open>
  \<open>D0\<close> is the database before the traversal, \<open>ws\<close> the writes in the batch. A node is settled if its
  encoding is on disk or in the batch, and it is in the batch or out of the cache.
\<close>

definition settled :: "Database \<Rightarrow> Database \<Rightarrow> keyvalue list \<Rightarrow> bytes \<Rightarrow> bool" where
  "settled D0 D ws x \<longleftrightarrow>
     (\<forall>n e. dn D0 x = Some n \<and> cn_rlp n = Ret e \<longrightarrow>
        apply_writes ws (content (diskdb D)) x = Some e \<and> (dn D x = None \<or> x \<in> kv_key ` set ws))"

definition good_put :: "Database \<Rightarrow> keyvalue \<Rightarrow> bool" where
  "good_put D0 w \<longleftrightarrow> \<not> kv_delete w \<and> kv_key w \<noteq> zeroHash \<and> (\<exists>n. dn D0 (kv_key w) = Some n \<and> cn_rlp n = Ret (kv_value w))"

definition committing :: "(bytes \<Rightarrow> nat) \<Rightarrow> Database \<Rightarrow> bytes list \<Rightarrow> Database \<Rightarrow> keyvalue list \<Rightarrow> bool" where
  "committing rank D0 hs0 D ws \<longleftrightarrow>
     (\<exists>hs. gc_inv rank D hs {} {#} \<and> preserves D0 hs0 D hs) \<and> (\<forall>h. on_disk D0 h \<longrightarrow> on_disk D h) \<and> preimages D = preimages D0 \<and>
     (\<forall>x. dn D x \<noteq> None \<longrightarrow> map_option core (dn D x) = map_option core (dn D0 x)) \<and>
     (\<forall>x y. dn D0 x \<noteq> None \<and> dn D x = None \<and> reach D0 x y \<longrightarrow> settled D0 D [] y) \<and>
     (\<forall>w \<in> set ws. good_put D0 w \<and> (\<forall>y. reach D0 (kv_key w) y \<longrightarrow> settled D0 D ws y))"

lemma committingD:
  assumes "committing rank D0 hs0 D ws"
  shows "\<exists>hs. gc_inv rank D hs {} {#} \<and> preserves D0 hs0 D hs" "on_disk D0 h \<Longrightarrow> on_disk D h" "preimages D = preimages D0"
    "dn D x \<noteq> None \<Longrightarrow> map_option core (dn D x) = map_option core (dn D0 x)"
    "dn D0 x \<noteq> None \<Longrightarrow> dn D x = None \<Longrightarrow> reach D0 x y \<Longrightarrow> settled D0 D [] y"
    "w \<in> set ws \<Longrightarrow> good_put D0 w" "w \<in> set ws \<Longrightarrow> reach D0 (kv_key w) y \<Longrightarrow> settled D0 D ws y"
  using assms by (auto simp: committing_def)

lemma apply_good_puts:
  assumes "\<And>w. w \<in> set ws \<Longrightarrow> good_put D0 w" "dn D0 x = Some n" "cn_rlp n = Ret e"
  shows "apply_writes ws c x = c x \<or> apply_writes ws c x = Some e"
proof -
  have "\<not> kv_delete w \<and> kv_value w = e" if "w \<in> set ws" "kv_key w = x" for w
    using assms(1) [OF that(1)] assms(2,3) that(2) by (auto simp: good_put_def)
  with apply_writes_cases [of ws x c] show ?thesis by auto
qed

lemma settled_more:
  assumes "settled D0 D [] x" "\<And>w. w \<in> set ws \<Longrightarrow> good_put D0 w"
  shows "settled D0 D ws x"
  unfolding settled_def
proof (intro allI impI)
  fix n e
  assume n: "dn D0 x = Some n \<and> cn_rlp n = Ret e"
  then have "content (diskdb D) x = Some e" "dn D x = None" using assms(1) by (auto simp: settled_def)
  moreover have "apply_writes ws (content (diskdb D)) x = content (diskdb D) x \<or> apply_writes ws (content (diskdb D)) x = Some e"
    using apply_good_puts [of ws D0 x n e] assms(2) n by simp
  ultimately show "apply_writes ws (content (diskdb D)) x = Some e \<and> (dn D x = None \<or> x \<in> kv_key ` set ws)" by auto
qed

lemma settled_put:
  assumes "settled D0 D ws x" "good_put D0 w"
  shows "settled D0 D (ws @ [w]) x"
  using assms by (auto simp: settled_def good_put_def)

text \<open>Writing the batch and dropping its nodes.\<close>

lemma commit_flush_ok:
  assumes com: "committing rank D0 hs0 (cs_db st) (writes (cs_batch st))" and inv0: "gc_inv rank D0 hs0 {} {#}"
  shows "\<exists>err st'. commit_flush st = Ret (err, st') \<and> committing rank D0 hs0 (cs_db st') (writes (cs_batch st')) \<and>
    (\<forall>x. settled D0 (cs_db st) (writes (cs_batch st)) x \<longrightarrow> settled D0 (cs_db st') (writes (cs_batch st')) x) \<and>
    (err = None \<longrightarrow> writes (cs_batch st') = [])"
proof -
  define D ws where "D = cs_db st" and "ws = writes (cs_batch st)"
  note com = com [folded D_def ws_def] and cD = committingD [OF com [folded D_def ws_def]]
  note ok = gc_invD(5) [OF inv0]
  obtain hs where inv: "gc_inv rank D hs {} {#}" and keep: "preserves D0 hs0 D hs" using cD(1) by blast
  obtain err oks2 d where w: "store_Write (cs_oks st) (cs_batch st) (diskdb D) = Ret (err, oks2, d)" "disk_open d"
    "if err = None then content d = apply_writes ws (content (diskdb D)) else d = diskdb D"
    using store_Write_ok [of "diskdb D" "cs_oks st" "cs_batch st"] gc_invD(5) [OF inv] by (auto simp: nodes_ok_def disk_open_def ws_def)
  show ?thesis
  proof (cases "err = None")
    case False
    then have "commit_flush st = Ret (err, st\<lparr>cs_oks := oks2, cs_db := D\<rparr>)" using w(1,3) by (simp add: commit_flush_def D_def)
    with False com show ?thesis by (auto simp: D_def ws_def)
  next
    case True
    then have c: "content d = apply_writes ws (content (diskdb D))" using w(3) by simp
    have key: "\<not> kv_delete v \<and> kv_key v \<noteq> zeroHash \<and> length (kv_key v) = 32" if "v \<in> set ws" for v
      using cD(6) [OF that] nodes_okD(1) [OF ok] by (auto simp: good_put_def)
    have rw: "right_write D v \<or> \<not> kv_delete v \<and> content (diskdb D) (kv_key v) = Some (kv_value v)" if v: "v \<in> set ws" for v
    proof -
      obtain n where n: "\<not> kv_delete v" "kv_key v \<noteq> zeroHash" "dn D0 (kv_key v) = Some n" "cn_rlp n = Ret (kv_value v)"
        using cD(6) [OF v] by (auto simp: good_put_def)
      show ?thesis
      proof (cases "dn D (kv_key v)")
        case None
        then show ?thesis using cD(5) [of "kv_key v" "kv_key v"] n by (auto simp: settled_def)
      next
        case (Some m)
        then have "core m = core n" using cD(4) [of "kv_key v"] n(3) by simp
        then have "cn_rlp m = cn_rlp n" by (metis cn_rlp_def core_simps(3))
        then show ?thesis using Some n by (simp add: right_write_def)
      qed
    qed
    let ?E = "D\<lparr>diskdb := d\<rparr>"
    have "\<forall>v \<in> set ws. right_write D v \<or> \<not> kv_delete v \<and> content (diskdb D) (kv_key v) = Some (kv_value v)" using rw by blast
    note h = write_harmless [OF inv this w(2) c]
    have E: "gc_inv rank ?E hs {} {#}" "preserves D0 hs0 ?E hs"
    proof -
      show "gc_inv rank ?E hs {} {#}" by (rule h(1))
      have "sane kd ?E hs" if kd: "sane kd D0 hs0" for kd
      proof (rule sane_write [OF _ h(3) c])
        show "sane kd D hs" using keep kd by (simp add: preserves_def)
        fix v x
        assume v: "v \<in> set ws" "length (kv_key v) = 32" and x: "x \<in> kd (kv_key v)"
        obtain n where n: "kv_key v \<noteq> zeroHash" "dn D0 (kv_key v) = Some n" using cD(6) [OF v(1)] by (auto simp: good_put_def)
        then obtain us vs where "hs0 = us @ kv_key v # vs" using flush_ok_Some [OF gc_invD(1) [OF inv0], of "kv_key v"] by (auto simp: in_set_conv_decomp)
        then have xn: "x \<in># kids n" using saneD(1) [OF kd _ n(2)] x inner_kids by blast
        then have "reach D0 (kv_key v) x" using n by (auto simp: child_def)
        then have st: "settled D0 D ws x" using v(1) by (intro cD(7))
        have z: "x \<noteq> zeroHash" using gc_invD(4) [OF inv0] n xn by (auto simp: ranked_def)
        show "on_disk ?E x"
        proof (cases "dn D0 x")
          case None
          have "avail D0 x" using refs_pos [OF n(2,1) _ xn, of "{}"] gc_invD(3) [OF inv0] by (simp add: closed_def)
          with None have "on_disk D0 x" by (simp add: avail_def)
          then show ?thesis using cD(2) h(3) by blast
        next
          case (Some m)
          then obtain e where "cn_rlp m = Ret e" "e \<noteq> []" "length x = 32" using nodes_okD [OF ok Some z] by blast
          with st Some c show ?thesis by (simp add: settled_def on_disk_content)
        qed
      qed
      with keep h(2) same_answers_trans [of D0 D ?E] show "preserves D0 hs0 ?E hs" by (simp add: preserves_def)
    qed
    have "\<exists>e. cn_rlp n = Ret e \<and> content (diskdb ?E) (kv_key v) = Some e" if v: "v \<in> set ws" and n: "dn ?E (kv_key v) = Some n" for v n
    proof -
      obtain m where m: "dn D0 (kv_key v) = Some m" "cn_rlp m = Ret (kv_value v)" using cD(6) [OF v] by (auto simp: good_put_def)
      have "core m = core n" using cD(4) [of "kv_key v"] m(1) n by simp
      then have "cn_rlp n = Ret (kv_value v)" using m(2) by (metis cn_rlp_def core_simps(3))
      moreover have "settled D0 D ws (kv_key v)" using v by (rule cD(7)) simp
      ultimately show ?thesis using m c by (simp add: settled_def)
    qed
    from replay_ok [OF E(1) key this] obtain F hs' where F: "replay cleaner_Put cleaner_Delete ws ?E = Ret (None, F)" "gc_inv rank F hs' {} {#}"
      "preserves ?E hs F hs'" "diskdb F = diskdb ?E" "preimages F = preimages ?E"
      "\<And>x. map_option core (dn F x) = (if x \<in> kv_key ` set ws then None else map_option core (dn ?E x))" by blast
    have none: "dn F x = None \<longleftrightarrow> dn D x = None \<or> x \<in> kv_key ` set ws" for x
      using F(6) [of x] by (cases "dn F x"; cases "dn D x") (auto split: if_splits)
    have st: "settled D0 F [] x" if "settled D0 D ws x" for x using that none [of x] F(4) c by (auto simp: settled_def)
    let ?st = "st\<lparr>cs_oks := oks2, cs_db := F, cs_batch := batch_Reset (cs_batch st)\<rparr>"
    have "commit_flush st = Ret (None, ?st)" using w(1) True F(1) by (simp add: commit_flush_def batch_Replay_def D_def ws_def)
    moreover have "committing rank D0 hs0 F []"
      unfolding committing_def
    proof (intro conjI allI impI ballI; (elim conjE)?)
      show "\<exists>hs. gc_inv rank F hs {} {#} \<and> preserves D0 hs0 F hs" using F(2) preserves_trans [OF E(2) F(3)] by blast
      show "on_disk F x" if "on_disk D0 x" for x using h(3) [OF cD(2) [OF that]] F(4) by (simp add: on_disk_def)
      show "preimages F = preimages D0" using F(5) cD(3) by simp
    next
      fix x assume "dn F x \<noteq> None"
      then show "map_option core (dn F x) = map_option core (dn D0 x)" using F(6) [of x] none [of x] cD(4) [of x] by simp
    next
      fix x y assume x: "dn D0 x \<noteq> None" "dn F x = None" "reach D0 x y"
      show "settled D0 F [] y"
      proof (rule st, cases "dn D x = None")
        case True
        show "settled D0 D ws y" using cD(5) [OF x(1) True x(3)] cD(6) by (rule settled_more)
      next
        case False
        with x(2) none [of x] obtain v where "v \<in> set ws" "x = kv_key v" by auto
        then show "settled D0 D ws y" using cD(7) x(3) by blast
      qed
    qed simp_all
    ultimately show ?thesis using st by (auto simp: D_def ws_def batch_Reset_def)
  qed
qed

lemma committing_put:
  assumes com: "committing rank D0 hs0 D ws" and w: "good_put D0 w" and full: "\<And>c y. child D0 (kv_key w) c \<Longrightarrow> reach D0 c y \<Longrightarrow> settled D0 D ws y"
  shows "committing rank D0 hs0 D (ws @ [w])" "reach D0 (kv_key w) y \<Longrightarrow> settled D0 D (ws @ [w]) y"
proof -
  have here: "settled D0 D (ws @ [w]) (kv_key w)" using w by (auto simp: settled_def good_put_def)
  have all: "settled D0 D (ws @ [w]) y" if "reach D0 (kv_key w) y" for y
    using that
  proof (cases rule: converse_rtranclpE)
    case base
    with here show ?thesis by simp
  next
    case (step c)
    then show ?thesis by (intro settled_put [OF full w])
  qed
  then show "reach D0 (kv_key w) y \<Longrightarrow> settled D0 D (ws @ [w]) y" .
  show "committing rank D0 hs0 D (ws @ [w])"
    unfolding committing_def
  proof (intro conjI ballI)
    fix v assume "v \<in> set (ws @ [w])"
    then show "good_put D0 v" using w committingD(6) [OF com] by auto
    from \<open>v \<in> set (ws @ [w])\<close> show "\<forall>y. reach D0 (kv_key v) y \<longrightarrow> settled D0 D (ws @ [w]) y"
      using all settled_put [OF committingD(7) [OF com] w] by auto
  qed (use com in \<open>auto simp: committing_def\<close>)
qed

text \<open>What a traversal from \<open>hash\<close> that ends with \<open>err\<close> makes of its state.\<close>

definition commits_to :: "(bytes \<Rightarrow> nat) \<Rightarrow> Database \<Rightarrow> bytes list \<Rightarrow> bytes \<Rightarrow> commitState \<Rightarrow> dbError option \<Rightarrow> commitState \<Rightarrow> bool" where
  "commits_to rank D0 hs0 hash st err st' \<longleftrightarrow>
     committing rank D0 hs0 (cs_db st') (writes (cs_batch st')) \<and>
     (\<forall>x. settled D0 (cs_db st) (writes (cs_batch st)) x \<longrightarrow> settled D0 (cs_db st') (writes (cs_batch st')) x) \<and>
     (err = None \<longrightarrow> (\<forall>y. reach D0 hash y \<longrightarrow> settled D0 (cs_db st') (writes (cs_batch st')) y))"

lemma commits_toD:
  assumes "commits_to rank D0 hs0 hash st err st'"
  shows "committing rank D0 hs0 (cs_db st') (writes (cs_batch st'))"
    "settled D0 (cs_db st) (writes (cs_batch st)) x \<Longrightarrow> settled D0 (cs_db st') (writes (cs_batch st')) x"
    "err = None \<Longrightarrow> reach D0 hash y \<Longrightarrow> settled D0 (cs_db st') (writes (cs_batch st')) y"
  using assms by (auto simp: commits_to_def)

lemma commit_children_ok:
  assumes "\<And>c st. c \<in> set cs \<Longrightarrow> committing rank D0 hs0 (cs_db st) (writes (cs_batch st)) \<Longrightarrow>
      \<exists>err st'. db_commit k ord c st = Ret (err, st') \<and> commits_to rank D0 hs0 c st err st'"
    and "committing rank D0 hs0 (cs_db st) (writes (cs_batch st))"
  shows "\<exists>err st'. go_fold (\<lambda>child (err, st). if err = None then db_commit k ord child st else Ret (err, st)) cs (e0, st) = Ret (err, st') \<and>
    committing rank D0 hs0 (cs_db st') (writes (cs_batch st')) \<and>
    (\<forall>x. settled D0 (cs_db st) (writes (cs_batch st)) x \<longrightarrow> settled D0 (cs_db st') (writes (cs_batch st')) x) \<and>
    (err = None \<longrightarrow> e0 = None \<and> (\<forall>c \<in> set cs. \<forall>y. reach D0 c y \<longrightarrow> settled D0 (cs_db st') (writes (cs_batch st')) y))"
    (is "\<exists>err st'. go_fold ?f cs (e0, st) = Ret (err, st') \<and> _")
  using assms
proof (induction cs arbitrary: st e0)
  case Nil
  then show ?case by simp
next
  case (Cons c cs)
  let ?S = "\<lambda>st. settled D0 (cs_db st) (writes (cs_batch st))"
  note IH = Cons.IH [OF Cons.prems(1)]
  show ?case
  proof (cases "e0 = None")
    case False
    with IH [OF _ _ Cons.prems(2), of e0] show ?thesis by auto
  next
    case True
    from Cons.prems(1) [OF _ Cons.prems(2), of c] obtain e1 st1 where
      1: "db_commit k ord c st = Ret (e1, st1)" "commits_to rank D0 hs0 c st e1 st1" by auto
    note t = commits_toD [OF 1(2)]
    from IH [OF _ _ t(1), of e1] obtain e2 st2 where
      2: "go_fold ?f cs (e1, st1) = Ret (e2, st2)" "committing rank D0 hs0 (cs_db st2) (writes (cs_batch st2))" "\<forall>x. ?S st1 x \<longrightarrow> ?S st2 x"
        "e2 = None \<longrightarrow> e1 = None \<and> (\<forall>c \<in> set cs. \<forall>y. reach D0 c y \<longrightarrow> ?S st2 y)" by auto
    have "go_fold ?f (c # cs) (e0, st) = Ret (e2, st2)" using True 1(1) 2(1) by simp
    moreover have "\<forall>x. ?S st x \<longrightarrow> ?S st2 x" using t(2) 2(3) by blast
    moreover have "e2 = None \<longrightarrow> e0 = None \<and> (\<forall>c \<in> set (c # cs). \<forall>y. reach D0 c y \<longrightarrow> ?S st2 y)" using True t(3) 2(3,4) by auto
    ultimately show ?thesis using 2(2) by blast
  qed
qed

lemma db_commit_ok:
  assumes "committing rank D0 hs0 (cs_db st) (writes (cs_batch st))" and "gc_inv rank D0 hs0 {} {#}" "hash \<noteq> zeroHash"
    and "P \<subseteq> dom (dn D0) - {zeroHash}" "\<And>p. p \<in> P \<Longrightarrow> rank hash < rank p" "card (dom (dn D0) - {zeroHash}) < k + card P"
  shows "\<exists>err st'. db_commit k ord hash st = Ret (err, st') \<and> commits_to rank D0 hs0 hash st err st'"
  using assms
proof (induction k arbitrary: hash st P)
  case 0
  have "card P \<le> card (dom (dn D0) - {zeroHash})" using 0(4) by (intro card_mono) auto
  with 0(6) show ?case by simp
next
  case (Suc k)
  note ok = gc_invD(5,4) [OF Suc.prems(2)]
  let ?S = "\<lambda>st. settled D0 (cs_db st) (writes (cs_batch st))"
  show ?case
  proof (cases "dn (cs_db st) hash")
    case None
    have "?S st y" if y: "reach D0 hash y" for y
    proof (cases "dn D0 hash")
      case None
      then have "y = hash" using y by (auto simp: child_def elim: converse_rtranclpE)
      then show ?thesis using None by (simp add: settled_def)
    next
      case (Some n)
      then have "settled D0 (cs_db st) [] y" using committingD(5) [OF Suc.prems(1)] None y by auto
      then show ?thesis using committingD(6) [OF Suc.prems(1)] by (rule settled_more)
    qed
    then show ?thesis using None Suc.prems(1) by (simp add: commits_to_def)
  next
    case (Some n)
    then obtain m where m: "dn D0 hash = Some m" "core m = core n"
      using committingD(4) [OF Suc.prems(1), of hash] by (cases "dn D0 hash") auto
    have kids: "kids m = kids n" "cn_rlp m = cn_rlp n" using m(2) by (metis kids_core, metis cn_rlp_def core_simps(3))
    have child: "child D0 hash c \<longleftrightarrow> c \<in> set (forChilds (ord hash) n)" for c
      using m(1) Suc.prems(3) kids(1) kids_seed [of "ord hash" n] by (auto simp: child_def simp flip: set_mset_mset)
    define Q where "Q = insert hash P"
    have Q: "Q \<subseteq> dom (dn D0) - {zeroHash}" "card (dom (dn D0) - {zeroHash}) < k + card Q"
    proof -
      show "Q \<subseteq> dom (dn D0) - {zeroHash}" using Suc.prems(3,4) m(1) by (auto simp: Q_def)
      have "hash \<notin> P" using Suc.prems(5) by auto
      moreover have "finite P" using Suc.prems(4) by (rule finite_subset) simp
      ultimately show "card (dom (dn D0) - {zeroHash}) < k + card Q" using Suc.prems(6) by (simp add: Q_def)
    qed
    have down: "c \<noteq> zeroHash" "\<And>p. p \<in> Q \<Longrightarrow> rank c < rank p" if "child D0 hash c" for c
    proof -
      have r: "rank c < rank hash" "c \<noteq> zeroHash" using that ok(2) by (auto simp: ranked_def child_def)
      then show "c \<noteq> zeroHash" by simp
      show "rank c < rank p" if "p \<in> Q" for p using that r(1) Suc.prems(5) by (force simp: Q_def)
    qed
    let ?cs = "forChilds (ord hash) n"
    have "\<exists>err st'. db_commit k ord c st0 = Ret (err, st') \<and> commits_to rank D0 hs0 c st0 err st'"
      if c: "c \<in> set ?cs" and st0: "committing rank D0 hs0 (cs_db st0) (writes (cs_batch st0))" for c st0
      using Suc.IH [OF st0 Suc.prems(2) down(1) Q(1) down(2) Q(2), of c] c by (simp add: child)
    from commit_children_ok [of ?cs rank D0 hs0 k ord st, OF this Suc.prems(1), of None] obtain e1 st1 where
      1: "go_fold (\<lambda>child (err, st). if err = None then db_commit k ord child st else Ret (err, st)) ?cs (None, st) = Ret (e1, st1)"
        "committing rank D0 hs0 (cs_db st1) (writes (cs_batch st1))" "\<forall>x. ?S st x \<longrightarrow> ?S st1 x"
        "e1 = None \<longrightarrow> (\<forall>c \<in> set ?cs. \<forall>y. reach D0 c y \<longrightarrow> ?S st1 y)" by blast
    show ?thesis
    proof (cases "e1 = None")
      case False
      then have "db_commit (Suc k) ord hash st = Ret (e1, st1)" using Some 1(1) by simp
      with 1(2,3) False show ?thesis unfolding commits_to_def by blast
    next
      case True
      obtain e where e: "cn_rlp n = Ret e" using nodes_okD(2) [OF ok(1) m(1) Suc.prems(3)] kids(2) by auto
      define w where "w = \<lparr>kv_key = hash, kv_value = e, kv_delete = False\<rparr>"
      define st2 where "st2 = st1\<lparr>cs_batch := WriteTrieNode hash e (cs_batch st1), cs_called := cs_called st1 @ [hash]\<rparr>"
      have ws: "cs_db st2 = cs_db st1" "writes (cs_batch st2) = writes (cs_batch st1) @ [w]"
        by (simp_all add: st2_def WriteTrieNode_def batch_Put_def w_def)
      have w: "good_put D0 w" "kv_key w = hash" using m(1) Suc.prems(3) kids(2) e by (simp_all add: good_put_def w_def)
      have 2: "committing rank D0 hs0 (cs_db st2) (writes (cs_batch st2))" "\<And>y. reach D0 hash y \<Longrightarrow> ?S st2 y"
        using committing_put [OF 1(2) w(1)] 1(4) True child unfolding ws w(2) by blast+
      have 3: "?S st2 x" if "?S st x" for x using settled_put [OF _ w(1)] 1(3) that unfolding ws by blast
      show ?thesis
      proof (cases "ValueSize (cs_batch st2) \<ge> IdealBatchSize")
        case False
        then have "db_commit (Suc k) ord hash st = Ret (None, st2)" using Some 1(1) True e by (simp add: st2_def Let_def)
        then show ?thesis using 2 3 unfolding commits_to_def by blast
      next
        case big: True
        then have "db_commit (Suc k) ord hash st = commit_flush st2" using Some 1(1) True e by (simp add: st2_def Let_def)
        with commit_flush_ok [OF 2(1) Suc.prems(2)] 2(2) 3 show ?thesis by (auto simp: commits_to_def simp del: db_commit.simps)
      qed
    qed
  qed
qed

declare db_commit.simps [simp del]

subsection \<open>Commit\<close>

lemma preimages_written:
  assumes inv: "gc_inv rank D hs {} {#}" and pre: "pre_ok D"
  shows "\<exists>err oks' d. (case preimages D of
      None \<Rightarrow> Ret (None, oks, D)
    | Some m \<Rightarrow>
        go_bind (store_Write oks (WritePreimages sd m memorydb_NewBatch) (diskdb D)) (\<lambda>(err, oks, disk).
          Ret (err, oks, D\<lparr>diskdb := disk\<rparr>))) = Ret (err, oks', D\<lparr>diskdb := d\<rparr>) \<and>
    gc_inv rank (D\<lparr>diskdb := d\<rparr>) hs {} {#} \<and> preserves D hs (D\<lparr>diskdb := d\<rparr>) hs"
proof (cases "preimages D")
  case None
  have "D\<lparr>diskdb := diskdb D\<rparr> = D" by simp
  with None inv show ?thesis by (intro exI [of _ None] exI [of _ oks] exI [of _ "diskdb D"]) simp
next
  case (Some m)
  let ?b = "WritePreimages sd m memorydb_NewBatch"
  have w: "\<forall>w \<in> set (writes ?b). \<not> kv_delete w \<and> length (kv_key w) \<noteq> 32" using pre Some by (rule WritePreimages_ok)
  obtain err oks2 d where s: "store_Write oks ?b (diskdb D) = Ret (err, oks2, d)" "disk_open d"
    "if err = None then content d = apply_writes (writes ?b) (content (diskdb D)) else d = diskdb D"
    using store_Write_ok [of "diskdb D" oks ?b] gc_invD(5) [OF inv] by (auto simp: nodes_ok_def disk_open_def)
  have "gc_inv rank (D\<lparr>diskdb := d\<rparr>) hs {} {#} \<and> preserves D hs (D\<lparr>diskdb := d\<rparr>) hs"
    using s(2,3) write_other [OF inv w, of d] inv by (cases "err = None") auto
  with Some s(1) show ?thesis by auto
qed

lemma committing_start: "gc_inv rank D hs {} {#} \<Longrightarrow> committing rank D hs D []"
  by (auto simp: committing_def)

lemma child_disk: "child (D\<lparr>diskdb := d\<rparr>) = child D"
  by (simp add: child_def fun_eq_iff)

lemma db_Commit_ok:
  assumes inv: "gc_inv rank D hs {} {#}" and pre: "pre_ok D" and z: "hash \<noteq> zeroHash"
  shows "\<exists>err called D' hs'. db_Commit sd ord oks hash D = Ret (err, called, D') \<and>
    gc_inv rank D' hs' {} {#} \<and> preserves D hs D' hs' \<and> pre_ok D' \<and>
    (err = None \<longrightarrow> (\<forall>x n e. reach D hash x \<and> dn D x = Some n \<and> cn_rlp n = Ret e \<longrightarrow> content (diskdb D') x = Some e \<and> dn D' x = None))"
proof -
  obtain e0 oks0 d0 where 0: "(case preimages D of
      None \<Rightarrow> Ret (None, oks, D)
    | Some m \<Rightarrow>
        go_bind (store_Write oks (WritePreimages sd m memorydb_NewBatch) (diskdb D)) (\<lambda>(err, oks, disk).
          Ret (err, oks, D\<lparr>diskdb := disk\<rparr>))) = Ret (e0, oks0, D\<lparr>diskdb := d0\<rparr>)"
    "gc_inv rank (D\<lparr>diskdb := d0\<rparr>) hs {} {#}" "preserves D hs (D\<lparr>diskdb := d0\<rparr>) hs"
    using preimages_written [OF inv pre, of oks sd] by blast
  define D0 where "D0 = D\<lparr>diskdb := d0\<rparr>"
  note inv0 = 0(2) [folded D0_def]
  have pre0: "pre_ok D0" using pre by (simp add: pre_ok_def D0_def)
  show ?thesis
  proof (cases "e0 = None")
    case False
    then have "db_Commit sd ord oks hash D = Ret (e0, [], D0)" using 0(1) by (simp add: db_Commit_def D0_def)
    with False inv0 pre0 0(3) show ?thesis by (auto simp: D0_def)
  next
    case True
    let ?st = "\<lparr>cs_db = D0, cs_batch = memorydb_NewBatch, cs_oks = oks0, cs_called = []\<rparr>"
    let ?k = "gomap_len (dirties D0) + 1"
    have "gomap_len (dirties D0) = card (dom (dn D0))"
      using gc_invD(1) [OF inv0] by (simp add: flush_ok_def gomap_len_card gomap_keys_dom)
    then have k: "card (dom (dn D0) - {zeroHash}) < ?k + card {}" using card_Diff1_le [of "dom (dn D0)" zeroHash] by simp
    have "committing rank D0 hs (cs_db ?st) (writes (cs_batch ?st))" using committing_start [OF inv0] by (simp add: memorydb_NewBatch_def)
    from db_commit_ok [OF this inv0 z _ _ k, of ord] obtain e1 st1 where
      1: "db_commit ?k ord hash ?st = Ret (e1, st1)" "commits_to rank D0 hs hash ?st e1 st1" by auto
    note t = commits_toD [OF 1(2)]
    have fin: "\<exists>hs'. gc_inv rank (cs_db st') hs' {} {#} \<and> preserves D hs (cs_db st') hs' \<and> pre_ok (cs_db st')"
      if "committing rank D0 hs (cs_db st') (writes (cs_batch st'))" for st'
      using committingD(1,3) [OF that] pre0 preserves_trans [OF 0(3) [folded D0_def]] by (auto simp: pre_ok_def)
    show ?thesis
    proof (cases "e1 = None")
      case False
      then have "db_Commit sd ord oks hash D = Ret (e1, cs_called st1, cs_db st1)" using 0(1) True 1(1) by (simp add: db_Commit_def D0_def)
      with False fin [OF t(1)] show ?thesis by auto
    next
      case e1: True
      from commit_flush_ok [OF t(1) inv0] obtain e2 st2 where
        2: "commit_flush st1 = Ret (e2, st2)" "committing rank D0 hs (cs_db st2) (writes (cs_batch st2))"
          "\<And>x. settled D0 (cs_db st1) (writes (cs_batch st1)) x \<Longrightarrow> settled D0 (cs_db st2) (writes (cs_batch st2)) x"
          "e2 = None \<Longrightarrow> writes (cs_batch st2) = []" by blast
      show ?thesis
      proof (cases "e2 = None")
        case False
        then have "db_Commit sd ord oks hash D = Ret (e2, cs_called st2, cs_db st2)"
          using 0(1) True 1(1) e1 2(1) by (simp add: db_Commit_def D0_def)
        with False fin [OF 2(2)] show ?thesis by auto
      next
        case e2: True
        define E where "E = (if preimages (cs_db st2) \<noteq> None then (cs_db st2)\<lparr>preimages := Some [], preimagesSize := 0\<rparr> else cs_db st2)
          \<lparr>gcnodes := 0, gcsize := 0, flushnodes := 0, flushsize := 0\<rparr>"
        have eq: "db_Commit sd ord oks hash D = Ret (None, cs_called st2, E)"
          using 0(1) True 1(1) e1 2(1) e2 by (simp add: db_Commit_def D0_def E_def Let_def)
        have E: "dirties E = dirties (cs_db st2)" "diskdb E = diskdb (cs_db st2)" "oldest E = oldest (cs_db st2)" "newest E = newest (cs_db st2)"
          by (simp_all add: E_def)
        obtain hs' where f: "gc_inv rank (cs_db st2) hs' {} {#}" "preserves D hs (cs_db st2) hs'" "pre_ok (cs_db st2)" using fin [OF 2(2)] by blast
        have "preserves (cs_db st2) hs' E hs'" using E(1,2) by (intro preserves_same) simp_all
        then have "preserves D hs E hs'" by (rule preserves_trans [OF f(2)])
        moreover have "gc_inv rank E hs' {} {#}" using gc_inv_same [OF E(1,3,4,2)] f(1) by blast
        moreover have "pre_ok E" using f(3) by (auto simp: pre_ok_def E_def gomap_keys_def)
        moreover have "content (diskdb E) x = Some e \<and> dn E x = None" if "reach D hash x" "dn D x = Some n" "cn_rlp n = Ret e" for x n e
          using 2(3) [OF t(3) [OF e1]] that 2(4) [OF e2] E(1,2) by (auto simp: settled_def D0_def child_disk)
        ultimately show ?thesis using eq by blast
      qed
    qed
  qed
qed

end
