(* ===== verification/Trie_Run.thy ===== *)
theory Trie_Run
  imports Trie_Durable
begin

text \<open>
  The life of a trie database: the states that the operations of \<^verbatim>\<open>trie/database.go\<close> lead to, called
  as their callers do, and with writes to disk that may fail at any moment. In each of them no operation
  panics or runs forever, all that is referred to can be read, and what is on disk is complete, so that
  losing the cache loses no node below one that is left.
\<close>

subsection \<open>Operations\<close>

datatype dbOp =
    OpInsert bytes int node
  | OpPreimage bytes bytes
  | OpReference bytes bytes
  | OpDereference "bytes \<Rightarrow> seed" bytes
  | OpCap seed "bool list" int
  | OpCommit seed "bytes \<Rightarrow> seed" "bool list" bytes

fun db_op :: "dbOp \<Rightarrow> Database \<Rightarrow> Database go" where
  "db_op (OpInsert hash sz n) D = db_insert hash sz n D"
| "db_op (OpPreimage hash preimage) D = Ret (insertPreimage hash preimage D)"
| "db_op (OpReference c p) D = db_Reference c p D"
| "db_op (OpDereference ord root) D = db_Dereference ord root D"
| "db_op (OpCap sd oks limit) D = go_bind (db_Cap sd oks limit D) (\<lambda>(_, D). Ret D)"
| "db_op (OpCommit sd ord oks hash) D = go_bind (db_Commit sd ord oks hash D) (\<lambda>(_, _, D). Ret D)"

text \<open>
  What the callers see to: nodes come after their children and have the hash of their content, so that
  \<open>kd\<close> gives the children and \<open>rank\<close> decreases towards them; counters do not overflow; and only what was
  referenced is dereferenced.
\<close>

fun op_ok :: "(bytes \<Rightarrow> nat) \<Rightarrow> (bytes \<Rightarrow> bytes set) \<Rightarrow> Database \<Rightarrow> dbOp \<Rightarrow> bool" where
  "op_ok rank kd D (OpInsert hash sz n) \<longleftrightarrow>
     insertable rank D hash n \<and> (case simplifyNode n of Ret r \<Rightarrow> kd hash = set (forGatherChildren r) | _ \<Rightarrow> False)"
| "op_ok rank kd D (OpPreimage hash preimage) \<longleftrightarrow> length hash = 32"
| "op_ok rank kd D (OpReference c p) \<longleftrightarrow> referable rank D c p"
| "op_ok rank kd D (OpDereference ord root) \<longleftrightarrow> root_refs D root > 0 \<or> dn D root = None"
| "op_ok rank kd D (OpCap sd oks limit) \<longleftrightarrow> True"
| "op_ok rank kd D (OpCommit sd ord oks hash) \<longleftrightarrow> hash \<noteq> zeroHash"

inductive reachable :: "(bytes \<Rightarrow> nat) \<Rightarrow> (bytes \<Rightarrow> bytes set) \<Rightarrow> bool \<Rightarrow> memorydb \<Rightarrow> Database \<Rightarrow> bool"
  for rank kd pre disk where
  start: "reachable rank kd pre disk (NewDatabase pre disk)"
| step: "reachable rank kd pre disk D \<Longrightarrow> op_ok rank kd D op \<Longrightarrow> db_op op D = Ret D' \<Longrightarrow> reachable rank kd pre disk D'"

text \<open>The store at the start: open, and with each node all of its children.\<close>

definition complete :: "(bytes \<Rightarrow> bytes set) \<Rightarrow> memorydb \<Rightarrow> bool" where
  "complete kd d \<longleftrightarrow>
     (\<forall>h e. length h = 32 \<and> content d h = Some e \<and> e \<noteq> [] \<longrightarrow> (\<forall>c \<in> kd h. length c = 32 \<and> (\<exists>e. content d c = Some e \<and> e \<noteq> [])))"

subsection \<open>The invariant\<close>

definition db_inv :: "(bytes \<Rightarrow> nat) \<Rightarrow> (bytes \<Rightarrow> bytes set) \<Rightarrow> Database \<Rightarrow> bool" where
  "db_inv rank kd D \<longleftrightarrow> (\<exists>hs. gc_inv rank D hs {} {#} \<and> sane kd D hs) \<and> pre_ok D"

lemma db_inv_start:
  assumes "disk_open disk" "complete kd disk"
  shows "db_inv rank kd (NewDatabase pre disk)"
proof -
  let ?D = "NewDatabase pre disk"
  have dn: "dn ?D h = (if h = zeroHash then Some metaRoot else None)" for h by (simp add: NewDatabase_def gomap_get_def)
  have dom: "dom (dn ?D) = {zeroHash}" by (auto simp: dn dom_def split: if_splits)
  have m: "diskdb ?D = disk" "oldest ?D = zeroHash" "gomap_ok (dirties ?D)" by (simp_all add: NewDatabase_def gomap_ok_def)
  have r: "refs ?D {} h = 0" for h unfolding refs_def dom by (simp add: root_refs_def NewDatabase_def metaRoot_def gomap_get_def)
  have "flush_ok ?D [] {}" unfolding flush_ok_def dom using m by simp
  moreover have "counted ?D {} {#}" by (simp add: counted_def r)
  moreover have "closed ?D {}" by (simp add: closed_def r)
  moreover have "ranked rank ?D" by (simp add: ranked_def dn)
  moreover have "nodes_ok ?D" using assms(1) by (auto simp: nodes_ok_def dn m metaRoot_def gomap_ok_def disk_open_def)
  moreover have "on_disk ?D c" if "on_disk ?D h" "c \<in> kd h" for h c
    using that assms(2) unfolding complete_def on_disk_content m by blast
  then have "sane kd ?D []" unfolding sane_def by blast
  moreover have "pre_ok ?D" by (simp add: pre_ok_def NewDatabase_def gomap_keys_def)
  ultimately show ?thesis unfolding db_inv_def gc_inv_def by blast
qed

lemma sane_insert:
  assumes inv: "gc_inv rank D hs {} {#}" and sane: "sane kd D hs" and n: "insertable rank D hash n" "simplifyNode n = Ret r" "kd hash = set (forGatherChildren r)"
    and E: "gc_inv rank E (hs @ [hash]) {} {#}" "diskdb E = diskdb D"
      "\<And>p. map_option (Ret \<circ> cn_node) (dn E p) = (if p = hash then Some (simplifyNode n) else map_option (Ret \<circ> cn_node) (dn D p))"
  shows "sane kd E (hs @ [hash])"
  unfolding sane_def
proof (intro conjI allI impI ballI; elim conjE)
  have od: "on_disk E h = on_disk D h" for h using E(2) by (simp add: on_disk_def)
  fix xs p ys m
  assume p: "hs @ [hash] = xs @ p # ys" "dn E p = Some m"
  have di: "hash \<notin> set hs" using gc_invD(1) [OF E(1)] by (simp add: flush_ok_def)
  have "kd p = inner m \<and> (\<forall>c \<in> kd p. c \<in> set xs \<or> on_disk E c)"
  proof (cases "p = hash")
    case True
    then have "hs @ hash # [] = xs @ hash # ys" using p(1) by simp
    then have "xs = hs" using di by (metis append_Cons_eq_iff list.set(1) empty_iff)
    have "cn_node m = r" using E(3) [of hash] True p(2) n(2) by simp
    then have "kd p = inner m" using True n(3) by (simp add: inner_def)
    moreover have "c \<in> set hs \<or> on_disk E c" if "c \<in> kd hash" for c
    proof -
      have "avail D c" "c \<noteq> zeroHash" using n that by (auto simp: insertable_def)
      then show ?thesis using flush_ok_None [OF gc_invD(1) [OF inv], of c] od by (auto simp: avail_def)
    qed
    ultimately show ?thesis using True \<open>xs = hs\<close> by simp
  next
    case False
    then obtain zs where hs: "hs = xs @ p # zs" using p(1) by (cases ys rule: rev_cases) auto
    obtain m' where m': "dn D p = Some m'" "cn_node m' = cn_node m" using E(3) [of p] False p(2) by (cases "dn D p") auto
    have "kd p = inner m" using saneD(1) [OF sane hs m'(1)] m'(2) by (simp add: inner_def)
    then show ?thesis using saneD(2) [OF sane hs m'(1)] od by blast
  qed
  then show "kd p = inner m" and "\<And>c. c \<in> kd p \<Longrightarrow> c \<in> set xs \<or> on_disk E c" by blast+
next
  fix h c assume h: "on_disk E h" "c \<in> kd h"
  have "on_disk E x = on_disk D x" for x using E(2) by (simp add: on_disk_def)
  then show "on_disk E c" using saneD(3) [OF sane _ h(2)] h(1) by blast
qed

lemma db_inv_shrinks:
  assumes "gc_inv rank D hs {} {#}" "sane kd D hs" "pre_ok D" "gc_inv rank E hs' {} {#}" "subseq hs' hs" "shrinks D E"
  shows "db_inv rank kd E"
proof -
  have "sane kd E hs'"
  proof (rule sane_sub [OF assms(2,4) _ assms(5)])
    show "distinct hs" using gc_invD(1) [OF assms(1)] by (simp add: flush_ok_def)
    show "diskdb E = diskdb D" "\<And>p n. dn E p = Some n \<Longrightarrow> \<exists>m. dn D p = Some m \<and> cn_node m = cn_node n"
      using assms(6) unfolding shrinks_def by (blast, metis)
  qed
  moreover have "pre_ok E" using assms(3,6) by (simp add: pre_ok_def shrinks_def)
  ultimately show ?thesis using assms(4) unfolding db_inv_def by blast
qed

lemma op_step:
  assumes "db_inv rank kd D" "op_ok rank kd D op"
  shows "\<exists>D'. db_op op D = Ret D' \<and> db_inv rank kd D'"
proof -
  obtain hs where inv: "gc_inv rank D hs {} {#}" and sane: "sane kd D hs" and pre: "pre_ok D" using assms(1) by (auto simp: db_inv_def)
  show ?thesis
  proof (cases op)
    case (OpInsert hash sz n)
    then obtain r where n: "insertable rank D hash n" "simplifyNode n = Ret r" "kd hash = set (forGatherChildren r)"
      using assms(2) by (auto split: go.splits)
    from db_insert_ok [OF inv n(1), of sz] obtain E hs' where E: "db_insert hash sz n D = Ret E" "gc_inv rank E hs' {} {#}"
      "preimages E = preimages D" "diskdb E = diskdb D"
      "if gomap_has (dirties D) hash then E = D \<and> hs' = hs
       else hs' = hs @ [hash] \<and> (\<forall>p. map_option (Ret \<circ> cn_node) (dn E p) = (if p = hash then Some (simplifyNode n) else map_option (Ret \<circ> cn_node) (dn D p)))"
      by blast
    have "sane kd E hs'" using sane_insert [OF inv sane n] E sane by (cases "gomap_has (dirties D) hash") auto
    moreover have "pre_ok E" using pre E(3) by (simp add: pre_ok_def)
    ultimately show ?thesis using OpInsert E(1,2) by (auto simp: db_inv_def)
  next
    case (OpPreimage hash preimage)
    let ?E = "insertPreimage hash preimage D"
    have E: "dirties ?E = dirties D" "diskdb ?E = diskdb D" "oldest ?E = oldest D" "newest ?E = newest D"
      by (auto simp: insertPreimage_def split: option.split)
    have "gc_inv rank ?E hs {} {#}" using gc_inv_same [OF E(1,3,4,2)] inv by blast
    moreover have "sane kd ?E hs" using sane preserves_same [of ?E D hs] E by (simp add: preserves_def)
    moreover have "pre_ok ?E" using pre assms(2) OpPreimage by (auto simp: pre_ok_def insertPreimage_def split: option.splits if_splits)
    ultimately show ?thesis using OpPreimage by (auto simp: db_inv_def)
  next
    case (OpReference c p)
    with assms(2) db_Reference_ok [OF inv, of c p] obtain E where "db_Reference c p D = Ret E" "gc_inv rank E hs {} {#}" "shrinks D E" by auto
    with OpReference db_inv_shrinks [OF inv sane pre, of E hs] show ?thesis by simp
  next
    case (OpDereference ord root)
    with assms(2) have "0 < root_refs D root \<or> dn D root = None" by simp
    from db_Dereference_ok [OF inv this, of ord] obtain E hs' where
      "db_Dereference ord root D = Ret E" "gc_inv rank E hs' {} {#}" "subseq hs' hs" "shrinks D E" by blast
    with OpDereference db_inv_shrinks [OF inv sane pre, of E hs'] show ?thesis by simp
  next
    case (OpCap sd oks limit)
    from db_Cap_ok [OF inv pre, of sd oks limit] obtain err E hs' where
      "db_Cap sd oks limit D = Ret (err, E)" "gc_inv rank E hs' {} {#}" "preserves D hs E hs'" "pre_ok E" by blast
    with OpCap sane show ?thesis by (auto simp: db_inv_def preserves_def)
  next
    case (OpCommit sd ord oks hash)
    with assms(2) have "hash \<noteq> zeroHash" by simp
    from db_Commit_ok [OF inv pre this, of sd ord oks] obtain err called E hs' where
      "db_Commit sd ord oks hash D = Ret (err, called, E)" "gc_inv rank E hs' {} {#}" "preserves D hs E hs'" "pre_ok E" by blast
    with OpCommit sane show ?thesis by (auto simp: db_inv_def preserves_def)
  qed
qed

lemma reachable_inv:
  assumes "reachable rank kd pre disk D" "disk_open disk" "complete kd disk"
  shows "db_inv rank kd D"
  using assms
proof (induction rule: reachable.induct)
  case start
  then show ?case by (rule db_inv_start)
next
  case (step D op D')
  with op_step [of rank kd D op] show ?case by auto
qed

lemma avail_read:
  assumes "nodes_ok D" "avail D h" "h \<noteq> zeroHash"
  shows "\<exists>enc. db_Node (\<lambda>_. None) D h = Ret (Inr enc) \<and> enc \<noteq> []"
proof (cases "dn D h")
  case None
  with assms(2) obtain e where "memorydb_Get (diskdb D) h = Inr e" "e \<noteq> []" by (auto simp: avail_def on_disk_def)
  with None assms(3) show ?thesis by (simp add: db_Node_def)
next
  case (Some n)
  with nodes_okD(2,3) [OF assms(1) Some assms(3)] obtain e where "cn_rlp n = Ret e" "e \<noteq> []" by blast
  with Some assms(3) show ?thesis by (simp add: db_Node_def)
qed

lemma reach_avail:
  assumes inv: "gc_inv rank D hs {} {#}" and "reach D a x" "avail D a" "a \<noteq> zeroHash"
  shows "avail D x \<and> x \<noteq> zeroHash"
  using assms(2-)
proof (induction rule: rtranclp_induct)
  case (step y z)
  then obtain n where n: "dn D y = Some n" "y \<noteq> zeroHash" "z \<in># kids n" by (auto simp: child_def)
  have "avail D z" using refs_pos [OF n(1,2) _ n(3), of "{}"] gc_invD(3) [OF inv] by (simp add: closed_def)
  moreover have "z \<noteq> zeroHash" using gc_invD(4) [OF inv] n by (auto simp: ranked_def)
  ultimately show ?case by simp
qed simp

subsection \<open>Properties\<close>


text \<open>
  C3: Garbage collection never takes a node that is in use: what is reached from a root that is referenced
  and not yet dereferenced as often can be read, from the cache or from disk.
\<close>

theorem db_referenced_readable:
  assumes "disk_open disk" "complete kd disk" "reachable rank kd pre disk D"
    and "root_refs D root > 0" "root \<noteq> zeroHash" "reach D root x"
  shows "\<exists>enc. db_Node (\<lambda>_. None) D x = Ret (Inr enc) \<and> enc \<noteq> []"
proof -
  obtain hs where inv: "gc_inv rank D hs {} {#}" using reachable_inv [OF assms(3,1,2)] by (auto simp: db_inv_def)
  have "refs D {} root > 0" using assms(4) by (simp add: refs_def)
  then have "avail D root" using gc_invD(3) [OF inv] by (simp add: closed_def)
  with reach_avail [OF inv assms(6)] assms(5) avail_read [OF gc_invD(5) [OF inv]] show ?thesis by blast
qed

text \<open>
  C4: At every moment, also between two writes of a \<^verbatim>\<open>Cap\<close> or \<^verbatim>\<open>Commit\<close> of which the second fails, a
  node that is on disk has all of its children on disk: a crash leaves no trie with holes.
\<close>

theorem db_crash_consistent:
  assumes "disk_open disk" "complete kd disk" "reachable rank kd pre disk D"
  shows "complete kd (diskdb D)"
proof -
  obtain hs where "sane kd D hs" using reachable_inv [OF assms(3,1,2)] by (auto simp: db_inv_def)
  from saneD(3) [OF this] show ?thesis unfolding complete_def on_disk_content by blast
qed

text \<open>
  C7: \<^verbatim>\<open>Cap\<close> loses nothing: whether it succeeds or a write fails, \<^verbatim>\<open>Node\<close> answers for every hash as before.
  If it succeeds, the cache is within the limit or empty.
\<close>

theorem db_Cap_keeps_answers:
  assumes "disk_open disk" "complete kd disk" "reachable rank kd pre disk D"
  shows "\<exists>err D'. db_Cap sd oks limit D = Ret (err, D') \<and>
    (\<forall>cl h. length h = 32 \<longrightarrow> db_Node cl D' h = db_Node cl D h) \<and>
    (err = None \<longrightarrow> (\<exists>sz. cache_size D' = Ret sz \<and> (sz \<le> limit \<or> db_Nodes [] D' = [])))"
proof -
  obtain hs where inv: "gc_inv rank D hs {} {#}" "pre_ok D" using reachable_inv [OF assms(3,1,2)] by (auto simp: db_inv_def)
  from db_Cap_ok [OF inv, of sd oks limit] obtain err D' hs' where D': "db_Cap sd oks limit D = Ret (err, D')" "gc_inv rank D' hs' {} {#}"
    "preserves D hs D' hs'" "err = None \<longrightarrow> (\<exists>sz. cache_size D' = Ret sz \<and> (sz \<le> limit \<or> hs' = []))" by blast
  have "db_Nodes [] D' = []" if "hs' = []"
  proof -
    have "set (map fst (gomap_range [] (dirties D'))) = dom (dn D')" by (simp add: gomap_range_def gomap_keys_dom [symmetric] gomap_keys_def)
    then show ?thesis using gc_invD(1) [OF D'(2)] that unfolding db_Nodes_def filter_empty_conv by (auto simp: flush_ok_def)
  qed
  with D'(1,3,4) show ?thesis by (auto simp: preserves_def same_answers_def)
qed


subsection \<open>A run\<close>

lemma on_disk_code [code]:
  "on_disk D h \<longleftrightarrow> length h = 32 \<and> (case memorydb_Get (diskdb D) h of Inl _ \<Rightarrow> False | Inr e \<Rightarrow> e \<noteq> [])"
  by (auto simp: on_disk_def split: sum.split)

lemma less_int: "m < 2 ^ k \<longleftrightarrow> int m < 2 ^ k"
  by (metis of_nat_less_iff of_nat_numeral of_nat_power)

lemma insertable_code [code]:
  "insertable rank D hash n \<longleftrightarrow>
     hash \<noteq> zeroHash \<and> length hash = 32 \<and> int (length (rlp_enc (node_item n))) < 2 ^ 63 \<and>
     (case simplifyNode n of
        Ret r \<Rightarrow> \<forall>h \<in> set (forGatherChildren r). rank h < rank hash \<and> h \<noteq> zeroHash \<and> avail D h \<and>
          (case dn D h of None \<Rightarrow> True | Some c \<Rightarrow> uint (parents c) + int (count_list (forGatherChildren r) h) < 2 ^ 32)
      | _ \<Rightarrow> False)"
  unfolding insertable_def less_int by (auto split: go.split option.split)

lemma referable_code [code]:
  "referable rank D c p \<longleftrightarrow>
     (case dn D c of
        None \<Rightarrow> True
      | Some n \<Rightarrow> c \<noteq> zeroHash \<and> uint (parents n) + 1 < 2 ^ 32 \<and> dn D p \<noteq> None \<and>
          (if p = zeroHash then int (root_refs D c) + 1 < 2 ^ 16 else rank c < rank p))"
  unfolding referable_def less_int by (simp split: option.split)

fun run_ok :: "(bytes \<Rightarrow> nat) \<Rightarrow> (bytes \<Rightarrow> bytes set) \<Rightarrow> dbOp list \<Rightarrow> Database \<Rightarrow> bool" where
  "run_ok rank kd [] D \<longleftrightarrow> True"
| "run_ok rank kd (op # ops) D \<longleftrightarrow> op_ok rank kd D op \<and> (case db_op op D of Ret D' \<Rightarrow> run_ok rank kd ops D' | _ \<Rightarrow> False)"

lemma run_reachable:
  "reachable rank kd pre disk D \<Longrightarrow> run_ok rank kd ops D \<Longrightarrow> go_fold db_op ops D = Ret D' \<Longrightarrow> reachable rank kd pre disk D'"
proof (induction ops arbitrary: D)
  case (Cons op ops)
  then obtain E where E: "db_op op D = Ret E" "run_ok rank kd ops E" "op_ok rank kd D op" by (auto split: go.splits)
  have "reachable rank kd pre disk E" using Cons.prems(1) E(3,1) by (rule reachable.step)
  with Cons.IH Cons.prems(3) E show ?case by simp
qed simp

text \<open>A leaf, a node above it, and a reference to that.\<close>

definition ex_leaf :: bytes where
  "ex_leaf = replicate 32 1"

definition ex_root :: bytes where
  "ex_root = replicate 32 2"

definition ex_rank :: "bytes \<Rightarrow> nat" where
  "ex_rank h = (if h = ex_root then 1 else 0)"

definition ex_kd :: "bytes \<Rightarrow> bytes set" where
  "ex_kd h = (if h = ex_root then {ex_leaf} else {})"

definition ex_ops :: "dbOp list" where
  "ex_ops =
     [OpInsert ex_leaf 3 (ShortNode [0x20] (ValueNode [7]) newFlag),
      OpInsert ex_root 34 (ShortNode [0x11] (HashNode ex_leaf) newFlag),
      OpReference ex_root zeroHash]"

definition ex_db :: Database where
  "ex_db = (case go_fold db_op ex_ops (NewDatabase True memorydb_New) of Ret D \<Rightarrow> D | _ \<Rightarrow> NewDatabase True memorydb_New)"

lemma ex_run: "run_ok ex_rank ex_kd ex_ops (NewDatabase True memorydb_New)" "go_fold db_op ex_ops (NewDatabase True memorydb_New) = Ret ex_db"
  by code_simp+

lemma ex_disk: "disk_open memorydb_New" "complete kd memorydb_New"
  by (simp_all add: disk_open_def complete_def content_def memorydb_New_def gomap_ok_def gomap_get_def)

lemma ex_reachable: "reachable ex_rank ex_kd True memorydb_New ex_db"
  using run_reachable [OF reachable.start ex_run] .

lemma ex_facts: "0 < root_refs ex_db ex_root" "ex_root \<noteq> zeroHash"
  "map_option (\<lambda>n. ex_leaf \<in> set (forChilds [] n)) (dn ex_db ex_root) = Some True"
  by code_simp+

lemma ex_reach: "reach ex_db ex_root ex_leaf"
proof (rule r_into_rtranclp)
  obtain n where "dn ex_db ex_root = Some n" "ex_leaf \<in> set (forChilds [] n)" using ex_facts(3) by (cases "dn ex_db ex_root") auto
  then show "child ex_db ex_root ex_leaf" using ex_facts(2) by (auto simp: child_def kids_def)
qed


theorem db_referenced_readable_witness: "\<exists>enc. db_Node (\<lambda>_. None) ex_db ex_leaf = Ret (Inr enc) \<and> enc \<noteq> []"
  by (rule db_referenced_readable [OF ex_disk ex_reachable ex_facts(1,2) ex_reach])

theorem db_crash_consistent_witness: "complete ex_kd (diskdb ex_db)"
  by (rule db_crash_consistent [OF ex_disk ex_reachable])

theorem db_Cap_keeps_answers_witness:
  "\<exists>err D'. db_Cap [] [False] 0 ex_db = Ret (err, D') \<and>
    (\<forall>cl h. length h = 32 \<longrightarrow> db_Node cl D' h = db_Node cl ex_db h) \<and>
    (err = None \<longrightarrow> (\<exists>sz. cache_size D' = Ret sz \<and> (sz \<le> 0 \<or> db_Nodes [] D' = [])))"
  by (rule db_Cap_keeps_answers [OF ex_disk ex_reachable])


end
