(* ===== verification/Spec2Isabelle.thy ===== *)
theory Spec2Isabelle
  imports Crawler Dialer Trie_Run
begin

text \<open>
  A verification development of the TurboOctopus node (a BSC node with a node manager that
  crawls, dials and grades peers).
\<close>

end
